(* ===== verification/Base.thy ===== *)
theory Base
  imports Main "HOL-Library.Word" "HOL-Library.Multiset"
begin

unbundle bit_operations_syntax

text \<open>
  Shared prelude: the fixed-width types of the C sources, the result type of every
  modelled C function that can loop, exit or fault, and the generic lemmas on byte
  lists, list updates and index search that the components share.

  The semantic type of a C function is \<open>'a run\<close>.
  \<^item> \<open>None\<close>: the call does not return (a loop runs for ever).
  \<^item> \<open>Some (Ret v)\<close>: it returns \<open>v\<close>.
  \<^item> \<open>Some (Exit n)\<close>: the process left through \<open>exit(n)\<close>.
  \<^item> \<open>Some (Fault f)\<close>: undefined behaviour was reached (a null or dangling
    dereference, an access out of the bounds of an array, a division by zero, a
    wait for a lock the thread already holds, an \<open>int\<close> that overflows).
\<close>

section \<open>Types of the C sources\<close>

type_synonym u8 = "8 word"
type_synonym u16 = "16 word"
type_synonym u32 = "32 word"
type_synonym u64 = "64 word"
type_synonym cint = "32 word" \<comment> \<open>C's \<open>int\<close>, read with \<open>sint\<close>\<close>
type_synonym bytes = "8 word list"

definition INT_MAX :: nat where "INT_MAX = 2 ^ 31 - 1"

named_theorems run_simps \<open>equations that evaluate the run monad\<close>
named_theorems chain_simps \<open>facts on chains of linked nodes\<close>

section \<open>Results of C functions\<close>

datatype fault = NullDeref | BadDeref | OutOfBounds | DivByZero | SelfDeadlock | BadShift | Indeterminate | Overflow

datatype 'a outcome = Ret 'a | Exit int | Fault fault

type_synonym 'a run = "'a outcome option"

definition ret :: "'a \<Rightarrow> 'a run" where
  "ret x = Some (Ret x)"

definition fail :: "fault \<Rightarrow> 'a run" where
  "fail f = Some (Fault f)"

definition exit_with :: "int \<Rightarrow> 'a run" where
  "exit_with n = Some (Exit n)"

definition rbind :: "'a run \<Rightarrow> ('a \<Rightarrow> 'b run) \<Rightarrow> 'b run" where
  "rbind m f = Option.bind m (\<lambda>r. case r of Ret x \<Rightarrow> f x | Exit n \<Rightarrow> Some (Exit n)
     | Fault e \<Rightarrow> Some (Fault e))"

lemma rbind_ret [simp, run_simps]: "rbind (ret x) f = f x"
  by (simp add: rbind_def ret_def)

lemma rbind_fail [simp, run_simps]: "rbind (fail e) f = fail e"
  by (simp add: rbind_def fail_def)

lemma rbind_exit [simp, run_simps]: "rbind (exit_with n) f = exit_with n"
  by (simp add: rbind_def exit_with_def)

lemma rbind_None [simp, run_simps]: "rbind None f = None"
  by (simp add: rbind_def)

lemma rbind_assoc [simp]: "rbind (rbind m f) g = rbind m (\<lambda>x. rbind (f x) g)"
  by (auto simp: rbind_def split: outcome.split Option.bind_split)

lemma rbind_ret_right [simp]: "rbind m ret = m"
  by (auto simp: rbind_def ret_def split: outcome.split Option.bind_split)

lemma ret_inject [simp, run_simps]: "ret x = ret y \<longleftrightarrow> x = y"
  by (simp add: ret_def)

lemma fail_inject [simp, run_simps]: "fail e = fail e' \<longleftrightarrow> e = e'"
  by (simp add: fail_def)

lemma exit_inject [simp, run_simps]: "exit_with m = exit_with n \<longleftrightarrow> m = n"
  by (simp add: exit_with_def)

lemma outcome_distinct [simp, run_simps]:
  "ret x \<noteq> fail e" "fail e \<noteq> ret x" "ret x \<noteq> exit_with n" "exit_with n \<noteq> ret x"
  "fail e \<noteq> exit_with n" "exit_with n \<noteq> fail e"
  "ret x \<noteq> None" "None \<noteq> ret x" "fail e \<noteq> None" "None \<noteq> fail e"
  "exit_with n \<noteq> None" "None \<noteq> exit_with n"
  by (simp_all add: ret_def fail_def exit_with_def)

lemma rbind_eq_ret: "rbind m f = ret y \<longleftrightarrow> (\<exists>x. m = ret x \<and> f x = ret y)"
  by (auto simp: rbind_def ret_def split: outcome.splits Option.bind_splits)

lemma rbind_mono [partial_function_mono]:
  assumes f: "mono_option B" and g: "\<And>y. mono_option (C y)"
  shows "mono_option (\<lambda>f. rbind (B f) (\<lambda>y. C y f))"
  unfolding rbind_def
  by (rule bind_mono [OF f]) (auto split: outcome.split intro!: g monotoneI
      simp: option.leq_refl dest: monotoneD [OF g])

section \<open>Signed and unsigned readings\<close>

lemma sint_small: "uint (w :: 'a::len word) < 2 ^ (LENGTH('a) - 1) \<Longrightarrow> sint w = uint w"
  by (simp add: sint_uint signed_take_bit_int_eq_self order_trans [of _ 0])

lemma sint_nonneg: "0 \<le> sint (w :: 'a::len word) \<Longrightarrow> sint w = uint w"
proof -
  assume nn: "0 \<le> sint w"
  have "sint w < 2 ^ (LENGTH('a) - 1)" using sint_less [of w] by simp
  also have "(2 :: int) ^ (LENGTH('a) - 1) \<le> 2 ^ LENGTH('a)" by (rule power_increasing) simp_all
  finally show ?thesis using nn by (simp add: uint_sint [of w] take_bit_int_eq_self)
qed

lemma unat_u64_less: "unat (w :: u64) < 2 ^ 64"
  using unsigned_less [of w] by simp

lemma unat_u8_less: "unat (w :: u8) < 256"
  using unsigned_less [of w] by simp

lemma unat_minus_1_u64: "unat (- 1 :: u64) = 2 ^ 64 - 1"
  by (simp add: unsigned_minus_1_eq_mask mask_eq_exp_minus_1)

text \<open>A non-negative \<open>int\<close> keeps its value when it is converted to 64 bits.\<close>

lemma cint_nonneg:
  assumes "0 \<le> sint (n :: cint)"
  shows "sint n = int (unat n)" "unat n < 2 ^ 31" "unat (scast n :: u64) = unat n"
proof -
  have lt: "sint n < 2 ^ 31" using sint_less [of n] by simp
  show e: "sint n = int (unat n)" using sint_nonneg [OF assms] by simp
  with lt have "int (unat n) < int (2 ^ 31)" by simp
  then show n: "unat n < 2 ^ 31" by (simp only: of_nat_less_iff)
  have "(scast n :: u64) = of_nat (unat n)" by (simp add: scast_eq e)
  also have "unat \<dots> = unat n" using n by (simp add: unat_of_nat del: of_nat_unat)
  finally show "unat (scast n :: u64) = unat n" .
qed

section \<open>List updates\<close>

lemma ball_list_update: "\<forall>x\<in>set xs. P x \<Longrightarrow> P y \<Longrightarrow> \<forall>x\<in>set (xs[i := y]). P x"
  using set_update_subset_insert [of xs i y] by blast

lemma mset_concat_update:
  "t < length ts \<Longrightarrow> ts ! t = e # es \<Longrightarrow>
   mset (concat ts) = add_mset e (mset (concat (ts[t := es])))"
proof (induction ts arbitrary: t)
  case (Cons x ts)
  then show ?case by (cases t) auto
qed simp

lemma concat_update:
  assumes "t < length ts" "ts ! t = e # es"
  shows "e \<in> set (concat ts)" "length (concat ts) = length (concat (ts[t := es])) + 1"
proof -
  note m = mset_concat_update [OF assms]
  show "e \<in> set (concat ts)" using arg_cong [OF m, of set_mset] by auto
  show "length (concat ts) = length (concat (ts[t := es])) + 1"
    using arg_cong [OF m, of size] by simp
qed

section \<open>Finding a byte\<close>

text \<open>\<open>memchr\<close>: the index of the first \<open>c\<close> of a byte string.\<close>

fun memchr :: "'a \<Rightarrow> 'a list \<Rightarrow> nat option" where
  "memchr c [] = None"
| "memchr c (b # bs) = (if b = c then Some 0 else map_option Suc (memchr c bs))"

lemma memchr_None_iff: "memchr c bs = None \<longleftrightarrow> c \<notin> set bs"
  by (induction bs) auto

lemma memchr_SomeD:
  "memchr c bs = Some i \<Longrightarrow> i < length bs \<and> bs ! i = c \<and> c \<notin> set (take i bs)"
  by (induction bs arbitrary: i) (auto split: if_splits)

lemma memchr_less: "memchr c bs = Some i \<Longrightarrow> i < length bs"
  by (simp add: memchr_SomeD)

lemma memchr_append: "memchr c (xs @ ys) =
    (if c \<in> set xs then memchr c xs else map_option ((+) (length xs)) (memchr c ys))"
proof (induction xs)
  case Nil
  show ?case by (cases "memchr c ys") simp_all
next
  case (Cons x xs)
  then show ?case by (auto simp: option.map_comp comp_def memchr_None_iff)
qed

lemma memchr_append_notin [simp]:
  "c \<notin> set xs \<Longrightarrow> memchr c (xs @ c # ys) = Some (length xs)"
  by (induction xs) auto

lemma memchr_append_Some: "memchr c xs = Some i \<Longrightarrow> memchr c (xs @ ys) = Some i"
  by (metis memchr_None_iff memchr_append option.distinct(1))

end
