(* ===== verification/C_Strings.thy ===== *)
theory C_Strings
  imports Base "HOL-Library.List_Lexorder"
begin

text \<open>
  The functions of \<open>string.h\<close> that the sources call. A NUL-terminated string is the
  list of its bytes before the NUL (\<open>cstring\<close> excludes inner NULs); the array it
  lies in enters through its capacity: \<open>strcpy\<close> of a string that does not fit, NUL
  included, is a fault. The result of \<open>strcmp\<close> is the difference of the first bytes
  that differ, read as \<open>unsigned char\<close>, so its sign is the lexicographic order of
  the library theory \<open>List_Lexorder\<close> on bytes.
\<close>

definition cstring :: "bytes \<Rightarrow> bool" where
  "cstring s \<longleftrightarrow> 0 \<notin> set s"

fun strcmp :: "bytes \<Rightarrow> bytes \<Rightarrow> int" where
  "strcmp [] [] = 0"
| "strcmp [] (b # bs) = - uint b"
| "strcmp (a # as) [] = uint a"
| "strcmp (a # as) (b # bs) = (if a = b then strcmp as bs else uint a - uint b)"

definition strcpy :: "nat \<Rightarrow> bytes \<Rightarrow> bytes run" where
  "strcpy cap s = (if length s < cap then ret s else fail OutOfBounds)"

definition cstr_of :: "bytes \<Rightarrow> bytes" where
  "cstr_of a = takeWhile (\<lambda>b. b \<noteq> 0) a"

text \<open>\<open>strncmp\<close> compares at most \<open>n\<close> bytes.\<close>

definition strncmp :: "bytes \<Rightarrow> bytes \<Rightarrow> nat \<Rightarrow> int" where
  "strncmp a b n = strcmp (take n a) (take n b)"

text \<open>\<open>strncpy(dst, src, n)\<close> leaves \<open>n\<close> bytes in \<open>dst\<close>: the string, padded with
  zeros, and no NUL when the string is \<open>n\<close> bytes or longer.\<close>

definition strncpy :: "bytes \<Rightarrow> nat \<Rightarrow> bytes" where
  "strncpy s n = take n s @ replicate (n - length s) 0"

section \<open>Numbers in strings\<close>

definition isspace :: "u8 \<Rightarrow> bool" where
  "isspace b \<longleftrightarrow> b = 32 \<or> (9 \<le> b \<and> b \<le> 13)"

definition isdigit :: "u8 \<Rightarrow> bool" where
  "isdigit b \<longleftrightarrow> 48 \<le> b \<and> b \<le> 57"

fun digits_value :: "int \<Rightarrow> bytes \<Rightarrow> int" where
  "digits_value acc [] = acc"
| "digits_value acc (b # bs) = digits_value (acc * 10 + (uint b - 48)) bs"

text \<open>The number at the start of a string, behind white space and a sign, if there is one:
  what \<open>strtol\<close> converts. The value is a \<open>long\<close> (64 bits): a number outside its range
  becomes the nearest end of it. \<open>atoi\<close> and \<open>sscanf\<close> with \<open>%d\<close> are, in the C
  library of Linux, this conversion followed by a cast to \<open>int\<close>, which keeps the low
  32 bits: \<open>4294967297\<close> is read as 1 and \<open>99999999999999999999\<close> as -1.\<close>

definition clamp_long :: "int \<Rightarrow> int" where
  "clamp_long n = max (- (2 ^ 63)) (min (2 ^ 63 - 1) n)"

definition int_of_long :: "int \<Rightarrow> int" where
  "int_of_long n = (n + 2 ^ 31) mod 2 ^ 32 - 2 ^ 31"

definition scan_number :: "bytes \<Rightarrow> int option" where
  "scan_number s =
    (let t = dropWhile isspace s;
         neg = (t \<noteq> [] \<and> hd t = 45);
         u = (if t \<noteq> [] \<and> (hd t = 45 \<or> hd t = 43) then tl t else t);
         ds = takeWhile isdigit u
     in if ds = [] then None
        else Some (clamp_long (if neg then - digits_value 0 ds else digits_value 0 ds)))"

definition atoi :: "bytes \<Rightarrow> int" where
  "atoi s = (case scan_number s of None \<Rightarrow> 0 | Some n \<Rightarrow> int_of_long n)"

text \<open>\<open>sscanf(s, "%d", &n)\<close> into an \<open>int\<close>.\<close>

definition scan_int :: "bytes \<Rightarrow> cint option" where
  "scan_int s = map_option word_of_int (scan_number s)"

section \<open>Lemmas\<close>

lemma strcpy_ret [run_simps]: "length s < cap \<Longrightarrow> strcpy cap s = ret s"
  by (simp add: strcpy_def)

lemma strcpy_fault: "cap \<le> length s \<Longrightarrow> strcpy cap s = fail OutOfBounds"
  by (simp add: strcpy_def)

lemma length_strncpy [simp]: "length (strncpy s n) = n"
  by (simp add: strncpy_def)

lemma cstr_of_strncpy: "cstring s \<Longrightarrow> cstr_of (strncpy s n) = take n s"
proof -
  assume "cstring s"
  then have "\<forall>b\<in>set (take n s). b \<noteq> 0"
    unfolding cstring_def by (metis in_set_takeD)
  then show ?thesis
    by (cases "n - length s") (simp_all add: cstr_of_def strncpy_def takeWhile_append2 takeWhile_eq_all_conv)
qed

lemma uint_0_iff_u8: "uint (b :: u8) = 0 \<longleftrightarrow> b = 0"
  by (simp add: word_uint_eq_iff)

lemma uint_pos: "(b :: u8) \<noteq> 0 \<Longrightarrow> 0 < uint b"
  by (simp add: order_less_le) (simp add: word_uint_eq_iff)

lemma cstring_Cons [simp]: "cstring (a # as) \<longleftrightarrow> a \<noteq> 0 \<and> cstring as"
  by (auto simp: cstring_def)

lemma cstring_Nil [simp]: "cstring []"
  by (simp add: cstring_def)

lemma strcmp_self [simp]: "strcmp s s = 0"
  by (induction s) auto

lemma strcmp_less: "cstring a \<Longrightarrow> cstring b \<Longrightarrow> strcmp a b < 0 \<longleftrightarrow> a < b"
  by (induction a b rule: strcmp.induct) (auto simp: uint_pos word_less_def)

lemma strcmp_eq_0: "cstring a \<Longrightarrow> cstring b \<Longrightarrow> strcmp a b = 0 \<longleftrightarrow> a = b"
  by (induction a b rule: strcmp.induct) (simp_all add: uint_0_iff_u8, simp add: word_uint_eq_iff)

lemma strcmp_le: "cstring a \<Longrightarrow> cstring b \<Longrightarrow> strcmp a b \<le> 0 \<longleftrightarrow> a \<le> b"
  using strcmp_less [of a b] strcmp_eq_0 [of a b] by auto

subsection \<open>The range of a converted number\<close>

lemma int_of_long_range: "- (2 ^ 31) \<le> int_of_long n" "int_of_long n < 2 ^ 31"
  by (simp_all add: int_of_long_def)

lemma int_of_long_id: "- (2 ^ 31) \<le> n \<Longrightarrow> n < 2 ^ 31 \<Longrightarrow> int_of_long n = n"
  by (simp add: int_of_long_def)

lemma atoi_range: "- (2 ^ 31) \<le> atoi s" "atoi s < 2 ^ 31"
  using int_of_long_range by (simp_all add: atoi_def split: option.split)

text \<open>\<open>atoi\<close> and \<open>sscanf\<close> agree: the first gives the value of the second's \<open>int\<close>.\<close>

lemma sint_word_of_int: "sint (word_of_int n :: cint) = int_of_long n"
  by (simp add: int_of_long_def signed_take_bit_eq_take_bit_shift take_bit_eq_mod signed_of_int)

lemma atoi_scan_int: "atoi s = (case scan_int s of None \<Rightarrow> 0 | Some n \<Rightarrow> sint n)"
  by (simp add: atoi_def scan_int_def sint_word_of_int split: option.split)

lemma atoi_samples:
  "atoi [52, 50, 57, 52, 57, 54, 55, 50, 57, 55] = 1"
  "atoi [57, 57, 57, 57, 57, 57, 57, 57, 57, 57, 57, 57, 57, 57, 57, 57, 57, 57, 57, 57] = -1"
  by (simp_all add: atoi_def scan_number_def isspace_def isdigit_def clamp_long_def int_of_long_def
    Let_def)

section \<open>Printed numbers\<close>

text \<open>The decimal digits of a number, as \<open>%d\<close> prints them.\<close>

fun digits :: "nat \<Rightarrow> bytes" where
  "digits n = (if n < 10 then [of_nat (48 + n)] else digits (n div 10) @ [of_nat (48 + n mod 10)])"

declare digits.simps [simp del]

lemma length_digits: "0 < k \<Longrightarrow> n < 10 ^ k \<Longrightarrow> length (digits n) \<le> k"
proof (induction n arbitrary: k rule: digits.induct)
  case (1 n)
  show ?case
  proof (cases "n < 10")
    case False
    with "1.prems" obtain j where k: "k = Suc j" "0 < j" by (cases k; cases "k - 1") auto
    then have "n div 10 < 10 ^ j" using "1.prems" by (simp add: less_mult_imp_div_less mult.commute)
    with 1(1) [OF False k(2)] False k show ?thesis by (subst digits.simps) simp
  qed (use 1 in \<open>subst digits.simps, simp\<close>)
qed

end
