(* ===== verification/UtHash.thy ===== *)
theory UtHash
  imports C_Strings
begin

text \<open>
  The part of \<open>lecture/test3/src/uthash.h\<close> that the map-reduce framework uses: the
  Jenkins hash of a key, a table of buckets with chains, lookup, insertion with bucket
  expansion, deletion, and the bottom-up merge sort of the list in application order.

  \<^item> A \<open>hh\<close> is a \<open>UT_hash_handle\<close>: the key bytes, \<open>keylen\<close> and \<open>hashv\<close> as unsigned
    32-bit words, and the element that encloses the handle. The two doubly linked lists a
    handle is on, \<open>prev/next\<close> and \<open>hh_prev/hh_next\<close>, are the lists \<open>items\<close> of the
    table and \<open>chain\<close> of its bucket.
  \<^item> A \<open>uthash\<close> is a \<open>UT_hash_table\<close>; the head pointer is \<open>None\<close> where it is NULL.
  \<^item> Counters and masks keep their 32 bits. The bloom filter is compiled out and
    \<open>malloc\<close> succeeds, as everywhere in this development; the one run of undefined
    behaviour is a shift by the full width when a table of $2^{31}$ buckets expands
    (\<open>BadShift\<close>).
\<close>

section \<open>The Jenkins hash\<close>

definition jen_mix :: "u32 \<Rightarrow> u32 \<Rightarrow> u32 \<Rightarrow> u32 \<times> u32 \<times> u32" where
  "jen_mix a0 b0 c0 =
    (let a = (a0 - b0 - c0) XOR drop_bit 13 c0;
         b = (b0 - c0 - a) XOR push_bit 8 a;
         c = (c0 - a - b) XOR drop_bit 13 b;
         a = (a - b - c) XOR drop_bit 12 c;
         b = (b - c - a) XOR push_bit 16 a;
         c = (c - a - b) XOR drop_bit 5 b;
         a = (a - b - c) XOR drop_bit 3 c;
         b = (b - c - a) XOR push_bit 10 a;
         c = (c - a - b) XOR drop_bit 15 b
     in (a, b, c))"

definition key_byte :: "bytes \<Rightarrow> nat \<Rightarrow> nat \<Rightarrow> u32" where
  "key_byte key i sh = push_bit sh (ucast (key ! i))"

definition key_quad :: "bytes \<Rightarrow> nat \<Rightarrow> u32" where
  "key_quad key i = key_byte key i 0 + key_byte key (i + 1) 8 + key_byte key (i + 2) 16
     + key_byte key (i + 3) 24"

fun jen_blocks :: "bytes \<Rightarrow> nat \<Rightarrow> u32 \<Rightarrow> u32 \<Rightarrow> u32 \<Rightarrow> bytes \<times> nat \<times> u32 \<times> u32 \<times> u32" where
  "jen_blocks key k i j h =
    (if 12 \<le> k
     then (case jen_mix (i + key_quad key 0) (j + key_quad key 4) (h + key_quad key 8) of
             (i', j', h') \<Rightarrow> jen_blocks (drop 12 key) (k - 12) i' j' h')
     else (key, k, i, j, h))"

declare jen_blocks.simps [simp del]

definition when_add :: "bool \<Rightarrow> u32 \<Rightarrow> u32 \<Rightarrow> u32" where
  "when_add b x y = (if b then x + y else x)"

definition jen_tail :: "bytes \<Rightarrow> nat \<Rightarrow> u32 \<Rightarrow> u32 \<Rightarrow> u32 \<Rightarrow> u32 \<times> u32 \<times> u32" where
  "jen_tail key k i j h =
    (let h = when_add (11 \<le> k) h (key_byte key 10 24);
         h = when_add (10 \<le> k) h (key_byte key 9 16);
         h = when_add (9 \<le> k) h (key_byte key 8 8);
         j = when_add (8 \<le> k) j (key_byte key 7 24);
         j = when_add (7 \<le> k) j (key_byte key 6 16);
         j = when_add (6 \<le> k) j (key_byte key 5 8);
         j = when_add (5 \<le> k) j (key_byte key 4 0);
         i = when_add (4 \<le> k) i (key_byte key 3 24);
         i = when_add (3 \<le> k) i (key_byte key 2 16);
         i = when_add (2 \<le> k) i (key_byte key 1 8);
         i = when_add (1 \<le> k) i (key_byte key 0 0)
     in (i, j, h))"

definition hash_jen :: "bytes \<Rightarrow> u32 \<Rightarrow> u32" where
  "hash_jen key keylen =
    (case jen_blocks key (unat keylen) 0x9e3779b9 0x9e3779b9 0xfeedbeef of
       (key', k, i, j, h) \<Rightarrow>
         (case jen_tail key' k i j (h + keylen) of
            (i', j', h') \<Rightarrow> (case jen_mix i' j' h' of (a, b, c) \<Rightarrow> c)))"

section \<open>Handles, buckets, tables\<close>

record 'a hh =
  hh_key :: bytes
  keylen :: u32
  hashv :: u32
  elt :: 'a

record 'a bucket =
  chain :: "'a hh list"
  bk_count :: u32
  expand_mult :: u32

record 'a uthash =
  buckets :: "'a bucket list"
  num_buckets :: u32
  log2_num_buckets :: u32
  num_items :: u32
  items :: "'a hh list"
  ideal_chain_maxlen :: u32
  nonideal_items :: u32
  ineff_expands :: u32
  noexpand :: bool

definition empty_bucket :: "'a bucket" where
  "empty_bucket = \<lparr>chain = [], bk_count = 0, expand_mult = 0\<rparr>"

definition hash_to_bkt :: "u32 \<Rightarrow> u32 \<Rightarrow> u32" where
  "hash_to_bkt hv num = hv AND (num - 1)"

section \<open>Lookup\<close>

fun find_in_bkt :: "'a hh list \<Rightarrow> bytes \<Rightarrow> u32 \<Rightarrow> u32 \<Rightarrow> 'a option" where
  "find_in_bkt [] key len hv = None"
| "find_in_bkt (h # hs) key len hv =
    (if hashv h = hv \<and> keylen h = len \<and> take (unat len) (hh_key h) = take (unat len) key
     then Some (elt h) else find_in_bkt hs key len hv)"

definition hash_find_byhashvalue :: "'a uthash option \<Rightarrow> bytes \<Rightarrow> u32 \<Rightarrow> u32 \<Rightarrow> 'a option" where
  "hash_find_byhashvalue head key len hv =
    (case head of None \<Rightarrow> None
     | Some t \<Rightarrow>
         find_in_bkt (chain (buckets t ! unat (hash_to_bkt hv (num_buckets t)))) key len hv)"

definition hash_find :: "'a uthash option \<Rightarrow> bytes \<Rightarrow> u32 \<Rightarrow> 'a option" where
  "hash_find head key len = hash_find_byhashvalue head key len (hash_jen key len)"

definition hash_find_str :: "'a uthash option \<Rightarrow> bytes \<Rightarrow> 'a option" where
  "hash_find_str head s = hash_find head s (of_nat (length s))"

section \<open>Insertion and expansion\<close>

definition make_table :: "'a hh \<Rightarrow> 'a uthash" where
  "make_table h = \<lparr>buckets = replicate 32 empty_bucket, num_buckets = 32,
     log2_num_buckets = 5, num_items = 0, items = [h], ideal_chain_maxlen = 0,
     nonideal_items = 0, ineff_expands = 0, noexpand = False\<rparr>"

definition append_list :: "'a uthash \<Rightarrow> 'a hh \<Rightarrow> 'a uthash" where
  "append_list t h = t\<lparr>items := items t @ [h]\<rparr>"

text \<open>One round of the inner loop of \<open>HASH_EXPAND_BUCKETS\<close>: the handle goes to the head
  of its new bucket, and the counters that tell an uneven distribution are kept.\<close>

definition expand_step :: "u32 \<Rightarrow> u32 \<Rightarrow> 'a hh \<Rightarrow> 'a bucket list \<times> u32 \<Rightarrow> 'a bucket list \<times> u32" where
  "expand_step num2 ideal h st =
    (case st of (bs, nonideal) \<Rightarrow>
      let i = unat (hash_to_bkt (hashv h) num2);
          b = bs ! i;
          c = bk_count b + 1
      in if ideal < c
         then (bs[i := \<lparr>chain = h # chain b, bk_count = c,
                 expand_mult = (if expand_mult b * ideal < c then expand_mult b + 1
                                else expand_mult b)\<rparr>], nonideal + 1)
         else (bs[i := \<lparr>chain = h # chain b, bk_count = c,
                 expand_mult = expand_mult b\<rparr>], nonideal))"

definition expand_ideal :: "'a uthash \<Rightarrow> u32" where
  "expand_ideal t = drop_bit (unat (log2_num_buckets t + 1)) (num_items t)
     + (if num_items t AND (num_buckets t * 2 - 1) \<noteq> 0 then 1 else 0)"

definition expand_buckets :: "'a uthash \<Rightarrow> 'a uthash run" where
  "expand_buckets t =
    (if 32 \<le> unat (log2_num_buckets t) + 1 then fail BadShift else
     let ideal = expand_ideal t;
         num2 = num_buckets t * 2
     in case fold (expand_step num2 ideal) (concat (map chain (buckets t)))
               (replicate (unat (num_buckets t) * 2) empty_bucket, 0) of
       (bs, nonideal) \<Rightarrow>
         let ineff = (if drop_bit 1 (num_items t) < nonideal then ineff_expands t + 1 else 0)
         in ret (t\<lparr>buckets := bs, num_buckets := num2,
                  log2_num_buckets := log2_num_buckets t + 1,
                  ideal_chain_maxlen := ideal, nonideal_items := nonideal,
                  ineff_expands := ineff, noexpand := noexpand t \<or> 1 < ineff\<rparr>))"

definition add_to_bkt :: "'a uthash \<Rightarrow> nat \<Rightarrow> 'a hh \<Rightarrow> 'a uthash run" where
  "add_to_bkt t i h =
    (let b = (buckets t ! i)\<lparr>chain := h # chain (buckets t ! i),
                             bk_count := bk_count (buckets t ! i) + 1\<rparr>;
         t' = t\<lparr>buckets := (buckets t)[i := b]\<rparr>
     in if (expand_mult b + 1) * 10 \<le> bk_count b \<and> \<not> noexpand t
        then expand_buckets t' else ret t')"

definition add_to_table :: "'a uthash \<Rightarrow> u32 \<Rightarrow> 'a hh \<Rightarrow> 'a uthash run" where
  "add_to_table t hv h =
    (let t' = t\<lparr>num_items := num_items t + 1\<rparr>
     in add_to_bkt t' (unat (hash_to_bkt hv (num_buckets t'))) h)"

definition hash_add_keyptr_byhashvalue ::
  "'a uthash option \<Rightarrow> bytes \<Rightarrow> u32 \<Rightarrow> u32 \<Rightarrow> 'a \<Rightarrow> 'a uthash option run" where
  "hash_add_keyptr_byhashvalue head key len hv e =
    (let h = \<lparr>hh_key = key, keylen = len, hashv = hv, elt = e\<rparr>;
         t = (case head of None \<Rightarrow> make_table h | Some t \<Rightarrow> append_list t h)
     in rbind (add_to_table t hv h) (\<lambda>t'. ret (Some t')))"

definition hash_add_keyptr :: "'a uthash option \<Rightarrow> bytes \<Rightarrow> u32 \<Rightarrow> 'a \<Rightarrow> 'a uthash option run" where
  "hash_add_keyptr head key len e = hash_add_keyptr_byhashvalue head key len (hash_jen key len) e"

definition hash_add_str :: "'a uthash option \<Rightarrow> bytes \<Rightarrow> 'a \<Rightarrow> 'a uthash option run" where
  "hash_add_str head s e = hash_add_keyptr head s (of_nat (length s)) e"

section \<open>Deletion and counting\<close>

definition del_in_bkt :: "'a bucket \<Rightarrow> 'a hh \<Rightarrow> 'a bucket" where
  "del_in_bkt b h = b\<lparr>bk_count := bk_count b - 1, chain := remove1 h (chain b)\<rparr>"

definition hash_delete :: "'a uthash \<Rightarrow> 'a hh \<Rightarrow> 'a uthash option" where
  "hash_delete t h =
    (if items t = [h] then None else
     let i = unat (hash_to_bkt (hashv h) (num_buckets t))
     in Some (t\<lparr>items := remove1 h (items t),
                buckets := (buckets t)[i := del_in_bkt (buckets t ! i) h],
                num_items := num_items t - 1\<rparr>))"

definition hash_count :: "'a uthash option \<Rightarrow> u32" where
  "hash_count head = (case head of None \<Rightarrow> 0 | Some t \<Rightarrow> num_items t)"

text \<open>The elements that \<open>HASH_ITER\<close> visits, in application order.\<close>

definition hash_iter :: "'a uthash option \<Rightarrow> 'a list" where
  "hash_iter head = (case head of None \<Rightarrow> [] | Some t \<Rightarrow> map elt (items t))"

text \<open>The loop of the clients that empty a table: \<open>HASH_ITER\<close> over \<open>HASH_DEL\<close>.\<close>

fun delete_each :: "'a hh list \<Rightarrow> 'a uthash option \<Rightarrow> 'a uthash option run" where
  "delete_each [] head = ret head"
| "delete_each (h # hs) head =
    (case head of None \<Rightarrow> fail NullDeref | Some t \<Rightarrow> delete_each hs (hash_delete t h))"

section \<open>The merge sort\<close>

text \<open>Here the sort is given over natural numbers, the form in which the clients of the table
  use it; \<open>UtHash_Sort32\<close> has the macro itself, with its \<open>unsigned\<close> counters, and shows
  that it computes the same for a list of fewer than \<open>2 ^ 32\<close> elements.

  \<open>merge_runs\<close> is the innermost loop of \<open>HASH_SRT\<close>: \<open>ps\<close> and \<open>qs\<close> are the
  lists that start at \<open>_hs_p\<close> and \<open>_hs_q\<close>. It returns the handles it has linked behind
  the tail, and the list at \<open>_hs_q\<close> where it stopped.\<close>

function merge_runs :: "('b \<Rightarrow> 'b \<Rightarrow> int) \<Rightarrow> 'b list \<Rightarrow> nat \<Rightarrow> 'b list \<Rightarrow> nat \<Rightarrow> 'b list \<times> 'b list" where
  "merge_runs cmp ps psize qs qsize =
    (if psize \<noteq> 0 \<or> (qsize \<noteq> 0 \<and> qs \<noteq> []) then
       if psize = 0 then
         (case merge_runs cmp ps psize (tl qs) (qsize - 1) of (es, r) \<Rightarrow> (hd qs # es, r))
       else if qsize = 0 \<or> qs = [] then
         (case merge_runs cmp (tl ps) (psize - 1) qs qsize of (es, r) \<Rightarrow> (hd ps # es, r))
       else if cmp (hd ps) (hd qs) \<le> 0 then
         (case merge_runs cmp (tl ps) (psize - 1) qs qsize of (es, r) \<Rightarrow> (hd ps # es, r))
       else
         (case merge_runs cmp ps psize (tl qs) (qsize - 1) of (es, r) \<Rightarrow> (hd qs # es, r))
     else ([], qs))"
  by pat_completeness auto
termination
  by (relation "measure (\<lambda>(cmp, ps, psize, qs, qsize). psize + qsize)") auto

declare merge_runs.simps [simp del]

lemma merge_runs_rest_length: "length (snd (merge_runs cmp ps psize qs qsize)) \<le> length qs"
proof (induction cmp ps psize qs qsize rule: merge_runs.induct)
  case (1 cmp ps psize qs qsize)
  show ?case
    by (subst merge_runs.simps) (use 1 in \<open>auto split: prod.splits simp: le_diff_conv\<close>)
qed

text \<open>One pass over the list: pairs of runs of \<open>insize\<close> handles are merged. The result is
  the new list and the number of merges. (\<open>insize\<close> starts at 1 and doubles, so the guard
  on it only makes the definition total; \<open>for\<close> moves \<open>_hs_q\<close> by \<open>psize\<close> steps.)\<close>

function sort_pass :: "('b \<Rightarrow> 'b \<Rightarrow> int) \<Rightarrow> nat \<Rightarrow> 'b list \<Rightarrow> 'b list \<times> nat" where
  "sort_pass cmp insize ps =
    (if ps = [] \<or> insize = 0 then ([], 0) else
     let psize = min insize (length ps);
         m = merge_runs cmp ps psize (drop psize ps) insize;
         r = sort_pass cmp insize (snd m)
     in (fst m @ fst r, Suc (snd r)))"
  by pat_completeness auto
termination
proof (relation "measure (\<lambda>(cmp, insize, ps). length ps)", goal_cases)
  case (2 cmp insize ps psize m)
  then have "length (snd m) \<le> length (drop psize ps)" using merge_runs_rest_length by fastforce
  also have "\<dots> < length ps" using 2 by (cases ps) auto
  finally show ?case by simp
qed simp

declare sort_pass.simps [simp del]

end
