(* ===== verification/UtHash_Sort.thy ===== *)
theory UtHash_Sort
  imports UtHash
begin

text \<open>
  \<open>HASH_SORT\<close> of \<open>uthash.h\<close>: the outer loop of the bottom-up merge sort, and its
  correctness for every comparison function that orders the elements. The passes are
  shown to merge adjacent blocks of the list; the loop ends because each pass with more
  than one merge doubles the block length while it stays below the length of the list.
\<close>

section \<open>The loop over passes\<close>

fun merge_by :: "('b \<Rightarrow> 'b \<Rightarrow> int) \<Rightarrow> 'b list \<Rightarrow> 'b list \<Rightarrow> 'b list" where
  "merge_by cmp [] ys = ys"
| "merge_by cmp xs [] = xs"
| "merge_by cmp (x # xs) (y # ys) =
    (if cmp x y \<le> 0 then x # merge_by cmp xs (y # ys) else y # merge_by cmp (x # xs) ys)"

lemma merge_induct [case_names Nil1 Nil2 Cons]:
  "\<lbrakk>\<And>ys. P [] ys; \<And>x xs. P (x # xs) [];
    \<And>x xs y ys. (cmp x y \<le> (0 :: int) \<Longrightarrow> P xs (y # ys)) \<Longrightarrow>
      (\<not> cmp x y \<le> 0 \<Longrightarrow> P (x # xs) ys) \<Longrightarrow> P (x # xs) (y # ys)\<rbrakk> \<Longrightarrow> P xs ys"
  by induction_schema (pat_completeness, lexicographic_order)

lemma merge_by_Nil2 [simp]: "merge_by cmp xs [] = xs"
  by (cases xs) auto

lemma length_merge_by [simp]: "length (merge_by cmp xs ys) = length xs + length ys"
  by (induction cmp xs ys rule: merge_by.induct) auto

lemma mset_merge_by [simp]: "mset (merge_by cmp xs ys) = mset xs + mset ys"
  by (induction cmp xs ys rule: merge_by.induct) auto

lemma set_merge_by [simp]: "set (merge_by cmp xs ys) = set xs \<union> set ys"
  by (metis mset_merge_by set_mset_mset set_mset_union)

lemma take_nonempty: "n \<noteq> 0 \<Longrightarrow> xs \<noteq> [] \<Longrightarrow> take n xs = hd xs # take (n - 1) (tl xs)"
  by (cases xs; cases n) auto

lemma drop_nonempty: "n \<noteq> 0 \<Longrightarrow> xs \<noteq> [] \<Longrightarrow> drop n xs = drop (n - 1) (tl xs)"
  by (cases xs; cases n) auto

lemma merge_runs_eq:
  "psize \<le> length ps \<Longrightarrow> merge_runs cmp ps psize qs qsize =
     (merge_by cmp (take psize ps) (take qsize qs), drop qsize qs)"
proof (induction cmp ps psize qs qsize rule: merge_runs.induct)
  case (1 cmp ps psize qs qsize)
  consider (stop) "psize = 0" "qsize = 0 \<or> qs = []" | (right) "psize = 0" "qsize \<noteq> 0" "qs \<noteq> []"
    | (left) "psize \<noteq> 0" "qsize = 0 \<or> qs = []" | (both) "psize \<noteq> 0" "qsize \<noteq> 0" "qs \<noteq> []"
    by blast
  then show ?case
  proof cases
    case stop
    then show ?thesis by (subst merge_runs.simps) auto
  next
    case right
    then have "merge_runs cmp ps 0 (tl qs) (qsize - 1) =
        ([] @ take (qsize - 1) (tl qs), drop (qsize - 1) (tl qs))"
      using 1(1) by simp
    with right show ?thesis
      by (subst merge_runs.simps) (simp add: take_nonempty drop_nonempty)
  next
    case left
    then have ne: "ps \<noteq> []" using "1.prems" by auto
    have "merge_runs cmp (tl ps) (psize - 1) qs qsize =
        (merge_by cmp (take (psize - 1) (tl ps)) (take qsize qs), drop qsize qs)"
      using 1(2) left "1.prems" by simp
    with left ne show ?thesis
      by (subst merge_runs.simps) (auto simp: take_nonempty)
  next
    case both
    then have ne: "ps \<noteq> []" using "1.prems" by auto
    show ?thesis
    proof (cases "cmp (hd ps) (hd qs) \<le> 0")
      case True
      then have "merge_runs cmp (tl ps) (psize - 1) qs qsize =
          (merge_by cmp (take (psize - 1) (tl ps)) (take qsize qs), drop qsize qs)"
        using 1(3) both "1.prems" by simp
      with True both ne show ?thesis
        by (subst merge_runs.simps) (simp add: take_nonempty)
    next
      case False
      then have "merge_runs cmp ps psize (tl qs) (qsize - 1) =
          (merge_by cmp (take psize ps) (take (qsize - 1) (tl qs)), drop (qsize - 1) (tl qs))"
        using 1(4) both "1.prems" by simp
      with False both ne show ?thesis
        by (subst merge_runs.simps) (simp add: take_nonempty drop_nonempty)
    qed
  qed
qed

function blocks :: "nat \<Rightarrow> 'b list \<Rightarrow> 'b list list" where
  "blocks n xs = (if xs = [] \<or> n = 0 then [] else take n xs # blocks n (drop n xs))"
  by pat_completeness auto
termination by (relation "measure (\<lambda>(n, xs). length xs)") auto

declare blocks.simps [simp del]

fun merge_adjacent :: "('b \<Rightarrow> 'b \<Rightarrow> int) \<Rightarrow> 'b list list \<Rightarrow> 'b list list" where
  "merge_adjacent cmp (xs # ys # zss) = merge_by cmp xs ys # merge_adjacent cmp zss"
| "merge_adjacent cmp xss = xss"

lemma blocks_Nil [simp]: "blocks n [] = []"
  by (simp add: blocks.simps)

lemma blocks_short: "xs \<noteq> [] \<Longrightarrow> length xs \<le> n \<Longrightarrow> blocks n xs = [xs]"
  by (cases n) (auto simp: blocks.simps)

lemma blocks_step: "0 < n \<Longrightarrow> xs \<noteq> [] \<Longrightarrow> blocks n xs = take n xs # blocks n (drop n xs)"
  by (subst blocks.simps) auto

lemma blocks_append: "0 < n \<Longrightarrow> length xs = n \<Longrightarrow> blocks n (xs @ ys) = xs # blocks n ys"
  by (subst blocks.simps) auto

lemma concat_blocks [simp]: "0 < n \<Longrightarrow> concat (blocks n xs) = xs"
  by (induction n xs rule: blocks.induct) (subst blocks.simps, auto)

lemma sort_pass_step:
  "0 < n \<Longrightarrow> ps \<noteq> [] \<Longrightarrow> sort_pass cmp n ps =
     (merge_by cmp (take n ps) (take n (drop n ps)) @ fst (sort_pass cmp n (drop (2 * n) ps)),
      Suc (snd (sort_pass cmp n (drop (2 * n) ps))))"
  by (subst sort_pass.simps) (simp add: merge_runs_eq Let_def min_def mult_2)

lemma sort_pass_Nil [simp]: "sort_pass cmp n [] = ([], 0)"
  by (simp add: sort_pass.simps)

lemma blocks_merge_short:
  assumes "0 < n" "ps \<noteq> []" "length ps \<le> 2 * n"
  shows "blocks (2 * n) (merge_by cmp (take n ps) (take n (drop n ps)))
    = [merge_by cmp (take n ps) (take n (drop n ps))]"
proof (rule blocks_short)
  have "0 < length ps" using assms by simp
  then have "0 < length (merge_by cmp (take n ps) (take n (drop n ps)))" using assms by simp
  then show "merge_by cmp (take n ps) (take n (drop n ps)) \<noteq> []" by (rule iffD1 [OF length_greater_0_conv])
qed (use assms in simp)

lemma merge_adjacent_blocks_step:
  assumes "0 < n" "ps \<noteq> []"
  shows "merge_adjacent cmp (blocks n ps) =
    merge_by cmp (take n ps) (take n (drop n ps)) # merge_adjacent cmp (blocks n (drop (2 * n) ps))"
proof (cases "drop n ps = []")
  case True
  then have "blocks n ps = [ps]" using assms by (simp add: blocks_short)
  with True show ?thesis by simp
next
  case False
  have "blocks n ps = take n ps # take n (drop n ps) # blocks n (drop (2 * n) ps)"
    unfolding blocks_step [OF assms] blocks_step [OF assms(1) False] by (simp add: mult_2)
  then show ?thesis by simp
qed

lemma sort_pass_blocks:
  assumes "0 < n"
  shows "sort_pass cmp n ps = (concat (merge_adjacent cmp (blocks n ps)),
           length (merge_adjacent cmp (blocks n ps))) \<and>
    blocks (2 * n) (concat (merge_adjacent cmp (blocks n ps))) = merge_adjacent cmp (blocks n ps)"
proof (induction "length ps" arbitrary: ps rule: less_induct)
  case less
  let ?r = "drop (2 * n) ps"
  let ?two = "merge_by cmp (take n ps) (take n (drop n ps))"
  show ?case
  proof (cases "ps = []")
    case False
    then have "length ?r < length ps" using assms by simp
    note IH = less.hyps [OF this]
    have "blocks (2 * n) (?two @ concat (merge_adjacent cmp (blocks n ?r)))
        = ?two # merge_adjacent cmp (blocks n ?r)"
    proof (cases "2 * n \<le> length ps")
      case True
      then have "length ?two = 2 * n" by simp
      with IH assms show ?thesis by (simp add: blocks_append)
    next
      case short: False
      then show ?thesis using blocks_merge_short [of n ps cmp] assms False by simp
    qed
    with IH assms False show ?thesis
      by (simp add: sort_pass_step merge_adjacent_blocks_step)
  qed simp
qed

lemmas sort_pass_merge_adjacent = conjunct1 [OF sort_pass_blocks] conjunct2 [OF sort_pass_blocks]

lemma length_merge_adjacent: "length (merge_adjacent cmp xss) = (length xss + 1) div 2"
  by (induction cmp xss rule: merge_adjacent.induct) auto

lemma mset_merge_adjacent: "mset (concat (merge_adjacent cmp xss)) = mset (concat xss)"
  by (induction cmp xss rule: merge_adjacent.induct) auto

lemma mset_sort_pass: "0 < n \<Longrightarrow> mset (fst (sort_pass cmp n xs)) = mset xs"
  by (simp add: sort_pass_merge_adjacent mset_merge_adjacent)

lemma sort_pass_progress:
  assumes "1 < snd (sort_pass cmp n xs)"
  shows "2 * n < length xs" "0 < n"
proof -
  show n: "0 < n" using assms by (cases n) (auto simp: sort_pass.simps)
  show "2 * n < length xs"
  proof (rule ccontr)
    assume a: "\<not> ?thesis"
    then have "xs \<noteq> []" using assms by auto
    with n a have "snd (sort_pass cmp n xs) = 1" by (simp add: sort_pass_step)
    with assms show False by simp
  qed
qed

text \<open>The loop \<open>while (_hs_looping)\<close>.\<close>

function sort_loop :: "('b \<Rightarrow> 'b \<Rightarrow> int) \<Rightarrow> nat \<Rightarrow> 'b list \<Rightarrow> 'b list" where
  "sort_loop cmp insize xs =
    (let r = sort_pass cmp insize xs
     in if snd r \<le> 1 then fst r else sort_loop cmp (insize * 2) (fst r))"
  by pat_completeness auto
termination
proof (relation "measure (\<lambda>(cmp, insize, xs). length xs - insize)", goal_cases)
  case (2 cmp insize xs r)
  then have gt: "1 < snd (sort_pass cmp insize xs)" by simp
  have "length (fst (sort_pass cmp insize xs)) = length xs"
    using mset_sort_pass [OF sort_pass_progress(2) [OF gt]] by (metis size_mset)
  with sort_pass_progress [OF gt] 2(1) show ?case by simp
qed simp

declare sort_loop.simps [simp del]

text \<open>The sorted table. The counters of \<open>HASH_SRT\<close> are numbers here; \<open>hash_srt\<close> in \<open>UtHash_Sort32\<close> is the
  macro with its unsigned ones, and \<open>hash_srt_eq\<close> says that both agree for fewer than
  \<open>2 ^ 32\<close> elements, which the arrays of the callers cannot exceed.\<close>

definition hash_sort :: "('a \<Rightarrow> 'a \<Rightarrow> int) \<Rightarrow> 'a uthash option \<Rightarrow> 'a uthash option" where
  "hash_sort cmp head =
    (case head of None \<Rightarrow> None
     | Some t \<Rightarrow> Some (t\<lparr>items := sort_loop (\<lambda>a b. cmp (elt a) (elt b)) 1 (items t)\<rparr>))"

section \<open>Correctness\<close>

lemma mset_sort_loop: "0 < n \<Longrightarrow> mset (sort_loop cmp n xs) = mset xs"
proof (induction cmp n xs rule: sort_loop.induct)
  case (1 cmp n xs)
  then show ?case
    by (subst sort_loop.simps) (auto simp: Let_def mset_sort_pass)
qed

locale comparison =
  fixes cmp :: "'b \<Rightarrow> 'b \<Rightarrow> int" and dom :: "'b \<Rightarrow> bool"
  assumes total: "dom x \<Longrightarrow> dom y \<Longrightarrow> cmp x y \<le> 0 \<or> cmp y x \<le> 0"
    and trans: "dom x \<Longrightarrow> dom y \<Longrightarrow> dom z \<Longrightarrow> cmp x y \<le> 0 \<Longrightarrow> cmp y z \<le> 0 \<Longrightarrow> cmp x z \<le> 0"
begin

lemma sorted_merge_by:
  "\<forall>x\<in>set xs \<union> set ys. dom x \<Longrightarrow> sorted_wrt (\<lambda>x y. cmp x y \<le> 0) xs \<Longrightarrow>
   sorted_wrt (\<lambda>x y. cmp x y \<le> 0) ys \<Longrightarrow> sorted_wrt (\<lambda>x y. cmp x y \<le> 0) (merge_by cmp xs ys)"
proof (induction xs ys rule: merge_induct [where cmp = cmp])
  case (Cons x xs y ys)
  show ?case
  proof (cases "cmp x y \<le> 0")
    case True
    with Cons show ?thesis by (auto intro: trans [of x y])
  next
    case False
    with total [of x y] Cons(3) have "cmp y x \<le> 0" by simp
    with False Cons show ?thesis by (auto intro: trans [of y x])
  qed
qed simp_all

text \<open>Stability: the elements that compare equal to \<open>a\<close> keep their order.\<close>

lemma stable_merge_by:
  "\<forall>x\<in>set xs \<union> set ys. dom x \<Longrightarrow> dom a \<Longrightarrow> sorted_wrt (\<lambda>x y. cmp x y \<le> 0) xs \<Longrightarrow>
   filter (\<lambda>x. cmp a x \<le> 0 \<and> cmp x a \<le> 0) (merge_by cmp xs ys) =
   filter (\<lambda>x. cmp a x \<le> 0 \<and> cmp x a \<le> 0) (xs @ ys)"
proof (induction xs ys rule: merge_induct [where cmp = cmp])
  case (Cons x xs y ys)
  show ?case
  proof (cases "cmp x y \<le> 0")
    case True
    with Cons show ?thesis by auto
  next
    case False
    have "filter (\<lambda>z. cmp a z \<le> 0 \<and> cmp z a \<le> 0) (x # xs) = []"
      if y: "cmp a y \<le> 0 \<and> cmp y a \<le> 0"
    proof -
      have "\<not> (cmp a z \<le> 0 \<and> cmp z a \<le> 0)" if z: "z \<in> set (x # xs)" for z
      proof
        assume "cmp a z \<le> 0 \<and> cmp z a \<le> 0"
        with y z Cons(3,4) have "cmp z y \<le> 0" using trans [of z a y] by auto
        moreover have "cmp x z \<le> 0" using z Cons(3,5) total [of x x] by auto
        ultimately have "cmp x y \<le> 0" using trans [of x z y] z Cons(3) by auto
        with False show False ..
      qed
      then show ?thesis by (simp add: filter_empty_conv)
    qed
    with False Cons show ?thesis by auto
  qed
qed simp_all

lemma merge_adjacent_sorted_stable:
  assumes "\<forall>xs\<in>set xss. sorted_wrt (\<lambda>x y. cmp x y \<le> 0) xs" "\<forall>x\<in>set (concat xss). dom x"
  shows "\<forall>xs\<in>set (merge_adjacent cmp xss). sorted_wrt (\<lambda>x y. cmp x y \<le> 0) xs"
    and "dom a \<Longrightarrow> filter (\<lambda>x. cmp a x \<le> 0 \<and> cmp x a \<le> 0) (concat (merge_adjacent cmp xss))
           = filter (\<lambda>x. cmp a x \<le> 0 \<and> cmp x a \<le> 0) (concat xss)"
proof -
  have "(\<forall>xs\<in>set (merge_adjacent cmp xss). sorted_wrt (\<lambda>x y. cmp x y \<le> 0) xs) \<and>
    (dom a \<longrightarrow> filter (\<lambda>x. cmp a x \<le> 0 \<and> cmp x a \<le> 0) (concat (merge_adjacent cmp xss))
           = filter (\<lambda>x. cmp a x \<le> 0 \<and> cmp x a \<le> 0) (concat xss))"
    using assms
  proof (induction xss rule: induct_list012)
    case (3 xs ys zss)
    then show ?case
      using sorted_merge_by [of xs ys] stable_merge_by [of xs ys a] by (simp add: ball_Un)
  qed simp_all
  then show "\<forall>xs\<in>set (merge_adjacent cmp xss). sorted_wrt (\<lambda>x y. cmp x y \<le> 0) xs"
    and "dom a \<Longrightarrow> filter (\<lambda>x. cmp a x \<le> 0 \<and> cmp x a \<le> 0) (concat (merge_adjacent cmp xss))
           = filter (\<lambda>x. cmp a x \<le> 0 \<and> cmp x a \<le> 0) (concat xss)"
    by blast+
qed

lemma sort_loop_sorted_stable:
  assumes "0 < n" "\<forall>b\<in>set (blocks n xs). sorted_wrt (\<lambda>x y. cmp x y \<le> 0) b"
    "\<forall>x\<in>set xs. dom x"
  shows "sorted_wrt (\<lambda>x y. cmp x y \<le> 0) (sort_loop cmp n xs) \<and>
    (dom a \<longrightarrow> filter (\<lambda>x. cmp a x \<le> 0 \<and> cmp x a \<le> 0) (sort_loop cmp n xs)
       = filter (\<lambda>x. cmp a x \<le> 0 \<and> cmp x a \<le> 0) xs)"
  using assms
proof (induction "length xs - n" arbitrary: n xs rule: less_induct)
  case less
  let ?r = "sort_pass cmp n xs"
  let ?m = "merge_adjacent cmp (blocks n xs)"
  note pass = sort_pass_merge_adjacent [OF less.prems(1), of cmp xs]
  have m: "\<forall>b\<in>set ?m. sorted_wrt (\<lambda>x y. cmp x y \<le> 0) b"
    "dom a \<Longrightarrow> filter (\<lambda>x. cmp a x \<le> 0 \<and> cmp x a \<le> 0) (concat ?m)
       = filter (\<lambda>x. cmp a x \<le> 0 \<and> cmp x a \<le> 0) xs"
    using merge_adjacent_sorted_stable [OF less.prems(2)] less.prems by simp_all
  show ?case
  proof (cases "snd ?r \<le> 1")
    case True
    then have "?m = [] \<or> (\<exists>b. ?m = [b])" using pass by (cases ?m) auto
    then have "sorted_wrt (\<lambda>x y. cmp x y \<le> 0) (concat ?m)" using m(1) by auto
    with True m(2) pass show ?thesis by (subst (1 2) sort_loop.simps) (simp add: Let_def)
  next
    case False
    then have gt: "1 < snd ?r" by simp
    have ms: "mset (fst ?r) = mset xs" using less.prems(1) by (rule mset_sort_pass)
    then have len: "length (fst ?r) = length xs" and st: "set (fst ?r) = set xs"
      by (metis size_mset, metis set_mset_mset)
    have "sorted_wrt (\<lambda>x y. cmp x y \<le> 0) (sort_loop cmp (n * 2) (fst ?r)) \<and>
      (dom a \<longrightarrow> filter (\<lambda>x. cmp a x \<le> 0 \<and> cmp x a \<le> 0) (sort_loop cmp (n * 2) (fst ?r))
       = filter (\<lambda>x. cmp a x \<le> 0 \<and> cmp x a \<le> 0) (fst ?r))"
    proof (rule less.hyps)
      show "0 < n * 2" using less.prems(1) by simp
    next
      show "length (fst ?r) - n * 2 < length xs - n"
        unfolding len using sort_pass_progress [OF gt] by linarith
      show "\<forall>x\<in>set (fst ?r). dom x" using less.prems(3) by (simp only: st)
      show "\<forall>b\<in>set (blocks (n * 2) (fst ?r)). sorted_wrt (\<lambda>x y. cmp x y \<le> 0) b"
        using m(1) pass by (simp add: mult.commute)
    qed
    with False m(2) pass show ?thesis by (subst (1 2) sort_loop.simps) (simp add: Let_def)
  qed
qed

lemma sort_correct:
  assumes "\<forall>x\<in>set xs. dom x"
  shows "sorted_wrt (\<lambda>x y. cmp x y \<le> 0) (sort_loop cmp 1 xs)"
    and "mset (sort_loop cmp 1 xs) = mset xs"
    and "dom a \<Longrightarrow> filter (\<lambda>x. cmp a x \<le> 0 \<and> cmp x a \<le> 0) (sort_loop cmp 1 xs)
           = filter (\<lambda>x. cmp a x \<le> 0 \<and> cmp x a \<le> 0) xs"
proof -
  have "\<forall>b\<in>set (blocks 1 ys). sorted_wrt (\<lambda>x y. cmp x y \<le> 0) b" for ys
    by (induction "1 :: nat" ys rule: blocks.induct)
      (subst blocks.simps, auto simp: take_nonempty)
  with assms show "sorted_wrt (\<lambda>x y. cmp x y \<le> 0) (sort_loop cmp 1 xs)"
    "dom a \<Longrightarrow> filter (\<lambda>x. cmp a x \<le> 0 \<and> cmp x a \<le> 0) (sort_loop cmp 1 xs)
           = filter (\<lambda>x. cmp a x \<le> 0 \<and> cmp x a \<le> 0) xs"
    using sort_loop_sorted_stable [of 1 xs] by simp_all
  show "mset (sort_loop cmp 1 xs) = mset xs" by (rule mset_sort_loop) simp
qed

text \<open>Elements compared through a projection.\<close>

lemma comparison_on: "comparison (\<lambda>a b. cmp (f a) (f b)) (\<lambda>a. dom (f a))"
  by unfold_locales (use total trans in blast)+

end

end
