(* ===== verification/UtHash_Table.thy ===== *)
theory UtHash_Table
  imports UtHash_Sort
begin

text \<open>
  The invariant of a \<open>uthash\<close> table and what its operations do to the association list
  of its keys and elements (\<open>entries\<close>): every handle lies in exactly the bucket of its
  hash value, so lookup, which reads one chain only, is lookup in the association list;
  insertion appends, with or without an expansion of the buckets, deletion removes, and
  the sort reorders without touching the buckets. The contract that clients rely on is
  the locale \<open>keyed_table\<close>, interpreted on the model of the macros.
\<close>

section \<open>The invariant\<close>

definition bkt_of :: "u32 \<Rightarrow> 'a hh \<Rightarrow> nat" where
  "bkt_of num h = unat (hash_to_bkt (hashv h) num)"

definition bucket_ok :: "u32 \<Rightarrow> 'a hh multiset \<Rightarrow> nat \<Rightarrow> 'a bucket \<Rightarrow> bool" where
  "bucket_ok num M i b \<longleftrightarrow> mset (chain b) = filter_mset (\<lambda>h. bkt_of num h = i) M
     \<and> bk_count b = of_nat (length (chain b))"

definition chains_hold :: "u32 \<Rightarrow> 'a bucket list \<Rightarrow> 'a hh multiset \<Rightarrow> bool" where
  "chains_hold num bs M \<longleftrightarrow> length bs = unat num \<and> (\<forall>i<length bs. bucket_ok num M i (bs ! i))"

definition handle_ok :: "'a hh \<Rightarrow> bool" where
  "handle_ok h \<longleftrightarrow> length (hh_key h) < 2 ^ 32 \<and> keylen h = of_nat (length (hh_key h))
     \<and> hashv h = hash_jen (hh_key h) (keylen h)"

definition table_ok :: "'a uthash \<Rightarrow> bool" where
  "table_ok t \<longleftrightarrow> items t \<noteq> [] \<and> unat (log2_num_buckets t) < 32
     \<and> num_buckets t = 2 ^ unat (log2_num_buckets t)
     \<and> chains_hold (num_buckets t) (buckets t) (mset (items t))
     \<and> num_items t = of_nat (length (items t))
     \<and> (\<forall>h\<in>set (items t). handle_ok h) \<and> distinct (map hh_key (items t))"

definition hash_ok :: "'a uthash option \<Rightarrow> bool" where
  "hash_ok head \<longleftrightarrow> (case head of None \<Rightarrow> True | Some t \<Rightarrow> table_ok t)"

definition entries :: "'a uthash option \<Rightarrow> (bytes \<times> 'a) list" where
  "entries head = (case head of None \<Rightarrow> [] | Some t \<Rightarrow> map (\<lambda>h. (hh_key h, elt h)) (items t))"

text \<open>The buckets can still double: their number stays below $2^{32}$.\<close>

definition hash_room :: "'a uthash option \<Rightarrow> bool" where
  "hash_room head \<longleftrightarrow> (case head of None \<Rightarrow> True | Some t \<Rightarrow> unat (log2_num_buckets t) < 31)"

lemma table_okD:
  assumes "table_ok t"
  shows "items t \<noteq> []" "unat (log2_num_buckets t) < 32"
    "num_buckets t = 2 ^ unat (log2_num_buckets t)"
    "chains_hold (num_buckets t) (buckets t) (mset (items t))"
    "num_items t = of_nat (length (items t))" "\<forall>h\<in>set (items t). handle_ok h"
    "distinct (map hh_key (items t))"
  using assms unfolding table_ok_def by blast+

lemma hash_to_bkt_take_bit: "k < 32 \<Longrightarrow> hash_to_bkt hv (2 ^ k) = take_bit k hv"
  by (simp add: hash_to_bkt_def take_bit_eq_mask mask_eq_exp_minus_1)

lemma unat_pow_u32: "k < 32 \<Longrightarrow> unat (2 ^ k :: u32) = 2 ^ k"
  using power_strict_increasing [of k 32 "2 :: nat"] by (intro of_nat_inverse) simp_all

lemma unat_of_nat_u32: "n < 2 ^ 32 \<Longrightarrow> unat (of_nat n :: u32) = n"
  by (rule of_nat_inverse) simp_all

lemma bkt_of_less: "k < 32 \<Longrightarrow> bkt_of (2 ^ k) h < unat (2 ^ k :: u32)"
  by (simp add: bkt_of_def hash_to_bkt_take_bit unsigned_take_bit_eq unat_pow_u32)

section \<open>Buckets\<close>

lemma empty_chains_hold: "chains_hold num (replicate (unat num) empty_bucket) {#}"
  by (simp add: chains_hold_def bucket_ok_def empty_bucket_def)

lemma chains_hold_cons:
  assumes "chains_hold num bs M" "bkt_of num h < length bs"
    and "chain b = h # chain (bs ! bkt_of num h)"
    and "bk_count b = bk_count (bs ! bkt_of num h) + 1"
  shows "chains_hold num (bs[bkt_of num h := b]) (add_mset h M)"
  using assms by (auto simp: chains_hold_def bucket_ok_def nth_list_update)

lemma expand_step_holds:
  assumes "chains_hold num (fst st) M" "bkt_of num h < unat num"
  shows "chains_hold num (fst (expand_step num ideal h st)) (add_mset h M)"
proof (cases st)
  case (Pair bs ni)
  let ?b = "\<lambda>m. \<lparr>chain = h # chain (bs ! bkt_of num h),
                bk_count = bk_count (bs ! bkt_of num h) + 1, expand_mult = m\<rparr>"
  have "\<exists>m. fst (expand_step num ideal h st) = bs[bkt_of num h := ?b m]"
    unfolding expand_step_def Pair Let_def bkt_of_def by auto
  then obtain m where m: "fst (expand_step num ideal h st) = bs[bkt_of num h := ?b m]" ..
  have "chains_hold num (bs[bkt_of num h := ?b m]) (add_mset h M)"
    using assms Pair by (intro chains_hold_cons) (auto simp: chains_hold_def)
  then show ?thesis by (simp only: m)
qed

lemma expand_fold_holds:
  "chains_hold num (fst st) M \<Longrightarrow> \<forall>h\<in>set hs. bkt_of num h < unat num \<Longrightarrow>
   chains_hold num (fst (fold (expand_step num ideal) hs st)) (M + mset hs)"
proof (induction hs arbitrary: st M)
  case (Cons h hs)
  then show ?case using expand_step_holds [of num st M h ideal] Cons.IH by fastforce
qed simp

lemma filter_less_Suc:
  "filter_mset (\<lambda>h. f h < Suc n) M = filter_mset (\<lambda>h. f h < n) M + filter_mset (\<lambda>h. f h = n) M"
  by (rule multiset_eqI) (auto simp: less_Suc_eq)

lemma chains_hold_prefix:
  assumes "chains_hold num bs M"
  shows "n \<le> length bs \<Longrightarrow>
    mset (concat (map chain (take n bs))) = filter_mset (\<lambda>h. bkt_of num h < n) M"
proof (induction n)
  case (Suc n)
  then have "bucket_ok num M n (bs ! n)" using assms by (simp add: chains_hold_def)
  with Suc show ?case
    by (simp add: take_Suc_conv_app_nth bucket_ok_def filter_less_Suc)
qed simp

lemma chains_hold_all:
  assumes "chains_hold num bs M" "\<forall>h\<in>#M. bkt_of num h < unat num"
  shows "mset (concat (map chain bs)) = M"
proof -
  have "filter_mset (\<lambda>h. bkt_of num h < length bs) M = M"
    using assms by (auto simp: chains_hold_def filter_mset_eq_conv)
  with chains_hold_prefix [OF assms(1), of "length bs"] show ?thesis by simp
qed

section \<open>Lookup\<close>

lemma handle_matches:
  assumes "handle_ok h" "length key < 2 ^ 32"
  shows "hashv h = hash_jen key (of_nat (length key)) \<and> keylen h = of_nat (length key)
      \<and> take (unat (of_nat (length key) :: u32)) (hh_key h) =
        take (unat (of_nat (length key) :: u32)) key \<longleftrightarrow> hh_key h = key"
proof -
  have n: "unat (of_nat (length key) :: u32) = length key" using assms(2) by (rule unat_of_nat_u32)
  have h: "length (hh_key h) < 2 ^ 32" "keylen h = of_nat (length (hh_key h))"
    "hashv h = hash_jen (hh_key h) (keylen h)"
    using assms(1) by (simp_all add: handle_ok_def)
  then have "length (hh_key h) = length key" if "keylen h = of_nat (length key)"
    using that n unat_of_nat_u32 by metis
  then show ?thesis unfolding n using h by auto
qed

lemma find_in_bkt_filter:
  "\<forall>h\<in>set hs. handle_ok h \<Longrightarrow> length key < 2 ^ 32 \<Longrightarrow>
   find_in_bkt hs key (of_nat (length key)) (hash_jen key (of_nat (length key))) =
   map_option elt (find (\<lambda>h. hh_key h = key) hs)"
proof (induction hs)
  case (Cons h hs)
  show ?case
    unfolding find_in_bkt.simps find.simps using Cons handle_matches [of h key] by simp
qed simp

lemma find_map_of:
  "distinct (map hh_key hs) \<Longrightarrow> map_option elt (find (\<lambda>h. hh_key h = key) hs)
     = map_of (map (\<lambda>h. (hh_key h, elt h)) hs) key"
  by (induction hs) auto

lemma map_of_subset_find:
  assumes "distinct (map hh_key hs)" "set hs' \<subseteq> set hs"
    "\<forall>h\<in>set hs. hh_key h = key \<longrightarrow> h \<in> set hs'"
  shows "find (\<lambda>h. hh_key h = key) hs' = find (\<lambda>h. hh_key h = key) hs"
proof (cases "find (\<lambda>h. hh_key h = key) hs'")
  case None
  then have "\<forall>h\<in>set hs'. hh_key h \<noteq> key" by (simp add: find_None_iff)
  with assms(3) have "\<forall>h\<in>set hs. hh_key h \<noteq> key" by blast
  then have "find (\<lambda>h. hh_key h = key) hs = None" by (simp add: find_None_iff)
  with None show ?thesis by (simp only:)
next
  case (Some h)
  then have h: "h \<in> set hs'" "hh_key h = key" by (auto simp: find_Some_iff)
  then have "\<not> (\<forall>h\<in>set hs. hh_key h \<noteq> key)" using assms(2) by blast
  then have "find (\<lambda>h. hh_key h = key) hs \<noteq> None" by (auto simp: find_None_iff)
  then obtain g where g: "find (\<lambda>h. hh_key h = key) hs = Some g" by auto
  then have "g \<in> set hs" "hh_key g = key" by (auto simp: find_Some_iff)
  moreover have "h \<in> set hs" using h(1) assms(2) by blast
  ultimately have "g = h" using h(2) assms(1) by (simp add: distinct_map inj_on_def)
  with g Some show ?thesis by (simp only:)
qed

lemma lookup_correct:
  assumes "hash_ok head" "length key < 2 ^ 32"
  shows "hash_find_str head key = map_of (entries head) key"
proof (cases head)
  case (Some t)
  let ?len = "of_nat (length key) :: u32"
  let ?i = "unat (hash_to_bkt (hash_jen key ?len) (num_buckets t))"
  let ?c = "chain (buckets t ! ?i)"
  have t: "table_ok t" using assms(1) Some by (simp add: hash_ok_def)
  obtain k where k: "k < 32" "num_buckets t = 2 ^ k"
    using t by (auto simp: table_ok_def)
  have "?i < unat (num_buckets t)"
    using bkt_of_less [OF k(1), of "\<lparr>hh_key = key, keylen = ?len, hashv = hash_jen key ?len, elt = undefined\<rparr>"]
    by (simp add: bkt_of_def k(2))
  moreover have "chains_hold (num_buckets t) (buckets t) (mset (items t))"
    using t by (rule table_okD(4))
  ultimately have "bucket_ok (num_buckets t) (mset (items t)) ?i (buckets t ! ?i)"
    unfolding chains_hold_def by simp
  then have "mset ?c = filter_mset (\<lambda>h. bkt_of (num_buckets t) h = ?i) (mset (items t))"
    by (simp only: bucket_ok_def)
  then have "set_mset (mset ?c) = {h \<in> set_mset (mset (items t)). bkt_of (num_buckets t) h = ?i}"
    by (simp only: set_mset_filter)
  then have c: "set ?c = {h \<in> set (items t). bkt_of (num_buckets t) h = ?i}"
    by (simp only: set_mset_mset)
  have ok: "\<forall>h\<in>set (items t). handle_ok h" "distinct (map hh_key (items t))"
    using t by (rule table_okD)+
  have same: "bkt_of (num_buckets t) h = ?i" if "handle_ok h" "hh_key h = key" for h :: "'a hh"
    using that by (simp add: bkt_of_def handle_ok_def)
  have "find (\<lambda>h. hh_key h = key) ?c = find (\<lambda>h. hh_key h = key) (items t)"
  proof (rule map_of_subset_find [OF ok(2)])
    show "set ?c \<subseteq> set (items t)" unfolding c by blast
    show "\<forall>h\<in>set (items t). hh_key h = key \<longrightarrow> h \<in> set ?c" unfolding c using ok(1) same by blast
  qed
  moreover have "\<forall>h\<in>set ?c. handle_ok h" unfolding c using ok(1) by blast
  ultimately show ?thesis
    using Some ok assms(2)
    by (simp add: hash_find_str_def hash_find_def hash_find_byhashvalue_def entries_def
        find_in_bkt_filter find_map_of)
qed (simp add: hash_find_str_def hash_find_def hash_find_byhashvalue_def entries_def)

section \<open>Expansion and insertion\<close>

lemma unat_Suc_u32: "unat (x :: u32) + 1 < 2 ^ 32 \<Longrightarrow> unat (x + 1) = unat x + 1"
  by (rule of_nat_inverse) simp_all

text \<open>What an operation may change of a table whose handles are the multiset \<open>M\<close>.\<close>

definition holds :: "'a uthash \<Rightarrow> 'a hh multiset \<Rightarrow> bool" where
  "holds t M \<longleftrightarrow> unat (log2_num_buckets t) < 32 \<and> num_buckets t = 2 ^ unat (log2_num_buckets t)
     \<and> chains_hold (num_buckets t) (buckets t) M"

lemma holdsD:
  assumes "holds t M"
  shows "unat (log2_num_buckets t) < 32" "num_buckets t = 2 ^ unat (log2_num_buckets t)"
    "chains_hold (num_buckets t) (buckets t) M" "bkt_of (num_buckets t) h < unat (num_buckets t)"
proof -
  show a: "unat (log2_num_buckets t) < 32" "num_buckets t = 2 ^ unat (log2_num_buckets t)"
    "chains_hold (num_buckets t) (buckets t) M"
    using assms unfolding holds_def by blast+
  show "bkt_of (num_buckets t) h < unat (num_buckets t)"
    unfolding a(2) using a(1) by (rule bkt_of_less)
qed

lemma expand_holds:
  assumes "holds t M" "unat (log2_num_buckets t) < 31"
  obtains t' where "expand_buckets t = ret t'" "holds t' M" "items t' = items t"
    "num_items t' = num_items t" "log2_num_buckets t' = log2_num_buckets t + 1"
proof -
  let ?k = "unat (log2_num_buckets t)"
  let ?num = "num_buckets t * 2"
  let ?hs = "concat (map chain (buckets t))"
  let ?r = "fold (expand_step ?num (expand_ideal t)) ?hs
              (replicate (unat (num_buckets t) * 2) empty_bucket, 0)"
  have k1: "unat (log2_num_buckets t + 1) = ?k + 1" using assms(2) by (intro unat_Suc_u32) simp
  have num: "?num = 2 ^ (?k + 1)" unfolding holdsD(2) [OF assms(1)] by simp
  have un: "unat ?num = unat (num_buckets t) * 2"
    unfolding num unfolding holdsD(2) [OF assms(1)]
    using assms(2) by (simp only: unat_pow_u32) (simp add: unat_pow_u32)
  have M: "mset ?hs = M"
    using holdsD(3) [OF assms(1)] holdsD(4) [OF assms(1)] by (intro chains_hold_all) blast+
  have "chains_hold ?num (fst ?r) ({#} + mset ?hs)"
  proof (rule expand_fold_holds)
    show "chains_hold ?num (fst (replicate (unat (num_buckets t) * 2) empty_bucket, 0)) {#}"
      using empty_chains_hold [of ?num] by (simp only: un fst_conv)
    show "\<forall>h\<in>set ?hs. bkt_of ?num h < unat ?num"
      unfolding num using assms(2) by (intro ballI bkt_of_less) simp
  qed
  then have ch: "chains_hold ?num (fst ?r) M" by (simp only: M add_0)
  obtain bs ni where r: "?r = (bs, ni)" by (cases ?r)
  have "\<exists>t'. expand_buckets t = ret t' \<and> buckets t' = fst ?r \<and> num_buckets t' = ?num
    \<and> log2_num_buckets t' = log2_num_buckets t + 1 \<and> items t' = items t \<and> num_items t' = num_items t"
    using assms(2) by (simp add: expand_buckets_def Let_def r)
  then obtain t' where t': "expand_buckets t = ret t'" "buckets t' = fst ?r" "num_buckets t' = ?num"
    "log2_num_buckets t' = log2_num_buckets t + 1" "items t' = items t" "num_items t' = num_items t"
    by blast
  show ?thesis
  proof (rule that [OF t'(1) _ t'(5,6,4)])
    show "holds t' M" unfolding holds_def t'(2,3,4) k1
      using assms(2) num ch by simp
  qed
qed

lemma expand_full: "31 \<le> unat (log2_num_buckets t) \<Longrightarrow> expand_buckets t = fail BadShift"
  by (simp add: expand_buckets_def)

lemma add_to_table_holds:
  assumes "holds t M"
  shows "(31 \<le> unat (log2_num_buckets t) \<and> add_to_table t (hashv h) h = fail BadShift) \<or>
    (\<exists>t'. add_to_table t (hashv h) h = ret t' \<and> holds t' (add_mset h M)
      \<and> items t' = items t \<and> num_items t' = num_items t + 1
      \<and> unat (log2_num_buckets t') \<le> unat (log2_num_buckets t) + 1)" (is "?full \<or> ?done")
proof -
  let ?i = "bkt_of (num_buckets t) h"
  let ?b = "(buckets t ! ?i)\<lparr>chain := h # chain (buckets t ! ?i),
                             bk_count := bk_count (buckets t ! ?i) + 1\<rparr>"
  let ?t = "t\<lparr>num_items := num_items t + 1, buckets := (buckets t)[?i := ?b]\<rparr>"
  let ?grow = "(expand_mult ?b + 1) * 10 \<le> bk_count ?b \<and> \<not> noexpand t"
  have len: "length (buckets t) = unat (num_buckets t)"
    using holdsD(3) [OF assms] by (simp only: chains_hold_def)
  have "chains_hold (num_buckets t) ((buckets t)[?i := ?b]) (add_mset h M)"
    using holdsD(3) [OF assms] holdsD(4) [OF assms, of h]
    by (intro chains_hold_cons) (simp_all add: len)
  then have t: "holds ?t (add_mset h M)"
    using holdsD(1,2) [OF assms] unfolding holds_def by simp
  have add: "add_to_table t (hashv h) h = (if ?grow then expand_buckets ?t else ret ?t)"
    by (simp add: add_to_table_def add_to_bkt_def Let_def bkt_of_def)
  consider (keep) "\<not> ?grow" | (full) ?grow "31 \<le> unat (log2_num_buckets ?t)"
    | (grow) ?grow "unat (log2_num_buckets ?t) < 31" by linarith
  then show ?thesis
  proof cases
    case keep
    then have "add_to_table t (hashv h) h = ret ?t" by (simp only: add if_False)
    with t show ?thesis by (intro disjI2 exI [of _ ?t]) simp
  next
    case full
    then show ?thesis by (simp add: add expand_full)
  next
    case grow
    obtain t' where t': "expand_buckets ?t = ret t'" "holds t' (add_mset h M)"
      "items t' = items ?t" "num_items t' = num_items ?t"
      "log2_num_buckets t' = log2_num_buckets ?t + 1"
      by (rule expand_holds [OF t grow(2)])
    have "unat (log2_num_buckets t') = unat (log2_num_buckets t) + 1"
      unfolding t'(5) using grow(2) by (simp add: unat_Suc_u32)
    with t' grow(1) have ?done by (intro exI [of _ t']) (simp add: add)
    then show ?thesis ..
  qed
qed

lemma table_ok_iff:
  "table_ok t \<longleftrightarrow> items t \<noteq> [] \<and> holds t (mset (items t)) \<and> num_items t = of_nat (length (items t))
     \<and> (\<forall>h\<in>set (items t). handle_ok h) \<and> distinct (map hh_key (items t))"
  unfolding table_ok_def holds_def by blast

lemma entries_keys: "map fst (entries (Some t)) = map hh_key (items t)"
  by (simp add: entries_def)

lemma make_table_holds: "holds (make_table h) {#}"
proof -
  have "unat (32 :: u32) = 32" "unat (5 :: u32) = 5" by simp_all
  then show ?thesis
    using empty_chains_hold [of 32] by (simp add: holds_def make_table_def)
qed

definition hash_log :: "'a uthash option \<Rightarrow> nat" where
  "hash_log head = (case head of None \<Rightarrow> 5 | Some t \<Rightarrow> unat (log2_num_buckets t))"

lemma hash_room_log: "hash_room head \<longleftrightarrow> hash_log head < 31"
  by (simp add: hash_room_def hash_log_def split: option.splits)

lemma add_str_total:
  assumes ok: "hash_ok head" and len: "length s < 2 ^ 32" and new: "s \<notin> fst ` set (entries head)"
  shows "(\<not> hash_room head \<and> hash_add_str head s e = fail BadShift) \<or>
    (\<exists>head'. hash_add_str head s e = ret head' \<and> hash_ok head'
      \<and> entries head' = entries head @ [(s, e)] \<and> hash_log head' \<le> hash_log head + 1)"
proof -
  let ?h = "\<lparr>hh_key = s, keylen = of_nat (length s), hashv = hash_jen s (of_nat (length s)), elt = e\<rparr>"
  let ?t = "case head of None \<Rightarrow> make_table ?h | Some t \<Rightarrow> append_list t ?h"
  let ?M = "case head of None \<Rightarrow> {#} | Some t \<Rightarrow> mset (items t)"
  let ?old = "case head of None \<Rightarrow> [] | Some t \<Rightarrow> items t"
  have t: "holds ?t ?M" "unat (log2_num_buckets ?t) = hash_log head" "items ?t = ?old @ [?h]"
    "num_items ?t = of_nat (length ?old)" "mset ?old = ?M"
    using ok make_table_holds
    by (auto simp: hash_ok_def append_list_def table_ok_iff holds_def hash_log_def make_table_def
        split: option.splits)
  have add: "hash_add_str head s e = rbind (add_to_table ?t (hashv ?h) ?h) (\<lambda>t'. ret (Some t'))"
    by (simp add: hash_add_str_def hash_add_keyptr_def hash_add_keyptr_byhashvalue_def Let_def)
  have old: "\<forall>h\<in>set ?old. handle_ok h" "distinct (map hh_key ?old)" "s \<notin> hh_key ` set ?old"
    "entries head = map (\<lambda>h. (hh_key h, elt h)) ?old"
    using ok new by (simp_all add: hash_ok_def table_ok_iff entries_def image_image split: option.splits)
  consider (full) "31 \<le> unat (log2_num_buckets ?t)" "add_to_table ?t (hashv ?h) ?h = fail BadShift"
    | (added) t' where "add_to_table ?t (hashv ?h) ?h = ret t'" "holds t' (add_mset ?h ?M)"
        "items t' = items ?t" "num_items t' = num_items ?t + 1"
        "unat (log2_num_buckets t') \<le> unat (log2_num_buckets ?t) + 1"
    using add_to_table_holds [OF t(1), of ?h] by blast
  then show ?thesis
  proof cases
    case full
    then show ?thesis by (simp add: hash_room_log add flip: t(2))
  next
    case added
    have it: "items t' = ?old @ [?h]" by (simp only: added(3) t(3))
    have "table_ok t'"
      unfolding table_ok_iff it added(4) t(4)
      using added(2) t(5) old(1-3) len by (simp add: handle_ok_def)
    moreover have "entries (Some t') = entries head @ [(s, e)]"
      unfolding old(4) by (simp add: entries_def it)
    ultimately show ?thesis
      using added(1,5) t(2) by (intro disjI2 exI [of _ "Some t'"]) (simp add: add hash_ok_def hash_log_def)
  qed
qed

lemma add_str_lemma:
  assumes "hash_ok head" "hash_room head" "length s < 2 ^ 32" "s \<notin> fst ` set (entries head)"
  shows "\<exists>head'. hash_add_str head s e = ret head' \<and> hash_ok head'
    \<and> entries head' = entries head @ [(s, e)] \<and> hash_log head' \<le> hash_log head + 1"
  using add_str_total [OF assms(1,3,4), of e] assms(2) by blast

section \<open>Deletion, sorting, counting\<close>

lemma of_nat_pred_u32: "0 < n \<Longrightarrow> of_nat (n - 1) = (of_nat n :: u32) - 1"
  by (simp add: of_nat_diff)

lemma chains_hold_remove:
  assumes ch: "chains_hold num bs M" and h: "h \<in># M" and i: "bkt_of num h < length bs"
  shows "chains_hold num (bs[bkt_of num h := del_in_bkt (bs ! bkt_of num h) h]) (M - {#h#})"
  unfolding chains_hold_def length_list_update
proof (intro conjI allI impI)
  fix j assume j: "j < length bs"
  have b: "bucket_ok num M j (bs ! j)" using ch j by (simp only: chains_hold_def)
  show "bucket_ok num (M - {#h#}) j (bs[bkt_of num h := del_in_bkt (bs ! bkt_of num h) h] ! j)"
  proof (cases "j = bkt_of num h")
    case True
    then have "h \<in> set (chain (bs ! j))"
      using b h by (metis (mono_tags, lifting) bucket_ok_def filter_mset_eq_conv
          mem_Collect_eq set_mset_filter set_mset_mset)
    then have "0 < length (chain (bs ! j))" "length (remove1 h (chain (bs ! j))) = length (chain (bs ! j)) - 1"
      by (auto simp: length_remove1)
    with b True h i show ?thesis
      using of_nat_pred_u32 [of "length (chain (bs ! j))"]
      by (simp add: bucket_ok_def del_in_bkt_def)
  next
    case False
    with b h show ?thesis by (simp add: bucket_ok_def)
  qed
qed (use ch in \<open>simp only: chains_hold_def\<close>)

lemma map_of_remove1:
  "distinct (map hh_key hs) \<Longrightarrow> h \<in> set hs \<Longrightarrow>
   map_of (map (\<lambda>h. (hh_key h, elt h)) (remove1 h hs)) =
   (map_of (map (\<lambda>h. (hh_key h, elt h)) hs))(hh_key h := None)"
proof (induction hs)
  case (Cons g hs)
  show ?case
  proof (cases "g = h")
    case True
    with Cons.prems have "hh_key h \<notin> dom (map_of (map (\<lambda>h. (hh_key h, elt h)) hs))"
      by (simp add: dom_map_of_conv_image_fst image_image)
    with True show ?thesis by (auto simp: fun_eq_iff dom_def)
  next
    case False
    then have "hh_key h \<noteq> hh_key g" using Cons.prems by (auto simp: image_iff)
    with Cons False show ?thesis by (auto simp: fun_eq_iff)
  qed
qed simp

lemma delete_lemma:
  assumes ok: "hash_ok (Some t)" and h: "h \<in> set (items t)"
  shows "hash_ok (hash_delete t h)"
    and "entries (hash_delete t h) = map (\<lambda>h. (hh_key h, elt h)) (remove1 h (items t))"
    and "hash_count (hash_delete t h) = hash_count (Some t) - 1"
proof -
  have t: "table_ok t" using ok by (simp add: hash_ok_def)
  have hold: "holds t (mset (items t))" using t by (simp only: table_ok_iff)
  consider "items t = [h]" | (more) "items t \<noteq> [h]" by blast
  then have "hash_ok (hash_delete t h) \<and>
    entries (hash_delete t h) = map (\<lambda>h. (hh_key h, elt h)) (remove1 h (items t)) \<and>
    hash_count (hash_delete t h) = hash_count (Some t) - 1"
  proof cases
    case 1
    then show ?thesis using table_okD(5) [OF t]
      by (simp add: hash_delete_def hash_ok_def entries_def hash_count_def)
  next
    case more
    let ?i = "bkt_of (num_buckets t) h"
    let ?t = "t\<lparr>items := remove1 h (items t), buckets := (buckets t)[?i := del_in_bkt (buckets t ! ?i) h],
                num_items := num_items t - 1\<rparr>"
    have d: "hash_delete t h = Some ?t"
      using more by (simp add: hash_delete_def Let_def bkt_of_def)
    have ne: "remove1 h (items t) \<noteq> []"
      using more h by (cases "items t") (auto split: if_splits)
    have "?i < length (buckets t)"
      using holdsD(3,4) [OF hold] by (simp only: chains_hold_def)
    with h have "holds ?t (mset (remove1 h (items t)))"
      using holdsD(1,2) [OF hold] chains_hold_remove [OF holdsD(3) [OF hold], of h]
      by (simp add: holds_def)
    moreover have "0 < length (items t)" using h by (cases "items t") auto
    then have "num_items t - 1 = of_nat (length (remove1 h (items t)))"
      using table_okD(5) [OF t] h of_nat_pred_u32 [of "length (items t)"]
      by (simp add: length_remove1)
    moreover have "distinct (map hh_key (remove1 h (items t)))"
      using table_okD(7) [OF t] by (simp add: distinct_map inj_on_def distinct_remove1)
    moreover have "\<forall>g\<in>set (remove1 h (items t)). handle_ok g"
      using table_okD(6) [OF t] by (meson notin_set_remove1)
    ultimately have "table_ok ?t" using ne by (simp add: table_ok_iff)
    then show ?thesis by (simp add: d hash_ok_def entries_def hash_count_def)
  qed
  then show "hash_ok (hash_delete t h)"
    and "entries (hash_delete t h) = map (\<lambda>h. (hh_key h, elt h)) (remove1 h (items t))"
    and "hash_count (hash_delete t h) = hash_count (Some t) - 1"
    by blast+
qed

lemma delete_each_all: "table_ok t \<Longrightarrow> items t = hs \<Longrightarrow> delete_each hs (Some t) = ret None"
proof (induction hs arbitrary: t)
  case (Cons h hs)
  note d = delete_lemma(1) [of t h]
  show ?case
  proof (cases "hs = []")
    case False
    then obtain t' where t': "hash_delete t h = Some t'" "items t' = hs"
      using Cons.prems(2) by (auto simp: hash_delete_def Let_def)
    with d Cons.prems have "table_ok t'" by (simp add: hash_ok_def)
    from Cons.IH [OF this t'(2)] t'(1) show ?thesis by simp
  qed (use Cons.prems(2) in \<open>simp add: hash_delete_def\<close>)
qed (simp add: table_ok_iff)

lemma sort_hash_ok:
  assumes "hash_ok head"
  shows "hash_ok (hash_sort cmp head)" "mset (entries (hash_sort cmp head)) = mset (entries head)"
    "hash_log (hash_sort cmp head) = hash_log head"
proof -
  have "hash_ok (hash_sort cmp head) \<and> mset (entries (hash_sort cmp head)) = mset (entries head)
    \<and> hash_log (hash_sort cmp head) = hash_log head"
  proof (cases head)
    case (Some t)
    let ?s = "sort_loop (\<lambda>a b. cmp (elt a) (elt b)) 1 (items t)"
    have m: "mset ?s = mset (items t)" by (rule mset_sort_loop) simp
    then have s: "set ?s = set (items t)" "length ?s = length (items t)"
      by (metis set_mset_mset, metis size_mset)
    have "mset (map hh_key ?s) = mset (map hh_key (items t))" using m by simp
    then have d: "distinct (map hh_key ?s) = distinct (map hh_key (items t))"
      by (rule mset_eq_imp_distinct_iff)
    have "table_ok t" using assms Some by (simp add: hash_ok_def)
    then have "table_ok (t\<lparr>items := ?s\<rparr>)"
      using m s d by (auto simp: table_ok_iff holds_def)
    moreover have "mset (map (\<lambda>h. (hh_key h, elt h)) ?s) = mset (map (\<lambda>h. (hh_key h, elt h)) (items t))"
      using m by simp
    ultimately show ?thesis
      by (simp add: Some hash_sort_def hash_ok_def entries_def hash_log_def)
  qed (simp add: hash_sort_def hash_ok_def)
  then show "hash_ok (hash_sort cmp head)" "mset (entries (hash_sort cmp head)) = mset (entries head)"
    "hash_log (hash_sort cmp head) = hash_log head" by blast+
qed

lemma hash_iter_entries: "hash_iter head = map snd (entries head)"
  by (simp add: hash_iter_def entries_def split: option.splits)

lemma hash_sort_order:
  assumes "comparison cmp ok" "\<forall>x\<in>set (hash_iter head). ok x" "ok a"
  shows "sorted_wrt (\<lambda>x y. cmp x y \<le> 0) (hash_iter (hash_sort cmp head)) \<and>
    filter (\<lambda>x. cmp a x \<le> 0 \<and> cmp x a \<le> 0) (hash_iter (hash_sort cmp head))
        = filter (\<lambda>x. cmp a x \<le> 0 \<and> cmp x a \<le> 0) (hash_iter head)"
proof (cases head)
  case (Some t)
  let ?s = "sort_loop (\<lambda>a b. cmp (elt a) (elt b)) 1 (items t)"
  have it: "hash_iter head = map elt (items t)" "hash_iter (hash_sort cmp head) = map elt ?s"
    using Some by (simp_all add: hash_iter_def hash_sort_def)
  let ?h = "\<lparr>hh_key = [], keylen = 0, hashv = 0, elt = a\<rparr>"
  note srt = comparison.sort_correct [OF comparison.comparison_on [OF assms(1), of elt], of "items t"]
  have ok: "\<forall>x\<in>set (items t). ok (elt x)" using assms(2) by (simp add: it)
  show ?thesis using srt(1) [OF ok] srt(3) [OF ok, of ?h] assms(3)
    by (simp add: it sorted_wrt_map filter_map comp_def)
qed (simp add: hash_sort_def hash_iter_def)

lemma hash_count_entries:
  "hash_ok head \<Longrightarrow> length (entries head) < 2 ^ 32 \<Longrightarrow> unat (hash_count head) = length (entries head)"
  by (auto simp: hash_ok_def hash_count_def entries_def table_ok_iff unat_of_nat_u32
      simp del: of_nat_unat split: option.splits)

section \<open>The contract of a table with string keys\<close>

locale keyed_table =
  fixes find_key :: "'t \<Rightarrow> bytes \<Rightarrow> 'a option"
    and add_key :: "'t \<Rightarrow> bytes \<Rightarrow> 'a \<Rightarrow> 't run"
    and entries_of :: "'t \<Rightarrow> (bytes \<times> 'a) list"
    and inv :: "'t \<Rightarrow> bool"
    and room :: "'t \<Rightarrow> bool"
    and key_ok :: "bytes \<Rightarrow> bool"
  assumes find_law: "inv t \<Longrightarrow> key_ok k \<Longrightarrow> find_key t k = map_of (entries_of t) k"
    and add_law: "inv t \<Longrightarrow> room t \<Longrightarrow> key_ok k \<Longrightarrow> k \<notin> fst ` set (entries_of t) \<Longrightarrow>
      \<exists>t'. add_key t k e = ret t' \<and> inv t' \<and> entries_of t' = entries_of t @ [(k, e)]"
begin

lemma find_None: "inv t \<Longrightarrow> key_ok k \<Longrightarrow> find_key t k = None \<longleftrightarrow> k \<notin> fst ` set (entries_of t)"
  by (simp add: find_law map_of_eq_None_iff)

lemma find_after_add:
  assumes "inv t" "room t" "key_ok k" "find_key t k = None" "key_ok k'"
  shows "\<exists>t'. add_key t k e = ret t' \<and> inv t'
    \<and> find_key t' k' = (if k' = k then Some e else find_key t k')"
proof -
  have new: "k \<notin> fst ` set (entries_of t)" using assms find_None by blast
  from add_law [OF assms(1-3) new, of e] obtain t' where
    t': "add_key t k e = ret t'" "inv t'" "entries_of t' = entries_of t @ [(k, e)]"
    by blast
  have nk: "map_of (entries_of t) k = None" using assms find_law by simp
  have "find_key t' k' = (map_of (entries_of t) ++ [k \<mapsto> e]) k'" if "k' = k"
    using find_law [OF t'(2) assms(5)] nk that by (simp add: t'(3) map_add_def)
  moreover have "find_key t' k' = find_key t k'" if "k' \<noteq> k"
    using find_law [OF t'(2) assms(5)] find_law [OF assms(1,5)] that
    by (simp add: t'(3) map_add_def split: option.splits)
  ultimately have "find_key t' k' = (if k' = k then Some e else find_key t k')" by simp
  with t' show ?thesis by blast
qed

end

interpretation hash_table:
  keyed_table hash_find_str hash_add_str entries hash_ok hash_room "\<lambda>k. length k < 2 ^ 32"
proof unfold_locales
  fix head :: "'a uthash option" and k :: bytes and e :: 'a
  assume "hash_ok head" "hash_room head" "length k < 2 ^ 32" "k \<notin> fst ` set (entries head)"
  from add_str_lemma [OF this, of e]
  show "\<exists>t'. hash_add_str head k e = ret t' \<and> hash_ok t' \<and> entries t' = entries head @ [(k, e)]"
    by blast
qed (rule lookup_correct)

section \<open>The operations as clients see them\<close>

text \<open>Property C21. Adding a key that is not in the table, with or without an expansion of the buckets,
  changes lookup at that key only and appends to the iteration order.\<close>

theorem hash_add_then_find:
  assumes "hash_ok head" "hash_room head" "length k < 2 ^ 32" "hash_find_str head k = None"
  shows "\<exists>head'. hash_add_str head k e = ret head' \<and> hash_ok head'
    \<and> hash_iter head' = hash_iter head @ [e]
    \<and> (\<forall>k'. length k' < 2 ^ 32 \<longrightarrow>
         hash_find_str head' k' = (if k' = k then Some e else hash_find_str head k'))"
proof -
  have "k \<notin> fst ` set (entries head)"
    using hash_table.find_None [OF assms(1,3)] assms(4) by blast
  from hash_table.add_law [OF assms(1-3) this, of e] obtain head' where
    h: "hash_add_str head k e = ret head'" "hash_ok head'" "entries head' = entries head @ [(k, e)]"
    by blast
  have "hash_find_str head' k' = (if k' = k then Some e else hash_find_str head k')"
    if "length k' < 2 ^ 32" for k'
    using hash_table.find_after_add [OF assms(1-4) that, of e] h(1) by auto
  with h show ?thesis by (auto simp: hash_iter_entries)
qed

theorem hash_add_then_find_witness:
  "\<exists>head'. hash_add_str None [107, 101, 121] (7 :: nat) = ret head'
     \<and> hash_find_str head' [107, 101, 121] = Some 7 \<and> hash_find_str head' [107] = None"
proof -
  have "hash_find_str None [107, 101, 121] = (None :: nat option)"
    "hash_find_str None [107] = (None :: nat option)"
    by (simp_all add: hash_find_str_def hash_find_def hash_find_byhashvalue_def)
  with hash_add_then_find [of None "[107, 101, 121]" "7 :: nat"] show ?thesis
    by (auto simp: hash_ok_def hash_room_def)
qed

text \<open>Deleting an entry makes its key unknown and leaves every other key as it is; the
  head becomes NULL with the last entry.\<close>

theorem hash_delete_then_find:
  assumes "hash_ok (Some t)" "h \<in> set (items t)" "length k < 2 ^ 32"
  shows "hash_ok (hash_delete t h) \<and> hash_iter (hash_delete t h) = map elt (remove1 h (items t))
    \<and> hash_find_str (hash_delete t h) k = (if k = hh_key h then None else hash_find_str (Some t) k)"
proof (intro conjI)
  note d = delete_lemma [OF assms(1,2)]
  have t: "distinct (map hh_key (items t))" using assms(1) by (simp add: hash_ok_def table_ok_iff)
  have E: "entries (Some t) = map (\<lambda>h. (hh_key h, elt h)) (items t)" by (simp add: entries_def)
  show "hash_ok (hash_delete t h)" by (rule d)
  show "hash_find_str (hash_delete t h) k = (if k = hh_key h then None else hash_find_str (Some t) k)"
    unfolding hash_table.find_law [OF d(1) assms(3)] hash_table.find_law [OF assms(1,3)]
      d(2) E map_of_remove1 [OF t assms(2)] by simp
  show "hash_iter (hash_delete t h) = map elt (remove1 h (items t))"
    by (simp add: hash_iter_entries d(2))
qed

definition demo_handle :: "nat hh" where
  "demo_handle = \<lparr>hh_key = [107], keylen = 1, hashv = hash_jen [107] 1, elt = 7\<rparr>"

theorem hash_delete_then_find_witness:
  "\<exists>t. hash_add_str None [107] 7 = ret (Some t) \<and> hash_find_str (hash_delete t demo_handle) [107] = None"
proof -
  have add: "hash_add_str None [107] (7 :: nat) = ret (Some t)"
    if "add_to_table (make_table demo_handle) (hashv demo_handle) demo_handle = ret t" for t
    using that by (simp add: hash_add_str_def hash_add_keyptr_def hash_add_keyptr_byhashvalue_def
        Let_def demo_handle_def)
  obtain t where t: "add_to_table (make_table demo_handle) (hashv demo_handle) demo_handle = ret t"
    "items t = [demo_handle]"
    using add_to_table_holds [OF make_table_holds [of demo_handle], of demo_handle]
    by (auto simp: make_table_def)
  have "hash_ok (Some t)"
    using add_str_total [of None "[107]" "7 :: nat"] add [OF t(1)]
    by (auto simp: hash_ok_def entries_def hash_room_def)
  with hash_delete_then_find [of t demo_handle "[107]"] t add [OF t(1)] show ?thesis
    by (auto simp: demo_handle_def)
qed

end
