(* ===== verification/UtHash_Sort32.thy ===== *)
theory UtHash_Sort32
  imports UtHash_Table
begin

text \<open>
  \<open>HASH_SRT\<close> of \<open>uthash.h\<close> with its counters as the source has them: \<open>_hs_insize\<close>,
  \<open>_hs_psize\<close>, \<open>_hs_qsize\<close> and \<open>_hs_nmerges\<close> are \<open>unsigned\<close>, so that they wrap, and a pass with
  a run length of 0 does not end. For a table of fewer than \<open>2 ^ 32\<close> elements no counter wraps
  while the loop goes on, and the macro computes what \<open>hash_sort\<close> says.
\<close>

section \<open>The macro\<close>

function merge_runs32 :: "('b \<Rightarrow> 'b \<Rightarrow> int) \<Rightarrow> 'b list \<Rightarrow> u32 \<Rightarrow> 'b list \<Rightarrow> u32 \<Rightarrow> 'b list \<times> 'b list" where
  "merge_runs32 cmp ps psize qs qsize =
    (if psize \<noteq> 0 \<or> (qsize \<noteq> 0 \<and> qs \<noteq> []) then
       if psize = 0 then
         (case merge_runs32 cmp ps psize (tl qs) (qsize - 1) of (es, r) \<Rightarrow> (hd qs # es, r))
       else if qsize = 0 \<or> qs = [] then
         (case merge_runs32 cmp (tl ps) (psize - 1) qs qsize of (es, r) \<Rightarrow> (hd ps # es, r))
       else if cmp (hd ps) (hd qs) \<le> 0 then
         (case merge_runs32 cmp (tl ps) (psize - 1) qs qsize of (es, r) \<Rightarrow> (hd ps # es, r))
       else
         (case merge_runs32 cmp ps psize (tl qs) (qsize - 1) of (es, r) \<Rightarrow> (hd qs # es, r))
     else ([], qs))"
  by pat_completeness auto
termination
  by (relation "measure (\<lambda>(cmp, ps, psize, qs, qsize). unat psize + unat qsize)")
    (auto simp: unat_minus_one unat_gt_0)

declare merge_runs32.simps [simp del]

text \<open>A pass; the \<open>for\<close> loop counts \<open>_hs_psize\<close> up to \<open>_hs_insize\<close> or the end of the list.
  The result is the new list and \<open>_hs_nmerges\<close>.\<close>

partial_function (option) sort_pass32 :: "('b \<Rightarrow> 'b \<Rightarrow> int) \<Rightarrow> u32 \<Rightarrow> 'b list \<Rightarrow> ('b list \<times> u32) run" where
  "sort_pass32 cmp insize ps =
    (if ps = [] then ret ([], 0) else
     let n = min (unat insize) (length ps);
         m = merge_runs32 cmp ps (of_nat n) (drop n ps) insize
     in rbind (sort_pass32 cmp insize (snd m)) (\<lambda>(es, nmerges). ret (fst m @ es, nmerges + 1)))"

partial_function (option) sort_loop32 :: "('b \<Rightarrow> 'b \<Rightarrow> int) \<Rightarrow> u32 \<Rightarrow> 'b list \<Rightarrow> 'b list run" where
  "sort_loop32 cmp insize xs = rbind (sort_pass32 cmp insize xs) (\<lambda>(ys, nmerges).
     if nmerges \<le> 1 then ret ys else sort_loop32 cmp (insize * 2) ys)"

definition hash_srt :: "('a \<Rightarrow> 'a \<Rightarrow> int) \<Rightarrow> 'a uthash option \<Rightarrow> 'a uthash option run" where
  "hash_srt cmp head =
    (case head of None \<Rightarrow> ret None
     | Some t \<Rightarrow> rbind (sort_loop32 (\<lambda>a b. cmp (elt a) (elt b)) 1 (items t)) (\<lambda>l. ret (Some (t\<lparr>items := l\<rparr>))))"

section \<open>No counter wraps\<close>

lemma merge_runs32_eq: "merge_runs32 cmp ps psize qs qsize = merge_runs cmp ps (unat psize) qs (unat qsize)"
proof (induction cmp ps psize qs qsize rule: merge_runs32.induct)
  case (1 cmp ps psize qs qsize)
  consider (stop) "psize = 0" "qsize = 0 \<or> qs = []" | (right) "psize = 0" "qsize \<noteq> 0" "qs \<noteq> []"
    | (left) "psize \<noteq> 0" "qsize = 0 \<or> qs = []" | (first) "psize \<noteq> 0" "qsize \<noteq> 0" "qs \<noteq> []" "cmp (hd ps) (hd qs) \<le> 0"
    | (second) "psize \<noteq> 0" "qsize \<noteq> 0" "qs \<noteq> []" "\<not> cmp (hd ps) (hd qs) \<le> 0"
    by blast
  then show ?case
  proof cases
    case stop
    then show ?thesis by (subst merge_runs32.simps, subst merge_runs.simps) auto
  next
    case right
    with 1(1) show ?thesis
      by (subst merge_runs32.simps, subst merge_runs.simps) (simp add: unat_minus_one unat_eq_zero)
  next
    case left
    then have "merge_runs32 cmp (tl ps) (psize - 1) qs qsize = merge_runs cmp (tl ps) (unat psize - 1) qs (unat qsize)"
      using 1(2) by (simp add: unat_minus_one)
    with left show ?thesis
      by (subst merge_runs32.simps, subst merge_runs.simps) (auto simp: unat_eq_zero)
  next
    case first
    with 1(3) show ?thesis
      by (subst merge_runs32.simps, subst merge_runs.simps) (simp add: unat_minus_one unat_eq_zero)
  next
    case second
    with 1(4) show ?thesis
      by (subst merge_runs32.simps, subst merge_runs.simps) (simp add: unat_minus_one unat_eq_zero)
  qed
qed

lemma sort_pass_merges: "snd (sort_pass cmp n ps) \<le> length ps"
proof (induction cmp n ps rule: sort_pass.induct)
  case (1 cmp n ps)
  show ?case
  proof (cases "ps = [] \<or> n = 0")
    case False
    let ?m = "merge_runs cmp ps (min n (length ps)) (drop (min n (length ps)) ps) n"
    have "length (snd ?m) \<le> length (drop (min n (length ps)) ps)" by (rule merge_runs_rest_length)
    also have "\<dots> < length ps" using False by (cases ps) auto
    finally have "length (snd ?m) < length ps" .
    moreover have "snd (sort_pass cmp n (snd ?m)) \<le> length (snd ?m)" using 1 False by simp
    ultimately show ?thesis using False by (subst sort_pass.simps) (simp add: Let_def)
  qed (auto simp: sort_pass.simps)
qed

lemma sort_pass32_eq:
  assumes "insize \<noteq> 0"
  shows "sort_pass32 cmp insize ps =
    ret (fst (sort_pass cmp (unat insize) ps), of_nat (snd (sort_pass cmp (unat insize) ps)))"
  using assms
proof (induction cmp "unat insize" ps rule: sort_pass.induct)
  case (1 cmp ps)
  let ?n = "min (unat insize) (length ps)"
  have small: "unat (of_nat ?n :: u32) = ?n"
    using unsigned_less [of insize, where ?'a = nat] by (intro unat_of_nat_u32) (simp add: min_less_iff_disj)
  have nz: "unat insize \<noteq> 0" using 1(2) by (simp add: unat_eq_zero)
  show ?case
  proof (cases "ps = []")
    case True
    then show ?thesis by (subst sort_pass32.simps, subst (1 2) sort_pass.simps) simp
  next
    case False
    then show ?thesis using 1(1) [OF _ refl refl 1(2)] nz
      by (subst sort_pass32.simps, subst (1 2) sort_pass.simps)
        (simp add: Let_def merge_runs32_eq small add.commute)
  qed
qed

lemma sort_loop32_eq:
  "insize \<noteq> 0 \<Longrightarrow> length xs < 2 ^ 32 \<Longrightarrow> sort_loop32 cmp insize xs = ret (sort_loop cmp (unat insize) xs)"
proof (induction cmp "unat insize" xs arbitrary: insize rule: sort_loop.induct)
  case (1 cmp xs)
  let ?r = "sort_pass cmp (unat insize) xs"
  have k: "snd ?r < 2 ^ 32" using sort_pass_merges [of cmp "unat insize" xs] 1(3) by linarith
  then have le: "(of_nat (snd ?r) :: u32) \<le> 1 \<longleftrightarrow> snd ?r \<le> 1"
    by (simp add: word_le_nat_alt unat_of_nat_u32)
  show ?case
  proof (cases "snd ?r \<le> 1")
    case True
    then show ?thesis using le
      by (subst sort_loop32.simps, subst sort_loop.simps) (simp add: sort_pass32_eq [OF 1(2)] Let_def)
  next
    case False
    then have "2 * unat insize < length xs" using sort_pass_progress [of cmp "unat insize" xs] by simp
    then have "unat insize * 2 < 2 ^ 32" using 1(3) by linarith
    then have u: "unat (insize * 2) = unat insize * 2" by (simp add: unat_word_ariths)
    moreover have "0 < unat insize" using 1(2) by (simp add: unat_gt_0)
    ultimately have "insize * 2 \<noteq> 0" by (metis mult_is_0 not_gr_zero unat_0 zero_neq_numeral)
    moreover have "length (fst ?r) = length xs"
      using mset_sort_pass [OF \<open>0 < unat insize\<close>] by (metis size_mset)
    ultimately show ?thesis using 1(1) [OF refl False u [symmetric]] u 1(3) le False
      by (subst sort_loop32.simps, subst sort_loop.simps) (simp add: sort_pass32_eq [OF 1(2)] Let_def)
  qed
qed

lemma hash_srt_eq: "length (hash_iter head) < 2 ^ 32 \<Longrightarrow> hash_srt cmp head = ret (hash_sort cmp head)"
  using sort_loop32_eq [OF one_neq_zero, of "items (the head)" "\<lambda>a b. cmp (elt a) (elt b)"]
  by (cases head) (simp_all add: hash_srt_def hash_sort_def hash_iter_def)

section \<open>Correctness\<close>

text \<open>Property C22. \<open>HASH_SRT\<close> on a well-formed table of fewer than \<open>2 ^ 32\<close> elements, with a
  comparison function that orders them, ends, and then iteration gives the same elements
  in ascending order; those that compare equal keep their order, and every key is found as
  before.\<close>

theorem hash_sort_correct:
  assumes "comparison cmp ok" "hash_ok head" "\<forall>x\<in>set (hash_iter head). ok x" "ok a" "length k < 2 ^ 32"
    and "length (hash_iter head) < 2 ^ 32"
  shows "\<exists>head'. hash_srt cmp head = ret head'
    \<and> sorted_wrt (\<lambda>x y. cmp x y \<le> 0) (hash_iter head')
    \<and> mset (hash_iter head') = mset (hash_iter head)
    \<and> filter (\<lambda>x. cmp a x \<le> 0 \<and> cmp x a \<le> 0) (hash_iter head')
        = filter (\<lambda>x. cmp a x \<le> 0 \<and> cmp x a \<le> 0) (hash_iter head)
    \<and> hash_find_str head' k = hash_find_str head k"
proof -
  note s = sort_hash_ok [OF assms(2), of cmp]
  have E: "mset (map fst (entries (hash_sort cmp head))) = mset (map fst (entries head))"
    using s(2) by simp
  have "distinct (map fst (entries head))"
    using assms(2) by (auto simp: hash_ok_def table_ok_iff entries_def comp_def split: option.splits)
  then have "map_of (entries (hash_sort cmp head)) = map_of (entries head)"
    using map_of_inject_set [of "entries (hash_sort cmp head)" "entries head"]
      mset_eq_imp_distinct_iff [OF E] mset_eq_setD [OF s(2)] by simp
  then have f: "hash_find_str (hash_sort cmp head) k = hash_find_str head k"
    by (simp only: hash_table.find_law [OF s(1) assms(5)] hash_table.find_law [OF assms(2,5)])
  have m: "mset (hash_iter (hash_sort cmp head)) = mset (hash_iter head)"
    using s(2) by (simp add: hash_iter_entries)
  have "sorted_wrt (\<lambda>x y. cmp x y \<le> 0) (hash_iter (hash_sort cmp head)) \<and>
    filter (\<lambda>x. cmp a x \<le> 0 \<and> cmp x a \<le> 0) (hash_iter (hash_sort cmp head))
        = filter (\<lambda>x. cmp a x \<le> 0 \<and> cmp x a \<le> 0) (hash_iter head)"
    using assms(1,3,4) by (rule hash_sort_order)
  with f m hash_srt_eq [OF assms(6)] show ?thesis by blast
qed

definition demo_cmp :: "nat \<Rightarrow> nat \<Rightarrow> int" where
  "demo_cmp a b = int a - int b"

theorem hash_sort_correct_witness:
  "\<exists>head head'. hash_add_str None [107] 7 = ret head \<and> hash_srt demo_cmp head = ret head' \<and> hash_iter head' = [7]"
proof -
  obtain head where h: "hash_add_str None [107] 7 = ret head" "hash_ok head" "entries head = [([107], 7 :: nat)]"
    using add_str_lemma [of None "[107]" "7 :: nat"] by (auto simp: hash_ok_def hash_room_def entries_def)
  have "comparison demo_cmp (\<lambda>_. True)" by unfold_locales (auto simp: demo_cmp_def)
  moreover have it: "hash_iter head = [7]" by (simp add: hash_iter_entries h(3))
  ultimately obtain head' where "hash_srt demo_cmp head = ret head'" "mset (hash_iter head') = mset (hash_iter head)"
    using hash_sort_correct [OF _ h(2), where a = 7 and k = "[107]" and ok = "\<lambda>_. True"] by auto
  with it h(1) show ?thesis by (auto simp: mset_single_iff)
qed

end
