(* ===== verification/Lab3.thy ===== *)
theory Lab3
  imports C_Strings
begin

text \<open>
  \<open>lab/lab3.c\<close>: a history of lines in an array of five pointers, printed when the line
  "print" is entered. The lines are what \<open>getline\<close> returns; at the end of the input the
  program exits with status 1. An entry of the array is \<open>None\<close> until it is written.
\<close>

definition MAX_LEN :: nat where "MAX_LEN = 5"

record line_history =
  slots :: "bytes option list"
  history :: nat

definition init_lines :: line_history where
  "init_lines = \<lparr>slots = replicate MAX_LEN None, history = 0\<rparr>"

definition dequeue_line :: "line_history \<Rightarrow> line_history" where
  "dequeue_line s = s\<lparr>slots := foldl (\<lambda>c i. c[i - 1 := c ! i]) (slots s) [1..<history s], history := history s - 1\<rparr>"

definition enqueue_line :: "bytes \<Rightarrow> line_history \<Rightarrow> line_history run" where
  "enqueue_line input s =
    (let s = (if MAX_LEN < history s then dequeue_line s else s)
     in if history s < length (slots s)
        then ret (s\<lparr>slots := (slots s)[history s := Some input], history := history s + 1\<rparr>)
        else fail OutOfBounds)"

fun print_lines :: "bytes option list \<Rightarrow> bytes list run" where
  "print_lines [] = ret []"
| "print_lines (None # cs) = fail NullDeref"
| "print_lines (Some x # cs) = rbind (print_lines cs) (\<lambda>xs. ret (x # xs))"

definition print_all :: "line_history \<Rightarrow> bytes list run" where
  "print_all s = print_lines (take (history s) (slots s))"

text \<open>\<open>getline\<close> returned the line with its last byte, which is overwritten with NUL.\<close>

definition get_input :: "bytes \<Rightarrow> bytes" where
  "get_input line = cstr_of (butlast line)"

definition print_word :: bytes where "print_word = [112, 114, 105, 110, 116]"

text \<open>The lines printed before the end of the input, and the status.\<close>

fun main_lab3 :: "bytes list \<Rightarrow> line_history \<Rightarrow> (bytes list \<times> int) run" where
  "main_lab3 [] s = ret ([], 1)"
| "main_lab3 (line # lines) s =
    (let input = get_input line
     in rbind (enqueue_line input s) (\<lambda>s.
        rbind (if strcmp input print_word = 0 then print_all s else ret []) (\<lambda>out.
        rbind (main_lab3 lines s) (\<lambda>(rest, status). ret (out @ rest, status)))))"

section \<open>Five lines\<close>

definition holds_lines :: "line_history \<Rightarrow> bytes list \<Rightarrow> bool" where
  "holds_lines s xs \<longleftrightarrow> length (slots s) = MAX_LEN \<and> history s = length xs \<and> length xs \<le> MAX_LEN
     \<and> take (length xs) (slots s) = map Some xs"

lemma holds_lines_init: "holds_lines init_lines []"
  by (simp add: holds_lines_def init_lines_def)

lemma print_lines_Some: "print_lines (map Some xs) = ret xs"
  by (induction xs) auto

lemma print_all_holds: "holds_lines s xs \<Longrightarrow> print_all s = ret xs"
  by (simp add: print_all_def holds_lines_def print_lines_Some)

lemma enqueue_line_room:
  assumes "holds_lines s xs" "length xs < MAX_LEN"
  shows "\<exists>s'. enqueue_line x s = ret s' \<and> holds_lines s' (xs @ [x])"
  using assms by (simp add: enqueue_line_def holds_lines_def take_Suc_conv_app_nth)

lemma enqueue_line_full:
  assumes "holds_lines s xs" "length xs = MAX_LEN"
  shows "enqueue_line x s = fail OutOfBounds"
  using assms by (simp add: enqueue_line_def holds_lines_def)

text \<open>What the program should print: at each "print", the lines so far.\<close>

fun printed :: "bytes list \<Rightarrow> bytes list \<Rightarrow> bytes list" where
  "printed past [] = []"
| "printed past (line # lines) =
    (let now = past @ [get_input line]
     in (if strcmp (get_input line) print_word = 0 then now else []) @ printed now lines)"

lemma main_lab3_holds:
  "holds_lines s past \<Longrightarrow> main_lab3 lines s =
    (if length past + length lines \<le> MAX_LEN then ret (printed past lines, 1) else fail OutOfBounds)"
proof (induction lines arbitrary: s past)
  case Nil
  then show ?case by (simp add: holds_lines_def)
next
  case (Cons line lines)
  show ?case
  proof (cases "length past < MAX_LEN")
    case True
    obtain s1 where s1: "enqueue_line (get_input line) s = ret s1" "holds_lines s1 (past @ [get_input line])"
      using enqueue_line_room [OF Cons.prems True] by blast
    show ?thesis
      using s1(1) print_all_holds [OF s1(2)] Cons.IH [OF s1(2)] by (simp add: Let_def)
  next
    case False
    then have "length past = MAX_LEN" using Cons.prems by (simp add: holds_lines_def)
    then show ?thesis using enqueue_line_full [OF Cons.prems, of "get_input line"] by (simp add: Let_def)
  qed
qed

text \<open>The test for a full array is off by one: the program prints what it should for up to
  five lines, and writes behind the array with the sixth.\<close>

theorem main_lab3_correct:
  "main_lab3 lines init_lines =
    (if length lines \<le> MAX_LEN then ret (printed [] lines, 1) else fail OutOfBounds)"
  using main_lab3_holds [OF holds_lines_init, of lines] by simp

end
