(* ===== verification/Node_Store.thy ===== *)
theory Node_Store
  imports Base
begin

text \<open>
  An explicit store for the linked structures of the sources (\<open>malloc\<close>, \<open>free\<close>, field
  access through a pointer) and the theory of chains of nodes that every linked list of
  the development uses.

  A pointer is a natural number and \<open>NULL\<close> is \<open>0\<close>. \<open>malloc\<close> returns a pointer that was
  never returned before, or \<open>NULL\<close> once \<open>cap\<close> nodes have been handed out. Reading or
  writing through \<open>NULL\<close> or through a pointer that is not allocated is a fault.
  A chain is stated over any function that reads the \<open>next\<close> field, so that the byte
  memory of the allocator, whose pointers are 64-bit words, uses the same lemmas.
\<close>

section \<open>The store\<close>

record 'n store =
  cells :: "nat \<Rightarrow> 'n option"
  top :: nat
  cap :: nat

definition empty_store :: "nat \<Rightarrow> 'n store" where
  "empty_store n = \<lparr>cells = (\<lambda>_. None), top = 0, cap = n\<rparr>"

text \<open>\<open>malloc\<close> followed by the initialisation of the node to \<open>v\<close>.\<close>

definition malloc :: "'n \<Rightarrow> 'n store \<Rightarrow> nat \<times> 'n store" where
  "malloc v h = (if top h < cap h
     then (Suc (top h), h\<lparr>cells := (cells h)(Suc (top h) \<mapsto> v), top := Suc (top h)\<rparr>)
     else (0, h))"

definition deref :: "'n store \<Rightarrow> nat \<Rightarrow> 'n run" where
  "deref h p = (if p = 0 then fail NullDeref
     else case cells h p of None \<Rightarrow> fail BadDeref | Some n \<Rightarrow> ret n)"

definition assign :: "'n store \<Rightarrow> nat \<Rightarrow> ('n \<Rightarrow> 'n) \<Rightarrow> 'n store run" where
  "assign h p f = rbind (deref h p) (\<lambda>n. ret (h\<lparr>cells := (cells h)(p \<mapsto> f n)\<rparr>))"

definition release :: "'n store \<Rightarrow> nat \<Rightarrow> 'n store run" where
  "release h p = (if p = 0 then ret h
     else rbind (deref h p) (\<lambda>n. ret (h\<lparr>cells := (cells h)(p := None)\<rparr>)))"

text \<open>Every allocated pointer is below the next one that \<open>malloc\<close> returns.\<close>

definition store_ok :: "'n store \<Rightarrow> bool" where
  "store_ok h \<longleftrightarrow> (\<forall>p. cells h p \<noteq> None \<longrightarrow> 0 < p \<and> p \<le> top h)"

lemma deref_Some [simp, run_simps]: "cells h p = Some n \<Longrightarrow> p \<noteq> 0 \<Longrightarrow> deref h p = ret n"
  by (simp add: deref_def)

lemma deref_0 [simp, run_simps]: "deref h 0 = fail NullDeref"
  by (simp add: deref_def)

lemma assign_Some [simp, run_simps]:
  "cells h p = Some n \<Longrightarrow> p \<noteq> 0 \<Longrightarrow>
     assign h p f = ret (h\<lparr>cells := (cells h)(p \<mapsto> f n)\<rparr>)"
  by (simp add: assign_def)

lemma assign_0 [simp, run_simps]: "assign h 0 f = fail NullDeref"
  by (simp add: assign_def)

lemma release_Some [simp, run_simps]:
  "cells h p = Some n \<Longrightarrow> p \<noteq> 0 \<Longrightarrow> release h p = ret (h\<lparr>cells := (cells h)(p := None)\<rparr>)"
  by (simp add: release_def)

lemma store_ok_empty [simp]: "store_ok (empty_store n)"
  by (simp add: store_ok_def empty_store_def)

lemma store_okD: "store_ok h \<Longrightarrow> cells h p = Some n \<Longrightarrow> 0 < p \<and> p \<le> top h"
  by (auto simp: store_ok_def)

lemma store_ok_fresh: "store_ok h \<Longrightarrow> cells h (Suc (top h)) = None"
  unfolding store_ok_def by (metis not_less_eq_eq order_refl)

lemma store_ok_upd: "store_ok h \<Longrightarrow> cells h p = Some n \<Longrightarrow>
    store_ok (h\<lparr>cells := (cells h)(p \<mapsto> m)\<rparr>)"
  by (auto simp: store_ok_def)

lemma store_ok_free: "store_ok h \<Longrightarrow> store_ok (h\<lparr>cells := (cells h)(p := None)\<rparr>)"
  by (auto simp: store_ok_def)

lemma store_ok_malloc: "store_ok h \<Longrightarrow> malloc v h = (p, h') \<Longrightarrow> store_ok h'"
  by (auto simp: store_ok_def malloc_def le_SucI split: if_splits)

section \<open>Chains of nodes\<close>

text \<open>
  \<open>lseg nxt p as q\<close>: following \<open>nxt\<close> from \<open>p\<close> visits exactly the pointers \<open>as\<close>, none
  of them \<open>NULL\<close>, and ends in \<open>q\<close>. A list that ends in \<open>NULL\<close> is \<open>llist\<close>.
\<close>

fun lseg :: "('p::zero \<Rightarrow> 'p) \<Rightarrow> 'p \<Rightarrow> 'p list \<Rightarrow> 'p \<Rightarrow> bool" where
  "lseg nx p [] q \<longleftrightarrow> p = q"
| "lseg nx p (a # as) q \<longleftrightarrow> p = a \<and> a \<noteq> 0 \<and> lseg nx (nx a) as q"

abbreviation llist :: "('p::zero \<Rightarrow> 'p) \<Rightarrow> 'p \<Rightarrow> 'p list \<Rightarrow> bool" where
  "llist nx p as \<equiv> lseg nx p as 0"

lemma llist_0 [simp, chain_simps]: "llist nx 0 as \<longleftrightarrow> as = []"
  by (cases as) auto

lemma llist_nonzero [chain_simps]:
  "p \<noteq> 0 \<Longrightarrow> llist nx p as \<longleftrightarrow> (\<exists>bs. as = p # bs \<and> llist nx (nx p) bs)"
  by (cases as) auto

lemma llist_cases:
  assumes "llist nx p as"
  obtains "p = 0" "as = []" | bs where "p \<noteq> 0" "as = p # bs" "llist nx (nx p) bs"
proof (cases as)
  case Nil
  with assms that(1) show ?thesis by simp
next
  case (Cons a bs)
  with assms that(2) [of bs] show ?thesis by simp
qed

lemma lseg_append [simp, chain_simps]:
  "lseg nx p (as @ bs) q \<longleftrightarrow> (\<exists>r. lseg nx p as r \<and> lseg nx r bs q)"
  by (induction as arbitrary: p) auto

lemma lseg_nonzero: "lseg nx p as q \<Longrightarrow> a \<in> set as \<Longrightarrow> a \<noteq> 0"
  by (induction as arbitrary: p) auto

lemma lseg_cong: "(\<And>a. a \<in> set as \<Longrightarrow> f a = g a) \<Longrightarrow> lseg f p as q \<longleftrightarrow> lseg g p as q"
  by (induction as arbitrary: p) auto

lemma lseg_upd [simp, chain_simps]:
  "a \<notin> set as \<Longrightarrow> lseg (nx(a := b)) p as q \<longleftrightarrow> lseg nx p as q"
  by (rule lseg_cong) auto

lemma llist_unique: "llist nx p as \<Longrightarrow> llist nx p bs \<Longrightarrow> as = bs"
proof (induction as arbitrary: p bs)
  case Nil
  then show ?case by simp
next
  case (Cons a as)
  then show ?case by (cases bs) auto
qed

lemma llist_hd_notin:
  assumes l: "llist nx (nx a) as"
  shows "a \<notin> set as"
proof
  assume "a \<in> set as"
  then obtain xs ys where split: "as = xs @ a # ys" by (meson split_list)
  then have ys: "llist nx (nx a) ys" using l by (metis lseg_append lseg.simps(2))
  have "as = ys" by (rule llist_unique [OF l ys])
  moreover have "length as = length xs + Suc (length ys)" by (simp add: split)
  ultimately show False by simp
qed

lemma llist_distinct: "llist nx p as \<Longrightarrow> distinct as"
  by (induction as arbitrary: p) (auto dest: llist_hd_notin)

lemma llist_snoc:
  "llist nx p (as @ [a]) \<Longrightarrow> b \<noteq> 0 \<Longrightarrow> b \<notin> set (as @ [a]) \<Longrightarrow>
     llist (nx(a := b, b := 0)) p (as @ [a, b])"
proof -
  assume l: "llist nx p (as @ [a])" and b: "b \<noteq> 0" "b \<notin> set (as @ [a])"
  from llist_distinct [OF l] have a: "a \<notin> set as" by simp
  from l have "lseg nx p as a" "a \<noteq> 0" by auto
  with a b show ?thesis by (auto simp: fun_upd_twist)
qed

section \<open>Chains in a store\<close>

text \<open>
  \<open>chain f c p ns q\<close>: from \<open>p\<close>, the next pointer of a node being its field \<open>f\<close>, the
  cells \<open>c\<close> of a store hold exactly the nodes \<open>ns\<close> (pointer and content), the last one
  pointing to \<open>q\<close>.
\<close>

fun chain :: "('n \<Rightarrow> nat) \<Rightarrow> (nat \<Rightarrow> 'n option) \<Rightarrow> nat \<Rightarrow> (nat \<times> 'n) list \<Rightarrow> nat \<Rightarrow> bool" where
  "chain f c p [] q \<longleftrightarrow> p = q"
| "chain f c p ((a, n) # ns) q \<longleftrightarrow> p = a \<and> a \<noteq> 0 \<and> c a = Some n \<and> chain f c (f n) ns q"

definition next_in :: "('n \<Rightarrow> nat) \<Rightarrow> (nat \<Rightarrow> 'n option) \<Rightarrow> nat \<Rightarrow> nat" where
  "next_in f c p = (case c p of None \<Rightarrow> 0 | Some n \<Rightarrow> f n)"

lemma chain_lseg: "chain f c p ns q \<Longrightarrow> lseg (next_in f c) p (map fst ns) q"
  by (induction f c p ns q rule: chain.induct) (auto simp: next_in_def)

lemma chain_append [simp, chain_simps]:
  "chain f c p (ns @ ms) q \<longleftrightarrow> (\<exists>r. chain f c p ns r \<and> chain f c r ms q)"
  by (induction f c p ns q rule: chain.induct) auto

lemma chain_distinct: "chain f c p ns 0 \<Longrightarrow> distinct (map fst ns)"
  by (rule llist_distinct) (rule chain_lseg)

lemma chain_cells: "chain f c p ns q \<Longrightarrow> (a, n) \<in> set ns \<Longrightarrow> c a = Some n \<and> a \<noteq> 0"
  by (induction f c p ns q rule: chain.induct) auto

lemma chain_0 [simp]: "chain f c 0 ns 0 \<longleftrightarrow> ns = []"
  by (cases ns) auto

lemma chain_cong:
  "(\<And>a. a \<in> fst ` set ns \<Longrightarrow> c' a = c a) \<Longrightarrow> chain f c' p ns q \<longleftrightarrow> chain f c p ns q"
  by (induction f c p ns q rule: chain.induct) auto

lemma chain_upd [simp]:
  "a \<notin> fst ` set ns \<Longrightarrow> chain f (c(a := x)) p ns q \<longleftrightarrow> chain f c p ns q"
  by (rule chain_cong) auto

lemma chain_below_top: "store_ok h \<Longrightarrow> chain f (cells h) p ns q \<Longrightarrow> Suc (top h) \<notin> fst ` set ns"
  by (auto dest!: chain_cells store_okD)

lemma malloc_cases:
  obtains (full) "\<not> top h < cap h" "malloc v h = (0, h)"
  | (fresh) "top h < cap h" "malloc v h =
      (Suc (top h), h\<lparr>cells := (cells h)(Suc (top h) \<mapsto> v), top := Suc (top h)\<rparr>)"
  by (auto simp: malloc_def)

lemma chain_malloc:
  "store_ok h \<Longrightarrow> chain f (cells h) p ns q \<Longrightarrow> malloc v h = (a, h') \<Longrightarrow>
     chain f (cells h') p ns q"
  using chain_below_top [of h f p ns q] by (cases rule: malloc_cases [of h v]) auto

text \<open>A chain that ends in \<open>NULL\<close> is unfolded one node at a time.\<close>

lemma chain_cases:
  assumes "chain f c p ns 0"
  obtains "p = 0" "ns = []"
  | n ms where "p \<noteq> 0" "c p = Some n" "ns = (p, n) # ms" "chain f c (f n) ms 0"
proof (cases ns)
  case Nil
  with assms that(1) show ?thesis by simp
next
  case (Cons m ms)
  with assms that(2) show ?thesis by (cases m) auto
qed

end
