(* ===== verification/Byte_Memory.thy ===== *)
theory Byte_Memory
  imports Node_Store
begin

text \<open>
  The memory of the allocator: a function from 64-bit addresses to bytes, with 64-bit
  little-endian loads and stores, and the two fields of \<open>struct header\<close> of
  \<open>lecture/test2/alloc.h\<close> (packed: \<open>size\<close> at offset 0, \<open>next\<close> at offset 8). Headers may
  overlap, as they do in the program when a block is split too tightly; the frame lemmas
  ask for disjoint headers.
\<close>

section \<open>Loads and stores\<close>

type_synonym mem = "u64 \<Rightarrow> u8"

primrec load_le :: "nat \<Rightarrow> mem \<Rightarrow> u64 \<Rightarrow> u64" where
  "load_le 0 m p = 0"
| "load_le (Suc n) m p = ucast (m p) OR push_bit 8 (load_le n m (p + 1))"

primrec store_le :: "nat \<Rightarrow> mem \<Rightarrow> u64 \<Rightarrow> u64 \<Rightarrow> mem" where
  "store_le 0 m p v = m"
| "store_le (Suc n) m p v = (store_le n m (p + 1) (drop_bit 8 v))(p := ucast v)"

lemma load_le_cong:
  "(\<And>i. i < n \<Longrightarrow> m' (p + of_nat i) = m (p + of_nat i)) \<Longrightarrow> load_le n m' p = load_le n m p"
proof (induction n arbitrary: p)
  case (Suc n)
  have "load_le n m' (p + 1) = load_le n m (p + 1)"
    using Suc.prems [of "Suc i" for i] by (intro Suc.IH) (simp add: add.assoc)
  with Suc.prems [of 0] show ?case by simp
qed simp

lemma store_le_other:
  "(\<And>i. i < n \<Longrightarrow> q \<noteq> p + of_nat i) \<Longrightarrow> store_le n m p v q = m q"
proof (induction n arbitrary: p v)
  case (Suc n)
  have "store_le n m (p + 1) (drop_bit 8 v) q = m q"
    using Suc.prems [of "Suc i" for i] by (intro Suc.IH) (simp add: add.assoc)
  with Suc.prems [of 0] show ?case by simp
qed simp

lemma take_bit_bytes:
  "ucast (ucast v :: u8) OR push_bit 8 (take_bit (8 * n) (drop_bit 8 v)) = take_bit (8 + 8 * n) (v :: u64)"
  by (rule bit_word_eqI) (auto simp: bit_simps)

lemma load_store_le:
  "n \<le> 2 ^ 32 \<Longrightarrow> load_le n (store_le n m p v) p = take_bit (8 * n) v"
proof (induction n arbitrary: p v)
  case (Suc n)
  have "p + 1 + of_nat i \<noteq> p" if "i < n" for i
  proof
    assume "p + 1 + of_nat i = p"
    then have "of_nat (Suc i) = (0 :: u64)" by (simp add: add.assoc)
    then have "unat (of_nat (Suc i) :: u64) = 0" by (simp del: of_nat_Suc)
    with that Suc.prems show False by (simp add: unat_of_nat del: of_nat_Suc)
  qed
  then have "load_le n ((store_le n m (p + 1) (drop_bit 8 v))(p := ucast v)) (p + 1)
      = load_le n (store_le n m (p + 1) (drop_bit 8 v)) (p + 1)"
    by (intro load_le_cong) simp
  also have "\<dots> = take_bit (8 * n) (drop_bit 8 v)" using Suc by simp
  finally show ?case by (simp only: load_le.simps store_le.simps fun_upd_same take_bit_bytes) simp
qed simp

section \<open>Headers\<close>

definition size_at :: "mem \<Rightarrow> u64 \<Rightarrow> u64" where
  "size_at m p = load_le 8 m p"

definition next_at :: "mem \<Rightarrow> u64 \<Rightarrow> u64" where
  "next_at m p = load_le 8 m (p + 8)"

definition set_size :: "u64 \<Rightarrow> u64 \<Rightarrow> mem \<Rightarrow> mem" where
  "set_size p v m = store_le 8 m p v"

definition set_next :: "u64 \<Rightarrow> u64 \<Rightarrow> mem \<Rightarrow> mem" where
  "set_next p v m = store_le 8 m (p + 8) v"

text \<open>The sixteen bytes of the header at \<open>p\<close>.\<close>

definition header_bytes :: "u64 \<Rightarrow> u64 set" where
  "header_bytes p = (\<lambda>i. p + of_nat i) ` {..<16}"

lemma word_offset_eq: "i < 2 ^ 32 \<Longrightarrow> j < 2 ^ 32 \<Longrightarrow> (of_nat i :: u64) = of_nat j \<longleftrightarrow> i = j"
  by (auto simp: word_unat_eq_iff unat_of_nat)

lemma offset_8: "p + 8 + of_nat i = p + (of_nat (8 + i) :: u64)"
  by simp

lemma set_size_other: "q \<notin> header_bytes p \<Longrightarrow> set_size p v m q = m q"
  unfolding set_size_def header_bytes_def by (rule store_le_other) fastforce

lemma set_next_other: "q \<notin> header_bytes p \<Longrightarrow> set_next p v m q = m q"
  unfolding set_next_def header_bytes_def
proof (rule store_le_other)
  fix i :: nat assume q: "q \<notin> (\<lambda>i. p + of_nat i) ` {..<16}" and i: "i < 8"
  from i have "p + of_nat (8 + i) \<in> (\<lambda>i. p + of_nat i) ` {..<16}" by (intro imageI) simp
  with q show "q \<noteq> p + 8 + of_nat i" unfolding offset_8 by metis
qed

lemma size_at_cong: "(\<And>q. q \<in> header_bytes p \<Longrightarrow> m' q = m q) \<Longrightarrow> size_at m' p = size_at m p"
  unfolding size_at_def by (rule load_le_cong) (auto simp: header_bytes_def)

lemma next_at_cong: "(\<And>q. q \<in> header_bytes p \<Longrightarrow> m' q = m q) \<Longrightarrow> next_at m' p = next_at m p"
  unfolding next_at_def by (rule load_le_cong) (auto simp: offset_8 header_bytes_def simp del: of_nat_add)

lemma size_at_set_size [simp]: "size_at (set_size p v m) p = v"
  by (simp add: size_at_def set_size_def load_store_le take_bit_word_eq_self)

lemma next_at_set_next [simp]: "next_at (set_next p v m) p = v"
  by (simp add: next_at_def set_next_def load_store_le take_bit_word_eq_self)

lemma size_at_set_next [simp]: "size_at (set_next p v m) p = size_at m p"
  unfolding size_at_def set_next_def
  by (intro load_le_cong store_le_other)
     (simp only: offset_8 add_left_cancel word_offset_eq, simp add: word_offset_eq del: of_nat_add)

lemma next_at_set_size [simp]: "next_at (set_size p v m) p = next_at m p"
  unfolding next_at_def set_size_def
  by (intro load_le_cong store_le_other)
     (simp only: offset_8 add_left_cancel, simp add: word_offset_eq del: of_nat_add)

text \<open>Two headers that share no byte do not disturb each other.\<close>

definition apart :: "u64 \<Rightarrow> u64 \<Rightarrow> bool" where
  "apart p q \<longleftrightarrow> header_bytes p \<inter> header_bytes q = {}"

lemma apart_sym: "apart p q \<Longrightarrow> apart q p"
  by (auto simp: apart_def)

lemma apart_neq: "apart p q \<Longrightarrow> p \<noteq> q"
proof -
  have "p \<in> header_bytes p" unfolding header_bytes_def by (rule image_eqI [of _ _ 0]) simp_all
  then show "apart p q \<Longrightarrow> p \<noteq> q" by (auto simp: apart_def)
qed

lemma header_apart [simp]:
  assumes "apart p q"
  shows "size_at (set_size p v m) q = size_at m q" "next_at (set_size p v m) q = next_at m q"
    "size_at (set_next p v m) q = size_at m q" "next_at (set_next p v m) q = next_at m q"
  using assms
  by (auto simp: apart_def intro!: size_at_cong next_at_cong set_size_other set_next_other)

lemma apartI:
  assumes "unat p + 16 \<le> unat q" "unat q + 16 \<le> 2 ^ 64"
  shows "apart p q"
proof -
  have "p + of_nat i \<noteq> q + of_nat j" if "i < 16" "j < 16" for i j
  proof
    assume "p + of_nat i = q + of_nat j"
    then have "unat (p + of_nat i) = unat (q + of_nat j)" by simp
    moreover have "unat (p + of_nat i) = unat p + i" "unat (q + of_nat j) = unat q + j"
      using that assms by (simp_all add: unat_word_ariths unat_of_nat)
    ultimately show False using that assms by simp
  qed
  then show ?thesis by (auto simp: apart_def header_bytes_def)
qed

text \<open>On concrete addresses: both distances, modulo \<open>2 ^ 64\<close>, are at least a header.\<close>

lemma in_header_iff: "q \<in> header_bytes p \<longleftrightarrow> q - p < 16"
proof
  assume "q \<in> header_bytes p"
  then obtain i where "i < 16" "q = p + of_nat i" by (auto simp: header_bytes_def)
  then show "q - p < 16" by (simp add: word_less_nat_alt unat_of_nat)
next
  assume "q - p < 16"
  then have "unat (q - p) < 16" by (simp add: word_less_nat_alt)
  moreover have "q = p + of_nat (unat (q - p))" by simp
  ultimately show "q \<in> header_bytes p" unfolding header_bytes_def by blast
qed

lemma apart_iff: "apart p q \<longleftrightarrow> 16 \<le> q - p \<and> 16 \<le> p - q"
proof -
  have "\<not> apart p q" if "q - p < 16 \<or> p - q < 16"
  proof -
    have "q \<in> header_bytes p \<inter> header_bytes q \<or> p \<in> header_bytes p \<inter> header_bytes q"
      using that by (simp add: in_header_iff)
    then show ?thesis unfolding apart_def by blast
  qed
  moreover have "apart p q" if "16 \<le> q - p" "16 \<le> p - q"
  proof (rule ccontr)
    assume "\<not> apart p q"
    then obtain r where r: "r - p < 16" "r - q < 16" by (auto simp: apart_def in_header_iff)
    show False
    proof (cases "r - p \<le> r - q")
      case True
      then have "unat ((r - q) - (r - p)) = unat (r - q) - unat (r - p)" by (rule unat_sub)
      with r have "unat (p - q) < 16" by (simp add: word_less_nat_alt)
      with that show False by (simp add: word_le_nat_alt)
    next
      case False
      then have "unat ((r - p) - (r - q)) = unat (r - p) - unat (r - q)" by (intro unat_sub) simp
      with r have "unat (q - p) < 16" by (simp add: word_less_nat_alt)
      with that show False by (simp add: word_le_nat_alt)
    qed
  qed
  ultimately show ?thesis by (meson not_le)
qed

end
