(* ===== verification/Lab4.thy ===== *)
theory Lab4
  imports Byte_Memory
begin

text \<open>
  \<open>lab/lab4.c\<close>: two blocks of 128 bytes are set up from the old program break on, each with
  a header (the layout of \<open>struct header\<close> is the one of the allocator) and filled with a
  byte; then addresses and the contents are printed. \<open>sbrk_ok\<close> tells whether \<open>sbrk(256)\<close>
  succeeds; \<open>a1\<close> and \<open>a2\<close> are the addresses of the two pointer variables.
\<close>

text \<open>\<open>memset(p, v, n)\<close>.\<close>

definition memset :: "u64 \<Rightarrow> u8 \<Rightarrow> u64 \<Rightarrow> mem \<Rightarrow> mem" where
  "memset p v n m = (\<lambda>q. if q - p < n then v else m q)"

definition initialize_block4 :: "u64 \<Rightarrow> u64 \<Rightarrow> u64 \<Rightarrow> u8 \<Rightarrow> mem \<Rightarrow> mem" where
  "initialize_block4 block sz nxt v m = memset (block + 16) v (sz - 16) (set_next block nxt (set_size block sz m))"

text \<open>A \<open>char\<close> is signed: it is extended with its sign to the value that is printed.\<close>

definition print_block :: "u64 \<Rightarrow> mem \<Rightarrow> u64 list" where
  "print_block start m = map (\<lambda>i. scast (m (start + 16 + of_nat i))) [0..<128 - 16]"

definition main_lab4 :: "bool \<Rightarrow> u64 \<Rightarrow> u64 \<Rightarrow> u64 \<Rightarrow> mem \<Rightarrow> string + mem \<times> u64 list" where
  "main_lab4 sbrk_ok a1 a2 start m =
    (if \<not> sbrk_ok then Inl ''sbrk''
     else let block1 = start; block2 = start + 128;
              m = initialize_block4 block1 128 0 0 m;
              m = initialize_block4 block2 128 block2 1 m
          in Inr (m, [a1, a2, block1, block2, block1 + 8, block2 + 8]
                       @ print_block block1 m @ print_block block2 m))"

text \<open>Distances between small offsets, and what a store at one offset does at another.\<close>

lemma unat_offset_diff:
  assumes "i < 2 ^ 32" "a < 2 ^ 32"
  shows "unat (of_nat i - of_nat a :: u64) = (if a \<le> i then i - a else 2 ^ 64 - (a - i))"
  using assms by (auto simp: unat_sub_if' unat_of_nat)

lemma memset_at_offset:
  assumes "i < 2 ^ 32" "a < 2 ^ 32" "n < 2 ^ 32"
  shows "memset (s + of_nat a) v (of_nat n) m (s + of_nat i)
    = (if a \<le> i \<and> i < a + n then v else m (s + of_nat i))"
  using assms by (auto simp: memset_def word_less_nat_alt unat_offset_diff unat_of_nat)

lemma offset_in_header:
  assumes "i < 2 ^ 32" "a < 2 ^ 32"
  shows "s + of_nat i \<in> header_bytes (s + of_nat a) \<longleftrightarrow> a \<le> i \<and> i < a + 16"
  using assms by (auto simp: in_header_iff word_less_nat_alt unat_offset_diff)

lemma initialize_block4_offset:
  assumes "a < 2 ^ 31"
  shows "\<And>i. i < 2 ^ 32 \<Longrightarrow> i < a \<or> a + 128 \<le> i
      \<Longrightarrow> initialize_block4 (s + of_nat a) 128 nx v m (s + of_nat i) = m (s + of_nat i)"
    and "\<And>i. a + 16 \<le> i \<Longrightarrow> i < a + 128
      \<Longrightarrow> initialize_block4 (s + of_nat a) 128 nx v m (s + of_nat i) = v"
    and "size_at (initialize_block4 (s + of_nat a) 128 nx v m) (s + of_nat a) = 128"
    and "next_at (initialize_block4 (s + of_nat a) 128 nx v m) (s + of_nat a) = nx"
proof -
  let ?m = "set_next (s + of_nat a) nx (set_size (s + of_nat a) 128 m)"
  have eq: "initialize_block4 (s + of_nat a) 128 nx v m (s + of_nat i)
      = (if a + 16 \<le> i \<and> i < a + 128 then v else ?m (s + of_nat i))" if "i < 2 ^ 32" for i
    using memset_at_offset [of i "a + 16" 112 s v ?m] that assms
    by (simp add: initialize_block4_def add.assoc)
  show "initialize_block4 (s + of_nat a) 128 nx v m (s + of_nat i) = m (s + of_nat i)"
    if "i < 2 ^ 32" "i < a \<or> a + 128 \<le> i" for i
    using that assms by (auto simp: eq set_next_other set_size_other offset_in_header)
  show "initialize_block4 (s + of_nat a) 128 nx v m (s + of_nat i) = v"
    if "a + 16 \<le> i" "i < a + 128" for i
    using that assms by (simp add: eq)
  have head: "initialize_block4 (s + of_nat a) 128 nx v m q = ?m q" if q: "q \<in> header_bytes (s + of_nat a)" for q
  proof -
    from q obtain j where j: "j < 16" "q = s + of_nat (a + j)"
      by (auto simp: header_bytes_def add.assoc)
    then show ?thesis using eq [of "a + j"] assms by simp
  qed
  show "size_at (initialize_block4 (s + of_nat a) 128 nx v m) (s + of_nat a) = 128"
    using size_at_cong [OF head] by simp
  show "next_at (initialize_block4 (s + of_nat a) 128 nx v m) (s + of_nat a) = nx"
    using next_at_cong [OF head] by simp
qed

text \<open>Wherever the break is, even where the two blocks wrap around the address space: each block
  has its header and its content, and the content of both is printed after the six addresses
  (the third and fourth line, announced as the sizes of the blocks, are addresses too).\<close>

theorem main_lab4_correct:
  "\<exists>m'. main_lab4 True a1 a2 start m
      = Inr (m', [a1, a2, start, start + 128, start + 8, start + 136] @ replicate 112 0 @ replicate 112 1)
    \<and> size_at m' start = 128 \<and> next_at m' start = 0
    \<and> size_at m' (start + 128) = 128 \<and> next_at m' (start + 128) = start + 128"
proof -
  let ?b = "start + 128"
  define m1 where "m1 = initialize_block4 start 128 0 0 m"
  define m2 where "m2 = initialize_block4 ?b 128 ?b 1 m1"
  note I1 = initialize_block4_offset [where a = 0 and s = start and nx = 0 and v = 0 and m = m, simplified, folded m1_def]
  note I2 = initialize_block4_offset [where a = 128 and s = start and nx = ?b and v = 1 and m = m1, simplified, folded m2_def]
  have head: "m2 q = m1 q" if "q \<in> header_bytes start" for q
    using that I2(1) by (auto simp: header_bytes_def)
  have "print_block start m2 = replicate 112 0"
    using I1(2) [of "16 + i" for i] I2(1) [of "16 + i" for i]
    by (intro nth_equalityI) (simp_all add: print_block_def add.assoc)
  moreover have "print_block ?b m2 = replicate 112 1"
    using I2(2) [of "144 + i" for i]
    by (intro nth_equalityI) (simp_all add: print_block_def add.assoc)
  ultimately have "main_lab4 True a1 a2 start m
      = Inr (m2, [a1, a2, start, start + 128, start + 8, start + 136] @ replicate 112 0 @ replicate 112 1)"
    by (simp add: main_lab4_def Let_def m1_def m2_def)
  moreover have "size_at m2 start = 128" "next_at m2 start = 0"
    using size_at_cong [OF head] next_at_cong [OF head] I1 by simp_all
  ultimately show ?thesis using I2 by blast
qed

end
