(* ===== verification/Lab9.thy ===== *)
theory Lab9
  imports C_Strings
begin

text \<open>
  The client and the server of \<open>lab/lab9.c\<close> (a directory): the client sends what it reads
  from its standard input, the server prints each message with the number of its client and
  counts the messages of all clients. A thread of the server reads a message, prints it, takes
  the lock and increases the counter, prints the total and releases the lock; each of these is a
  step, and the steps of the threads come in any order. The two counters are \<open>int\<close>s: going
  beyond \<open>INT_MAX\<close> is a fault.
\<close>

definition BUF_SIZE9 :: nat where "BUF_SIZE9 = 64"

section \<open>The client\<close>

datatype stdin_read = Stdin bytes | Stdin_error

text \<open>The messages written, given the results of \<open>read\<close> and of \<open>write\<close>; a single byte (a
  newline) or nothing ends the program.\<close>

fun send_loop9 :: "(stdin_read \<times> bool) list \<Rightarrow> bytes list run" where
  "send_loop9 [] = ret []"
| "send_loop9 ((Stdin_error, ok) # rs) = exit_with 1"
| "send_loop9 ((Stdin d, ok) # rs) =
    (let d = take BUF_SIZE9 d
     in if length d \<le> 1 then ret []
        else if \<not> ok then exit_with 1
        else rbind (send_loop9 rs) (\<lambda>ws. ret (d # ws)))"

definition client9 :: "bool \<Rightarrow> bool \<Rightarrow> (stdin_read \<times> bool) list \<Rightarrow> bytes list run" where
  "client9 socket_ok connect_ok rs =
    (if \<not> socket_ok then exit_with 1 else if \<not> connect_ok then exit_with 1 else send_loop9 rs)"

section \<open>The server\<close>

text \<open>Where the thread of a client is: before \<open>read\<close>, before the \<open>printf\<close> of the message in its
  buffer, before the lock, between the two statements under the lock, or returned.\<close>

datatype phase9 = Reading | Printing bytes | Locking | Totalling | Returned

record client_info =
  client_id :: nat
  phase :: phase9

record server9 =
  total_message_count :: nat
  client_id_counter :: nat
  count_mutex :: "nat option"
  infos :: "client_info list"

definition init_server9 :: server9 where
  "init_server9 = \<lparr>total_message_count = 0, client_id_counter = 1, count_mutex = None, infos = []\<rparr>"

datatype output9 = Message nat bytes | Total nat

datatype connect_result = Connected | Malloc_failed | Accept_failed | Thread_failed

text \<open>An iteration of the loop of \<open>main\<close>, or a step of the thread of client \<open>i\<close>: bytes read, an
  error of \<open>read\<close>, the end of the stream with the result of \<open>close\<close>, the message printed,
  the lock taken and the counter increased, the total printed and the lock released.\<close>

datatype event9 = Connect connect_result | Read9 nat bytes | Read9_error nat | Eof9 nat bool
  | Print9 nat | Count9 nat | Total9 nat

definition set_phase :: "nat \<Rightarrow> phase9 \<Rightarrow> server9 \<Rightarrow> server9" where
  "set_phase i p s = s\<lparr>infos := (infos s)[i := (infos s ! i)\<lparr>phase := p\<rparr>]\<rparr>"

text \<open>The NUL is written behind the bytes that were read.\<close>

definition read_message9 :: "nat \<Rightarrow> bytes \<Rightarrow> server9 \<Rightarrow> (server9 \<times> output9 list) run" where
  "read_message9 i d s =
    (if length d < BUF_SIZE9 then ret (set_phase i (Printing d) s, []) else fail OutOfBounds)"

definition print_message9 :: "nat \<Rightarrow> server9 \<Rightarrow> (server9 \<times> output9 list) run" where
  "print_message9 i s = (case phase (infos s ! i) of
     Printing d \<Rightarrow> ret (set_phase i Locking s, [Message (client_id (infos s ! i)) (cstr_of d)])
   | _ \<Rightarrow> ret (s, []))"

definition count_message9 :: "nat \<Rightarrow> server9 \<Rightarrow> (server9 \<times> output9 list) run" where
  "count_message9 i s =
    (if INT_MAX \<le> total_message_count s then fail Overflow
     else ret (set_phase i Totalling (s\<lparr>count_mutex := Some i,
       total_message_count := total_message_count s + 1\<rparr>), []))"

definition print_total9 :: "nat \<Rightarrow> server9 \<Rightarrow> (server9 \<times> output9 list) run" where
  "print_total9 i s = ret (set_phase i Reading (s\<lparr>count_mutex := None\<rparr>), [Total (total_message_count s)])"

definition accept_client9 :: "server9 \<Rightarrow> (server9 \<times> output9 list) run" where
  "accept_client9 s =
    (if INT_MAX \<le> client_id_counter s then fail Overflow
     else ret (s\<lparr>client_id_counter := client_id_counter s + 1,
       infos := infos s @ [\<lparr>client_id = client_id_counter s, phase = Reading\<rparr>]\<rparr>, []))"

fun step9 :: "event9 \<Rightarrow> server9 \<Rightarrow> (server9 \<times> output9 list) run" where
  "step9 (Connect r) s = (if r = Connected then accept_client9 s else exit_with 1)"
| "step9 (Read9 i d) s = read_message9 i d s"
| "step9 (Read9_error i) s = exit_with 1"
| "step9 (Eof9 i ok) s = (if ok then ret (set_phase i Returned s, []) else exit_with 1)"
| "step9 (Print9 i) s = print_message9 i s"
| "step9 (Count9 i) s = count_message9 i s"
| "step9 (Total9 i) s = print_total9 i s"

definition in_phase :: "server9 \<Rightarrow> nat \<Rightarrow> phase9 \<Rightarrow> bool" where
  "in_phase s i p \<longleftrightarrow> i < length (infos s) \<and> phase (infos s ! i) = p"

text \<open>The messages that are read and not yet printed: the one in the buffer of the thread.\<close>

definition unprinted :: "server9 \<Rightarrow> nat \<Rightarrow> bytes list" where
  "unprinted s i = (if i < length (infos s)
     then (case phase (infos s ! i) of Printing d \<Rightarrow> [cstr_of d] | _ \<Rightarrow> []) else [])"

fun enabled9 :: "event9 \<Rightarrow> server9 \<Rightarrow> bool" where
  "enabled9 (Connect r) s = True"
| "enabled9 (Read9 i d) s = (in_phase s i Reading \<and> d \<noteq> [] \<and> length d \<le> BUF_SIZE9)"
| "enabled9 (Read9_error i) s = in_phase s i Reading"
| "enabled9 (Eof9 i ok) s = in_phase s i Reading"
| "enabled9 (Print9 i) s = (unprinted s i \<noteq> [])"
| "enabled9 (Count9 i) s = (in_phase s i Locking \<and> count_mutex s = None)"
| "enabled9 (Total9 i) s = in_phase s i Totalling"

fun server_loop9 :: "event9 list \<Rightarrow> server9 \<Rightarrow> (server9 \<times> output9 list) run" where
  "server_loop9 [] s = ret (s, [])"
| "server_loop9 (e # es) s =
    rbind (step9 e s) (\<lambda>(s, out). rbind (server_loop9 es s) (\<lambda>(s, rest). ret (s, out @ rest)))"

fun feasible9 :: "event9 list \<Rightarrow> server9 \<Rightarrow> bool" where
  "feasible9 [] s = True"
| "feasible9 (e # es) s =
    (enabled9 e s \<and> (case step9 e s of Some (Ret (s', out)) \<Rightarrow> feasible9 es s' | _ \<Rightarrow> es = []))"

definition main_server9 :: "bool \<Rightarrow> bool \<Rightarrow> bool \<Rightarrow> event9 list \<Rightarrow> (server9 \<times> output9 list) run" where
  "main_server9 socket_ok bind_ok listen_ok es =
    (if \<not> socket_ok then exit_with 1 else if \<not> bind_ok then exit_with 1
     else if \<not> listen_ok then exit_with 1 else server_loop9 es init_server9)"

section \<open>What the server prints\<close>

text \<open>What the thread of client \<open>i\<close> reads; what is printed with the number \<open>k\<close>; the totals.\<close>

fun reads_of :: "nat \<Rightarrow> event9 list \<Rightarrow> bytes list" where
  "reads_of i [] = []"
| "reads_of i (Read9 j d # es) = (if j = i then cstr_of d # reads_of i es else reads_of i es)"
| "reads_of i (e # es) = reads_of i es"

fun printed :: "nat \<Rightarrow> output9 list \<Rightarrow> bytes list" where
  "printed k [] = []"
| "printed k (Message j d # out) = (if j = k then d # printed k out else printed k out)"
| "printed k (Total n # out) = printed k out"

fun totals :: "output9 list \<Rightarrow> nat list" where
  "totals [] = []"
| "totals (Message j d # out) = totals out"
| "totals (Total n # out) = n # totals out"

definition messages9 :: "output9 list \<Rightarrow> nat" where
  "messages9 out = length out - length (totals out)"

text \<open>The threads that have printed a message and not yet counted it, and the totals printed.\<close>

definition uncounted :: "server9 \<Rightarrow> nat" where
  "uncounted s = length (filter (\<lambda>c. phase c = Locking) (infos s))"

definition announced :: "server9 \<Rightarrow> nat" where
  "announced s = (if count_mutex s = None then total_message_count s else total_message_count s - 1)"

definition ids_ok :: "server9 \<Rightarrow> bool" where
  "ids_ok s \<longleftrightarrow> client_id_counter s = length (infos s) + 1
     \<and> map client_id (infos s) = map Suc [0..<length (infos s)]"

definition lock9_ok :: "server9 \<Rightarrow> bool" where
  "lock9_ok s \<longleftrightarrow> (\<forall>i. in_phase s i Totalling \<longleftrightarrow> count_mutex s = Some i)
     \<and> (count_mutex s \<noteq> None \<longrightarrow> 0 < total_message_count s)"

text \<open>Nothing fails and no message fills the buffer.\<close>

fun smooth :: "event9 \<Rightarrow> bool" where
  "smooth (Connect r) = (r = Connected)"
| "smooth (Read9 i d) = (length d < BUF_SIZE9)"
| "smooth (Read9_error i) = False"
| "smooth (Eof9 i ok) = ok"
| "smooth (Print9 i) = True"
| "smooth (Count9 i) = True"
| "smooth (Total9 i) = True"

lemma feasible9_ret: "step9 e s = ret (s1, out) \<Longrightarrow> feasible9 (e # es) s = (enabled9 e s \<and> feasible9 es s1)"
  by (simp add: ret_def)

lemma ids_ok_nth: "ids_ok s \<Longrightarrow> i < length (infos s) \<Longrightarrow> client_id (infos s ! i) = Suc i"
  unfolding ids_ok_def by (metis diff_zero length_map length_upt nth_map nth_upt plus_nat.add_0)

lemma reads_of_Cons: "reads_of i (e # es) = reads_of i [e] @ reads_of i es"
  by (cases e) simp_all

lemma printed_append [simp]: "printed k (out @ out') = printed k out @ printed k out'"
  by (induction k out rule: printed.induct) auto

lemma totals_append [simp]: "totals (out @ out') = totals out @ totals out'"
  by (induction out rule: totals.induct) auto

lemma totals_le: "length (totals out) \<le> length out"
  by (induction out rule: totals.induct) auto

lemma messages9_append [simp]: "messages9 (out @ out') = messages9 out + messages9 out'"
  using totals_le [of out] totals_le [of out'] by (simp add: messages9_def)

text \<open>Two states that differ in the phase of one thread.\<close>

lemma set_phase_simps [simp]:
  "total_message_count (set_phase i p s) = total_message_count s"
  "client_id_counter (set_phase i p s) = client_id_counter s"
  "count_mutex (set_phase i p s) = count_mutex s"
  "length (infos (set_phase i p s)) = length (infos s)"
  by (simp_all add: set_phase_def)

lemma ids_ok_set_phase [simp]: "i < length (infos s) \<Longrightarrow> ids_ok (set_phase i p s) = ids_ok s"
proof -
  assume "i < length (infos s)"
  then have "map client_id (infos (set_phase i p s)) = map client_id (infos s)"
    by (intro nth_equalityI) (auto simp: set_phase_def nth_list_update)
  then show "ids_ok (set_phase i p s) = ids_ok s" by (simp add: ids_ok_def)
qed

lemma in_phase_set_phase [simp]:
  "i < length (infos s) \<Longrightarrow> in_phase (set_phase i p s) j q = (if j = i then q = p else in_phase s j q)"
  by (auto simp: in_phase_def set_phase_def)

lemma unprinted_set_phase [simp]:
  "i < length (infos s) \<Longrightarrow> unprinted (set_phase i p s) j =
    (if j = i then (case p of Printing d \<Rightarrow> [cstr_of d] | _ \<Rightarrow> []) else unprinted s j)"
  by (auto simp: unprinted_def set_phase_def)

lemma unprinted_in_phase: "in_phase s i p \<Longrightarrow> unprinted s i = (case p of Printing d \<Rightarrow> [cstr_of d] | _ \<Rightarrow> [])"
  by (auto simp: unprinted_def in_phase_def)

lemma uncounted_set_phase:
  assumes "in_phase s i q"
  shows "uncounted (set_phase i p s) + (if q = Locking then 1 else 0) = uncounted s + (if p = Locking then 1 else 0)"
proof -
  have i: "i < length (infos s)" "phase (infos s ! i) = q" using assms by (simp_all add: in_phase_def)
  define a b c where "a = take i (infos s)" and "b = drop (Suc i) (infos s)" and "c = infos s ! i"
  have s: "infos s = a @ c # b" unfolding a_def b_def c_def by (rule id_take_nth_drop [OF i(1)])
  have la: "length a = i" using i(1) by (simp add: a_def)
  have "infos (set_phase i p s) = a @ c\<lparr>phase := p\<rparr> # b"
    by (simp add: set_phase_def s la [symmetric])
  then show ?thesis using i(2) by (auto simp: uncounted_def s la [symmetric])
qed

lemma counters_simps [simp]:
  "infos (s\<lparr>count_mutex := m, total_message_count := n\<rparr>) = infos s"
  "in_phase (s\<lparr>count_mutex := m\<rparr>) = in_phase s" "unprinted (s\<lparr>count_mutex := m\<rparr>) = unprinted s"
  "uncounted (s\<lparr>count_mutex := m\<rparr>) = uncounted s" "ids_ok (s\<lparr>count_mutex := m\<rparr>) = ids_ok s"
  "in_phase (s\<lparr>total_message_count := n\<rparr>) = in_phase s" "unprinted (s\<lparr>total_message_count := n\<rparr>) = unprinted s"
  "uncounted (s\<lparr>total_message_count := n\<rparr>) = uncounted s" "ids_ok (s\<lparr>total_message_count := n\<rparr>) = ids_ok s"
  by (simp_all add: in_phase_def unprinted_def uncounted_def ids_ok_def fun_eq_iff)

text \<open>What a stretch of the run has done to the state, for a single step and for the whole run.\<close>

definition run_ok :: "event9 list \<Rightarrow> server9 \<Rightarrow> server9 \<Rightarrow> output9 list \<Rightarrow> bool" where
  "run_ok es s s' out \<longleftrightarrow> ids_ok s' \<and> lock9_ok s'
     \<and> (\<forall>i. unprinted s i @ reads_of i es = printed (Suc i) out @ unprinted s' i) \<and> printed 0 out = []
     \<and> totals out = map Suc [announced s..<announced s'] \<and> announced s \<le> announced s'
     \<and> total_message_count s' + uncounted s' = total_message_count s + uncounted s + messages9 out
     \<and> total_message_count s' \<le> total_message_count s + length es
     \<and> client_id_counter s' \<le> client_id_counter s + length es"

lemma run_ok_append:
  assumes "run_ok [e] s s1 out" "run_ok es s1 s2 rest"
  shows "run_ok (e # es) s s2 (out @ rest)"
proof -
  have "[announced s..<announced s2] = [announced s..<announced s1] @ [announced s1..<announced s2]"
    using assms upt_add_eq_append [of "announced s" "announced s1" "announced s2 - announced s1"]
    by (simp add: run_ok_def)
  moreover have "unprinted s i @ reads_of i (e # es) = printed (Suc i) (out @ rest) @ unprinted s2 i" for i
    using assms by (simp add: run_ok_def reads_of_Cons [of i e es]) (metis append_assoc)
  ultimately show ?thesis using assms by (simp add: run_ok_def)
qed

lemma lock9_ok_set_phase:
  assumes "lock9_ok s" "in_phase s i q" "q \<noteq> Totalling" "p \<noteq> Totalling"
  shows "lock9_ok (set_phase i p s)"
proof -
  have "i < length (infos s)" using assms(2) by (simp add: in_phase_def)
  moreover have "\<not> in_phase s i Totalling" using assms(2,3) by (simp add: in_phase_def)
  ultimately show ?thesis using assms(1,4) by (auto simp: lock9_ok_def)
qed

lemma step9_accept:
  assumes "ids_ok s" "lock9_ok s" "client_id_counter s < INT_MAX"
  shows "\<exists>s'. accept_client9 s = ret (s', []) \<and> run_ok [Connect Connected] s s' []"
proof -
  let ?s = "s\<lparr>client_id_counter := client_id_counter s + 1,
     infos := infos s @ [\<lparr>client_id = client_id_counter s, phase = Reading\<rparr>]\<rparr>"
  have "in_phase ?s i Totalling = in_phase s i Totalling" for i
    by (auto simp: in_phase_def nth_append less_Suc_eq)
  then have "lock9_ok ?s" using assms(2) by (simp add: lock9_ok_def)
  moreover have "ids_ok ?s" using assms(1) by (simp add: ids_ok_def)
  moreover have "unprinted ?s i = unprinted s i" for i
    by (auto simp: unprinted_def nth_append less_Suc_eq)
  moreover have "uncounted ?s = uncounted s" by (simp add: uncounted_def)
  moreover have "announced ?s = announced s" by (simp add: announced_def)
  ultimately have "run_ok [Connect Connected] s ?s []" by (simp add: run_ok_def messages9_def)
  then show ?thesis using assms(3) by (simp add: accept_client9_def)
qed

lemma step9_run_ok:
  assumes e: "enabled9 e s" "smooth e" and s: "ids_ok s" "lock9_ok s"
    and lim: "total_message_count s < INT_MAX" "client_id_counter s < INT_MAX"
  shows "\<exists>s' out. step9 e s = ret (s', out) \<and> run_ok [e] s s' out"
proof (cases e)
  case (Connect r)
  then show ?thesis using step9_accept [OF s lim(2)] e by auto
next
  case (Read9 i d)
  let ?s = "set_phase i (Printing d) s"
  have ph: "in_phase s i Reading" and i: "i < length (infos s)" using e Read9 by (auto simp: in_phase_def)
  have "run_ok [e] s ?s []"
    using s i Read9 lock9_ok_set_phase [OF s(2) ph, of "Printing d"] uncounted_set_phase [OF ph, of "Printing d"]
      unprinted_in_phase [OF ph] by (simp add: run_ok_def announced_def messages9_def)
  then show ?thesis using e Read9 by (auto simp: read_message9_def)
next
  case (Read9_error i)
  then show ?thesis using e by simp
next
  case (Eof9 i ok)
  let ?s = "set_phase i Returned s"
  have ph: "in_phase s i Reading" and i: "i < length (infos s)" using e Eof9 by (auto simp: in_phase_def)
  have "run_ok [e] s ?s []"
    using s i Eof9 lock9_ok_set_phase [OF s(2) ph, of Returned] uncounted_set_phase [OF ph, of Returned]
      unprinted_in_phase [OF ph] by (simp add: run_ok_def announced_def messages9_def)
  then show ?thesis using e Eof9 by auto
next
  case (Print9 i)
  then have i: "i < length (infos s)" using e by (auto simp: unprinted_def split: if_splits)
  obtain d where d: "phase (infos s ! i) = Printing d"
    using e Print9 i by (auto simp: unprinted_def split: phase9.splits)
  then have ph: "in_phase s i (Printing d)" using i by (simp add: in_phase_def)
  let ?s = "set_phase i Locking s"
  have "run_ok [e] s ?s [Message (Suc i) (cstr_of d)]"
    using s i Print9 lock9_ok_set_phase [OF s(2) ph, of Locking] uncounted_set_phase [OF ph, of Locking]
      unprinted_in_phase [OF ph] by (auto simp: run_ok_def announced_def messages9_def)
  then show ?thesis using Print9 d ids_ok_nth [OF s(1) i] by (simp add: print_message9_def)
next
  case (Count9 i)
  let ?t = "s\<lparr>count_mutex := Some i, total_message_count := total_message_count s + 1\<rparr>"
  let ?s = "set_phase i Totalling ?t"
  have ph: "in_phase s i Locking" and i: "i < length (infos s)" and free: "count_mutex s = None"
    using e Count9 by (auto simp: in_phase_def)
  have "in_phase ?t i Locking" using ph by simp
  note unc = uncounted_set_phase [OF this, of Totalling]
  have "lock9_ok ?s" using s(2) free i by (auto simp: lock9_ok_def)
  then have "run_ok [e] s ?s []"
    using s i free Count9 unc unprinted_in_phase [OF ph] by (simp add: run_ok_def announced_def messages9_def)
  then show ?thesis using lim Count9 by (simp add: count_message9_def)
next
  case (Total9 i)
  let ?t = "s\<lparr>count_mutex := None\<rparr>"
  let ?s = "set_phase i Reading ?t"
  have ph: "in_phase s i Totalling" and i: "i < length (infos s)" using e Total9 by (auto simp: in_phase_def)
  have lock: "count_mutex s = Some i" "0 < total_message_count s" using s(2) ph by (auto simp: lock9_ok_def)
  have "in_phase ?t i Totalling" using ph by simp
  note unc = uncounted_set_phase [OF this, of Reading]
  have "lock9_ok ?s" using s(2) lock i by (auto simp: lock9_ok_def)
  moreover have "[total_message_count s - 1..<total_message_count s] = [total_message_count s - 1]"
    using lock(2) by (simp add: upt_rec)
  ultimately have "run_ok [e] s ?s [Total (total_message_count s)]"
    using s i lock Total9 unc unprinted_in_phase [OF ph] by (simp add: run_ok_def announced_def messages9_def)
  then show ?thesis using Total9 by (simp add: print_total9_def)
qed

lemma server_loop9_run_ok:
  "feasible9 es s \<Longrightarrow> list_all smooth es \<Longrightarrow> ids_ok s \<Longrightarrow> lock9_ok s \<Longrightarrow>
   total_message_count s + length es \<le> INT_MAX \<Longrightarrow> client_id_counter s + length es \<le> INT_MAX \<Longrightarrow>
   \<exists>s' out. server_loop9 es s = ret (s', out) \<and> run_ok es s s' out"
proof (induction es arbitrary: s)
  case Nil
  then show ?case by (simp add: run_ok_def messages9_def)
next
  case (Cons e es)
  have "enabled9 e s" "smooth e" "total_message_count s < INT_MAX" "client_id_counter s < INT_MAX"
    using Cons.prems by auto
  then obtain s1 out where s1: "step9 e s = ret (s1, out)" "run_ok [e] s s1 out"
    using step9_run_ok Cons.prems(3,4) by blast
  have "feasible9 es s1" "list_all smooth es" using Cons.prems(1,2) feasible9_ret [OF s1(1)] by simp_all
  moreover have "ids_ok s1" "lock9_ok s1" "total_message_count s1 + length es \<le> INT_MAX"
    "client_id_counter s1 + length es \<le> INT_MAX"
    using s1(2) Cons.prems(5,6) by (auto simp: run_ok_def)
  ultimately obtain s2 rest where "server_loop9 es s1 = ret (s2, rest)" "run_ok es s1 s2 rest"
    using Cons.IH by blast
  with s1 run_ok_append show ?case by auto
qed

text \<open>Property C28. However the threads interleave, up to \<open>INT_MAX - 1\<close> steps and as long as no call fails and
  no message fills the buffer: what is printed with the number \<open>i + 1\<close> are the messages the thread of client
  \<open>i\<close> has read, in that order, all but the one that may still be in its buffer (the messages
  of different clients may be printed in another order than they were read); the totals
  printed are 1, 2, 3 and so on without a gap; and a printed message is missing from the
  counter only while its thread has not counted it yet.\<close>

theorem server9_correct:
  assumes "feasible9 es init_server9" "list_all smooth es" "length es < INT_MAX"
  shows "\<exists>s' out. main_server9 True True True es = ret (s', out)
    \<and> (\<forall>i. reads_of i es = printed (i + 1) out @ unprinted s' i) \<and> printed 0 out = []
    \<and> totals out = [1..<announced s' + 1]
    \<and> total_message_count s' + uncounted s' = messages9 out"
proof -
  have "ids_ok init_server9" "lock9_ok init_server9"
    by (simp_all add: ids_ok_def lock9_ok_def init_server9_def in_phase_def)
  moreover have "total_message_count init_server9 + length es \<le> INT_MAX"
    "client_id_counter init_server9 + length es \<le> INT_MAX"
    using assms(3) by (simp_all add: init_server9_def)
  ultimately obtain s' out where r: "server_loop9 es init_server9 = ret (s', out)" "run_ok es init_server9 s' out"
    using server_loop9_run_ok [OF assms(1,2)] by blast
  moreover have "unprinted init_server9 i = []" "announced init_server9 = 0" "uncounted init_server9 = 0"
    "total_message_count init_server9 = 0" for i
    by (simp_all add: unprinted_def announced_def uncounted_def init_server9_def)
  moreover have "map Suc [0..<announced s'] = [1..<announced s' + 1]" by (simp add: map_Suc_upt del: upt_Suc)
  ultimately show ?thesis by (simp add: main_server9_def run_ok_def del: upt_Suc)
qed

text \<open>Two clients; the second one's message is read first and printed last.\<close>

theorem server9_correct_witness:
  "\<exists>s' out. main_server9 True True True
      [Connect Connected, Connect Connected, Read9 1 [97, 10], Read9 0 [98], Print9 0, Print9 1, Count9 0, Total9 0]
        = ret (s', out)
    \<and> printed 1 out @ unprinted s' 0 = [[98]] \<and> printed 2 out @ unprinted s' 1 = [[97, 10]]
    \<and> total_message_count s' + uncounted s' = messages9 out"
proof -
  let ?es = "[Connect Connected, Connect Connected, Read9 1 [97, 10], Read9 0 [98], Print9 0, Print9 1, Count9 0, Total9 0]"
  have "feasible9 ?es init_server9"
    by (simp add: init_server9_def in_phase_def BUF_SIZE9_def accept_client9_def read_message9_def INT_MAX_def
        set_phase_def print_message9_def count_message9_def print_total9_def unprinted_def ret_def)
  moreover have "list_all smooth ?es" "length ?es < INT_MAX" by (simp_all add: BUF_SIZE9_def INT_MAX_def)
  ultimately obtain s' out where "main_server9 True True True ?es = ret (s', out)"
    "\<And>i. reads_of i ?es = printed (i + 1) out @ unprinted s' i"
    "total_message_count s' + uncounted s' = messages9 out"
    using server9_correct [of ?es] by blast
  moreover from this(2) [of 0] this(2) [of 1, unfolded one_add_one]
  have "printed 1 out @ unprinted s' 0 = [[98]]" "printed 2 out @ unprinted s' 1 = [[97, 10]]"
    by (simp_all add: cstr_of_def)
  ultimately show ?thesis by blast
qed

text \<open>Property C40. A message that fills the buffer, which the client sends as one write for any longer line,
  makes the server write behind it.\<close>

theorem full_message_overruns:
  assumes "length d = BUF_SIZE9"
  shows "client9 True True [(Stdin d, True), (Stdin [], True)] = ret [d]
    \<and> feasible9 [Connect Connected, Read9 0 d] init_server9
    \<and> main_server9 True True True [Connect Connected, Read9 0 d] = fail OutOfBounds"
proof -
  have "d \<noteq> []" using assms by (auto simp: BUF_SIZE9_def)
  then show ?thesis using assms
    by (auto simp: init_server9_def client9_def main_server9_def read_message9_def accept_client9_def INT_MAX_def
        in_phase_def Let_def BUF_SIZE9_def ret_def fail_def rbind_def)
qed

theorem full_message_overruns_witness:
  "main_server9 True True True [Connect Connected, Read9 0 (replicate 64 97)] = fail OutOfBounds"
  using full_message_overruns [of "replicate 64 97"] by (simp add: BUF_SIZE9_def)

end
