(* ===== verification/Lecture_List.thy ===== *)
theory Lecture_List
  imports Node_Store
begin

text \<open>\<open>lecture/List.c\<close>: a singly linked list with insertion at the end.\<close>

record lnode =
  ldata :: cint
  lnext :: nat

record int_list =
  lstore :: "lnode store"
  lhead :: nat

text \<open>\<open>malloc\<close> is not tested; its result is written to.\<close>

definition createNode :: "cint \<Rightarrow> lnode store \<Rightarrow> (nat \<times> lnode store) run" where
  "createNode d h = (case malloc \<lparr>ldata = d, lnext = 0\<rparr> h of (p, h) \<Rightarrow> if p = 0 then fail NullDeref else ret (p, h))"

partial_function (option) last_node :: "lnode store \<Rightarrow> nat \<Rightarrow> nat run" where
  "last_node h current = rbind (deref h current) (\<lambda>n.
     if lnext n \<noteq> 0 then last_node h (lnext n) else ret current)"

definition append_int :: "cint \<Rightarrow> int_list \<Rightarrow> int_list run" where
  "append_int d l =
    (if lhead l = 0 then rbind (createNode d (lstore l)) (\<lambda>(p, h). ret (l\<lparr>lstore := h, lhead := p\<rparr>))
     else rbind (last_node (lstore l) (lhead l)) (\<lambda>current.
          rbind (createNode d (lstore l)) (\<lambda>(p, h).
          rbind (assign h current (\<lambda>n. n\<lparr>lnext := p\<rparr>)) (\<lambda>h. ret (l\<lparr>lstore := h\<rparr>)))))"

partial_function (option) traverse_from :: "lnode store \<Rightarrow> nat \<Rightarrow> cint list run" where
  "traverse_from h current =
    (if current = 0 then ret []
     else rbind (deref h current) (\<lambda>n. rbind (traverse_from h (lnext n)) (\<lambda>ds. ret (ldata n # ds))))"

definition traverse :: "int_list \<Rightarrow> cint list run" where
  "traverse l = traverse_from (lstore l) (lhead l)"

partial_function (option) free_list_from :: "lnode store \<Rightarrow> nat \<Rightarrow> lnode store run" where
  "free_list_from h current =
    (if current = 0 then ret h
     else rbind (deref h current) (\<lambda>n. rbind (release h current) (\<lambda>h. free_list_from h (lnext n))))"

definition main_list :: "nat \<Rightarrow> (cint list \<times> lnode store) run" where
  "main_list n =
    rbind (append_int 1 \<lparr>lstore = empty_store n, lhead = 0\<rparr>) (\<lambda>l. rbind (append_int 2 l) (\<lambda>l.
    rbind (append_int 3 l) (\<lambda>l. rbind (traverse l) (\<lambda>ds.
    rbind (free_list_from (lstore l) (lhead l)) (\<lambda>h. ret (ds, h))))))"

section \<open>The list refines a list\<close>

definition holds_ints :: "int_list \<Rightarrow> cint list \<Rightarrow> bool" where
  "holds_ints l ds \<longleftrightarrow> store_ok (lstore l) \<and> top (lstore l) = length ds
     \<and> (\<exists>ns. chain lnext (cells (lstore l)) (lhead l) ns 0 \<and> map (ldata \<circ> snd) ns = ds
          \<and> dom (cells (lstore l)) = fst ` set ns)"

lemma last_node_chain:
  "chain lnext (cells h) p (us @ [(a, n)]) 0 \<Longrightarrow> last_node h p = ret a"
proof (induction us arbitrary: p)
  case Nil
  then show ?case by (subst last_node.simps) simp
next
  case (Cons m us)
  obtain b k where m: "m = (b, k)" by (cases m)
  have "lnext k \<noteq> 0"
    using Cons.prems by (cases us) (auto simp: m)
  with Cons show ?case by (subst last_node.simps) (simp add: m)
qed

lemma append_int_holds:
  assumes "holds_ints l ds" "length ds < cap (lstore l)"
  shows "\<exists>l'. append_int d l = ret l' \<and> holds_ints l' (ds @ [d]) \<and> cap (lstore l') = cap (lstore l)"
proof -
  obtain ns where ok: "store_ok (lstore l)" and top: "top (lstore l) = length ds"
    and c: "chain lnext (cells (lstore l)) (lhead l) ns 0" and ds: "map (ldata \<circ> snd) ns = ds"
    and dom: "dom (cells (lstore l)) = fst ` set ns"
    using assms(1) unfolding holds_ints_def by (elim conjE exE)
  let ?nd = "\<lparr>ldata = d, lnext = 0\<rparr>" and ?p = "Suc (top (lstore l))"
  define h where "h = (lstore l)\<lparr>cells := (cells (lstore l))(?p \<mapsto> ?nd), top := ?p\<rparr>"
  have m: "malloc ?nd (lstore l) = (?p, h)" using assms(2) top by (simp add: malloc_def h_def)
  have ok': "store_ok h" by (rule store_ok_malloc [OF ok m])
  have fresh: "?p \<notin> fst ` set ns" using chain_below_top [OF ok c] .
  have cr: "createNode d (lstore l) = ret (?p, h)" by (simp add: createNode_def m)
  show ?thesis
  proof (cases ns rule: rev_cases)
    case Nil
    then have "append_int d l = ret (l\<lparr>lstore := h, lhead := ?p\<rparr>)" using c cr by (simp add: append_int_def)
    moreover have "holds_ints (l\<lparr>lstore := h, lhead := ?p\<rparr>) (ds @ [d])"
      using ok' ds dom Nil top unfolding holds_ints_def
      by (auto simp: h_def intro!: exI [of _ "[(?p, ?nd)]"])
    ultimately show ?thesis by (auto simp: h_def)
  next
    case (snoc us x)
    obtain a n where x: "x = (a, n)" by (cases x)
    have a: "a \<notin> fst ` set us" using chain_distinct [OF c] by (simp add: snoc x)
    have ca: "chain lnext (cells (lstore l)) (lhead l) us a" "a \<noteq> 0" "cells (lstore l) a = Some n"
      using c by (simp_all add: snoc x)
    have ne: "lhead l \<noteq> 0" using ca(1,2) by (cases us) auto
    define h2 where "h2 = h\<lparr>cells := (cells h)(a \<mapsto> n\<lparr>lnext := ?p\<rparr>)\<rparr>"
    have ha: "cells h a = Some n" using ca fresh by (auto simp: h_def snoc x)
    have "append_int d l = ret (l\<lparr>lstore := h2\<rparr>)"
      using ne last_node_chain [OF c [unfolded snoc x]] cr ha ca(2) by (simp add: append_int_def h2_def)
    moreover have "chain lnext (cells h2) (lhead l) (us @ [(a, n\<lparr>lnext := ?p\<rparr>), (?p, ?nd)]) 0"
      using ca a fresh by (auto simp: h2_def h_def snoc x)
    moreover have "store_ok h2" unfolding h2_def by (rule store_ok_upd [OF ok' ha])
    moreover have "dom (cells h2) = fst ` set (us @ [(a, n\<lparr>lnext := ?p\<rparr>), (?p, ?nd)])"
      using dom by (auto simp: h2_def h_def snoc x)
    moreover have "map (ldata \<circ> snd) (us @ [(a, n\<lparr>lnext := ?p\<rparr>), (?p, ?nd)]) = ds @ [d]"
      using ds by (simp add: snoc x)
    moreover have "top h2 = length (ds @ [d])" "cap h2 = cap (lstore l)" by (simp_all add: h2_def h_def top)
    ultimately show ?thesis unfolding holds_ints_def
      by (intro exI [of _ "l\<lparr>lstore := h2\<rparr>"])
        (auto intro!: exI [of _ "us @ [(a, n\<lparr>lnext := ?p\<rparr>), (?p, ?nd)]"])
  qed
qed

lemma traverse_chain: "chain lnext (cells h) p ns 0 \<Longrightarrow> traverse_from h p = ret (map (ldata \<circ> snd) ns)"
proof (induction ns arbitrary: p)
  case (Cons m ns)
  then show ?case by (cases m) (subst traverse_from.simps, simp)
qed (simp add: traverse_from.simps)

lemma traverse_holds: "holds_ints l ds \<Longrightarrow> traverse l = ret ds"
  by (auto simp: holds_ints_def traverse_def traverse_chain)

lemma free_chain:
  "chain lnext (cells h) p ns 0 \<Longrightarrow> distinct (map fst ns) \<Longrightarrow>
   \<exists>h'. free_list_from h p = ret h' \<and> dom (cells h') = dom (cells h) - fst ` set ns"
proof (induction ns arbitrary: h p)
  case Nil
  then show ?case by (simp add: free_list_from.simps)
next
  case (Cons m ns)
  obtain a n where m: "m = (a, n)" by (cases m)
  let ?h = "h\<lparr>cells := (cells h)(a := None)\<rparr>"
  have "chain lnext (cells ?h) (lnext n) ns 0" "distinct (map fst ns)" using Cons.prems by (auto simp: m)
  then obtain h' where h': "free_list_from ?h (lnext n) = ret h'" "dom (cells h') = dom (cells ?h) - fst ` set ns"
    using Cons.IH by blast
  have "dom (cells ?h) = dom (cells h) - {a}" by (auto split: if_splits)
  with h' Cons.prems(1) show ?case by (subst free_list_from.simps) (auto simp: m)
qed

text \<open>The program prints what it has appended, in order, and frees every node.\<close>

theorem main_list_correct:
  assumes "3 \<le> n"
  shows "\<exists>h. main_list n = ret ([1, 2, 3], h) \<and> dom (cells h) = {}"
proof -
  let ?l = "\<lparr>lstore = empty_store n, lhead = 0\<rparr> :: int_list"
  have l0: "holds_ints ?l []" by (simp add: holds_ints_def) (simp add: empty_store_def)
  have c0: "cap (lstore ?l) = n" by (simp add: empty_store_def)
  obtain l1 where l1: "append_int 1 ?l = ret l1" "holds_ints l1 ([] @ [1])" "cap (lstore l1) = n"
    using append_int_holds [OF l0, of 1] assms c0 by auto
  obtain l2 where l2: "append_int 2 l1 = ret l2" "holds_ints l2 (([] @ [1]) @ [2])" "cap (lstore l2) = n"
    using append_int_holds [OF l1(2), of 2] assms l1(3) by auto
  obtain l3 where l3: "append_int 3 l2 = ret l3" "holds_ints l3 ((([] @ [1]) @ [2]) @ [3])"
    using append_int_holds [OF l2(2), of 3] assms l2(3) by auto
  obtain ns where c: "chain lnext (cells (lstore l3)) (lhead l3) ns 0" "dom (cells (lstore l3)) = fst ` set ns"
    using l3(2) by (auto simp: holds_ints_def)
  obtain h where "free_list_from (lstore l3) (lhead l3) = ret h" "dom (cells h) = {}"
    using free_chain [OF c(1) chain_distinct [OF c(1)]] c(2) by auto
  then show ?thesis using l1(1) l2(1) l3(1) traverse_holds [OF l3(2)] by (simp add: main_list_def)
qed

theorem main_list_correct_witness: "\<exists>h. main_list 3 = ret ([1, 2, 3], h) \<and> dom (cells h) = {}"
  by (rule main_list_correct) simp

end
