(* ===== verification/UtHash_First.thy ===== *)
theory UtHash_First
  imports UtHash_Table
begin

text \<open>
  Tables that have never expanded: as long as fewer than ten keys have the same home among the first
  32 buckets, insertion does not expand the buckets.
\<close>

definition home :: "bytes \<Rightarrow> nat" where
  "home k = unat (hash_to_bkt (hash_jen k (of_nat (length k))) 32)"

definition crowded :: "bytes set \<Rightarrow> bool" where
  "crowded K \<longleftrightarrow> (\<exists>i. 10 \<le> card {k \<in> K. home k = i})"

definition first_size :: "'a uthash option \<Rightarrow> bool" where
  "first_size head \<longleftrightarrow> (case head of None \<Rightarrow> True
     | Some t \<Rightarrow> num_buckets t = 32 \<and> (\<forall>b \<in> set (buckets t). expand_mult b = 0))"

text \<open>What it takes to outgrow the table: many keys, ten of them with one home.\<close>

definition overfull :: "bytes set \<Rightarrow> bool" where
  "overfull K \<longleftrightarrow> 26 < card K \<and> crowded K"

lemma crowded_mono: "crowded K \<Longrightarrow> K \<subseteq> K' \<Longrightarrow> finite K' \<Longrightarrow> crowded K'"
proof -
  assume "crowded K" "K \<subseteq> K'" "finite K'"
  then obtain i where "10 \<le> card {k \<in> K. home k = i}" unfolding crowded_def by blast
  also have "\<dots> \<le> card {k \<in> K'. home k = i}" using \<open>K \<subseteq> K'\<close> \<open>finite K'\<close> by (intro card_mono) auto
  finally show ?thesis unfolding crowded_def by blast
qed

lemma overfull_mono: "overfull K \<Longrightarrow> K \<subseteq> K' \<Longrightarrow> finite K' \<Longrightarrow> overfull K'"
  using crowded_mono [of K K'] card_mono [of K' K] by (simp add: overfull_def)

lemma first_size_room: "hash_ok head \<Longrightarrow> first_size head \<Longrightarrow> hash_room head"
proof (cases head)
  case (Some t)
  assume "hash_ok head" "first_size head"
  then have "unat (log2_num_buckets t) < 32" "(2 :: u32) ^ unat (log2_num_buckets t) = 32"
    using Some by (simp_all add: hash_ok_def table_ok_def first_size_def)
  then have "unat (2 ^ unat (log2_num_buckets t) :: u32) = 32" "unat (2 ^ unat (log2_num_buckets t) :: u32) = 2 ^ unat (log2_num_buckets t)"
    by (simp, intro unat_pow_u32)
  then have "(2 :: nat) ^ unat (log2_num_buckets t) = 2 ^ 5" by simp
  then have "unat (log2_num_buckets t) = 5" by (simp only: power_inject_exp one_less_numeral_iff semiring_norm)
  then show ?thesis using Some by (simp add: hash_room_def)
qed (simp add: hash_room_def)

lemma first_size_sort: "first_size (hash_sort cmp head) = first_size head"
  by (cases head) (simp_all add: first_size_def hash_sort_def)

lemma at_least_ten:
  assumes "(0 + 1) * 10 \<le> (of_nat n :: u32) + 1"
  shows "10 \<le> n + 1"
proof -
  have "(10 :: u32) \<le> of_nat (n + 1)" using assms by (simp add: add.commute)
  then have "10 \<le> unat (of_nat (n + 1) :: u32)" unfolding word_le_nat_alt by simp
  also have "\<dots> \<le> n + 1" by (simp only: unat_of_nat mod_less_eq_dividend)
  finally show ?thesis .
qed

lemma crowded_bucket:
  assumes ok: "bucket_ok 32 (mset hs) (home s) b" and hs: "\<forall>h\<in>set hs. handle_ok h" "distinct (map hh_key hs)" "s \<notin> hh_key ` set hs"
    and n: "10 \<le> length (chain b) + 1"
  shows "crowded (insert s (hh_key ` set hs))"
proof -
  let ?F = "filter (\<lambda>h. bkt_of 32 h = home s) hs"
  have "mset (chain b) = mset ?F" using ok by (simp add: bucket_ok_def)
  then have len: "length (chain b) = length ?F" by (rule mset_eq_length)
  have home: "home (hh_key h) = bkt_of 32 h" if "h \<in> set hs" for h
    using hs(1) that by (simp add: handle_ok_def home_def bkt_of_def)
  have "distinct (map hh_key ?F)" using hs(2) by (rule distinct_map_filter)
  then have "card (hh_key ` set ?F) = length ?F" using distinct_card [of "map hh_key ?F"] by simp
  moreover have "s \<notin> hh_key ` set ?F" using hs(3) by auto
  ultimately have "card (insert s (hh_key ` set ?F)) = length (chain b) + 1" by (simp add: len)
  moreover have "insert s (hh_key ` set ?F) \<subseteq> {k \<in> insert s (hh_key ` set hs). home k = home s}" using home by auto
  then have "card (insert s (hh_key ` set ?F)) \<le> card {k \<in> insert s (hh_key ` set hs). home k = home s}"
    by (intro card_mono) simp_all
  ultimately show ?thesis using n unfolding crowded_def by (intro exI [of _ "home s"]) linarith
qed

lemma add_str_first:
  assumes ok: "hash_ok head" and f: "first_size head" and new: "s \<notin> fst ` set (entries head)"
    and add: "hash_add_str head s e = ret head'"
  shows "first_size head' \<or> crowded (insert s (fst ` set (entries head)))"
proof -
  define h where "h = \<lparr>hh_key = s, keylen = of_nat (length s), hashv = hash_jen s (of_nat (length s)), elt = e\<rparr>"
  define t where "t = (case head of None \<Rightarrow> make_table h | Some t \<Rightarrow> append_list t h)"
  define hs where "hs = (case head of None \<Rightarrow> [] | Some t \<Rightarrow> items t)"
  have t: "holds t (mset hs)" "num_buckets t = 32" "\<forall>b\<in>set (buckets t). expand_mult b = 0"
    using ok f make_table_holds
    by (auto simp: t_def hs_def hash_ok_def append_list_def table_ok_iff holds_def make_table_def first_size_def empty_bucket_def
        split: option.splits)
  have hs: "\<forall>h\<in>set hs. handle_ok h" "distinct (map hh_key hs)" "s \<notin> hh_key ` set hs" "fst ` set (entries head) = hh_key ` set hs"
    using ok new by (auto simp: hs_def hash_ok_def table_ok_iff entries_def image_image split: option.splits)
  have i: "unat (hash_to_bkt (hashv h) 32) = home s" "unat (hash_to_bkt (hash_jen s (of_nat (length s))) 32) = home s"
    by (simp_all add: h_def home_def)
  have len: "length (buckets t) = 32" "home s < 32"
    using holdsD(3) [OF t(1)] holdsD(4) [OF t(1), of h] t(2) i by (simp_all add: chains_hold_def bkt_of_def)
  have b: "bucket_ok 32 (mset hs) (home s) (buckets t ! home s)" using holdsD(3) [OF t(1)] t(2) len by (simp add: chains_hold_def)
  have em: "expand_mult (buckets t ! home s) = 0" using t(3) len by simp
  let ?b = "(buckets t ! home s)\<lparr>chain := h # chain (buckets t ! home s), bk_count := bk_count (buckets t ! home s) + 1\<rparr>"
  let ?t = "t\<lparr>num_items := num_items t + 1, buckets := (buckets t)[home s := ?b]\<rparr>"
  let ?grow = "(expand_mult (buckets t ! home s) + 1) * 10 \<le> bk_count (buckets t ! home s) + 1 \<and> \<not> noexpand t"
  have run: "hash_add_str head s e = rbind (if ?grow then expand_buckets ?t else ret ?t) (\<lambda>t'. ret (Some t'))"
    using t(2) i by (simp add: hash_add_str_def hash_add_keyptr_def hash_add_keyptr_byhashvalue_def Let_def
        h_def [symmetric] t_def [symmetric] add_to_table_def add_to_bkt_def)
  show ?thesis
  proof (cases ?grow)
    case True
    then have "(0 + 1) * 10 \<le> (of_nat (length (chain (buckets t ! home s))) :: u32) + 1" using em b by (simp add: bucket_ok_def)
    then have "10 \<le> length (chain (buckets t ! home s)) + 1" by (rule at_least_ten)
    from crowded_bucket [OF b hs(1-3) this] show ?thesis by (simp add: hs(4))
  next
    case False
    have "ret head' = ret (Some ?t)" unfolding add [symmetric] run if_not_P [OF False] rbind_ret ..
    then have "head' = Some ?t" by (simp add: ret_def)
    moreover have "\<forall>b\<in>set ((buckets t)[home s := ?b]). expand_mult b = 0"
      using t(3) em by (auto dest!: set_update_subset_insert [THEN subsetD])
    ultimately show ?thesis using t(2) by (simp add: first_size_def)
  qed
qed

end
