(* ===== verification/Hash_Objects.thy ===== *)
theory Hash_Objects
  imports UtHash_First
begin

text \<open>
  The idiom of the clients of the hash table: the table maps a key to a pointer, and the
  pointer leads to an object that the client allocates and updates in place. Objects are
  kept in the order of their allocation and a pointer is an index. \<open>obj_map\<close> is the map
  from keys to objects; updating through the pointer of a key changes it at that key only
  because different keys have different pointers.
\<close>

definition obj_map :: "nat uthash option \<Rightarrow> 'o list \<Rightarrow> bytes \<Rightarrow> 'o option" where
  "obj_map tbl objs k = map_option (\<lambda>p. objs ! p) (map_of (entries tbl) k)"

definition obj_ok :: "nat uthash option \<Rightarrow> 'o list \<Rightarrow> bool" where
  "obj_ok tbl objs \<longleftrightarrow> hash_ok tbl \<and> hash_log tbl \<le> 5 + length (entries tbl)
     \<and> (first_size tbl \<or> crowded (fst ` set (entries tbl)))
     \<and> distinct (map fst (entries tbl)) \<and> distinct (map snd (entries tbl))
     \<and> (\<forall>p\<in>snd ` set (entries tbl). p < length objs)"

lemma obj_okD:
  assumes "obj_ok tbl objs"
  shows "hash_ok tbl" "hash_log tbl \<le> 5 + length (entries tbl)"
    "distinct (map fst (entries tbl))" "distinct (map snd (entries tbl))"
    "(k, p) \<in> set (entries tbl) \<Longrightarrow> p < length objs" "first_size tbl \<or> crowded (fst ` set (entries tbl))"
  using assms unfolding obj_ok_def by force+

lemma obj_ok_empty [simp]: "obj_ok None []" "obj_map None [] = Map.empty"
  by (simp_all add: obj_ok_def obj_map_def fun_eq_iff entries_def hash_ok_def hash_log_def first_size_def)

lemma obj_map_find:
  "obj_ok tbl objs \<Longrightarrow> length k < 2 ^ 32 \<Longrightarrow> hash_find_str tbl k = map_of (entries tbl) k"
  by (rule hash_table.find_law) (simp_all add: obj_ok_def)

lemma obj_map_None: "obj_map tbl objs k = None \<longleftrightarrow> k \<notin> fst ` set (entries tbl)"
  by (simp add: obj_map_def map_of_eq_None_iff)

lemma dom_obj_map: "dom (obj_map tbl objs) = fst ` set (entries tbl)"
  using obj_map_None [of tbl objs] by (auto simp: dom_def)

lemma same_pointer:
  assumes "distinct (map snd xs)" "(k, p) \<in> set xs" "(k', p) \<in> set xs"
  shows "k' = k"
proof -
  have "inj_on snd (set xs)" using assms(1) by (simp add: distinct_map)
  from inj_onD [OF this _ assms(3,2)] show ?thesis by simp
qed

text \<open>Writing through the pointer of a key.\<close>

lemma obj_update:
  assumes ok: "obj_ok tbl objs" and p: "map_of (entries tbl) k = Some p"
  shows "obj_ok tbl (objs[p := x])" "obj_map tbl (objs[p := x]) = (obj_map tbl objs)(k \<mapsto> x)"
proof -
  show "obj_ok tbl (objs[p := x])" using ok by (simp add: obj_ok_def)
  note kp = map_of_SomeD [OF p]
  have lt: "p < length objs" using obj_okD(5) [OF ok kp] .
  show "obj_map tbl (objs[p := x]) = (obj_map tbl objs)(k \<mapsto> x)"
  proof
    fix k'
    show "obj_map tbl (objs[p := x]) k' = ((obj_map tbl objs)(k \<mapsto> x)) k'"
    proof (cases "k' = k")
      case True
      then show ?thesis using p lt by (simp add: obj_map_def)
    next
      case False
      have "map_of (entries tbl) k' \<noteq> Some p"
        using same_pointer [OF obj_okD(4) [OF ok] kp] map_of_SomeD [of "entries tbl" k' p] False by blast
      then show ?thesis using False
        by (cases "map_of (entries tbl) k'") (simp_all add: obj_map_def)
    qed
  qed
qed

text \<open>Allocating the object of a new key and adding it to the table.\<close>

lemma obj_create:
  assumes ok: "obj_ok tbl objs" and new: "k \<notin> fst ` set (entries tbl)"
    and tbl': "hash_ok tbl'" "entries tbl' = entries tbl @ [(k, length objs)]"
      "hash_log tbl' \<le> hash_log tbl + 1" "first_size tbl' \<or> crowded (insert k (fst ` set (entries tbl)))"
  shows "obj_ok tbl' (objs @ [x])" "obj_map tbl' (objs @ [x]) = (obj_map tbl objs)(k \<mapsto> x)"
proof -
  have lt: "p < length objs" if "(k', p) \<in> set (entries tbl)" for k' p
    using obj_okD(5) [OF ok that] .
  then have fresh: "length objs \<notin> snd ` set (entries tbl)" by force
  have "\<forall>p\<in>snd ` set (entries tbl'). p < length (objs @ [x])"
    unfolding tbl'(2) using lt by (auto intro: less_SucI)
  then show "obj_ok tbl' (objs @ [x])"
    using obj_okD(2-4) [OF ok] new fresh tbl' by (simp add: obj_ok_def)
  show "obj_map tbl' (objs @ [x]) = (obj_map tbl objs)(k \<mapsto> x)"
  proof
    fix k'
    have "map_of (entries tbl) k = None" using new by (simp add: map_of_eq_None_iff)
    moreover have "p < length objs" if "map_of (entries tbl) k' = Some p" for p
      using lt [OF map_of_SomeD [OF that]] .
    ultimately show "obj_map tbl' (objs @ [x]) k' = ((obj_map tbl objs)(k \<mapsto> x)) k'"
      by (cases "map_of (entries tbl) k'")
        (auto simp: obj_map_def tbl'(2) map_add_def nth_append)
  qed
qed

text \<open>A key that is not in the table is added, or the table cannot grow any more.\<close>

lemma obj_add:
  assumes ok: "obj_ok tbl objs" and len: "length k < 2 ^ 32" and new: "k \<notin> fst ` set (entries tbl)"
  obtains (full) "hash_add_str tbl k (length objs) = fail BadShift" "26 \<le> length (entries tbl)" "crowded (fst ` set (entries tbl))"
    | (added) tbl' where "hash_add_str tbl k (length objs) = ret tbl'"
        "\<And>x. obj_ok tbl' (objs @ [x])" "\<And>x. obj_map tbl' (objs @ [x]) = (obj_map tbl objs)(k \<mapsto> x)"
        "entries tbl' = entries tbl @ [(k, length objs)]"
proof -
  consider (full) "\<not> hash_room tbl" "hash_add_str tbl k (length objs) = fail BadShift"
    | (added) tbl' where "hash_add_str tbl k (length objs) = ret tbl'" "hash_ok tbl'"
        "entries tbl' = entries tbl @ [(k, length objs)]" "hash_log tbl' \<le> hash_log tbl + 1"
    using add_str_total [OF obj_okD(1) [OF ok] len new, of "length objs"] by blast
  then show thesis
  proof cases
    case full
    then have "26 \<le> length (entries tbl)"
      using obj_okD(2) [OF ok] by (simp add: hash_room_log)
    moreover have "crowded (fst ` set (entries tbl))"
      using obj_okD(1,6) [OF ok] full(1) first_size_room by blast
    ultimately show thesis by (rule that(1) [OF full(2)])
  next
    case added
    have "first_size tbl' \<or> crowded (insert k (fst ` set (entries tbl)))"
    proof (cases "first_size tbl")
      case True
      show ?thesis by (rule add_str_first [OF obj_okD(1) [OF ok] True new added(1)])
    next
      case False
      then have "crowded (fst ` set (entries tbl))" using obj_okD(6) [OF ok] by blast
      then show ?thesis using crowded_mono by blast
    qed
    from obj_create [OF ok new added(2-4) this] added(3) show thesis
      by (intro that(2) [OF added(1)]) auto
  qed
qed

text \<open>Sorting the table.\<close>

lemma obj_sort:
  assumes "obj_ok tbl objs"
  shows "obj_ok (hash_sort cmp tbl) objs" "obj_map (hash_sort cmp tbl) objs = obj_map tbl objs"
    "mset (entries (hash_sort cmp tbl)) = mset (entries tbl)"
proof -
  note d = obj_okD [OF assms]
  show m: "mset (entries (hash_sort cmp tbl)) = mset (entries tbl)"
    by (rule sort_hash_ok(2) [OF d(1)])
  then have kd: "mset (map fst (entries (hash_sort cmp tbl))) = mset (map fst (entries tbl))"
    "mset (map snd (entries (hash_sort cmp tbl))) = mset (map snd (entries tbl))"
    by simp_all
  note dist = mset_eq_imp_distinct_iff [OF kd(1)] mset_eq_imp_distinct_iff [OF kd(2)]
  show "obj_ok (hash_sort cmp tbl) objs"
    using assms sort_hash_ok(1,3) [OF d(1), of cmp] dist mset_eq_length [OF m] mset_eq_setD [OF m]
    by (simp add: obj_ok_def first_size_sort)
  have "map_of (entries (hash_sort cmp tbl)) = map_of (entries tbl)"
    using map_of_inject_set [of "entries (hash_sort cmp tbl)" "entries tbl"] d(3) dist
      mset_eq_setD [OF m] by simp
  then show "obj_map (hash_sort cmp tbl) objs = obj_map tbl objs"
    by (simp add: fun_eq_iff obj_map_def)
qed

text \<open>A table sorted by \<open>strcmp\<close> on the keys of the objects is in strict order of the
  keys.\<close>

lemma obj_sort_keys:
  assumes ok: "obj_ok tbl objs" and cmp: "comparison cmp can"
    and key: "\<And>k p. (k, p) \<in> set (entries tbl) \<Longrightarrow> can (objs ! p)"
    and le: "\<And>k p k' p'. (k, p) \<in> set (entries tbl) \<Longrightarrow> (k', p') \<in> set (entries tbl) \<Longrightarrow>
        cmp (objs ! p) (objs ! p') \<le> 0 \<Longrightarrow> k \<le> k'"
  shows "sorted_wrt (<) (map fst (entries (hash_sort (\<lambda>p q. cmp (objs ! p) (objs ! q)) tbl)))"
proof (cases tbl)
  case (Some t)
  let ?cmp = "\<lambda>p q. cmp (objs ! p) (objs ! q)"
  let ?s = "sort_loop (\<lambda>a b. ?cmp (elt a) (elt b)) 1 (items t)"
  have E: "entries tbl = map (\<lambda>h. (hh_key h, elt h)) (items t)"
    "entries (hash_sort ?cmp tbl) = map (\<lambda>h. (hh_key h, elt h)) ?s"
    using Some by (simp_all add: entries_def hash_sort_def)
  have dom: "\<forall>h\<in>set (items t). can (objs ! elt h)"
    using key by (force simp: E)
  note srt = comparison.sort_correct [OF comparison.comparison_on [OF cmp, of "\<lambda>h. objs ! elt h"],
      of "items t", OF dom]
  have le': "hh_key a \<le> hh_key b" if "a \<in> set ?s" "b \<in> set ?s" "?cmp (elt a) (elt b) \<le> 0" for a b
    using le [of "hh_key a" "elt a" "hh_key b" "elt b"] that mset_eq_setD [OF srt(2)]
    by (simp add: E)
  have "sorted_wrt (\<lambda>a b. hh_key a \<le> hh_key b) ?s"
    by (rule sorted_wrt_mono_rel [OF _ srt(1)]) (use le' in blast)
  then have "sorted (map hh_key ?s)" by (simp add: sorted_map)
  moreover have "distinct (map hh_key ?s)"
    using obj_okD(3) [OF obj_sort(1) [OF ok], of ?cmp] unfolding E by (simp add: comp_def)
  ultimately show ?thesis by (simp add: E comp_def strict_sorted_iff)
qed (simp add: hash_sort_def entries_def)

end
