(* ===== verification/Map_Reduce.thy ===== *)
theory Map_Reduce
  imports Hash_Objects
begin

text \<open>
  The map-reduce framework of \<open>lecture/test3/src/interface.c\<close>: its two stores, the two
  emit functions, the partition of the work over threads, and \<open>mr_exec\<close>.

  \<^item> The state holds the array \<open>intermediate\<close> of 1024 groups with its fill count, the
    hash table \<open>final_table\<close>, and the \<open>struct final_kv\<close> objects that its handles point
    to, in the order of their allocation (a pointer is the index).
  \<^item> A value array has 256 rows of 16 bytes; the rows that have not been written are
    indeterminate in C and empty here, and no operation reads them. Writing a row that
    does not exist, or a string of 16 bytes or more, is \<open>OutOfBounds\<close>.
  \<^item> The functions \<open>map\<close> and \<open>reduce\<close> of the caller are parameters: the list of the
    pairs they emit, in order. They touch the framework's state through \<open>mr_emit_i\<close> and
    \<open>mr_emit_f\<close> only, and these run under a mutex, so an execution of the threads is a
    sequence of whole emit calls: a schedule names the thread that makes the next one.
    \<open>pthread_join\<close> of a thread that has calls left does not return.
  \<^item> The numbers of elements and threads are \<open>nat\<close>: arrays of $2^{63}$ elements do not
    exist.
\<close>

section \<open>State\<close>

record in_kv =
  ikey :: bytes
  ivalue :: bytes

record out_kv =
  okey :: bytes
  ovalue :: "bytes list"
  ocount :: nat

record final_kv =
  fkey :: bytes
  fvalue :: "bytes list"
  fcount :: nat

record mr_state =
  intermediate :: "out_kv list"
  intermediate_count :: nat
  final_table :: "nat uthash option"
  final_kvs :: "final_kv list"

definition MAX_INTERMEDIATE :: nat where "MAX_INTERMEDIATE = 1024"
definition MAX_VALUES_PER_KEY :: nat where "MAX_VALUES_PER_KEY = 256"
definition MAX_KEY_SIZE :: nat where "MAX_KEY_SIZE = 16"
definition MAX_VALUE_SIZE :: nat where "MAX_VALUE_SIZE = 16"

definition fresh_values :: "bytes list" where
  "fresh_values = replicate MAX_VALUES_PER_KEY []"

definition init_mr :: mr_state where
  "init_mr = \<lparr>intermediate = replicate MAX_INTERMEDIATE \<lparr>okey = [], ovalue = [], ocount = 0\<rparr>,
     intermediate_count = 0, final_table = None, final_kvs = []\<rparr>"

definition init_intermediate :: "mr_state \<Rightarrow> mr_state" where
  "init_intermediate s = s\<lparr>intermediate :=
     replicate MAX_INTERMEDIATE \<lparr>okey = [], ovalue = fresh_values, ocount = 0\<rparr>\<rparr>"

section \<open>Emitting intermediate pairs\<close>

text \<open>The index of the first group with the key, among those in use.\<close>

fun find_intermediate :: "out_kv list \<Rightarrow> bytes \<Rightarrow> nat option" where
  "find_intermediate [] key = None"
| "find_intermediate (kv # kvs) key =
    (if strcmp (okey kv) key = 0 then Some 0 else map_option Suc (find_intermediate kvs key))"

definition find_or_create_intermediate :: "mr_state \<Rightarrow> bytes \<Rightarrow> (mr_state \<times> nat option) run" where
  "find_or_create_intermediate s key =
    (case find_intermediate (take (intermediate_count s) (intermediate s)) key of
       Some i \<Rightarrow> ret (s, Some i)
     | None \<Rightarrow>
         if MAX_INTERMEDIATE \<le> intermediate_count s then ret (s, None)
         else let i = intermediate_count s
              in rbind (strcpy MAX_KEY_SIZE key) (\<lambda>k.
                   ret (s\<lparr>intermediate_count := i + 1,
                          intermediate := (intermediate s)[i :=
                            (intermediate s ! i)\<lparr>okey := k, ocount := 0\<rparr>]\<rparr>, Some i)))"

text \<open>\<open>strcpy(kv->value[kv->count], value)\<close>.\<close>

definition put_value :: "bytes list \<Rightarrow> nat \<Rightarrow> bytes \<Rightarrow> bytes list run" where
  "put_value rows n v =
    (if n < length rows then rbind (strcpy MAX_VALUE_SIZE v) (\<lambda>b. ret (rows[n := b]))
     else fail OutOfBounds)"

definition mr_emit_i :: "mr_state \<Rightarrow> bytes \<Rightarrow> bytes \<Rightarrow> (mr_state \<times> int) run" where
  "mr_emit_i s key v =
    rbind (find_or_create_intermediate s key) (\<lambda>r. case r of
      (s', None) \<Rightarrow> ret (s', -1)
    | (s', Some i) \<Rightarrow>
        let kv = intermediate s' ! i
        in rbind (put_value (ovalue kv) (ocount kv) v) (\<lambda>rows.
             ret (s'\<lparr>intermediate := (intermediate s')[i :=
                    kv\<lparr>ovalue := rows, ocount := ocount kv + 1\<rparr>]\<rparr>, 0)))"

section \<open>Emitting final pairs\<close>

definition mr_emit_f :: "mr_state \<Rightarrow> bytes \<Rightarrow> bytes \<Rightarrow> (mr_state \<times> int) run" where
  "mr_emit_f s key v =
    rbind (case hash_find_str (final_table s) key of
        Some p \<Rightarrow> ret (s, p)
      | None \<Rightarrow>
          let p = length (final_kvs s)
          in rbind (strcpy MAX_KEY_SIZE key) (\<lambda>k.
             rbind (hash_add_str (final_table s) k p) (\<lambda>tbl.
               ret (s\<lparr>final_table := tbl,
                      final_kvs := final_kvs s @ [\<lparr>fkey = k, fvalue = fresh_values, fcount = 0\<rparr>]\<rparr>, p))))
      (\<lambda>r. case r of (s', p) \<Rightarrow>
        let kv = final_kvs s' ! p
        in rbind (put_value (fvalue kv) (fcount kv) v) (\<lambda>rows.
             ret (s'\<lparr>final_kvs := (final_kvs s')[p :=
                    kv\<lparr>fvalue := rows, fcount := fcount kv + 1\<rparr>]\<rparr>, 0)))"

section \<open>Threads\<close>

text \<open>The bounds \<open>start\<close> and \<open>end\<close> of thread \<open>t\<close> of \<open>n\<close> over \<open>count\<close> elements.\<close>

definition chunk_size :: "nat \<Rightarrow> nat \<Rightarrow> nat" where
  "chunk_size cnt n = (cnt + n - 1) div n"

definition chunk_start :: "nat \<Rightarrow> nat \<Rightarrow> nat \<Rightarrow> nat" where
  "chunk_start cnt n t = t * chunk_size cnt n"

definition chunk_end :: "nat \<Rightarrow> nat \<Rightarrow> nat \<Rightarrow> nat" where
  "chunk_end cnt n t = (if cnt < (t + 1) * chunk_size cnt n then cnt else (t + 1) * chunk_size cnt n)"

text \<open>\<open>map_thread\<close> and \<open>reduce_thread\<close>: what a thread emits on its part of the array.\<close>

definition thread_emits :: "('a \<Rightarrow> (bytes \<times> bytes) list) \<Rightarrow> 'a list \<Rightarrow> nat \<Rightarrow> nat \<Rightarrow> (bytes \<times> bytes) list" where
  "thread_emits f xs st en = concat (map (\<lambda>i. f (xs ! i)) [st..<en])"

definition spawn :: "('a \<Rightarrow> (bytes \<times> bytes) list) \<Rightarrow> 'a list \<Rightarrow> nat \<Rightarrow> nat \<Rightarrow> (bytes \<times> bytes) list list" where
  "spawn f xs cnt n = map (\<lambda>t. thread_emits f xs (chunk_start cnt n t) (chunk_end cnt n t)) [0..<n]"

type_synonym emitter = "mr_state \<Rightarrow> bytes \<Rightarrow> bytes \<Rightarrow> (mr_state \<times> int) run"

text \<open>The emit calls of the threads in the order of a schedule; what is left is returned.\<close>

fun run_threads :: "emitter \<Rightarrow> nat list \<Rightarrow> mr_state \<Rightarrow> (bytes \<times> bytes) list list \<Rightarrow>
    (mr_state \<times> (bytes \<times> bytes) list list) run" where
  "run_threads emit [] s ts = ret (s, ts)"
| "run_threads emit (t # sched) s ts =
    (if t < length ts
     then (case ts ! t of [] \<Rightarrow> run_threads emit sched s ts
           | (k, v) # es \<Rightarrow> rbind (emit s k v) (\<lambda>r. run_threads emit sched (fst r) (ts[t := es])))
     else run_threads emit sched s ts)"

text \<open>The phase with its joins.\<close>

definition run_phase :: "emitter \<Rightarrow> nat list \<Rightarrow> mr_state \<Rightarrow> (bytes \<times> bytes) list list \<Rightarrow> mr_state run" where
  "run_phase emit sched s ts =
    rbind (run_threads emit sched s ts) (\<lambda>r. if concat (snd r) = [] then ret (fst r) else None)"

section \<open>The framework\<close>

definition final_kv_cmp :: "final_kv \<Rightarrow> final_kv \<Rightarrow> int" where
  "final_kv_cmp a b = strcmp (fkey a) (fkey b)"

text \<open>The rows below \<open>count\<close>, which are all that is read of a value array.\<close>

definition ovalues :: "out_kv \<Rightarrow> bytes list" where
  "ovalues kv = take (ocount kv) (ovalue kv)"

fun copy_values :: "bytes list \<Rightarrow> nat \<Rightarrow> nat \<Rightarrow> bytes list \<Rightarrow> bytes list run" where
  "copy_values src 0 i dst = ret dst"
| "copy_values src (Suc n) i dst =
    (if i < length src then rbind (put_value dst i (src ! i)) (copy_values src n (i + 1))
     else fail OutOfBounds)"

definition copy_final :: "final_kv \<Rightarrow> out_kv run" where
  "copy_final e =
    rbind (strcpy MAX_KEY_SIZE (fkey e)) (\<lambda>k.
    rbind (copy_values (fvalue e) (fcount e) 0 fresh_values) (\<lambda>rows.
      ret \<lparr>okey = k, ovalue = rows, ocount = fcount e\<rparr>))"

text \<open>The \<open>HASH_ITER\<close> loop at the end: \<open>room\<close> is what is left of the array that was
  allocated for \<open>HASH_COUNT\<close> groups.\<close>

fun copy_all :: "nat \<Rightarrow> final_kv list \<Rightarrow> out_kv list run" where
  "copy_all room [] = ret []"
| "copy_all room (e # es) =
    (if room = 0 then fail OutOfBounds
     else rbind (copy_final e) (\<lambda>kv. rbind (copy_all (room - 1) es) (\<lambda>kvs. ret (kv # kvs))))"

definition sort_final :: "mr_state \<Rightarrow> mr_state" where
  "sort_final s = s\<lparr>final_table :=
     hash_sort (\<lambda>p q. final_kv_cmp (final_kvs s ! p) (final_kvs s ! q)) (final_table s)\<rparr>"

definition mr_exec :: "mr_state \<Rightarrow> in_kv list \<Rightarrow> (in_kv \<Rightarrow> (bytes \<times> bytes) list) \<Rightarrow> nat \<Rightarrow>
    (bytes \<Rightarrow> bytes list \<Rightarrow> (bytes \<times> bytes) list) \<Rightarrow> nat \<Rightarrow> nat list \<Rightarrow> nat list \<Rightarrow>
    (mr_state \<times> out_kv list) run" where
  "mr_exec s input map_fn mapper_count reduce_fn reducer_count msched rsched =
    (let s0 = (init_intermediate s)\<lparr>intermediate_count := 0\<rparr>
     in if mapper_count = 0 then fail DivByZero else
        rbind (run_phase mr_emit_i msched s0 (spawn map_fn input (length input) mapper_count)) (\<lambda>s1.
        if reducer_count = 0 then fail DivByZero else
        rbind (run_phase mr_emit_f rsched s1
                 (spawn (\<lambda>kv. reduce_fn (okey kv) (ovalues kv)) (intermediate s1)
                    (intermediate_count s1) reducer_count)) (\<lambda>s2.
        let s3 = sort_final s2
        in rbind (copy_all (unat (hash_count (final_table s3))) (map (\<lambda>p. final_kvs s3 ! p) (hash_iter (final_table s3)))) (\<lambda>out.
             ret (s3, out)))))"

section \<open>Releasing memory\<close>

text \<open>\<open>free_final_table\<close> unlinks every entry; \<open>free_output\<close> (\<open>free_output.c\<close>) leaves no
  array behind.\<close>

definition free_final_table :: "mr_state \<Rightarrow> mr_state run" where
  "free_final_table s =
    (case final_table s of None \<Rightarrow> ret s
     | Some t \<Rightarrow> rbind (delete_each (items t) (Some t)) (\<lambda>tbl. ret (s\<lparr>final_table := tbl\<rparr>)))"

end
