(* ===== verification/Grouping.thy ===== *)
theory Grouping
  imports Base
begin

text \<open>
  Grouping of pairs by key, in the order in which the keys first appear: the
  specification shared by the map-reduce framework of \<open>lecture/test3\<close> and the
  grouping phase of \<open>lab/lab7.c\<close>.
\<close>

fun group_add :: "'k \<Rightarrow> 'v \<Rightarrow> ('k \<times> 'v list) list \<Rightarrow> ('k \<times> 'v list) list" where
  "group_add k v [] = [(k, [v])]"
| "group_add k v ((k', vs) # gs) =
    (if k' = k then (k', vs @ [v]) # gs else (k', vs) # group_add k v gs)"

definition groups :: "('k \<times> 'v) list \<Rightarrow> ('k \<times> 'v list) list" where
  "groups es = fold (\<lambda>e. group_add (fst e) (snd e)) es []"

definition vals_of :: "('k \<times> 'v) list \<Rightarrow> 'k \<Rightarrow> 'v list" where
  "vals_of es k = map snd (filter (\<lambda>e. fst e = k) es)"

lemma vals_of_simps [simp]:
  "vals_of [] k = []"
  "vals_of (e # es) k = (if fst e = k then snd e # vals_of es k else vals_of es k)"
  "vals_of (es @ es') k = vals_of es k @ vals_of es' k"
  by (simp_all add: vals_of_def)

lemma vals_of_Nil_iff: "vals_of es k = [] \<longleftrightarrow> k \<notin> fst ` set es"
  by (auto simp: vals_of_def filter_empty_conv)

lemma mset_vals_of_cong: "mset es = mset es' \<Longrightarrow> mset (vals_of es k) = mset (vals_of es' k)"
  by (simp add: vals_of_def)

lemma groups_Nil [simp]: "groups [] = []"
  by (simp add: groups_def)

lemma groups_snoc [simp]: "groups (es @ [(k, v)]) = group_add k v (groups es)"
  by (simp add: groups_def)

lemma group_add_keys: "fst ` set (group_add k v gs) = insert k (fst ` set gs)"
  by (induction k v gs rule: group_add.induct) auto

lemma group_add_distinct: "distinct (map fst gs) \<Longrightarrow> distinct (map fst (group_add k v gs))"
proof (induction k v gs rule: group_add.induct)
  case (2 k v k' vs gs)
  then show ?case using group_add_keys [of k v gs] by (auto simp flip: image_set)
qed simp

lemma group_add_map_of:
  "map_of (group_add k v gs) k' =
    (if k' = k then Some ((case map_of gs k of None \<Rightarrow> [] | Some vs \<Rightarrow> vs) @ [v]) else map_of gs k')"
  by (induction k v gs rule: group_add.induct) auto

lemma groups_keys: "fst ` set (groups es) = fst ` set es"
proof (induction es rule: rev_induct)
  case (snoc e es)
  then show ?case by (cases e) (simp add: group_add_keys)
qed simp

lemma groups_distinct: "distinct (map fst (groups es))"
proof (induction es rule: rev_induct)
  case (snoc e es)
  then show ?case by (cases e) (simp add: group_add_distinct)
qed simp

lemma groups_map_of: "map_of (groups es) k = (if vals_of es k = [] then None else Some (vals_of es k))"
proof (induction es rule: rev_induct)
  case (snoc e es)
  then show ?case by (cases e) (auto simp: group_add_map_of split: if_splits)
qed simp

lemma groups_vals: "(k, vs) \<in> set (groups es) \<Longrightarrow> vs = vals_of es k"
  using groups_map_of [of es k] map_of_is_SomeI [OF groups_distinct, of k vs es]
  by (auto split: if_splits)

lemma length_groups: "length (groups es) = card (fst ` set es)"
  by (metis distinct_card groups_distinct groups_keys image_set length_map)

lemma group_add_new: "k \<notin> fst ` set gs \<Longrightarrow> group_add k v gs = gs @ [(k, [v])]"
  by (induction k v gs rule: group_add.induct) auto

lemma group_add_old:
  "i < length gs \<Longrightarrow> fst (gs ! i) = k \<Longrightarrow> \<forall>j<i. fst (gs ! j) \<noteq> k \<Longrightarrow>
   group_add k v gs = gs[i := (k, snd (gs ! i) @ [v])]"
proof (induction gs arbitrary: i)
  case (Cons g gs)
  then show ?case
  proof (cases i)
    case (Suc j)
    have "fst g \<noteq> k" using Cons.prems(3) Suc by auto
    moreover have "\<forall>m<j. fst (gs ! m) \<noteq> k" using Cons.prems(3) Suc by auto
    ultimately show ?thesis using Cons Suc by (cases g) auto
  qed (cases g, auto)
qed simp

end
