(* ===== verification/Map_Reduce_Phases.thy ===== *)
theory Map_Reduce_Phases
  imports Map_Reduce Grouping
begin

text \<open>
  The two facts about threads that \<open>mr_exec\<close> rests on: the parts given to the threads concatenate to the whole array, and a
  phase under any schedule is the sequential execution of some permutation of the calls.
\<close>

section \<open>The partition of an array\<close>

lemma chunk_covers: "0 < n \<Longrightarrow> cnt \<le> n * chunk_size cnt n"
proof -
  assume n: "0 < n"
  have "cnt + n - 1 = n * chunk_size cnt n + (cnt + n - 1) mod n"
    by (simp add: chunk_size_def)
  moreover have "(cnt + n - 1) mod n \<le> n - 1" using n mod_less_divisor [OF n, of "cnt + n - 1"] by linarith
  ultimately show ?thesis using n by linarith
qed

lemma thread_emits_upt:
  "st \<le> en \<Longrightarrow> en \<le> length xs \<Longrightarrow>
   thread_emits f xs st en = concat (map f (take (en - st) (drop st xs)))"
proof -
  assume "st \<le> en" "en \<le> length xs"
  then have "map ((!) xs) [st..<en] = take (en - st) (drop st xs)"
    by (intro nth_equalityI) auto
  then show ?thesis
    by (metis (no_types, lifting) thread_emits_def map_map comp_def map_cong)
qed

lemma chunks_concat:
  assumes "0 < n" "cnt \<le> length xs"
  shows "concat (map (\<lambda>t. thread_emits f xs (chunk_start cnt n t) (chunk_end cnt n t)) [0..<m]) =
    concat (map f (take (min cnt (m * chunk_size cnt n)) xs))"
proof (induction m)
  case (Suc m)
  let ?c = "chunk_size cnt n"
  show ?case
  proof (cases "m * ?c \<le> cnt")
    case True
    define en where "en = min cnt (Suc m * ?c)"
    have en: "chunk_end cnt n m = en" by (simp add: chunk_end_def en_def min_def)
    have "take en xs = take (m * ?c) xs @ take (en - m * ?c) (drop (m * ?c) xs)"
      using True by (metis en_def le_add_diff_inverse min.boundedI take_add le_add2 mult_Suc)
    moreover have "m * ?c \<le> en" "en \<le> length xs" using True assms(2) by (simp_all add: en_def)
    ultimately show ?thesis
      using Suc True unfolding en_def [symmetric]
      by (simp add: thread_emits_upt en chunk_start_def min_absorb2)
  next
    case False
    then have "thread_emits f xs (chunk_start cnt n m) (chunk_end cnt n m) = []"
      by (simp add: thread_emits_def chunk_start_def chunk_end_def)
    moreover have "min cnt (Suc m * ?c) = cnt" "min cnt (m * ?c) = cnt" using False by auto
    ultimately show ?thesis using Suc by simp
  qed
qed (simp add: thread_emits_def)

lemma spawn_concat:
  "0 < n \<Longrightarrow> cnt \<le> length xs \<Longrightarrow> concat (spawn f xs cnt n) = concat (map f (take cnt xs))"
  using chunks_concat [of n cnt xs f n] chunk_covers [of n cnt]
  by (simp add: spawn_def min_def)

lemma length_spawn [simp]: "length (spawn f xs cnt n) = n"
  by (simp add: spawn_def)

section \<open>Schedules\<close>

text \<open>The calls in the order in which a schedule makes them, and what it leaves.\<close>

fun interleave :: "nat list \<Rightarrow> 'e list list \<Rightarrow> 'e list \<times> 'e list list" where
  "interleave [] ts = ([], ts)"
| "interleave (t # sched) ts =
    (if t < length ts \<and> ts ! t \<noteq> []
     then (hd (ts ! t) # fst (interleave sched (ts[t := tl (ts ! t)])),
           snd (interleave sched (ts[t := tl (ts ! t)])))
     else interleave sched ts)"

text \<open>A schedule completes when every thread has a turn for each of its calls.\<close>

definition completes :: "nat list \<Rightarrow> 'e list list \<Rightarrow> bool" where
  "completes sched ts \<longleftrightarrow> (\<forall>t<length ts. length (ts ! t) \<le> count_list sched t)"

fun emit_seq :: "emitter \<Rightarrow> mr_state \<Rightarrow> (bytes \<times> bytes) list \<Rightarrow> mr_state run" where
  "emit_seq emit s [] = ret s"
| "emit_seq emit s (e # es) = rbind (emit s (fst e) (snd e)) (\<lambda>r. emit_seq emit (fst r) es)"

lemma run_threads_seq:
  "run_threads emit sched s ts =
    rbind (emit_seq emit s (fst (interleave sched ts))) (\<lambda>s'. ret (s', snd (interleave sched ts)))"
proof (induction emit sched s ts rule: run_threads.induct)
  case (2 emit t sched s ts)
  show ?case
  proof (cases "t < length ts \<and> ts ! t \<noteq> []")
    case True
    then obtain k v es where e: "ts ! t = (k, v) # es" by (metis list.exhaust prod.exhaust)
    have IH: "run_threads emit sched s' (ts[t := es]) =
        rbind (emit_seq emit s' (fst (interleave sched (ts[t := es]))))
          (\<lambda>s''. ret (s'', snd (interleave sched (ts[t := es]))))" for s'
      using 2(2) [OF conjunct1 [OF True] e refl, of "(s', 0)"] by simp
    show ?thesis using True by (simp add: e IH)
  next
    case False
    with 2 show ?thesis by (auto split: list.splits)
  qed
qed simp

lemma interleave_mset:
  "mset (fst (interleave sched ts)) + mset (concat (snd (interleave sched ts))) = mset (concat ts)"
proof (induction sched ts rule: interleave.induct)
  case (2 t sched ts)
  show ?case
  proof (cases "t < length ts \<and> ts ! t \<noteq> []")
    case True
    then have "ts ! t = hd (ts ! t) # tl (ts ! t)" by simp
    from mset_concat_update [OF conjunct1 [OF True] this] True 2 show ?thesis by simp
  next
    case False
    then have "interleave (t # sched) ts = interleave sched ts" by (simp only: interleave.simps if_False)
    with 2(3) [OF False] show ?thesis by (simp only:)
  qed
qed simp

lemma interleave_completes:
  "completes sched ts \<Longrightarrow> concat (snd (interleave sched ts)) = []"
proof (induction sched ts rule: interleave.induct)
  case (1 ts)
  then show ?case by (auto simp: completes_def in_set_conv_nth)
next
  case (2 t sched ts)
  show ?case
  proof (cases "t < length ts \<and> ts ! t \<noteq> []")
    case True
    have "completes sched (ts[t := tl (ts ! t)])"
      unfolding completes_def
    proof (intro allI impI)
      fix u assume "u < length (ts[t := tl (ts ! t)])"
      with "2.prems" have "length (ts ! u) \<le> count_list (t # sched) u" by (simp add: completes_def)
      with True show "length (ts[t := tl (ts ! t)] ! u) \<le> count_list sched u"
        by (cases "u = t") auto
    qed
    with True 2 show ?thesis by simp
  next
    case False
    have c: "completes sched ts"
      unfolding completes_def
    proof (intro allI impI)
      fix u assume u: "u < length ts"
      with "2.prems" have "length (ts ! u) \<le> count_list (t # sched) u" by (simp add: completes_def)
      with False u show "length (ts ! u) \<le> count_list sched u" by (cases "u = t") auto
    qed
    have "interleave (t # sched) ts = interleave sched ts" using False by (simp only: interleave.simps if_False)
    with 2(3) [OF False c] show ?thesis by (simp only:)
  qed
qed

lemma run_phase_seq:
  assumes "completes sched ts"
  obtains es where "mset es = mset (concat ts)" "\<And>s. run_phase emit sched s ts = emit_seq emit s es"
proof -
  note c = interleave_completes [OF assms]
  have "run_phase emit sched s ts = emit_seq emit s (fst (interleave sched ts))" for s
    unfolding run_phase_def run_threads_seq by (simp add: c del: concat_eq_Nil_conv)
  with interleave_mset [of sched ts] c show ?thesis by (intro that) auto
qed

text \<open>One thread after the other completes.\<close>

definition one_by_one :: "'e list list \<Rightarrow> nat list" where
  "one_by_one ts = concat (map (\<lambda>t. replicate (length (ts ! t)) t) [0..<length ts])"

lemma count_list_replicates:
  "t < n \<Longrightarrow> f t \<le> count_list (concat (map (\<lambda>t. replicate (f t) t) [0..<n])) t"
proof (induction n)
  case (Suc n)
  have "count_list (replicate m x) x = m" for m and x :: nat by (induction m) auto
  with Suc show ?case by (auto simp: less_Suc_eq count_list_append)
qed simp

lemma one_by_one_completes: "completes (one_by_one ts) ts"
  unfolding completes_def one_by_one_def using count_list_replicates [where f = "\<lambda>t. length (ts ! t)"]
  by blast

end
