(* ===== verification/Map_Reduce_Emit.thy ===== *)
theory Map_Reduce_Emit
  imports Map_Reduce_Phases
begin

text \<open>
  \<open>mr_emit_i\<close> and \<open>mr_emit_f\<close> refine \<open>group_add\<close>: the views \<open>inter_view\<close> and
  \<open>final_view\<close> read the groups off the two stores. The first searches an array with
  \<open>strcmp\<close>; the second goes through the hash table, by the laws of \<open>keyed_table\<close>.
\<close>

definition emit_ok :: "bytes \<Rightarrow> bytes \<Rightarrow> bool" where
  "emit_ok k v \<longleftrightarrow> cstring k \<and> length k < MAX_KEY_SIZE \<and> length v < MAX_VALUE_SIZE"

section \<open>The intermediate store\<close>

definition inter_ok :: "mr_state \<Rightarrow> bool" where
  "inter_ok s \<longleftrightarrow> length (intermediate s) = MAX_INTERMEDIATE \<and> intermediate_count s \<le> MAX_INTERMEDIATE
     \<and> (\<forall>kv\<in>set (intermediate s). length (ovalue kv) = MAX_VALUES_PER_KEY
          \<and> ocount kv \<le> MAX_VALUES_PER_KEY)
     \<and> (\<forall>kv\<in>set (take (intermediate_count s) (intermediate s)). cstring (okey kv))"

definition group_of :: "out_kv \<Rightarrow> bytes \<times> bytes list" where
  "group_of kv = (okey kv, ovalues kv)"

definition inter_view :: "mr_state \<Rightarrow> (bytes \<times> bytes list) list" where
  "inter_view s = map group_of (take (intermediate_count s) (intermediate s))"

lemma find_intermediate_None:
  "cstring key \<Longrightarrow> \<forall>kv\<in>set kvs. cstring (okey kv) \<Longrightarrow>
   find_intermediate kvs key = None \<longleftrightarrow> key \<notin> okey ` set kvs"
  by (induction kvs) (auto simp: strcmp_eq_0)

lemma find_intermediate_Some:
  "cstring key \<Longrightarrow> \<forall>kv\<in>set kvs. cstring (okey kv) \<Longrightarrow> find_intermediate kvs key = Some i \<Longrightarrow>
   i < length kvs \<and> okey (kvs ! i) = key \<and> (\<forall>j<i. okey (kvs ! j) \<noteq> key)"
proof (induction kvs arbitrary: i)
  case (Cons kv kvs)
  show ?case
  proof (cases "okey kv = key")
    case False
    then obtain j where j: "find_intermediate kvs key = Some j" "i = Suc j"
      using Cons.prems by (auto simp: strcmp_eq_0)
    with Cons False show ?thesis by (auto simp: less_Suc_eq_0_disj)
  qed (use Cons.prems in simp)
qed simp

lemma put_value_ret:
  "n < length rows \<Longrightarrow> length v < MAX_VALUE_SIZE \<Longrightarrow> put_value rows n v = ret (rows[n := v])"
  by (simp add: put_value_def strcpy_ret)

lemma take_update_snoc: "n < length xs \<Longrightarrow> take (Suc n) (xs[n := x]) = take n xs @ [x]"
  by (simp add: take_Suc_conv_app_nth)

lemma inter_update:
  assumes "inter_ok s" "i < intermediate_count s" "ocount (intermediate s ! i) < MAX_VALUES_PER_KEY"
    and kv_def: "kv = intermediate s ! i"
    and s'_def: "s' = s\<lparr>intermediate := (intermediate s)[i :=
      kv\<lparr>ovalue := (ovalue kv)[ocount kv := v], ocount := ocount kv + 1\<rparr>]\<rparr>"
  shows "inter_ok s'" "inter_view s' = (inter_view s)[i := (okey kv, ovalues kv @ [v])]"
proof -
  let ?n = "intermediate_count s"
  let ?kv' = "kv\<lparr>ovalue := (ovalue kv)[ocount kv := v], ocount := ocount kv + 1\<rparr>"
  have len: "i < length (intermediate s)" "?n \<le> length (intermediate s)"
    using assms by (simp_all add: inter_ok_def)
  then have kv: "kv \<in> set (intermediate s)" "kv \<in> set (take ?n (intermediate s))"
    using assms(2) nth_mem [of i "take ?n (intermediate s)"] by (simp_all add: kv_def)
  have kv': "length (ovalue ?kv') = MAX_VALUES_PER_KEY" "ocount ?kv' \<le> MAX_VALUES_PER_KEY"
    "cstring (okey ?kv')" "ovalues ?kv' = ovalues kv @ [v]"
    using assms(1,3) kv
    by (simp_all add: inter_ok_def kv_def ovalues_def take_update_snoc)
  have "\<forall>x\<in>set ((intermediate s)[i := ?kv']). length (ovalue x) = MAX_VALUES_PER_KEY
      \<and> ocount x \<le> MAX_VALUES_PER_KEY"
    using assms(1) kv'(1,2) by (intro ball_list_update) (simp_all add: inter_ok_def)
  moreover have "\<forall>x\<in>set (take ?n ((intermediate s)[i := ?kv'])). cstring (okey x)"
    using assms(1) kv'(3) unfolding take_update_swap
    by (intro ball_list_update) (simp_all add: inter_ok_def)
  ultimately show "inter_ok s'" using assms(1) unfolding s'_def inter_ok_def by simp
  show "inter_view s' = (inter_view s)[i := (okey kv, ovalues kv @ [v])]"
    using kv'(4) by (simp add: s'_def inter_view_def take_update_swap map_update group_of_def)
qed

lemma inter_create:
  assumes "inter_ok s" "intermediate_count s < MAX_INTERMEDIATE" "cstring k"
    and i_def: "i = intermediate_count s"
    and s'_def: "s' = s\<lparr>intermediate_count := i + 1, intermediate := (intermediate s)[i :=
      (intermediate s ! i)\<lparr>okey := k, ocount := 0\<rparr>]\<rparr>"
  shows "inter_ok s'" "inter_view s' = inter_view s @ [(k, [])]"
proof -
  let ?kv' = "(intermediate s ! i)\<lparr>okey := k, ocount := 0\<rparr>"
  have len: "i < length (intermediate s)" using assms by (simp add: inter_ok_def)
  then have "intermediate s ! i \<in> set (intermediate s)" by simp
  then have "length (ovalue ?kv') = MAX_VALUES_PER_KEY" using assms(1) by (simp add: inter_ok_def)
  then have "\<forall>x\<in>set ((intermediate s)[i := ?kv']). length (ovalue x) = MAX_VALUES_PER_KEY
      \<and> ocount x \<le> MAX_VALUES_PER_KEY"
    using assms(1) by (intro ball_list_update) (simp_all add: inter_ok_def)
  then show "inter_ok s'" using assms len
    unfolding s'_def inter_ok_def by (simp add: take_update_snoc)
  show "inter_view s' = inter_view s @ [(k, [])]"
    using len by (simp add: s'_def inter_view_def take_update_snoc group_of_def ovalues_def i_def)
qed

text \<open>\<open>mr_emit_i\<close> on every branch that does not run out of the array of a group.\<close>

lemma emit_i_refines:
  assumes ok: "inter_ok s" "emit_ok k v"
    and room: "k \<in> fst ` set (inter_view s) \<or> intermediate_count s < MAX_INTERMEDIATE"
    and vals: "case map_of (inter_view s) k of None \<Rightarrow> True | Some vs \<Rightarrow> length vs < MAX_VALUES_PER_KEY"
    and dist: "distinct (map fst (inter_view s))"
  obtains s' where "mr_emit_i s k v = ret (s', 0)" "inter_ok s'"
    "inter_view s' = group_add k v (inter_view s)"
    "final_table s' = final_table s" "final_kvs s' = final_kvs s"
proof -
  let ?n = "intermediate_count s"
  let ?kvs = "take ?n (intermediate s)"
  have cs: "cstring k" "\<forall>kv\<in>set ?kvs. cstring (okey kv)"
    using ok by (simp_all add: inter_ok_def emit_ok_def)
  have n: "length ?kvs = ?n" using ok by (simp add: inter_ok_def)
  have keys: "fst ` set (inter_view s) = okey ` set ?kvs"
    by (simp add: inter_view_def group_of_def image_image)
  have lv: "length v < MAX_VALUE_SIZE" "length k < MAX_KEY_SIZE" using ok by (simp_all add: emit_ok_def)
  show ?thesis
  proof (cases "find_intermediate ?kvs k")
    case (Some i)
    let ?kv = "intermediate s ! i"
    let ?s' = "s\<lparr>intermediate := (intermediate s)[i :=
      ?kv\<lparr>ovalue := (ovalue ?kv)[ocount ?kv := v], ocount := ocount ?kv + 1\<rparr>]\<rparr>"
    have i: "i < ?n" "okey ?kv = k" "\<forall>j<i. okey (intermediate s ! j) \<noteq> k"
      using find_intermediate_Some [OF cs Some] n by auto
    have kv: "?kv \<in> set (intermediate s)" using ok i by (simp add: inter_ok_def)
    have at: "inter_view s ! i = (k, ovalues ?kv)" "length (inter_view s) = ?n"
      using i n by (simp_all add: inter_view_def group_of_def)
    then have "(k, ovalues ?kv) \<in> set (inter_view s)" using i by (metis nth_mem)
    then have "length (ovalues ?kv) < MAX_VALUES_PER_KEY" using vals dist by simp
    moreover have "length (ovalue ?kv) = MAX_VALUES_PER_KEY" "ocount ?kv \<le> MAX_VALUES_PER_KEY"
      using ok kv by (simp_all add: inter_ok_def)
    ultimately have c: "ocount ?kv < length (ovalue ?kv)" "ocount ?kv < MAX_VALUES_PER_KEY"
      by (simp_all add: ovalues_def)
    have "mr_emit_i s k v = ret (?s', 0)"
      using Some c lv by (simp add: mr_emit_i_def find_or_create_intermediate_def put_value_ret Let_def)
    moreover have "group_add k v (inter_view s) = (inter_view s)[i := (k, ovalues ?kv @ [v])]"
      using i at n by (subst group_add_old [of i]) (auto simp: inter_view_def group_of_def)
    ultimately show ?thesis
      using inter_update [OF ok(1) i(1) c(2) refl refl, of v] i(2) by (intro that [of ?s']) simp_all
  next
    case None
    then have new: "k \<notin> fst ` set (inter_view s)" using find_intermediate_None [OF cs] keys by simp
    with room have lt: "?n < MAX_INTERMEDIATE" by blast
    let ?s1 = "s\<lparr>intermediate_count := ?n + 1, intermediate := (intermediate s)[?n :=
      (intermediate s ! ?n)\<lparr>okey := k, ocount := 0\<rparr>]\<rparr>"
    note s1 = inter_create [OF ok(1) lt cs(1) refl refl]
    let ?kv = "intermediate ?s1 ! ?n"
    let ?s' = "?s1\<lparr>intermediate := (intermediate ?s1)[?n :=
      ?kv\<lparr>ovalue := (ovalue ?kv)[ocount ?kv := v], ocount := ocount ?kv + 1\<rparr>]\<rparr>"
    have len: "?n < length (intermediate s)" using ok(1) lt by (simp add: inter_ok_def)
    have fc: "find_or_create_intermediate s k = ret (?s1, Some ?n)"
      using None lt lv by (simp add: find_or_create_intermediate_def strcpy_ret Let_def)
    have kv: "okey ?kv = k" "ocount ?kv = 0" "ovalues ?kv = []"
      using len by (simp_all add: ovalues_def)
    have "length (ovalue ?kv) = MAX_VALUES_PER_KEY"
      using ok(1) len by (simp add: inter_ok_def)
    then have "mr_emit_i s k v = ret (?s', 0)"
      unfolding mr_emit_i_def fc using lv kv
      by (simp add: put_value_ret Let_def MAX_VALUES_PER_KEY_def)
    moreover have "inter_ok ?s'" "inter_view ?s' = (inter_view ?s1)[?n := (k, [v])]"
      using inter_update [OF s1(1) _ _ refl refl, of ?n v] kv by (simp_all add: MAX_VALUES_PER_KEY_def)
    moreover have "(inter_view ?s1)[?n := (k, [v])] = group_add k v (inter_view s)"
      unfolding s1(2) group_add_new [OF new]
      using n by (simp add: inter_view_def list_update_append)
    ultimately show ?thesis by (intro that [of ?s']) simp_all
  qed
qed

text \<open>When all 1024 groups are taken, a new key is refused and nothing changes.\<close>

lemma emit_i_full:
  assumes "inter_ok s" "cstring k" "k \<notin> fst ` set (inter_view s)"
    "intermediate_count s = MAX_INTERMEDIATE"
  shows "mr_emit_i s k v = ret (s, -1)"
proof -
  let ?kvs = "take (intermediate_count s) (intermediate s)"
  have "\<forall>kv\<in>set ?kvs. cstring (okey kv)" using assms(1) by (simp add: inter_ok_def)
  moreover have "k \<notin> okey ` set ?kvs"
    using assms(3) by (simp add: inter_view_def group_of_def image_image)
  ultimately have "find_intermediate ?kvs k = None"
    using find_intermediate_None [OF assms(2)] by blast
  then show ?thesis
    using assms(4) by (simp add: mr_emit_i_def find_or_create_intermediate_def)
qed

text \<open>The 257th value of a key is written behind the array of its values.\<close>

lemma emit_i_overrun:
  assumes "inter_ok s" "cstring k" "i < intermediate_count s" "okey (intermediate s ! i) = k"
    "ocount (intermediate s ! i) = MAX_VALUES_PER_KEY" "distinct (map fst (inter_view s))"
  shows "mr_emit_i s k v = fail OutOfBounds"
proof -
  let ?kvs = "take (intermediate_count s) (intermediate s)"
  have cs: "\<forall>kv\<in>set ?kvs. cstring (okey kv)" using assms(1) by (simp add: inter_ok_def)
  have n: "intermediate_count s \<le> length (intermediate s)" using assms(1) by (simp add: inter_ok_def)
  then have "k \<in> okey ` set ?kvs" using assms(3,4) by (force simp: in_set_conv_nth)
  then obtain j where j: "find_intermediate ?kvs k = Some j"
    using find_intermediate_None [OF assms(2) cs] by (cases "find_intermediate ?kvs k") auto
  with find_intermediate_Some [OF assms(2) cs] have "j < intermediate_count s" "okey (?kvs ! j) = k" by auto
  then have "fst (inter_view s ! j) = fst (inter_view s ! i)"
    "j < length (inter_view s)" "i < length (inter_view s)"
    using assms(3,4) n by (simp_all add: inter_view_def group_of_def)
  then have "j = i" using assms(6) by (metis distinct_conv_nth length_map nth_map)
  moreover have "length (ovalue (intermediate s ! i)) = MAX_VALUES_PER_KEY"
    using assms(1,3) n by (simp add: inter_ok_def)
  ultimately show ?thesis
    using j assms(5) by (simp add: mr_emit_i_def find_or_create_intermediate_def put_value_def Let_def)
qed

end
