(* ===== verification/Map_Reduce_Final.thy ===== *)
theory Map_Reduce_Final
  imports Map_Reduce_Emit
begin

text \<open>
  The final store: \<open>mr_emit_f\<close> refines \<open>group_add\<close> through the laws of
  \<open>keyed_table\<close>, and the sorted copy of the table is the list of its groups in the
  strict order of their keys.
\<close>

definition fvals :: "final_kv \<Rightarrow> bytes list" where
  "fvals e = take (fcount e) (fvalue e)"

definition final_kv_ok :: "bytes \<Rightarrow> final_kv \<Rightarrow> bool" where
  "final_kv_ok k e \<longleftrightarrow> fkey e = k \<and> cstring k \<and> length k < MAX_KEY_SIZE
     \<and> length (fvalue e) = MAX_VALUES_PER_KEY \<and> fcount e \<le> MAX_VALUES_PER_KEY
     \<and> (\<forall>v\<in>set (fvals e). length v < MAX_VALUE_SIZE)"

definition final_ok :: "mr_state \<Rightarrow> bool" where
  "final_ok s \<longleftrightarrow> obj_ok (final_table s) (final_kvs s)
     \<and> (\<forall>k e. obj_map (final_table s) (final_kvs s) k = Some e \<longrightarrow> final_kv_ok k e)"

lemma final_okD:
  assumes "final_ok s"
  shows "obj_ok (final_table s) (final_kvs s)"
    "obj_map (final_table s) (final_kvs s) k = Some e \<Longrightarrow> final_kv_ok k e"
    "(k, p) \<in> set (entries (final_table s)) \<Longrightarrow> final_kv_ok k (final_kvs s ! p)"
proof -
  show ok: "obj_ok (final_table s) (final_kvs s)"
    and e: "obj_map (final_table s) (final_kvs s) k = Some e \<Longrightarrow> final_kv_ok k e"
    using assms by (simp_all add: final_ok_def)
  assume "(k, p) \<in> set (entries (final_table s))"
  then have "obj_map (final_table s) (final_kvs s) k = Some (final_kvs s ! p)"
    using map_of_is_SomeI [OF obj_okD(3) [OF ok]] by (simp add: obj_map_def)
  with assms show "final_kv_ok k (final_kvs s ! p)" by (simp add: final_ok_def)
qed

definition final_view :: "mr_state \<Rightarrow> (bytes \<times> bytes list) list" where
  "final_view s = map (\<lambda>(k, p). (k, fvals (final_kvs s ! p))) (entries (final_table s))"

text \<open>The final store holds the pairs of the list, grouped.\<close>

definition holds_pairs :: "mr_state \<Rightarrow> (bytes \<times> bytes) list \<Rightarrow> bool" where
  "holds_pairs s es \<longleftrightarrow> final_ok s \<and> map_of (final_view s) = map_of (groups es)"

lemma final_view_keys: "map fst (final_view s) = map fst (entries (final_table s))"
  by (simp add: final_view_def comp_def case_prod_beta)

lemma holds_pairs_keys:
  assumes "holds_pairs s es"
  shows "fst ` set (final_view s) = fst ` set es" "length (final_view s) = card (fst ` set es)"
proof -
  have m: "dom (map_of (final_view s)) = dom (map_of (groups es))"
    using assms by (simp add: holds_pairs_def)
  then show k: "fst ` set (final_view s) = fst ` set es"
    by (simp add: dom_map_of_conv_image_fst groups_keys)
  have "distinct (map fst (final_view s))"
    using assms obj_okD(3) by (auto simp: holds_pairs_def final_ok_def final_view_keys)
  then show "length (final_view s) = card (fst ` set es)"
    unfolding k [symmetric] by (metis distinct_card image_set length_map)
qed

lemma init_holds: "holds_pairs init_mr []"
  by (simp add: holds_pairs_def final_ok_def init_mr_def final_view_def entries_def)

section \<open>One emit call\<close>

lemma fvals_put:
  "fcount e < length (fvalue e) \<Longrightarrow>
   fvals (e\<lparr>fvalue := (fvalue e)[fcount e := v], fcount := fcount e + 1\<rparr>) = fvals e @ [v]"
  by (simp add: fvals_def take_update_snoc)

lemma map_of_map_snd:
  "map_of (map (\<lambda>(k, p). (k, f p)) xs) k = map_option f (map_of xs k)"
  by (induction xs) auto

lemma final_view_map_of:
  "map_of (final_view s) k = map_option fvals (obj_map (final_table s) (final_kvs s) k)"
  by (simp add: final_view_def map_of_map_snd obj_map_def option.map_comp comp_def)

lemma final_update:
  assumes ok: "final_ok s" and p: "map_of (entries (final_table s)) k = Some p"
    and lt: "fcount (final_kvs s ! p) < MAX_VALUES_PER_KEY" and v: "length v < MAX_VALUE_SIZE"
    and e: "e = final_kvs s ! p"
    and s': "s' = s\<lparr>final_kvs := (final_kvs s)[p :=
      e\<lparr>fvalue := (fvalue e)[fcount e := v], fcount := fcount e + 1\<rparr>]\<rparr>"
  shows "final_ok s'" "map_of (final_view s') = (map_of (final_view s))(k \<mapsto> fvals e @ [v])"
proof -
  let ?e = "e\<lparr>fvalue := (fvalue e)[fcount e := v], fcount := fcount e + 1\<rparr>"
  note d = final_okD [OF ok]
  have "final_kv_ok k e" using d(3) [OF map_of_SomeD [OF p]] by (simp only: e)
  moreover have "fcount e < MAX_VALUES_PER_KEY" using lt by (simp only: e)
  moreover have "fcount e < length (fvalue e)" using calculation by (simp add: final_kv_ok_def)
  note fe = fvals_put [OF this, of v]
  ultimately have e': "final_kv_ok k ?e" unfolding final_kv_ok_def fe using v by simp
  note u = obj_update [OF d(1) p, of ?e]
  have tab: "final_table s' = final_table s" "final_kvs s' = (final_kvs s)[p := ?e]" by (simp_all add: s')
  show "final_ok s'" unfolding final_ok_def tab u(2) using u(1) d(2) e' by simp
  show "map_of (final_view s') = (map_of (final_view s))(k \<mapsto> fvals e @ [v])"
    unfolding fun_eq_iff final_view_map_of tab u(2) using fe by simp
qed

lemma final_create:
  assumes ok: "final_ok s" and k: "cstring k" "length k < MAX_KEY_SIZE"
    and tbl: "\<And>x. obj_ok tbl (final_kvs s @ [x])"
      "\<And>x. obj_map tbl (final_kvs s @ [x]) = (obj_map (final_table s) (final_kvs s))(k \<mapsto> x)"
    and s': "s' = s\<lparr>final_table := tbl,
      final_kvs := final_kvs s @ [\<lparr>fkey = k, fvalue = fresh_values, fcount = 0\<rparr>]\<rparr>"
  shows "final_ok s'" "map_of (final_view s') = (map_of (final_view s))(k \<mapsto> [])"
proof -
  have "final_kv_ok k \<lparr>fkey = k, fvalue = fresh_values, fcount = 0\<rparr>"
    using k by (simp add: final_kv_ok_def fresh_values_def fvals_def)
  with tbl final_okD(2) [OF ok] show "final_ok s'" by (auto simp: final_ok_def s')
  show "map_of (final_view s') = (map_of (final_view s))(k \<mapsto> [])"
    by (simp add: fun_eq_iff final_view_map_of s' tbl fvals_def)
qed

lemma key_fits: "length k < MAX_KEY_SIZE \<Longrightarrow> length k < 2 ^ 32"
  by (simp add: MAX_KEY_SIZE_def)

lemma emit_f_refines:
  assumes hold: "holds_pairs s es" and e: "emit_ok k v"
    and vals: "length (vals_of es k) < MAX_VALUES_PER_KEY"
  shows "(mr_emit_f s k v = fail BadShift \<and> k \<notin> fst ` set es \<and> 26 \<le> card (fst ` set es) \<and> crowded (fst ` set es)) \<or>
    (\<exists>s'. mr_emit_f s k v = ret (s', 0) \<and> holds_pairs s' (es @ [(k, v)])
      \<and> intermediate s' = intermediate s \<and> intermediate_count s' = intermediate_count s)"
proof -
  let ?E = "entries (final_table s)"
  have ok: "final_ok s" and view: "map_of (final_view s) = map_of (groups es)"
    using hold by (simp_all add: holds_pairs_def)
  have kv: "cstring k" "length k < MAX_KEY_SIZE" "length v < MAX_VALUE_SIZE"
    using e by (simp_all add: emit_ok_def)
  note k32 = key_fits [OF kv(2)]
  have find: "hash_find_str (final_table s) k = map_of ?E k"
    by (rule obj_map_find [OF final_okD(1) [OF ok] k32])
  have step: "map_of (group_add k v (groups es)) =
    (map_of (final_view s))(k \<mapsto> vals_of es k @ [v])"
    by (auto simp: group_add_map_of groups_map_of view fun_eq_iff)
  have put: "\<exists>s'. rbind (put_value (fvalue (final_kvs s1 ! p)) (fcount (final_kvs s1 ! p)) v)
        (\<lambda>rows. ret (s1\<lparr>final_kvs := (final_kvs s1)[p :=
            (final_kvs s1 ! p)\<lparr>fvalue := rows, fcount := fcount (final_kvs s1 ! p) + 1\<rparr>]\<rparr>, 0 :: int)) = ret (s', 0)
      \<and> holds_pairs s' (es @ [(k, v)])
      \<and> intermediate s' = intermediate s1 \<and> intermediate_count s' = intermediate_count s1"
    if ok1: "final_ok s1" and p: "map_of (entries (final_table s1)) k = Some p"
      and f: "fvals (final_kvs s1 ! p) = vals_of es k"
      and m: "(map_of (final_view s1))(k \<mapsto> vals_of es k @ [v]) = (map_of (final_view s))(k \<mapsto> vals_of es k @ [v])"
    for s1 p
  proof -
    let ?e = "final_kvs s1 ! p"
    have "final_kv_ok k ?e" by (rule final_okD(3) [OF ok1 map_of_SomeD [OF p]])
    then have c: "fcount ?e < MAX_VALUES_PER_KEY" "length (fvalue ?e) = MAX_VALUES_PER_KEY"
      using vals by (auto simp: final_kv_ok_def fvals_def simp flip: f)
    note u = final_update [OF ok1 p c(1) kv(3) refl refl]
    show ?thesis
      using c kv(3) u step m unfolding f
      by (simp add: put_value_ret holds_pairs_def)
  qed
  show ?thesis
  proof (cases "map_of ?E k")
    case (Some p)
    have "fvals (final_kvs s ! p) = vals_of es k"
      using Some fun_cong [OF view, of k] by (simp add: final_view_map_of obj_map_def groups_map_of split: if_splits)
    from put [OF ok Some this refl] show ?thesis
      by (simp add: mr_emit_f_def find Some Let_def)
  next
    case None
    then have new: "k \<notin> fst ` set ?E" by (simp add: map_of_eq_None_iff)
    have nv: "vals_of es k = []"
      using None fun_cong [OF view, of k] by (simp add: final_view_map_of obj_map_def groups_map_of split: if_splits)
    show ?thesis
    proof (cases rule: obj_add [OF final_okD(1) [OF ok] k32 new])
      case 1
      have "length ?E = card (fst ` set es)"
        using holds_pairs_keys(2) [OF hold] by (simp add: final_view_def)
      with 1(2) have "26 \<le> card (fst ` set es)" by simp
      moreover have "crowded (fst ` set es)"
        using 1(3) holds_pairs_keys(1) [OF hold] by (simp add: final_view_def image_image case_prod_beta)
      moreover have "k \<notin> fst ` set es" using nv by (simp add: vals_of_Nil_iff)
      ultimately show ?thesis
        using 1(1) kv(2) by (simp add: mr_emit_f_def find None Let_def strcpy_ret)
    next
      case (2 tbl)
      note c = final_create [OF ok kv(1,2) 2(2,3) refl]
      let ?s1 = "s\<lparr>final_table := tbl,
        final_kvs := final_kvs s @ [\<lparr>fkey = k, fvalue = fresh_values, fcount = 0\<rparr>]\<rparr>"
      have "map_of (entries (final_table ?s1)) k = Some (length (final_kvs s))"
        using None by (simp add: 2(4) map_add_def)
      moreover have "fvals (final_kvs ?s1 ! length (final_kvs s)) = vals_of es k"
        by (simp add: nv fvals_def)
      moreover have "(map_of (final_view ?s1))(k \<mapsto> vals_of es k @ [v]) =
          (map_of (final_view s))(k \<mapsto> vals_of es k @ [v])"
        using c(2) by simp
      ultimately show ?thesis
        using put [OF c(1), of "length (final_kvs s)"] kv(2) 2(1)
        by (simp add: mr_emit_f_def find None Let_def strcpy_ret)
    qed
  qed
qed

end
