(* ===== verification/Map_Reduce_Exec.thy ===== *)
theory Map_Reduce_Exec
  imports Map_Reduce_Final
begin

text \<open>
  \<open>mr_exec\<close>: for all schedules that give the threads enough turns, its output is the
  groups of the pairs that the reducer emits on the groups of the pairs that the mapper
  emits, in strict order of the keys, and nothing depends on the schedule but the order of
  the values of a key.
\<close>

section \<open>Sequences of emit calls\<close>

definition pairs_ok :: "(bytes \<times> bytes) list \<Rightarrow> bool" where
  "pairs_ok es \<longleftrightarrow> (\<forall>e\<in>set es. emit_ok (fst e) (snd e))
     \<and> (\<forall>k\<in>fst ` set es. length (vals_of es k) \<le> MAX_VALUES_PER_KEY)"

lemma pairs_ok_vals: "pairs_ok es \<Longrightarrow> length (vals_of es k) \<le> MAX_VALUES_PER_KEY"
  by (cases "k \<in> fst ` set es") (auto simp: pairs_ok_def vals_of_Nil_iff [symmetric])

lemma pairs_ok_cong:
  assumes "mset es = mset es'"
  shows "pairs_ok es \<longleftrightarrow> pairs_ok es'"
proof -
  have "set es = set es'" using assms by (rule mset_eq_setD)
  moreover have "length (vals_of es k) = length (vals_of es' k)" for k
    using mset_vals_of_cong [OF assms] by (rule mset_eq_length)
  ultimately show ?thesis by (simp add: pairs_ok_def)
qed

lemma emit_i_seq:
  "inter_ok s \<Longrightarrow> inter_view s = groups es0 \<Longrightarrow> pairs_ok (es0 @ es) \<Longrightarrow>
   card (fst ` set (es0 @ es)) \<le> MAX_INTERMEDIATE \<Longrightarrow>
   \<exists>s'. emit_seq mr_emit_i s es = ret s' \<and> inter_ok s' \<and> inter_view s' = groups (es0 @ es)
     \<and> final_table s' = final_table s \<and> final_kvs s' = final_kvs s"
proof (induction es arbitrary: s es0)
  case (Cons e es)
  obtain k v where e: "e = (k, v)" by (cases e)
  have ek: "emit_ok k v" using Cons.prems(3) by (simp add: pairs_ok_def e)
  have cnt: "length (inter_view s) = intermediate_count s"
    using Cons.prems(1) by (simp add: inter_view_def inter_ok_def)
  have room: "k \<in> fst ` set (inter_view s) \<or> intermediate_count s < MAX_INTERMEDIATE"
  proof (cases "k \<in> fst ` set es0")
    case False
    then have "card (fst ` set es0) + 1 = card (insert k (fst ` set es0))" by simp
    also have "\<dots> \<le> card (fst ` set (es0 @ e # es))" by (intro card_mono) (auto simp: e)
    finally show ?thesis
      using Cons.prems(2,4) cnt by (simp add: length_groups)
  qed (simp add: Cons.prems(2) groups_keys)
  have "length (vals_of (es0 @ e # es) k) \<le> MAX_VALUES_PER_KEY"
    by (rule pairs_ok_vals [OF Cons.prems(3)])
  then have vals: "case map_of (inter_view s) k of None \<Rightarrow> True | Some vs \<Rightarrow> length vs < MAX_VALUES_PER_KEY"
    by (simp add: Cons.prems(2) groups_map_of e)
  obtain s1 where s1: "mr_emit_i s k v = ret (s1, 0)" "inter_ok s1"
    "inter_view s1 = group_add k v (inter_view s)"
    "final_table s1 = final_table s" "final_kvs s1 = final_kvs s"
    by (rule emit_i_refines [OF Cons.prems(1) ek room vals])
      (simp add: Cons.prems(2) groups_distinct)
  have "inter_view s1 = groups (es0 @ [e])" by (simp add: s1(3) Cons.prems(2) e)
  from Cons.IH [OF s1(2) this] Cons.prems(3,4) show ?case by (simp add: e s1)
qed simp

lemma emit_f_seq:
  "holds_pairs s es0 \<Longrightarrow> pairs_ok (es0 @ es) \<Longrightarrow>
   (emit_seq mr_emit_f s es = fail BadShift \<and> overfull (fst ` set (es0 @ es))) \<or>
   (\<exists>s'. emit_seq mr_emit_f s es = ret s' \<and> holds_pairs s' (es0 @ es))"
proof (induction es arbitrary: s es0)
  case (Cons e es)
  obtain k v where e: "e = (k, v)" by (cases e)
  have ek: "emit_ok k v" using Cons.prems(2) by (simp add: pairs_ok_def e)
  have "length (vals_of (es0 @ e # es) k) \<le> MAX_VALUES_PER_KEY"
    by (rule pairs_ok_vals [OF Cons.prems(2)])
  then have vals: "length (vals_of es0 k) < MAX_VALUES_PER_KEY" by (simp add: e)
  consider (full) "mr_emit_f s k v = fail BadShift" "k \<notin> fst ` set es0" "26 \<le> card (fst ` set es0)" "crowded (fst ` set es0)"
    | (added) s1 where "mr_emit_f s k v = ret (s1, 0)" "holds_pairs s1 (es0 @ [(k, v)])"
    using emit_f_refines [OF Cons.prems(1) ek vals] by blast
  then show ?case
  proof cases
    case full
    have "overfull (insert k (fst ` set es0))"
      using full(2-4) crowded_mono [of "fst ` set es0" "insert k (fst ` set es0)"] by (auto simp: overfull_def)
    then have "overfull (fst ` set (es0 @ e # es))" by (rule overfull_mono) (auto simp: e)
    then show ?thesis using full(1) by (simp add: e)
  next
    case added
    then have "holds_pairs s1 (es0 @ [e])" "pairs_ok ((es0 @ [e]) @ es)"
      using Cons.prems(2) by (simp_all add: e)
    from Cons.IH [OF this] added show ?thesis by (simp add: e)
  qed
qed simp

section \<open>The output\<close>

interpretation final_kv_order: comparison final_kv_cmp "\<lambda>e. cstring (fkey e)"
proof
  fix x y z :: final_kv
  assume c: "cstring (fkey x)" "cstring (fkey y)"
  show "final_kv_cmp x y \<le> 0 \<or> final_kv_cmp y x \<le> 0"
    using c by (auto simp: final_kv_cmp_def strcmp_le)
  assume "cstring (fkey z)" "final_kv_cmp x y \<le> 0" "final_kv_cmp y z \<le> 0"
  with c show "final_kv_cmp x z \<le> 0"
    by (auto simp: final_kv_cmp_def strcmp_le)
qed

lemma copy_values_ret:
  "n + i \<le> length src \<Longrightarrow> n + i \<le> length dst \<Longrightarrow> \<forall>v\<in>set (take (n + i) src). length v < MAX_VALUE_SIZE \<Longrightarrow>
   take i dst = take i src \<Longrightarrow>
   \<exists>dst'. copy_values src n i dst = ret dst' \<and> take (n + i) dst' = take (n + i) src"
proof (induction n arbitrary: i dst)
  case (Suc n)
  have "src ! i \<in> set (take (Suc n + i) src)"
    using Suc.prems(1) by (auto simp: in_set_conv_nth intro!: exI [of _ i])
  then have "length (src ! i) < MAX_VALUE_SIZE" using Suc.prems(3) by blast
  then have "copy_values src (Suc n) i dst = copy_values src n (i + 1) (dst[i := src ! i])"
    using Suc.prems(1,2) by (simp add: put_value_ret)
  moreover have "take (i + 1) (dst[i := src ! i]) = take (i + 1) src"
    using Suc.prems(1,2,4) by (simp add: take_Suc_conv_app_nth)
  ultimately show ?case
    using Suc.IH [of "i + 1" "dst[i := src ! i]"] Suc.prems(1-3) by simp
qed simp

lemma copy_final_ret:
  assumes "final_kv_ok k e"
  shows "\<exists>kv. copy_final e = ret kv \<and> okey kv = k \<and> ovalues kv = fvals e"
proof -
  have "\<exists>dst. copy_values (fvalue e) (fcount e) 0 fresh_values = ret dst
      \<and> take (fcount e) dst = take (fcount e) (fvalue e)"
    using copy_values_ret [of "fcount e" 0 "fvalue e" fresh_values] assms
    by (simp add: final_kv_ok_def fvals_def fresh_values_def)
  with assms show ?thesis
    by (auto simp: copy_final_def final_kv_ok_def ovalues_def fvals_def strcpy_ret)
qed

lemma copy_all_ret:
  "length es \<le> room \<Longrightarrow> list_all2 final_kv_ok ks es \<Longrightarrow>
   \<exists>out. copy_all room es = ret out \<and> map group_of out = zip ks (map fvals es)"
proof (induction es arbitrary: room ks)
  case (Cons e es)
  then obtain k ks' where ks: "ks = k # ks'" "final_kv_ok k e" "list_all2 final_kv_ok ks' es"
    by (auto simp: list_all2_Cons2)
  from copy_final_ret [OF ks(2)] obtain kv where kv: "copy_final e = ret kv" "okey kv = k"
    "ovalues kv = fvals e" by blast
  have "length es \<le> room - 1" using Cons.prems(1) by simp
  from Cons.IH [OF this ks(3)] obtain out where
    "copy_all (room - 1) es = ret out" "map group_of out = zip ks' (map fvals es)" by blast
  moreover have "group_of kv = (k, fvals e)" using kv by (simp add: group_of_def)
  ultimately show ?case using Cons.prems(1) kv(1) by (auto simp: ks(1))
qed simp

lemma sort_final_facts:
  assumes "holds_pairs s es"
  shows "holds_pairs (sort_final s) es" "sorted_wrt (<) (map fst (entries (final_table (sort_final s))))"
proof -
  let ?kvs = "final_kvs s"
  let ?cmp = "\<lambda>p q. final_kv_cmp (?kvs ! p) (?kvs ! q)"
  have ok: "final_ok s" using assms by (simp add: holds_pairs_def)
  note d = final_okD [OF ok]
  note srt = obj_sort [OF d(1), of ?cmp]
  show "holds_pairs (sort_final s) es"
    using assms srt(1) by (simp add: holds_pairs_def final_ok_def fun_eq_iff final_view_map_of
        sort_final_def srt(2))
  have key: "fkey (?kvs ! p) = k" "cstring k" if "(k, p) \<in> set (entries (final_table s))" for k p
    using d(3) [OF that] by (simp_all add: final_kv_ok_def)
  have "sorted_wrt (<) (map fst (entries (hash_sort ?cmp (final_table s))))"
    by (rule obj_sort_keys [OF d(1) final_kv_order.comparison_axioms])
      (use key in \<open>auto simp: final_kv_cmp_def strcmp_le\<close>)
  then show "sorted_wrt (<) (map fst (entries (final_table (sort_final s))))"
    by (simp add: sort_final_def)
qed

text \<open>The table after the sort, copied out.\<close>

lemma output_facts:
  assumes h: "holds_pairs s es" and small: "card (fst ` set es) < 2 ^ 32"
  shows "\<exists>out. copy_all (unat (hash_count (final_table (sort_final s))))
      (map (\<lambda>p. final_kvs (sort_final s) ! p) (hash_iter (final_table (sort_final s)))) = ret out
    \<and> map group_of out = final_view (sort_final s)"
proof -
  let ?s = "sort_final s"
  let ?E = "entries (final_table ?s)"
  have hold: "holds_pairs ?s es" using sort_final_facts(1) [OF h] .
  have ok: "final_ok ?s" using hold by (simp add: holds_pairs_def)
  have len: "length ?E = card (fst ` set es)"
    using holds_pairs_keys(2) [OF hold] by (simp add: final_view_def)
  have cnt: "unat (hash_count (final_table ?s)) = length ?E"
    by (rule hash_count_entries [OF obj_okD(1) [OF final_okD(1) [OF ok]]]) (use small in \<open>simp only: len\<close>)
  have "list_all2 final_kv_ok (map fst ?E) (map (\<lambda>p. final_kvs ?s ! p) (map snd ?E))"
    using final_okD(3) [OF ok] by (force simp: list_all2_conv_all_nth in_set_conv_nth)
  from copy_all_ret [OF _ this, of "length ?E"] obtain out where
    "copy_all (length ?E) (map (\<lambda>p. final_kvs ?s ! p) (map snd ?E)) = ret out"
    "map group_of out = zip (map fst ?E) (map fvals (map (\<lambda>p. final_kvs ?s ! p) (map snd ?E)))"
    by auto
  moreover have "zip (map fst ?E) (map fvals (map (\<lambda>p. final_kvs ?s ! p) (map snd ?E))) = final_view ?s"
    by (rule nth_equalityI) (simp_all add: final_view_def case_prod_beta)
  ultimately show ?thesis by (simp add: cnt hash_iter_entries)
qed

section \<open>The specification of a map-reduce execution\<close>

definition mr_emitted :: "(in_kv \<Rightarrow> (bytes \<times> bytes) list) \<Rightarrow> in_kv list \<Rightarrow> (bytes \<times> bytes) list" where
  "mr_emitted map_fn input = concat (map map_fn input)"

definition mr_reduced :: "(bytes \<Rightarrow> bytes list \<Rightarrow> (bytes \<times> bytes) list) \<Rightarrow> (bytes \<times> bytes) list \<Rightarrow>
    (bytes \<times> bytes) list" where
  "mr_reduced red es = concat (map (\<lambda>k. red k (vals_of es k)) (remdups (map fst es)))"

text \<open>The reducer may emit in another order when it gets its values in another order.\<close>

definition order_insensitive :: "(bytes \<Rightarrow> bytes list \<Rightarrow> (bytes \<times> bytes) list) \<Rightarrow> (bytes \<times> bytes) list \<Rightarrow> bool" where
  "order_insensitive red es \<longleftrightarrow> (\<forall>k\<in>fst ` set es. \<forall>vs. mset vs = mset (vals_of es k) \<longrightarrow>
     mset (red k vs) = mset (red k (vals_of es k)))"

definition turns :: "nat \<Rightarrow> nat \<Rightarrow> nat list \<Rightarrow> bool" where
  "turns n m sched \<longleftrightarrow> (\<forall>t<n. m \<le> count_list sched t)"

lemma turns_complete:
  assumes "turns (length ts) (length (concat ts)) sched"
  shows "completes sched ts"
  unfolding completes_def
proof (intro allI impI)
  fix t assume t: "t < length ts"
  then have "length (ts ! t) \<le> sum_list (map length ts)"
    using elem_le_sum_list [of t "map length ts"] by simp
  with assms t show "length (ts ! t) \<le> count_list sched t"
    by (simp add: turns_def length_concat) (meson le_trans)
qed

lemma mset_concat_map: "mset (concat (map f ks)) = (\<Sum>k\<in>#mset ks. mset (f k))"
  by (induction ks) auto

lemma reduce_input:
  assumes "mset es = mset E" "order_insensitive red E"
  shows "mset (concat (map (\<lambda>g. red (fst g) (snd g)) (groups es))) = mset (mr_reduced red E)"
proof -
  have set: "set es = set E" using assms(1) by (rule mset_eq_setD)
  have "map (\<lambda>g. red (fst g) (snd g)) (groups es) = map (\<lambda>k. red k (vals_of es k)) (map fst (groups es))"
    by (auto dest!: groups_vals)
  then have "mset (concat (map (\<lambda>g. red (fst g) (snd g)) (groups es)))
      = (\<Sum>k\<in>#mset (map fst (groups es)). mset (red k (vals_of es k)))"
    by (simp only: mset_concat_map)
  also have "mset (map fst (groups es)) = mset (remdups (map fst E))"
    using groups_distinct [of es] groups_keys [of es] set
    by (intro set_eq_iff_mset_eq_distinct [THEN iffD1]) simp_all
  also have "(\<Sum>k\<in>#mset (remdups (map fst E)). mset (red k (vals_of es k)))
      = (\<Sum>k\<in>#mset (remdups (map fst E)). mset (red k (vals_of E k)))"
  proof (rule arg_cong [where f = sum_mset], rule image_mset_cong)
    fix k assume "k \<in># mset (remdups (map fst E))"
    then have "k \<in> fst ` set E" by auto
    with assms(2) mset_vals_of_cong [OF assms(1)] show "mset (red k (vals_of es k)) = mset (red k (vals_of E k))"
      unfolding order_insensitive_def by blast
  qed
  finally show ?thesis by (simp only: mr_reduced_def mset_concat_map)
qed

section \<open>The two phases\<close>

lemma map_phase:
  assumes "0 < n" "pairs_ok (mr_emitted map_fn input)"
    "card (fst ` set (mr_emitted map_fn input)) \<le> MAX_INTERMEDIATE"
    "turns n (length (mr_emitted map_fn input)) sched"
  shows "\<exists>s1 es. run_phase mr_emit_i sched ((init_intermediate s)\<lparr>intermediate_count := 0\<rparr>)
      (spawn map_fn input (length input) n) = ret s1
    \<and> mset es = mset (mr_emitted map_fn input) \<and> inter_ok s1 \<and> inter_view s1 = groups es
    \<and> final_table s1 = final_table s \<and> final_kvs s1 = final_kvs s"
proof -
  let ?ts = "spawn map_fn input (length input) n"
  let ?s0 = "(init_intermediate s)\<lparr>intermediate_count := 0\<rparr>"
  have ts: "concat ?ts = mr_emitted map_fn input"
    using spawn_concat [OF assms(1), of "length input" input map_fn] by (simp add: mr_emitted_def)
  have "completes sched ?ts" by (rule turns_complete) (use assms(4) ts in simp)
  then obtain es where es: "mset es = mset (concat ?ts)"
    "\<And>s. run_phase mr_emit_i sched s ?ts = emit_seq mr_emit_i s es"
    by (rule run_phase_seq) blast
  have m: "mset es = mset (mr_emitted map_fn input)" using es(1) ts by simp
  have "inter_ok ?s0" "inter_view ?s0 = groups []"
    by (simp_all add: inter_ok_def inter_view_def init_intermediate_def fresh_values_def)
  from emit_i_seq [OF this, of es] show ?thesis
    using assms(2,3) m pairs_ok_cong [OF m] mset_eq_setD [OF m]
    by (auto simp: es(2) init_intermediate_def)
qed

lemma reduce_phase:
  assumes n: "0 < n" and s: "inter_ok s" "inter_view s = groups es" "mset es = mset E"
    and red: "order_insensitive red E" and hold: "holds_pairs s es0"
    and ok: "pairs_ok (es0 @ mr_reduced red E)" and sched: "turns n (length (mr_reduced red E)) sched"
  shows "(run_phase mr_emit_f sched s (spawn (\<lambda>kv. red (okey kv) (ovalues kv)) (intermediate s)
        (intermediate_count s) n) = fail BadShift \<and> overfull (fst ` set (es0 @ mr_reduced red E))) \<or>
    (\<exists>s2 es'. run_phase mr_emit_f sched s (spawn (\<lambda>kv. red (okey kv) (ovalues kv)) (intermediate s)
        (intermediate_count s) n) = ret s2
      \<and> mset es' = mset (mr_reduced red E) \<and> holds_pairs s2 (es0 @ es'))"
proof -
  let ?f = "\<lambda>kv. red (okey kv) (ovalues kv)"
  let ?ts = "spawn ?f (intermediate s) (intermediate_count s) n"
  have "concat ?ts = concat (map ?f (take (intermediate_count s) (intermediate s)))"
    using s(1) by (intro spawn_concat [OF n]) (simp add: inter_ok_def)
  also have "\<dots> = concat (map (\<lambda>g. red (fst g) (snd g)) (groups es))"
    unfolding s(2) [symmetric] by (simp add: inter_view_def group_of_def comp_def)
  finally have ts: "mset (concat ?ts) = mset (mr_reduced red E)"
    using reduce_input [OF s(3) red] by simp
  have "completes sched ?ts" by (rule turns_complete) (use sched mset_eq_length [OF ts] in simp)
  then obtain es' where es': "mset es' = mset (concat ?ts)"
    "\<And>s. run_phase mr_emit_f sched s ?ts = emit_seq mr_emit_f s es'"
    by (rule run_phase_seq) blast
  have m: "mset es' = mset (mr_reduced red E)" using es'(1) ts by simp
  then have "mset (es0 @ es') = mset (es0 @ mr_reduced red E)" by simp
  with emit_f_seq [OF hold, of es'] ok m show ?thesis
    unfolding es'(2) by (metis pairs_ok_cong mset_eq_setD)
qed

text \<open>The outcome of an execution, for every schedule.\<close>

lemma mr_exec_outcome:
  assumes E_def: "E = mr_emitted map_fn input" and F_def: "F = mr_reduced red E"
    and n: "0 < mappers" "0 < reducers"
    and E: "pairs_ok E" "card (fst ` set E) \<le> MAX_INTERMEDIATE" "order_insensitive red E"
    and s: "holds_pairs s es0" "pairs_ok (es0 @ F)" "card (fst ` set (es0 @ F)) < 2 ^ 32"
    and sched: "turns mappers (length E) msched" "turns reducers (length F) rsched"
  shows "(mr_exec s input map_fn mappers red reducers msched rsched = fail BadShift
      \<and> overfull (fst ` set (es0 @ F))) \<or>
    (\<exists>s' out es. mr_exec s input map_fn mappers red reducers msched rsched = ret (s', out)
      \<and> sorted_wrt (<) (map okey out) \<and> okey ` set out = fst ` set (es0 @ F)
      \<and> (\<forall>kv\<in>set out. mset (ovalues kv) = mset (vals_of (es0 @ F) (okey kv)))
      \<and> mset es = mset F \<and> holds_pairs s' (es0 @ es))"
proof -
  let ?red = "\<lambda>kv. red (okey kv) (ovalues kv)"
  let ?rs = "\<lambda>s1. spawn ?red (intermediate s1) (intermediate_count s1) reducers"
  obtain s1 es1 where s1: "run_phase mr_emit_i msched ((init_intermediate s)\<lparr>intermediate_count := 0\<rparr>)
      (spawn map_fn input (length input) mappers) = ret s1"
    "mset es1 = mset E" "inter_ok s1" "inter_view s1 = groups es1"
    "final_table s1 = final_table s" "final_kvs s1 = final_kvs s"
    using map_phase [OF n(1), of map_fn input msched s] E(1,2) sched(1) unfolding E_def by blast
  have h1: "holds_pairs s1 es0"
    using s(1) s1(5,6) by (simp add: holds_pairs_def final_ok_def final_view_def)
  consider (full) "run_phase mr_emit_f rsched s1 (?rs s1) = fail BadShift" "overfull (fst ` set (es0 @ F))"
    | (phase) s2 es2 where "run_phase mr_emit_f rsched s1 (?rs s1) = ret s2"
        "mset es2 = mset F" "holds_pairs s2 (es0 @ es2)"
    using reduce_phase [OF n(2) s1(3,4,2) E(3) h1, of rsched] s(2) sched(2) unfolding F_def by blast
  then show ?thesis
  proof cases
    case full
    then show ?thesis using n s1(1) by (simp add: mr_exec_def Let_def)
  next
    case phase
    have m: "mset (es0 @ es2) = mset (es0 @ F)" using phase(2) by simp
    note st = mset_eq_setD [OF m]
    let ?s3 = "sort_final s2"
    obtain out where out: "copy_all (unat (hash_count (final_table ?s3)))
        (map (\<lambda>p. final_kvs ?s3 ! p) (hash_iter (final_table ?s3))) = ret out"
      "map group_of out = final_view ?s3"
      using output_facts [OF phase(3)] s(3) unfolding st by blast
    have h3: "holds_pairs ?s3 (es0 @ es2)" using sort_final_facts(1) [OF phase(3)] .
    have "map fst (map group_of out) = map fst (entries (final_table ?s3))"
      by (simp only: out(2) final_view_keys)
    then have keys: "map okey out = map fst (entries (final_table ?s3))"
      by (simp add: group_of_def comp_def)
    have "okey ` set out = fst ` set (final_view ?s3)"
      unfolding out(2) [symmetric] by (simp add: group_of_def image_image)
    then have K: "okey ` set out = fst ` set (es0 @ F)"
      using holds_pairs_keys(1) [OF h3] st by simp
    have V: "mset (ovalues kv) = mset (vals_of (es0 @ F) (okey kv))" if "kv \<in> set out" for kv
    proof -
      have "(okey kv, ovalues kv) \<in> set (final_view ?s3)"
        using that unfolding out(2) [symmetric] by (force simp: group_of_def)
      moreover have "distinct (map fst (final_view ?s3))"
        using h3 obj_okD(3) by (auto simp: holds_pairs_def final_ok_def final_view_keys)
      ultimately have "map_of (final_view ?s3) (okey kv) = Some (ovalues kv)"
        by (intro map_of_is_SomeI)
      then have "map_of (groups (es0 @ es2)) (okey kv) = Some (ovalues kv)"
        using h3 by (simp only: holds_pairs_def)
      then have "ovalues kv = vals_of (es0 @ es2) (okey kv)"
        by (simp add: groups_map_of split: if_splits)
      then show ?thesis using mset_vals_of_cong [OF m] by simp
    qed
    have "mr_exec s input map_fn mappers red reducers msched rsched = ret (?s3, out)"
      using n s1(1) phase(1) out(1) by (simp add: mr_exec_def Let_def)
    with K V h3 phase(2) sort_final_facts(2) [OF phase(3)] show ?thesis
      unfolding keys [symmetric] by blast
  qed
qed

text \<open>Property C13. For every number of mapper and reducer threads and every schedule that
  gives each thread enough turns, \<open>mr_exec\<close> ends; unless the hash table would outgrow
  $2^{31}$ buckets, which takes more than 26 different keys and ten with one home, its output lists exactly the
  keys that the reducer has emitted in strictly ascending order, each with the values emitted
  for it. \<open>es0\<close> are the pairs of earlier executions: the table is never cleared, so they are
  part of the output again. The sizes are those of the fixed arrays: at most 1024 intermediate
  keys, 256 values for a key, 15 bytes for a string.\<close>

theorem mr_exec_correct:
  assumes E_def: "E = mr_emitted map_fn input" and F_def: "F = mr_reduced red E"
    and n: "0 < mappers" "0 < reducers"
    and E: "pairs_ok E" "card (fst ` set E) \<le> MAX_INTERMEDIATE" "order_insensitive red E"
    and s: "holds_pairs s es0" "pairs_ok (es0 @ F)" "card (fst ` set (es0 @ F)) < 2 ^ 32"
    and sched: "turns mappers (length E) msched" "turns reducers (length F) rsched"
  shows "(mr_exec s input map_fn mappers red reducers msched rsched = fail BadShift
      \<and> overfull (fst ` set (es0 @ F))) \<or>
    (\<exists>s' out es. mr_exec s input map_fn mappers red reducers msched rsched = ret (s', out)
      \<and> sorted_wrt (<) (map okey out) \<and> okey ` set out = fst ` set (es0 @ F)
      \<and> (\<forall>kv\<in>set out. mset (ovalues kv) = mset (vals_of (es0 @ F) (okey kv)))
      \<and> mset es = mset F \<and> holds_pairs s' (es0 @ es))"
  by (rule mr_exec_outcome [OF assms])

definition demo_input :: "in_kv list" where
  "demo_input = [\<lparr>ikey = [98], ivalue = [1]\<rparr>, \<lparr>ikey = [97], ivalue = [2]\<rparr>, \<lparr>ikey = [98], ivalue = [3]\<rparr>]"

definition demo_map :: "in_kv \<Rightarrow> (bytes \<times> bytes) list" where
  "demo_map kv = [(ikey kv, ivalue kv)]"

definition demo_reduce :: "bytes \<Rightarrow> bytes list \<Rightarrow> (bytes \<times> bytes) list" where
  "demo_reduce k vs = map (Pair k) vs"

theorem mr_exec_correct_witness:
  "\<exists>s' out. mr_exec init_mr demo_input demo_map 2 demo_reduce 2
       [1, 0, 0, 1, 0, 1] [0, 1, 1, 0, 1, 0] = ret (s', out)
     \<and> sorted_wrt (<) (map okey out) \<and> okey ` set out = {[97], [98]}"
proof -
  have E: "[([98], [1]), ([97], [2]), ([98], [3])] = mr_emitted demo_map demo_input"
    by (simp add: mr_emitted_def demo_map_def demo_input_def)
  have F: "[([97], [2]), ([98], [1]), ([98], [3])] = mr_reduced demo_reduce [([98], [1]), ([97], [2]), ([98], [3])]"
    by (simp add: mr_reduced_def demo_reduce_def vals_of_def)
  note sizes = MAX_KEY_SIZE_def MAX_VALUE_SIZE_def MAX_VALUES_PER_KEY_def MAX_INTERMEDIATE_def
  have ok: "pairs_ok [([98], [1]), ([97], [2]), ([98], [3])]"
    "pairs_ok ([] @ [([97], [2]), ([98], [1]), ([98], [3])])"
    "order_insensitive demo_reduce [([98], [1]), ([97], [2]), ([98], [3])]"
    by (simp_all add: pairs_ok_def emit_ok_def sizes order_insensitive_def demo_reduce_def)
  have t: "turns 2 (length [([98], [1]), ([97], [2]), ([98], [3])]) [1, 0, 0, 1, 0, 1 :: nat]"
    "turns 2 (length [([97], [2]), ([98], [1]), ([98], [3])]) [0, 1, 1, 0, 1, 0 :: nat]"
    by (simp_all add: turns_def less_Suc_eq numeral_2_eq_2)
  show ?thesis
    using mr_exec_correct [OF E F _ _ ok(1) _ ok(3) init_holds ok(2) _ t]
    by (simp add: sizes insert_commute overfull_def) blast
qed

text \<open>\<open>free_final_table\<close> removes every entry, so the table is empty again. (It is
  defined and never called: the call at the end of \<open>mr_exec\<close> is commented out.)\<close>

theorem free_final_table_empties:
  assumes "hash_ok (final_table s)"
  shows "free_final_table s = ret (s\<lparr>final_table := None\<rparr>)"
proof -
  show ?thesis
  proof (cases "final_table s")
    case (Some t)
    with assms have "table_ok t" by (simp add: hash_ok_def)
    from delete_each_all [OF this refl] Some show ?thesis by (simp add: free_final_table_def)
  qed (simp add: free_final_table_def)
qed

theorem free_final_table_empties_witness:
  "free_final_table init_mr = ret (init_mr\<lparr>final_table := None\<rparr>)"
  by (rule free_final_table_empties) (simp add: init_mr_def hash_ok_def)

text \<open>The threads of a phase work on consecutive parts of the array that cover it: what
  they emit, one thread after the other, is what the function emits on the whole array.\<close>

theorem spawn_partitions:
  assumes "0 < n" "cnt \<le> length xs"
  shows "concat (spawn f xs cnt n) = concat (map f (take cnt xs))"
  using assms by (rule spawn_concat)

theorem spawn_partitions_witness:
  "concat (spawn (\<lambda>x :: u8. [([x], [x])]) [1, 2, 3, 4, 5] 5 3)
     = [([1], [1]), ([2], [2]), ([3], [3]), ([4], [4]), ([5], [5])]"
  using spawn_partitions [of 3 5 "[1, 2, 3, 4, 5]" "\<lambda>x :: u8. [([x], [x])]"] by simp

text \<open>The value array of a key has 256 rows and \<open>mr_emit_i\<close> does not test its count: the
  257th value of a key is written behind the array.\<close>

theorem emit_i_257th_value:
  assumes "inter_ok s" "cstring k" "i < intermediate_count s" "okey (intermediate s ! i) = k"
    "ocount (intermediate s ! i) = MAX_VALUES_PER_KEY" "distinct (map fst (inter_view s))"
  shows "mr_emit_i s k v = fail OutOfBounds"
  using assms by (rule emit_i_overrun)

definition demo_full_group :: mr_state where
  "demo_full_group = (init_intermediate init_mr)\<lparr>intermediate_count := 1, intermediate :=
     \<lparr>okey = [97], ovalue = fresh_values, ocount = 256\<rparr> # replicate 1023 \<lparr>okey = [], ovalue = fresh_values, ocount = 0\<rparr>\<rparr>"

theorem emit_i_257th_value_witness: "mr_emit_i demo_full_group [97] [1] = fail OutOfBounds"
  by (rule emit_i_257th_value [where i = 0])
    (simp_all add: inter_ok_def demo_full_group_def MAX_INTERMEDIATE_def MAX_VALUES_PER_KEY_def
      fresh_values_def inter_view_def)

end
