(* ===== verification/Map_Reduce_Calls.thy ===== *)
theory Map_Reduce_Calls
  imports Map_Reduce_Exec
begin

text \<open>
  The test programs of \<open>lecture/test3/src\<close> whose map functions record how the framework calls
  them: \<open>single_map.c\<close>, \<open>number_of_mappers_reducers.c\<close> and the input part of \<open>partition.c\<close>.
  The calls of the threads are interleaved by a schedule; each call records under a mutex and
  is one step. A thread is its number. The tests are shown to pass for every schedule.
\<close>

definition MAX_DATA_SIZE :: nat where "MAX_DATA_SIZE = 1024"
definition MAX_THREADS :: nat where "MAX_THREADS = 32"

section \<open>The calls of the threads\<close>

text \<open>\<open>map_thread\<close> and \<open>reduce_thread\<close>: thread \<open>t\<close> calls its function on its part of the array.\<close>

definition thread_calls :: "'a list \<Rightarrow> nat \<Rightarrow> (nat \<times> 'a) list list" where
  "thread_calls xs n = map (\<lambda>t. map (\<lambda>i. (t, xs ! i)) [chunk_start (length xs) n t..<chunk_end (length xs) n t]) [0..<n]"

definition calls :: "'a list \<Rightarrow> nat \<Rightarrow> nat list \<Rightarrow> (nat \<times> 'a) list" where
  "calls xs n sched = fst (interleave sched (thread_calls xs n))"

text \<open>A schedule keeps the order of the calls of each thread.\<close>

lemma interleave_project:
  "\<forall>u<length ts. \<forall>e\<in>set (ts ! u). fst e = u \<Longrightarrow> t < length ts \<Longrightarrow>
   filter (\<lambda>e. fst e = t) (fst (interleave sched ts)) @ snd (interleave sched ts) ! t = ts ! t"
proof (induction sched ts rule: interleave.induct)
  case (2 u sched ts)
  show ?case
  proof (cases "u < length ts \<and> ts ! u \<noteq> []")
    case True
    let ?ts = "ts[u := tl (ts ! u)]"
    have own: "\<forall>w<length ?ts. \<forall>e\<in>set (?ts ! w). fst e = w"
    proof (intro allI impI ballI)
      fix w e assume w: "w < length ?ts" "e \<in> set (?ts ! w)"
      have "set (tl (ts ! u)) \<subseteq> set (ts ! u)" by (cases "ts ! u") auto
      with w have "e \<in> set (ts ! w)" by (cases "w = u") auto
      with w(1) "2.prems"(1) show "fst e = w" unfolding length_list_update by blast
    qed
    have hd: "fst (hd (ts ! u)) = u" using "2.prems"(1) True by simp
    have IH: "filter (\<lambda>e. fst e = t) (fst (interleave sched ?ts)) @ snd (interleave sched ?ts) ! t = ?ts ! t"
      using 2(1) [OF True own] "2.prems"(2) by simp
    show ?thesis using True IH hd by (cases "t = u") auto
  next
    case False
    then have "interleave (u # sched) ts = interleave sched ts" by (simp only: interleave.simps if_False)
    with 2(3) [OF False "2.prems"] show ?thesis by (simp only:)
  qed
qed simp

lemma thread_calls_nth:
  "t < n \<Longrightarrow> thread_calls xs n ! t
    = map (\<lambda>i. (t, xs ! i)) [chunk_start (length xs) n t..<chunk_end (length xs) n t]"
  by (simp add: thread_calls_def)

text \<open>The calls of thread \<open>t\<close> in a complete schedule: its part of the array, in order.\<close>

lemma vals_of_calls:
  assumes "completes sched (thread_calls xs n)" "t < n"
  shows "vals_of (calls xs n sched) t = map ((!) xs) [chunk_start (length xs) n t..<chunk_end (length xs) n t]"
proof -
  let ?ts = "thread_calls xs n"
  have "\<forall>u<length ?ts. \<forall>e\<in>set (?ts ! u). fst e = u" by (auto simp: thread_calls_def)
  moreover have "t < length ?ts" using assms(2) by (simp add: thread_calls_def)
  ultimately have p: "filter (\<lambda>e. fst e = t) (calls xs n sched) @ snd (interleave sched ?ts) ! t = ?ts ! t"
    unfolding calls_def by (rule interleave_project)
  have "concat (snd (interleave sched ?ts)) = []" by (rule interleave_completes [OF assms(1)])
  moreover have "length (snd (interleave sched ts)) = length ts" for ts :: "(nat \<times> 'a) list list"
    by (induction sched ts rule: interleave.induct) simp_all
  then have "t < length (snd (interleave sched ?ts))" using \<open>t < length ?ts\<close> by simp
  ultimately have "snd (interleave sched ?ts) ! t = []" by (metis concat_eq_Nil_conv nth_mem)
  with p show ?thesis using assms(2) by (simp add: vals_of_def thread_calls_nth)
qed

lemma calls_threads: "fst ` set (calls xs n sched) \<subseteq> {..<n}"
proof -
  have "set (fst (interleave sched ts)) \<subseteq> set (concat ts)" for ts :: "(nat \<times> 'a) list list"
    using interleave_mset [of sched ts] by (metis mset_subset_eq_add_left set_mset_mono set_mset_mset)
  then have "set (calls xs n sched) \<subseteq> set (concat (thread_calls xs n))" unfolding calls_def .
  also have "fst ` set (concat (thread_calls xs n)) \<subseteq> {..<n}" by (auto simp: thread_calls_def)
  finally show ?thesis by blast
qed

text \<open>When the array splits evenly.\<close>

lemma even_chunks:
  assumes "0 < n" "length xs = n * c" "t < n"
  shows "chunk_start (length xs) n t = t * c" "chunk_end (length xs) n t = (t + 1) * c"
proof -
  have "(n * c + n - 1) div n = c + (n - 1) div n" using assms(1) by (metis Nat.add_diff_assoc Suc_leI One_nat_def
        div_mult_self4 less_numeral_extra(3) add.commute)
  then have c: "chunk_size (n * c) n = c" using assms(1) by (simp add: chunk_size_def)
  have "(t + 1) * c \<le> n * c" using assms(3) by (intro mult_le_mono1) simp
  then show "chunk_start (length xs) n t = t * c" "chunk_end (length xs) n t = (t + 1) * c"
    by (simp_all only: chunk_start_def chunk_end_def c assms(2)) (simp add: not_less)
qed

lemma groups_calls:
  assumes "completes sched (thread_calls xs n)" "0 < n" "length xs = n * c" "0 < c"
  shows "length (groups (calls xs n sched)) = n" "fst ` set (groups (calls xs n sched)) = {..<n}"
    "\<And>t vs. (t, vs) \<in> set (groups (calls xs n sched)) \<Longrightarrow> t < n \<and> vs = map ((!) xs) [t * c..<(t + 1) * c]"
proof -
  have v: "vals_of (calls xs n sched) t = map ((!) xs) [t * c..<(t + 1) * c]" if "t < n" for t
    using vals_of_calls [OF assms(1) that] even_chunks [OF assms(2,3) that] by simp
  have "vals_of (calls xs n sched) t \<noteq> []" if "t < n" for t
    using v [OF that] assms(4) by simp
  then have "{..<n} \<subseteq> fst ` set (calls xs n sched)" unfolding vals_of_Nil_iff by blast
  with calls_threads show k: "fst ` set (groups (calls xs n sched)) = {..<n}"
    unfolding groups_keys by blast
  then show "length (groups (calls xs n sched)) = n" by (simp add: length_groups groups_keys)
  show "t < n \<and> vs = map ((!) xs) [t * c..<(t + 1) * c]" if "(t, vs) \<in> set (groups (calls xs n sched))" for t vs
  proof -
    have "t \<in> fst ` set (groups (calls xs n sched))" using that by force
    then have "t < n" unfolding k by simp
    with v groups_vals [OF that] show ?thesis by simp
  qed
qed

section \<open>Slots of threads\<close>

text \<open>
  \<open>struct thread\<close> and \<open>struct partition\<close>: the slots of \<open>threads\<close> and of \<open>partitions\<close>, with what
  has been recorded below their counts. A call goes to the first slot that is empty or has
  the number of its thread; \<open>None\<close> is the end of the array.
\<close>

record 'v slot =
  slot_id :: nat
  recorded :: "'v list"

fun record_call :: "nat \<Rightarrow> 'v \<Rightarrow> 'v slot list \<Rightarrow> 'v slot list option" where
  "record_call self v [] = None"
| "record_call self v (p # ps) =
    (if recorded p = [] \<or> slot_id p = self then Some (\<lparr>slot_id = self, recorded = recorded p @ [v]\<rparr> # ps)
     else map_option ((#) p) (record_call self v ps))"

record 'v slots_state =
  all_slots :: "'v slot list"
  too_many :: bool

definition record_in :: "nat \<times> 'v \<Rightarrow> 'v slots_state \<Rightarrow> 'v slots_state" where
  "record_in c s = (case record_call (fst c) (snd c) (all_slots s) of
     None \<Rightarrow> s\<lparr>too_many := True\<rparr> | Some ps \<Rightarrow> s\<lparr>all_slots := ps\<rparr>)"

text \<open>\<open>nmr_reset\<close> and \<open>partitions_reset\<close>: the numbers of the threads stay.\<close>

definition reset_slots :: "'v slots_state \<Rightarrow> 'v slots_state" where
  "reset_slots s = s\<lparr>all_slots := map (\<lambda>p. p\<lparr>recorded := []\<rparr>) (all_slots s), too_many := False\<rparr>"

definition group_slot :: "nat \<times> 'v list \<Rightarrow> 'v slot" where
  "group_slot g = \<lparr>slot_id = fst g, recorded = snd g\<rparr>"

lemma record_call_groups:
  "\<forall>g\<in>set gs. snd g \<noteq> [] \<Longrightarrow> \<forall>p\<in>set rest. recorded p = [] \<Longrightarrow> t \<in> fst ` set gs \<or> rest \<noteq> [] \<Longrightarrow>
   record_call t v (map group_slot gs @ rest) =
     Some (map group_slot (group_add t v gs) @ (if t \<in> fst ` set gs then rest else tl rest))"
proof (induction gs)
  case Nil
  then show ?case by (cases rest) (simp_all add: group_slot_def)
next
  case (Cons g gs)
  obtain t' vs where g: "g = (t', vs)" by (cases g)
  show ?case using Cons by (cases "t' = t") (auto simp: g group_slot_def)
qed

lemma group_add_nonempty: "\<forall>g\<in>set gs. snd g \<noteq> [] \<Longrightarrow> \<forall>g\<in>set (group_add k v gs). snd g \<noteq> []"
  by (induction k v gs rule: group_add.induct) auto

text \<open>Recording a sequence of calls of at most as many threads as there are slots: the slots hold
  the groups of the calls.\<close>

lemma record_calls:
  assumes "all_slots s = rest0" "\<forall>p\<in>set rest0. recorded p = []" "\<not> too_many s"
  shows "card (fst ` set cs) \<le> length rest0 \<Longrightarrow>
    \<exists>rest. fold record_in cs s = s\<lparr>all_slots := map group_slot (groups cs) @ rest\<rparr> \<and> (\<forall>p\<in>set rest. recorded p = [])
      \<and> length rest = length rest0 - length (groups cs) \<and> (\<forall>g\<in>set (groups cs). snd g \<noteq> [])"
proof (induction cs rule: rev_induct)
  case Nil
  then show ?case using assms by (auto intro!: exI [of _ rest0])
next
  case (snoc c cs)
  obtain t v where c: "c = (t, v)" by (cases c)
  have ins: "card (insert t (fst ` set cs)) \<le> length rest0" using snoc.prems by (simp add: c)
  then have "card (fst ` set cs) \<le> length rest0" using card_insert_le [of "fst ` set cs" t] by linarith
  then obtain rest where r: "fold record_in cs s = s\<lparr>all_slots := map group_slot (groups cs) @ rest\<rparr>"
    "\<forall>p\<in>set rest. recorded p = []" "length rest = length rest0 - length (groups cs)" "\<forall>g\<in>set (groups cs). snd g \<noteq> []"
    using snoc.IH by blast
  have room: "t \<in> fst ` set (groups cs) \<or> rest \<noteq> []"
  proof (cases "t \<in> fst ` set cs")
    case False
    then have "length (groups cs) < length rest0" using ins by (simp add: length_groups)
    with r(3) show ?thesis by auto
  qed (simp add: groups_keys)
  note step = record_call_groups [OF r(4,2) room, of v]
  let ?rest = "if t \<in> fst ` set (groups cs) then rest else tl rest"
  have len: "length (groups (cs @ [c])) = (if t \<in> fst ` set (groups cs) then length (groups cs) else Suc (length (groups cs)))"
    by (simp only: length_groups groups_keys) (auto simp: c insert_absorb)
  have "length ?rest = length rest0 - length (groups (cs @ [c]))" using r(3) len by simp
  moreover have "\<forall>p\<in>set ?rest. recorded p = []" using r(2) by (cases rest) auto
  moreover have "fold record_in (cs @ [c]) s = s\<lparr>all_slots := map group_slot (groups (cs @ [c])) @ ?rest\<rparr>"
    using r(1) step by (simp add: record_in_def c)
  moreover have "\<forall>g\<in>set (groups (cs @ [c])). snd g \<noteq> []" using group_add_nonempty [OF r(4)] by (simp add: c)
  ultimately show ?case by blast
qed

end
