(* ===== verification/Map_Reduce_Suite.thy ===== *)
theory Map_Reduce_Suite
  imports Map_Reduce_Calls
begin

text \<open>
  The tests of the map side: \<open>single_map.c\<close>, \<open>number_of_mappers\<close> of
  \<open>number_of_mappers_reducers.c\<close> and \<open>partition_input\<close> of \<open>partition.c\<close>. Each passes for every
  schedule of the threads, whatever the earlier tests have left in the table of the framework.
  The arrays of recorded strings keep the strings without their padding.
\<close>

section \<open>Runs that emit nothing\<close>

text \<open>With a reducer that emits nothing a run succeeds and leaves the table as it was.\<close>

lemma silent_reduce:
  assumes map_done: "run_phase mr_emit_i ms ((init_intermediate s)\<lparr>intermediate_count := 0\<rparr>) (spawn mf input (length input) n) = ret s1"
    "final_table s1 = final_table s" "final_kvs s1 = final_kvs s"
    and "0 < n" "0 < r" "holds_pairs s es0" "card (fst ` set es0) < 2 ^ 32"
  shows "\<exists>s' out. mr_exec s input mf n (\<lambda>_ _. []) r ms rs = ret (s', out) \<and> holds_pairs s' es0
    \<and> intermediate s' = intermediate s1 \<and> intermediate_count s' = intermediate_count s1"
proof -
  have h1: "holds_pairs s1 es0"
    using assms(6) map_done(2,3) by (simp add: holds_pairs_def final_ok_def final_view_def)
  let ?ts = "spawn (\<lambda>kv. []) (intermediate s1) (intermediate_count s1) r :: (bytes \<times> bytes) list list"
  have ts: "\<forall>t\<in>set ?ts. t = []" by (auto simp: spawn_def thread_emits_def)
  then have c: "concat ?ts = []" by simp
  have "completes rs ?ts" using ts by (auto simp: completes_def) (metis length_spawn list.size(3) nth_mem zero_le)
  then obtain es2 where es2: "mset es2 = mset (concat ?ts)" "\<And>s. run_phase mr_emit_f rs s ?ts = emit_seq mr_emit_f s es2"
    by (rule run_phase_seq) blast
  have "es2 = []" using es2(1) unfolding c by simp
  then have "run_phase mr_emit_f rs s1 ?ts = ret s1" using es2(2) by simp
  moreover obtain out where "copy_all (unat (hash_count (final_table (sort_final s1))))
      (map (\<lambda>p. final_kvs (sort_final s1) ! p) (hash_iter (final_table (sort_final s1)))) = ret out"
    using output_facts [OF h1 assms(7)] by blast
  ultimately have "mr_exec s input mf n (\<lambda>_ _. []) r ms rs = ret (sort_final s1, out)"
    using assms(4,5) map_done(1) by (simp add: mr_exec_def Let_def)
  then show ?thesis using sort_final_facts(1) [OF h1] by (auto simp: sort_final_def)
qed

lemma mr_exec_silent:
  assumes "0 < n" "0 < r" "pairs_ok (mr_emitted mf input)" "card (fst ` set (mr_emitted mf input)) \<le> MAX_INTERMEDIATE"
    "turns n (length (mr_emitted mf input)) ms" "holds_pairs s es0" "card (fst ` set es0) < 2 ^ 32"
  shows "\<exists>s' out. mr_exec s input mf n (\<lambda>_ _. []) r ms rs = ret (s', out) \<and> holds_pairs s' es0"
  using map_phase [OF assms(1,3-5)] silent_reduce [OF _ _ _ assms(1,2,6,7)] by metis

text \<open>With one mapper the pairs are collected in the order of the input.\<close>

lemma interleave_one: "fst (interleave sched [es]) @ concat (snd (interleave sched [es])) = es"
proof (induction sched arbitrary: es)
  case (Cons t sched)
  show ?case
  proof (cases "t = 0 \<and> es \<noteq> []")
    case True
    then show ?thesis using Cons [of "tl es"] by simp
  next
    case False
    then have "\<not> (t < length [es] \<and> [es] ! t \<noteq> [])" by (cases t) auto
    then show ?thesis using Cons [of es] by (simp only: interleave.simps if_False)
  qed
qed simp

lemma mr_exec_collect:
  assumes "0 < r" "pairs_ok (mr_emitted mf input)" "card (fst ` set (mr_emitted mf input)) \<le> MAX_INTERMEDIATE"
    "turns 1 (length (mr_emitted mf input)) ms" "holds_pairs s es0" "card (fst ` set es0) < 2 ^ 32"
  shows "\<exists>s' out. mr_exec s input mf 1 (\<lambda>_ _. []) r ms rs = ret (s', out) \<and> holds_pairs s' es0
    \<and> inter_view s' = groups (mr_emitted mf input) \<and> inter_ok s'"
proof -
  let ?es = "mr_emitted mf input" and ?ts = "spawn mf input (length input) 1"
  let ?s0 = "(init_intermediate s)\<lparr>intermediate_count := 0\<rparr>"
  have "length ?ts = Suc 0" "concat ?ts = ?es"
    using spawn_concat [of 1 "length input" input mf] by (simp_all add: mr_emitted_def)
  then have ts: "?ts = [?es]" unfolding length_Suc_conv by auto
  have "completes ms [?es]" using assms(4) by (simp add: completes_def turns_def)
  from interleave_completes [OF this] interleave_one [of ms ?es]
  have "run_phase mr_emit_i ms s1 [?es] = emit_seq mr_emit_i s1 ?es" for s1
    unfolding run_phase_def run_threads_seq by (simp del: concat_eq_Nil_conv)
  moreover have "inter_ok ?s0" "inter_view ?s0 = groups []" by (simp_all add: inter_ok_def inter_view_def init_intermediate_def fresh_values_def)
  ultimately obtain s1 where s1: "run_phase mr_emit_i ms ?s0 ?ts = ret s1" "inter_view s1 = groups ?es" "inter_ok s1"
    "final_table s1 = final_table s" "final_kvs s1 = final_kvs s"
    using emit_i_seq [of ?s0 "[]" ?es] assms(2,3) unfolding ts by (auto simp: init_intermediate_def)
  from silent_reduce [OF s1(1,4,5) zero_less_one assms(1,5,6), of rs] s1(2,3) show ?thesis
    unfolding inter_view_def inter_ok_def by auto
qed

lemma mr_exec_idle:
  assumes "0 < n" "holds_pairs s es0" "card (fst ` set es0) < 2 ^ 32"
  shows "\<exists>s' out. mr_exec s input (\<lambda>_. []) n (\<lambda>_ _. []) 1 ms rs = ret (s', out) \<and> holds_pairs s' es0"
proof -
  have "mr_emitted (\<lambda>_. []) input = []" by (induction input) (simp_all add: mr_emitted_def)
  then show ?thesis using assms by (intro mr_exec_silent) (simp_all add: pairs_ok_def turns_def)
qed

text \<open>Rounds of a test with the state of the framework and the recorded calls.\<close>

fun test_rounds ::
  "('r \<Rightarrow> mr_state \<Rightarrow> 'p \<Rightarrow> (mr_state \<times> 'p \<times> bool) run) \<Rightarrow> 'r list \<Rightarrow> mr_state \<Rightarrow> 'p \<Rightarrow> (mr_state \<times> 'p \<times> bool) run" where
  "test_rounds f [] s p = ret (s, p, True)"
| "test_rounds f (r # rs) s p = rbind (f r s p) (\<lambda>(s, p, ok).
     rbind (test_rounds f rs s p) (\<lambda>(s, p, res). ret (s, p, ok \<and> res)))"

definition thread_numbers :: "nat list" where
  "thread_numbers = map (\<lambda>i. 2 ^ (i + 1)) [0..<5]"

lemma thread_numbers: "thread_numbers = [2, 4, 8, 16, 32]"
  by (simp add: thread_numbers_def upt_rec)

lemma test_rounds_pass:
  assumes step: "\<And>r s p. r \<in> set rounds \<Longrightarrow> I s \<Longrightarrow> J p \<Longrightarrow> \<exists>s' p'. f r s p = ret (s', p', True) \<and> I s' \<and> J p'"
  shows "I s \<Longrightarrow> J p \<Longrightarrow> \<exists>s' p'. test_rounds f rounds s p = ret (s', p', True) \<and> I s' \<and> J p'"
  using step
proof (induction rounds arbitrary: s p)
  case (Cons r rounds)
  obtain s1 p1 where r: "f r s p = ret (s1, p1, True)" "I s1" "J p1"
    using Cons.prems(3) [of r s p] Cons.prems(1,2) by auto
  have "\<exists>s' p'. test_rounds f rounds s1 p1 = ret (s', p', True) \<and> I s' \<and> J p'"
    using r(2,3) Cons.prems(3) by (intro Cons.IH) auto
  with r(1) show ?case by auto
qed simp

section \<open>One mapper\<close>

record single_map_state =
  sm_kv_store :: "(bytes \<times> bytes) list"
  sm_call_count :: nat

text \<open>\<open>snprintf\<close> of a number and \<open>strncpy\<close>, up to the padding.\<close>

definition print_num :: "nat \<Rightarrow> nat \<Rightarrow> bytes" where
  "print_num cap i = take (cap - 1) (digits i)"

definition copied :: "nat \<Rightarrow> bytes \<Rightarrow> bytes" where
  "copied n s = cstr_of (strncpy s n)"

definition sm_map :: "in_kv \<Rightarrow> single_map_state \<Rightarrow> single_map_state" where
  "sm_map kv s = (let index = sm_call_count s; s = s\<lparr>sm_call_count := index + 1\<rparr>
    in if MAX_DATA_SIZE \<le> index then s
       else s\<lparr>sm_kv_store := (sm_kv_store s)[index := (copied MAX_KEY_SIZE (ikey kv), copied MAX_VALUE_SIZE (ivalue kv))]\<rparr>)"

definition sm_cmp :: "in_kv list \<Rightarrow> single_map_state \<Rightarrow> int" where
  "sm_cmp kvs s = (if list_all (\<lambda>i. strncmp (fst (sm_kv_store s ! i)) (ikey (kvs ! i)) MAX_KEY_SIZE = 0
      \<and> strncmp (snd (sm_kv_store s ! i)) (ivalue (kvs ! i)) MAX_VALUE_SIZE = 0) [0..<MAX_DATA_SIZE] then 0 else - 1)"

definition sm_input :: "in_kv list" where
  "sm_input = map (\<lambda>i. \<lparr>ikey = print_num MAX_KEY_SIZE i, ivalue = print_num MAX_VALUE_SIZE i\<rparr>) [0..<MAX_DATA_SIZE]"

definition single_map :: "nat list \<Rightarrow> nat list \<Rightarrow> (bytes \<times> bytes) list \<Rightarrow> mr_state \<Rightarrow> (mr_state \<times> bool) run" where
  "single_map ms rs store s =
    rbind (mr_exec s sm_input (\<lambda>_. []) 1 (\<lambda>_ _. []) 1 ms rs) (\<lambda>(s, out).
      let t = fold (\<lambda>c. sm_map (snd c)) (calls sm_input 1 ms) \<lparr>sm_kv_store = store, sm_call_count = 0\<rparr>
      in ret (s, sm_call_count t = MAX_DATA_SIZE \<and> sm_cmp sm_input t = 0))"

lemma calls_one_thread:
  assumes "completes sched (thread_calls xs 1)"
  shows "calls xs 1 sched = map (Pair 0) xs"
proof -
  have all: "\<forall>e\<in>set (calls xs 1 sched). fst e = 0" using calls_threads [of xs 1 sched] by auto
  have "vals_of (calls xs 1 sched) 0 = xs"
    using vals_of_calls [OF assms, of 0] by (simp add: chunk_start_def chunk_end_def chunk_size_def map_nth)
  moreover have "filter (\<lambda>e. fst e = 0) (calls xs 1 sched) = calls xs 1 sched" using all by simp
  ultimately have snd: "map snd (calls xs 1 sched) = xs" by (simp add: vals_of_def)
  have "calls xs 1 sched = map (\<lambda>e. (0, snd e)) (calls xs 1 sched)"
    using all by (intro map_idI [symmetric]) (auto simp: prod_eq_iff)
  also have "\<dots> = map (Pair 0) (map snd (calls xs 1 sched))" by simp
  finally show ?thesis unfolding snd .
qed

lemma fold_sm_map:
  "length xs \<le> MAX_DATA_SIZE \<Longrightarrow> length store = MAX_DATA_SIZE \<Longrightarrow>
   fold sm_map xs \<lparr>sm_kv_store = store, sm_call_count = 0\<rparr> =
     \<lparr>sm_kv_store = map (\<lambda>kv. (copied MAX_KEY_SIZE (ikey kv), copied MAX_VALUE_SIZE (ivalue kv))) xs @ drop (length xs) store,
      sm_call_count = length xs\<rparr>"
proof (induction xs rule: rev_induct)
  case (snoc x xs)
  then have "drop (length xs) store = store ! length xs # drop (Suc (length xs)) store"
    by (intro Cons_nth_drop_Suc [symmetric]) simp
  with snoc show ?case by (simp add: sm_map_def Let_def list_update_append)
qed simp

lemma digits_cstring: "cstring (digits n)"
proof (induction n rule: digits.induct)
  case (1 n)
  have "of_nat (48 + m) \<noteq> (0 :: u8)" if "m < 10" for m
  proof
    assume "of_nat (48 + m) = (0 :: u8)"
    then have "unat (of_nat (48 + m) :: u8) = 0" by simp
    with that show False by (simp add: unat_of_nat del: of_nat_add)
  qed
  with 1 show ?case by (subst digits.simps) (auto simp: cstring_def)
qed

lemma print_num_facts: "cstring (print_num n i)" "length (print_num n i) \<le> n - 1"
  using digits_cstring [of i] by (auto simp: print_num_def cstring_def dest: in_set_takeD)

lemma copied_id: "cstring s \<Longrightarrow> length s \<le> n \<Longrightarrow> copied n s = s"
  by (simp add: copied_def cstr_of_strncpy)

lemma copied_print_num: "copied n (print_num n i) = print_num n i"
  using print_num_facts [of n i] by (intro copied_id) simp_all

lemma strncmp_self [simp]: "strncmp s s n = 0"
  by (simp add: strncmp_def)

text \<open>Whatever the earlier tests have left in the framework and for every schedule: the only
  mapper is called once for each element, in order, and the test passes.\<close>

theorem single_map_passes:
  assumes "holds_pairs s es0" "card (fst ` set es0) < 2 ^ 32" "length store = MAX_DATA_SIZE"
    "completes ms (thread_calls sm_input 1)"
  shows "\<exists>s'. single_map ms rs store s = ret (s', True) \<and> holds_pairs s' es0"
proof -
  obtain s' out where m: "mr_exec s sm_input (\<lambda>_. []) 1 (\<lambda>_ _. []) 1 ms rs = ret (s', out)" "holds_pairs s' es0"
    using mr_exec_idle [OF zero_less_one assms(1,2)] by blast
  have l: "length sm_input = MAX_DATA_SIZE" by (simp add: sm_input_def)
  have "fold (\<lambda>c. sm_map (snd c)) (calls sm_input 1 ms) \<lparr>sm_kv_store = store, sm_call_count = 0\<rparr> =
      \<lparr>sm_kv_store = map (\<lambda>kv. (copied MAX_KEY_SIZE (ikey kv), copied MAX_VALUE_SIZE (ivalue kv))) sm_input,
       sm_call_count = MAX_DATA_SIZE\<rparr>"
    using fold_sm_map [of sm_input store] assms(3) l unfolding calls_one_thread [OF assms(4)]
    by (simp add: fold_map comp_def)
  moreover have "sm_cmp sm_input \<lparr>sm_kv_store = map (\<lambda>kv. (copied MAX_KEY_SIZE (ikey kv), copied MAX_VALUE_SIZE (ivalue kv))) sm_input,
       sm_call_count = MAX_DATA_SIZE\<rparr> = 0"
    by (simp add: sm_cmp_def sm_input_def list_all_iff copied_print_num)
  ultimately show ?thesis using m by (simp add: single_map_def Let_def)
qed

section \<open>The number of mappers\<close>

definition nomr_input :: "in_kv list" where
  "nomr_input = map (\<lambda>i. \<lparr>ikey = print_num MAX_KEY_SIZE i, ivalue = print_num MAX_VALUE_SIZE i\<rparr>) [0..<MAX_THREADS]"

text \<open>\<open>thread_count\<close> records a call of its thread.\<close>

definition thread_count :: "nat \<Rightarrow> unit slots_state \<Rightarrow> unit slots_state" where
  "thread_count self = record_in (self, ())"

definition thread_cmp :: "nat \<Rightarrow> unit slots_state \<Rightarrow> int" where
  "thread_cmp most s = (if length (filter (\<lambda>p. recorded p \<noteq> []) (all_slots s)) = most then 0 else - 1)"

text \<open>A round with \<open>n\<close> mappers.\<close>

definition mappers_round ::
  "nat \<times> nat list \<times> nat list \<Rightarrow> mr_state \<Rightarrow> unit slots_state \<Rightarrow> (mr_state \<times> unit slots_state \<times> bool) run" where
  "mappers_round r s p = (case r of (n, ms, rs) \<Rightarrow>
    rbind (mr_exec s nomr_input (\<lambda>_. []) n (\<lambda>_ _. []) 1 ms rs) (\<lambda>(s, out).
      let p = fold (\<lambda>c. thread_count (fst c)) (calls nomr_input n ms) (reset_slots p)
      in ret (s, p, thread_cmp n p = 0 \<and> \<not> too_many p)))"

definition number_of_mappers :: "(nat \<times> nat list \<times> nat list) list \<Rightarrow> mr_state \<Rightarrow> unit slots_state \<Rightarrow> (mr_state \<times> unit slots_state \<times> bool) run" where
  "number_of_mappers = test_rounds mappers_round"

lemma record_mapped_calls:
  assumes "length (all_slots p) = MAX_THREADS" "completes ms (thread_calls xs n)" "0 < n" "n \<le> MAX_THREADS"
    "length xs = n * c" "0 < c"
    and p': "p' = fold record_in (map (\<lambda>(t, x). (t, f x)) (calls xs n ms)) (reset_slots p)"
  shows "\<exists>rest. all_slots p' = map group_slot (groups (map (\<lambda>(t, x). (t, f x)) (calls xs n ms))) @ rest
    \<and> (\<forall>s\<in>set rest. recorded s = []) \<and> \<not> too_many p' \<and> length (all_slots p') = MAX_THREADS"
proof -
  let ?cs = "map (\<lambda>(t, x). (t, f x)) (calls xs n ms)"
  have k: "fst ` set ?cs = {..<n}"
    using groups_calls(2) [OF assms(2,3,5,6)] by (simp add: groups_keys image_image case_prod_beta)
  have "card (fst ` set ?cs) \<le> length (all_slots (reset_slots p))" unfolding k using assms(1,4) by (simp add: reset_slots_def)
  from record_calls [OF refl _ _ this] obtain rest where
    "fold record_in ?cs (reset_slots p) = (reset_slots p)\<lparr>all_slots := map group_slot (groups ?cs) @ rest\<rparr>"
    "\<forall>s\<in>set rest. recorded s = []" "length rest = length (all_slots (reset_slots p)) - length (groups ?cs)"
    by (auto simp: reset_slots_def)
  moreover have "length (groups ?cs) = n" by (simp only: length_groups k card_lessThan)
  ultimately show ?thesis using assms(1,4) by (auto simp: reset_slots_def p')
qed

lemma groups_nonempty: "g \<in> set (groups es) \<Longrightarrow> snd g \<noteq> []"
  using groups_vals [of "fst g" "snd g" es] groups_keys [of es] by (metis image_eqI prod.collapse vals_of_Nil_iff)

text \<open>Both tests for the number of threads count in the same way.\<close>

lemma thread_count_calls:
  assumes "n \<in> set thread_numbers" "completes sched (thread_calls xs n)" "length xs = MAX_THREADS" "length (all_slots p) = MAX_THREADS"
    and p': "p' = fold (\<lambda>c. thread_count (fst c)) (calls xs n sched) (reset_slots p)"
  shows "thread_cmp n p' = 0 \<and> \<not> too_many p' \<and> length (all_slots p') = MAX_THREADS"
proof -
  have n: "0 < n" "n \<le> MAX_THREADS" "32 = n * (32 div n)" "0 < 32 div n"
    using assms(1) unfolding thread_numbers by (auto simp: MAX_THREADS_def)
  have l: "length xs = n * (32 div n)" using n(3) assms(3) by (simp add: MAX_THREADS_def)
  let ?cs = "map (\<lambda>(t, x). (t, ())) (calls xs n sched)"
  have p: "p' = fold record_in ?cs (reset_slots p)"
    by (simp add: p' fold_map comp_def thread_count_def case_prod_beta)
  obtain rest where r: "all_slots p' = map group_slot (groups ?cs) @ rest" "\<forall>s\<in>set rest. recorded s = []"
    "\<not> too_many p'" "length (all_slots p') = MAX_THREADS"
    using record_mapped_calls [OF assms(4,2) n(1,2) l n(4) p] by blast
  have "length (groups ?cs) = n"
    using groups_calls(2) [OF assms(2) n(1) l n(4)] by (simp add: length_groups groups_keys image_image case_prod_beta)
  moreover have "\<forall>s\<in>set (map group_slot (groups ?cs)). recorded s \<noteq> []"
    using groups_nonempty [of _ ?cs] by (auto simp: group_slot_def)
  then have "filter (\<lambda>p. recorded p \<noteq> []) (map group_slot (groups ?cs) @ rest) = map group_slot (groups ?cs)"
    using r(2) by (simp only: filter_append filter_True) (simp add: filter_empty_conv)
  ultimately show ?thesis using r(3,4) by (simp add: r(1) thread_cmp_def)
qed

lemma mappers_round_passes:
  assumes "n \<in> set thread_numbers" "completes ms (thread_calls nomr_input n)" "length (all_slots p) = MAX_THREADS"
    "holds_pairs s es0" "card (fst ` set es0) < 2 ^ 32"
  shows "\<exists>s' p'. mappers_round (n, ms, rs) s p = ret (s', p', True) \<and> holds_pairs s' es0 \<and> length (all_slots p') = MAX_THREADS"
proof -
  have n: "0 < n" using assms(1) by (auto simp: thread_numbers)
  obtain s' out where m: "mr_exec s nomr_input (\<lambda>_. []) n (\<lambda>_ _. []) 1 ms rs = ret (s', out)" "holds_pairs s' es0"
    using mr_exec_idle [OF n assms(4,5)] by blast
  have "length nomr_input = MAX_THREADS" by (simp add: nomr_input_def)
  from thread_count_calls [OF assms(1,2) this assms(3) refl] m show ?thesis
    unfolding mappers_round_def by (simp add: Let_def)
qed

text \<open>The test for the number of mappers passes for every schedule: with \<open>2, 4, \<dots>, 32\<close> mappers
  exactly that many threads call the map function.\<close>

theorem number_of_mappers_passes:
  assumes "map fst rounds = thread_numbers" "\<forall>(n, ms, rs)\<in>set rounds. completes ms (thread_calls nomr_input n)"
    and "holds_pairs s es0" "card (fst ` set es0) < 2 ^ 32" "length (all_slots p) = MAX_THREADS"
  shows "\<exists>s' p'. number_of_mappers rounds s p = ret (s', p', True) \<and> holds_pairs s' es0 \<and> length (all_slots p') = MAX_THREADS"
  unfolding number_of_mappers_def
proof (rule test_rounds_pass [where I = "\<lambda>s. holds_pairs s es0" and J = "\<lambda>p. length (all_slots p) = MAX_THREADS", OF _ assms(3,5)])
  fix r s and p :: "unit slots_state" assume r: "r \<in> set rounds" "holds_pairs s es0" "length (all_slots p) = MAX_THREADS"
  obtain n ms rs where n: "r = (n, ms, rs)" by (cases r)
  have "n \<in> set thread_numbers" using r(1) assms(1) unfolding n by (metis fst_conv image_eqI list.set_map)
  moreover have "completes ms (thread_calls nomr_input n)" using r(1) assms(2) unfolding n by fast
  ultimately show "\<exists>s' p'. mappers_round r s p = ret (s', p', True) \<and> holds_pairs s' es0 \<and> length (all_slots p') = MAX_THREADS"
    unfolding n using mappers_round_passes r(2,3) assms(4) by blast
qed

section \<open>The partition of the input\<close>

type_synonym partitions = "(bytes \<times> bytes) slots_state"

definition pin_map :: "nat \<Rightarrow> in_kv \<Rightarrow> partitions \<Rightarrow> partitions" where
  "pin_map self kv = record_in (self, (copied MAX_KEY_SIZE (ikey kv), copied MAX_VALUE_SIZE (ivalue kv)))"

text \<open>The comparison of \<open>kv_lst[j]\<close> of a slot with an element of the input.\<close>

definition same_kv :: "bytes \<times> bytes \<Rightarrow> in_kv \<Rightarrow> bool" where
  "same_kv r kv \<longleftrightarrow> strncmp (fst r) (ikey kv) MAX_KEY_SIZE = 0 \<and> strncmp (snd r) (ivalue kv) MAX_VALUE_SIZE = 0"

definition partition_cmp :: "in_kv list \<Rightarrow> nat \<Rightarrow> partitions \<Rightarrow> int" where
  "partition_cmp kvs num_par p =
    (let partition_size = MAX_DATA_SIZE div num_par; ps = all_slots p
     in if \<not> list_all (\<lambda>i. length (recorded (ps ! i)) = partition_size) [0..<num_par] then - 1
        else if list_all (\<lambda>i. let base = i * partition_size
          in case List.find (\<lambda>pos. strncmp (fst (recorded (ps ! pos) ! 0)) (ikey (kvs ! base)) MAX_KEY_SIZE = 0) [0..<num_par] of
               None \<Rightarrow> False
             | Some pos \<Rightarrow> list_all (\<lambda>j. same_kv (recorded (ps ! pos) ! j) (kvs ! (base + j))) [0..<partition_size]) [0..<num_par]
        then 0 else - 1)"

definition partition_round ::
  "in_kv list \<Rightarrow> nat \<times> nat list \<times> nat list \<Rightarrow> mr_state \<Rightarrow> partitions \<Rightarrow> (mr_state \<times> partitions \<times> bool) run" where
  "partition_round kvs r s p = (case r of (n, ms, rs) \<Rightarrow>
    rbind (mr_exec s kvs (\<lambda>_. []) n (\<lambda>_ _. []) 1 ms rs) (\<lambda>(s, out).
      let p = fold (\<lambda>(t, kv). pin_map t kv) (calls kvs n ms) (reset_slots p)
      in ret (s, p, partition_cmp kvs n p = 0 \<and> \<not> too_many p)))"

text \<open>\<open>kvs\<close> are the random pairs that the test generates.\<close>

definition partition_input ::
  "in_kv list \<Rightarrow> (nat \<times> nat list \<times> nat list) list \<Rightarrow> mr_state \<Rightarrow> partitions \<Rightarrow> (mr_state \<times> partitions \<times> bool) run" where
  "partition_input kvs = test_rounds (partition_round kvs)"

definition kvs_ok :: "in_kv list \<Rightarrow> bool" where
  "kvs_ok kvs \<longleftrightarrow> length kvs = MAX_DATA_SIZE \<and> distinct (map ikey kvs)
     \<and> list_all (\<lambda>kv. cstring (ikey kv) \<and> length (ikey kv) < MAX_KEY_SIZE
          \<and> cstring (ivalue kv) \<and> length (ivalue kv) < MAX_VALUE_SIZE) kvs"

lemma strncmp_short:
  "cstring a \<Longrightarrow> cstring b \<Longrightarrow> length a < n \<Longrightarrow> length b < n \<Longrightarrow> strncmp a b n = 0 \<longleftrightarrow> a = b"
  by (simp add: strncmp_def strcmp_eq_0)

text \<open>The comparison succeeds when the first \<open>n\<close> slots hold the \<open>n\<close> parts in some order.\<close>

lemma partition_cmp_parts:
  assumes ok: "kvs_ok kvs" and n: "0 < n" "MAX_DATA_SIZE = n * c" "0 < c" and len: "n \<le> length (all_slots p)"
    and perm: "bij_betw f {..<n} {..<n}"
    and parts: "\<And>i. i < n \<Longrightarrow> recorded (all_slots p ! i)
      = map (\<lambda>k. (ikey (kvs ! k), ivalue (kvs ! k))) [f i * c..<(f i + 1) * c]"
  shows "partition_cmp kvs n p = 0"
proof -
  have c: "MAX_DATA_SIZE div n = c" unfolding n(2) using n(1) by simp
  have at: "recorded (all_slots p ! i) ! j = (ikey (kvs ! (f i * c + j)), ivalue (kvs ! (f i * c + j)))"
    if "i < n" "j < c" for i j using that by (simp add: parts)
  have fi: "f i < n" if "i < n" for i using perm that by (auto simp: bij_betw_def)
  have base: "i * c + j < MAX_DATA_SIZE" if "i < n" "j < c" for i j
  proof -
    have "i * c + j < (i + 1) * c" using that(2) by simp
    also have "\<dots> \<le> n * c" using that(1) by (intro mult_le_mono1) simp
    finally show ?thesis unfolding n(2) .
  qed
  have kv: "cstring (ikey (kvs ! k))" "length (ikey (kvs ! k)) < MAX_KEY_SIZE" if "k < MAX_DATA_SIZE" for k
    using ok that by (simp_all add: kvs_ok_def list_all_length)
  have key: "strncmp (fst (recorded (all_slots p ! pos) ! 0)) (ikey (kvs ! (i * c))) MAX_KEY_SIZE = 0 \<longleftrightarrow> f pos = i"
    if "pos < n" "i < n" for pos i
  proof -
    have b: "f pos * c < MAX_DATA_SIZE" "i * c < MAX_DATA_SIZE"
      using base [OF fi [OF that(1)] n(3)] base [OF that(2) n(3)] by simp_all
    have "map ikey kvs ! (f pos * c) = map ikey kvs ! (i * c) \<longleftrightarrow> f pos * c = i * c"
      using ok b by (intro nth_eq_iff_index_eq) (simp_all only: kvs_ok_def length_map)
    then have "ikey (kvs ! (f pos * c)) = ikey (kvs ! (i * c)) \<longleftrightarrow> f pos = i"
      using ok b n(3) by (simp add: kvs_ok_def)
    moreover have "fst (recorded (all_slots p ! pos) ! 0) = ikey (kvs ! (f pos * c))"
      using at [OF that(1) n(3)] by simp
    ultimately show ?thesis using kv [OF b(1)] kv [OF b(2)] by (simp only: strncmp_short)
  qed
  have find: "\<exists>pos. List.find (\<lambda>pos. strncmp (fst (recorded (all_slots p ! pos) ! 0)) (ikey (kvs ! (i * c))) MAX_KEY_SIZE = 0) [0..<n]
      = Some pos \<and> pos < n \<and> f pos = i" if i: "i < n" for i
  proof -
    have "i \<in> f ` {..<n}" using perm i by (simp add: bij_betw_def)
    then obtain pos where pos: "pos < n" "f pos = i" by auto
    then have "List.find (\<lambda>pos. strncmp (fst (recorded (all_slots p ! pos) ! 0)) (ikey (kvs ! (i * c))) MAX_KEY_SIZE = 0) [0..<n] \<noteq> None"
      using key [OF _ i] by (auto simp: find_None_iff)
    then show ?thesis using key [OF _ i] by (auto simp: find_Some_iff)
  qed
  have "list_all (\<lambda>i. length (recorded (all_slots p ! i)) = c) [0..<n]" by (simp add: list_all_iff parts)
  moreover have "list_all (\<lambda>i. case List.find (\<lambda>pos. strncmp (fst (recorded (all_slots p ! pos) ! 0)) (ikey (kvs ! (i * c))) MAX_KEY_SIZE = 0) [0..<n] of
      None \<Rightarrow> False | Some pos \<Rightarrow> list_all (\<lambda>j. same_kv (recorded (all_slots p ! pos) ! j) (kvs ! (i * c + j))) [0..<c]) [0..<n]"
    using find by (fastforce simp: list_all_iff at same_kv_def)
  ultimately show ?thesis unfolding partition_cmp_def Let_def c by simp
qed

lemma groups_mapped: "groups (map (\<lambda>(t, x). (t, f x)) es) = map (\<lambda>(t, vs). (t, map f vs)) (groups es)"
proof (induction es rule: rev_induct)
  case (snoc e es)
  have "group_add t (f x) (map (\<lambda>(t, vs). (t, map f vs)) gs) = map (\<lambda>(t, vs). (t, map f vs)) (group_add t x gs)" for t x gs
    by (induction t x gs rule: group_add.induct) auto
  with snoc show ?case by (cases e) simp
qed simp

lemma kvs_ok_copied: "kvs_ok kvs \<Longrightarrow> k < MAX_DATA_SIZE \<Longrightarrow>
  (copied MAX_KEY_SIZE (ikey (kvs ! k)), copied MAX_VALUE_SIZE (ivalue (kvs ! k))) = (ikey (kvs ! k), ivalue (kvs ! k))"
  by (auto simp: kvs_ok_def list_all_length intro!: copied_id)

text \<open>The slots of the groups of the calls: in slot \<open>i\<close> is the part of thread \<open>f i\<close>.\<close>

lemma partition_slots:
  assumes "kvs_ok kvs" "completes ms (thread_calls kvs n)" "0 < n" "MAX_DATA_SIZE = n * c" "0 < c"
    and slots: "all_slots p = map group_slot (groups (map (\<lambda>(t, kv). (t, copied MAX_KEY_SIZE (ikey kv), copied MAX_VALUE_SIZE (ivalue kv)))
      (calls kvs n ms))) @ rest"
  shows "partition_cmp kvs n p = 0"
proof (rule partition_cmp_parts [OF assms(1,3,4,5), of _ "\<lambda>i. fst (groups (calls kvs n ms) ! i)"])
  let ?gs = "groups (calls kvs n ms)"
  have l: "length kvs = n * c" using assms(1,4) by (simp add: kvs_ok_def)
  note gs = groups_calls [OF assms(2,3) l assms(5)]
  show "n \<le> length (all_slots p)" using gs(1) by (simp add: slots groups_mapped)
  have "map fst ?gs ! i = fst (?gs ! i)" if "i < n" for i using that gs(1) by simp
  moreover have "bij_betw ((!) (map fst ?gs)) {..<n} {..<n}"
    using groups_distinct [of "calls kvs n ms"] gs(1,2) by (intro bij_betw_nth) simp_all
  ultimately show "bij_betw (\<lambda>i. fst (?gs ! i)) {..<n} {..<n}" by (subst bij_betw_cong [of _ _ "(!) (map fst ?gs)"]) simp_all
  fix i assume i: "i < n"
  obtain t vs where t: "?gs ! i = (t, vs)" by (cases "?gs ! i")
  then have tv: "t < n" "vs = map ((!) kvs) [t * c..<(t + 1) * c]" using gs(3) [of t vs] nth_mem [of i ?gs] i gs(1) by simp_all
  have "(t + 1) * c \<le> n * c" using tv(1) by (intro mult_le_mono1) simp
  then have "k < MAX_DATA_SIZE" if "k < (t + 1) * c" for k using that assms(4) by linarith
  then have "map (\<lambda>kv. (copied MAX_KEY_SIZE (ikey kv), copied MAX_VALUE_SIZE (ivalue kv))) vs
      = map (\<lambda>k. (ikey (kvs ! k), ivalue (kvs ! k))) [t * c..<(t + 1) * c]"
    unfolding tv(2) map_map comp_def using kvs_ok_copied [OF assms(1)] by (intro map_cong refl) simp
  then show "recorded (all_slots p ! i) = map (\<lambda>k. (ikey (kvs ! k), ivalue (kvs ! k)))
      [fst (?gs ! i) * c..<(fst (?gs ! i) + 1) * c]"
    using i gs(1) t by (simp add: slots groups_mapped nth_append group_slot_def)
qed

text \<open>A round of each of the two tests records the parts of the input.\<close>

lemma partition_calls:
  assumes "n \<in> set thread_numbers" "completes sched (thread_calls kvs n)" "kvs_ok kvs" "length (all_slots p) = MAX_THREADS"
    and p': "p' = fold (\<lambda>(t, kv). pin_map t kv) (calls kvs n sched) (reset_slots p)"
  shows "partition_cmp kvs n p' = 0 \<and> \<not> too_many p' \<and> length (all_slots p') = MAX_THREADS"
proof -
  let ?c = "1024 div n"
  have n: "0 < n" "n \<le> MAX_THREADS" "MAX_DATA_SIZE = n * ?c" "0 < ?c"
    using assms(1) unfolding thread_numbers by (auto simp: MAX_THREADS_def MAX_DATA_SIZE_def)
  have l: "length kvs = n * ?c" using assms(3) n(3) by (simp add: kvs_ok_def)
  let ?f = "\<lambda>kv. (copied MAX_KEY_SIZE (ikey kv), copied MAX_VALUE_SIZE (ivalue kv))"
  let ?cs = "map (\<lambda>(t, kv). (t, ?f kv)) (calls kvs n sched)"
  have p: "p' = fold record_in ?cs (reset_slots p)"
    by (simp add: p' fold_map comp_def pin_map_def case_prod_unfold)
  obtain rest where r: "all_slots p' = map group_slot (groups ?cs) @ rest" "\<not> too_many p'" "length (all_slots p') = MAX_THREADS"
    using record_mapped_calls [OF assms(4,2) n(1,2) l n(4) p] by blast
  have "partition_cmp kvs n p' = 0" by (rule partition_slots [OF assms(3,2) n(1,3,4) r(1)])
  with r(2,3) show ?thesis by blast
qed

lemma partition_round_passes:
  assumes "n \<in> set thread_numbers" "completes ms (thread_calls kvs n)" "kvs_ok kvs" "length (all_slots p) = MAX_THREADS"
    "holds_pairs s es0" "card (fst ` set es0) < 2 ^ 32"
  shows "\<exists>s' p'. partition_round kvs (n, ms, rs) s p = ret (s', p', True) \<and> holds_pairs s' es0 \<and> length (all_slots p') = MAX_THREADS"
proof -
  have n: "0 < n" using assms(1) by (auto simp: thread_numbers)
  obtain s' out where m: "mr_exec s kvs (\<lambda>_. []) n (\<lambda>_ _. []) 1 ms rs = ret (s', out)" "holds_pairs s' es0"
    using mr_exec_idle [OF n assms(5,6)] by blast
  from partition_calls [OF assms(1-4) refl] m show ?thesis
    unfolding partition_round_def by (simp add: Let_def)
qed

text \<open>With \<open>2, 4, \<dots>, 32\<close> mappers each thread is given one part of the input, in order, and all parts
  are given: the test passes for every schedule when its random keys are distinct.\<close>

theorem partition_input_passes:
  assumes "map fst rounds = thread_numbers" "\<forall>(n, ms, rs)\<in>set rounds. completes ms (thread_calls kvs n)" "kvs_ok kvs"
    and "holds_pairs s es0" "card (fst ` set es0) < 2 ^ 32" "length (all_slots p) = MAX_THREADS"
  shows "\<exists>s' p'. partition_input kvs rounds s p = ret (s', p', True) \<and> holds_pairs s' es0 \<and> length (all_slots p') = MAX_THREADS"
  unfolding partition_input_def
proof (rule test_rounds_pass [where I = "\<lambda>s. holds_pairs s es0" and J = "\<lambda>p. length (all_slots p) = MAX_THREADS", OF _ assms(4,6)])
  fix r s and p :: partitions assume r: "r \<in> set rounds" "holds_pairs s es0" "length (all_slots p) = MAX_THREADS"
  obtain n ms rs where n: "r = (n, ms, rs)" by (cases r)
  have "n \<in> set thread_numbers" using r(1) assms(1) unfolding n by (metis fst_conv image_eqI list.set_map)
  moreover have "completes ms (thread_calls kvs n)" using r(1) assms(2) unfolding n by fast
  ultimately show "\<exists>s' p'. partition_round kvs r s p = ret (s', p', True) \<and> holds_pairs s' es0 \<and> length (all_slots p') = MAX_THREADS"
    unfolding n using partition_round_passes assms(3,5) r(2,3) by blast
qed

end
