(* ===== verification/Map_Reduce_Reducers.thy ===== *)
theory Map_Reduce_Reducers
  imports Map_Reduce_Suite
begin

text \<open>
  The tests of the reduce side: \<open>single_reduce.c\<close>, \<open>number_of_reducers\<close> of
  \<open>number_of_mappers_reducers.c\<close> and \<open>partition_intermediate\<close> of \<open>partition.c\<close>. One mapper
  collects the pairs; the reducers are called on the collected groups and record the calls.
\<close>

section \<open>Printed numbers\<close>

lemma digits_value_snoc: "digits_value acc (xs @ [b]) = digits_value acc xs * 10 + (uint b - 48)"
  by (induction acc xs rule: digits_value.induct) simp_all

text \<open>Reading what \<open>%zu\<close> has printed.\<close>

lemma digits_value_digits: "digits_value 0 (digits n) = int n"
proof (induction n rule: digits.induct)
  case (1 n)
  have d: "uint (of_nat (48 + m) :: u8) - 48 = int m" if "m < 10" for m
    using that by (simp only: uint_nat unat_of_nat) simp
  show ?case
  proof (cases "n < 10")
    case True
    then show ?thesis using d [OF True] by (subst digits.simps) (simp del: of_nat_add)
  next
    case False
    have "n mod 10 < 10" by simp
    moreover have "int (n div 10) * 10 + int (n mod 10) = int n"
      by (metis div_mult_mod_eq of_nat_add of_nat_mult of_nat_numeral)
    ultimately show ?thesis using d 1 [OF False] False
      by (subst digits.simps) (simp add: digits_value_snoc del: of_nat_add)
  qed
qed

lemma digits_inject: "digits m = digits n \<longleftrightarrow> m = n"
  by (metis digits_value_digits of_nat_eq_iff)

lemma digits_no_space: "(32 :: u8) \<notin> set (digits n)"
proof (induction n rule: digits.induct)
  case (1 n)
  have "of_nat (48 + m) \<noteq> (32 :: u8)" if "m < 10" for m
  proof
    assume "of_nat (48 + m) = (32 :: u8)"
    then have "unat (of_nat (48 + m) :: u8) = unat (32 :: u8)" by (simp only:)
    with that show False by (simp add: unat_of_nat del: of_nat_add)
  qed
  with 1 show ?case by (subst digits.simps) auto
qed

text \<open>\<open>%4zu\<close>.\<close>

definition print_num4 :: "nat \<Rightarrow> nat \<Rightarrow> bytes" where
  "print_num4 cap i = take (cap - 1) (replicate (4 - length (digits i)) 32 @ digits i)"

lemma length_digits_small: "i < MAX_DATA_SIZE \<Longrightarrow> length (digits i) \<le> 4"
  by (rule length_digits) (simp_all add: MAX_DATA_SIZE_def)

lemma print_num_small: "i < MAX_DATA_SIZE \<Longrightarrow> 5 \<le> cap \<Longrightarrow> print_num cap i = digits i"
  using length_digits_small [of i] by (simp add: print_num_def)

lemma print_num4_small:
  "i < MAX_DATA_SIZE \<Longrightarrow> 5 \<le> cap \<Longrightarrow> print_num4 cap i = replicate (4 - length (digits i)) 32 @ digits i"
  using length_digits_small [of i] by (simp add: print_num4_def)

lemma print_num4_inject:
  assumes "i < MAX_DATA_SIZE" "j < MAX_DATA_SIZE" "5 \<le> cap" "print_num4 cap i = print_num4 cap j"
  shows "i = j"
proof -
  have strip: "filter (\<lambda>b. b \<noteq> 32) (replicate (4 - length (digits i)) 32 @ digits i) = digits i" for i
    using digits_no_space [of i] by (auto simp: filter_id_conv)
  have "digits i = digits j" using assms strip [of i] strip [of j] by (simp add: print_num4_small)
  then show ?thesis by (simp only: digits_inject)
qed

lemma print_num4_facts: "cstring (print_num4 n i)" "length (print_num4 n i) \<le> n - 1"
  using digits_cstring [of i] by (auto simp: print_num4_def cstring_def dest: in_set_takeD)

section \<open>The collected groups\<close>

text \<open>The groups that the reducers of the last run have been called on.\<close>

definition mapped :: "mr_state \<Rightarrow> out_kv list" where
  "mapped s = take (intermediate_count s) (intermediate s)"

lemma inter_view_mapped: "inter_view s = map group_of (mapped s)"
  by (simp add: inter_view_def mapped_def)

text \<open>The map functions of the three tests emit their pair.\<close>

definition sr_map :: "in_kv \<Rightarrow> (bytes \<times> bytes) list" where
  "sr_map kv = [(ikey kv, ivalue kv)]"

definition nor_map :: "in_kv \<Rightarrow> (bytes \<times> bytes) list" where
  "nor_map kv = [(ikey kv, ivalue kv)]"

definition pinter_map :: "in_kv \<Rightarrow> (bytes \<times> bytes) list" where
  "pinter_map kv = [(ikey kv, ivalue kv)]"

lemma emitted_pairs:
  "mr_emitted sr_map kvs = map (\<lambda>kv. (ikey kv, ivalue kv)) kvs"
  "mr_emitted nor_map kvs = map (\<lambda>kv. (ikey kv, ivalue kv)) kvs"
  "mr_emitted pinter_map kvs = map (\<lambda>kv. (ikey kv, ivalue kv)) kvs"
  by (induction kvs) (simp_all add: mr_emitted_def sr_map_def nor_map_def pinter_map_def)

lemma group_add_fst: "map fst (group_add k v gs) = (if k \<in> fst ` set gs then map fst gs else map fst gs @ [k])"
  by (induction k v gs rule: group_add.induct) auto

lemma groups_distinct_pairs: "distinct (map fst es) \<Longrightarrow> groups es = map (\<lambda>(k, v). (k, [v])) es"
proof (induction es rule: rev_induct)
  case (snoc e es)
  then have "fst e \<notin> fst ` set (groups es)" unfolding groups_keys by simp
  with snoc show ?case by (cases e) (simp add: group_add_new)
qed simp

lemma vals_of_distinct: "distinct (map fst es) \<Longrightarrow> length (vals_of es k) \<le> 1"
proof (induction es)
  case (Cons e es)
  then show ?case using vals_of_Nil_iff [of es k] by (cases e) auto
qed simp

lemma list_all2_map_map_eq: "map f xs = map g ys \<longleftrightarrow> list_all2 (\<lambda>x y. f x = g y) xs ys"
  using list.rel_eq [where ?'a = 'a] by (simp add: list_all2_map1 list_all2_map2 flip: list.rel_eq)

text \<open>An input with distinct keys is collected as it is.\<close>

definition distinct_input :: "in_kv list \<Rightarrow> bool" where
  "distinct_input kvs \<longleftrightarrow> length kvs \<le> MAX_INTERMEDIATE \<and> distinct (map ikey kvs)
     \<and> list_all (\<lambda>kv. cstring (ikey kv) \<and> length (ikey kv) < MAX_KEY_SIZE \<and> length (ivalue kv) < MAX_VALUE_SIZE) kvs"

lemma collect_distinct:
  assumes "distinct_input kvs" "\<And>kvs. mr_emitted mf kvs = map (\<lambda>kv. (ikey kv, ivalue kv)) kvs"
    and "0 < r" "turns 1 (length kvs) ms" "holds_pairs s es0" "card (fst ` set es0) < 2 ^ 32"
  shows "\<exists>s' out. mr_exec s kvs mf 1 (\<lambda>_ _. []) r ms rs = ret (s', out) \<and> holds_pairs s' es0
    \<and> map (\<lambda>kv. \<lparr>ikey = okey kv, ivalue = ovalue kv ! 0\<rparr>) (mapped s') = kvs"
proof -
  let ?es = "map (\<lambda>kv. (ikey kv, ivalue kv)) kvs"
  have d: "distinct (map fst ?es)" using assms(1) by (simp add: distinct_input_def comp_def)
  have "length (vals_of ?es k) \<le> MAX_VALUES_PER_KEY" for k
    using vals_of_distinct [OF d, of k] by (simp add: MAX_VALUES_PER_KEY_def)
  then have "pairs_ok ?es" using assms(1) by (auto simp: pairs_ok_def emit_ok_def distinct_input_def list_all_iff)
  moreover have "card (fst ` set ?es) \<le> MAX_INTERMEDIATE"
    using assms(1) card_length [of "map fst ?es"] by (simp add: distinct_input_def image_image)
  ultimately obtain s' out where m: "mr_exec s kvs mf 1 (\<lambda>_ _. []) r ms rs = ret (s', out)" "holds_pairs s' es0"
    "inter_view s' = groups ?es"
    using mr_exec_collect [OF assms(3), of mf kvs ms s es0 rs] assms(4-6) unfolding assms(2) length_map by blast
  have "map group_of (mapped s') = map (\<lambda>kv. (ikey kv, [ivalue kv])) kvs"
    using m(3) groups_distinct_pairs [OF d] by (simp add: inter_view_mapped comp_def)
  then have v: "list_all2 (\<lambda>kv' kv. group_of kv' = (ikey kv, [ivalue kv])) (mapped s') kvs"
    by (simp only: list_all2_map_map_eq)
  have "ovalue kv ! 0 = v" if "ovalues kv = [v]" for kv v
    using that by (cases "ovalue kv"; cases "ocount kv") (simp_all add: ovalues_def)
  then have first: "\<lparr>ikey = okey kv', ivalue = ovalue kv' ! 0\<rparr> = kv" if "group_of kv' = (ikey kv, [ivalue kv])" for kv' kv
    using that by (simp add: group_of_def)
  have "list_all2 (=) (map (\<lambda>kv. \<lparr>ikey = okey kv, ivalue = ovalue kv ! 0\<rparr>) (mapped s')) kvs"
    unfolding list_all2_map1 using v first by (rule list_all2_mono)
  then have "map (\<lambda>kv. \<lparr>ikey = okey kv, ivalue = ovalue kv ! 0\<rparr>) (mapped s') = kvs"
    by (simp only: list.rel_eq)
  with m show ?thesis by blast
qed

text \<open>The calls on the image of an array.\<close>

lemma interleave_map:
  "fst (interleave sched (map (map f) ts)) = map f (fst (interleave sched ts))"
proof (induction sched ts rule: interleave.induct)
  case (2 t sched ts)
  show ?case
  proof (cases "t < length ts \<and> ts ! t \<noteq> []")
    case True
    then have "map (map f) (ts[t := tl (ts ! t)]) = (map (map f) ts)[t := tl (map (map f) ts ! t)]"
      by (simp add: map_update map_tl)
    with 2(1) [OF True] True show ?thesis by (simp add: hd_map)
  next
    case False
    then have "\<not> (t < length (map (map f) ts) \<and> map (map f) ts ! t \<noteq> [])" by auto
    with False 2(3) [OF False] show ?thesis by (simp only: interleave.simps if_False)
  qed
qed simp

lemma thread_calls_map: "thread_calls (map f xs) n = map (map (apsnd f)) (thread_calls xs n)"
  by (auto simp: thread_calls_def chunk_start_def chunk_end_def)

lemma calls_map: "calls (map f xs) n sched = map (apsnd f) (calls xs n sched)"
  by (simp add: calls_def thread_calls_map interleave_map)

section \<open>The number of reducers\<close>

text \<open>A round with \<open>n\<close> reducers.\<close>

definition reducers_round ::
  "nat \<times> nat list \<times> nat list \<Rightarrow> mr_state \<Rightarrow> unit slots_state \<Rightarrow> (mr_state \<times> unit slots_state \<times> bool) run" where
  "reducers_round r s p = (case r of (n, ms, rs) \<Rightarrow>
    rbind (mr_exec s nomr_input nor_map 1 (\<lambda>_ _. []) n ms rs) (\<lambda>(s, out).
      let p = fold (\<lambda>c. thread_count (fst c)) (calls (mapped s) n rs) (reset_slots p)
      in ret (s, p, thread_cmp n p = 0 \<and> \<not> too_many p)))"

definition number_of_reducers :: "(nat \<times> nat list \<times> nat list) list \<Rightarrow> mr_state \<Rightarrow> unit slots_state \<Rightarrow> (mr_state \<times> unit slots_state \<times> bool) run" where
  "number_of_reducers = test_rounds reducers_round"

lemma nomr_distinct: "distinct_input nomr_input"
proof -
  have "print_num MAX_KEY_SIZE i = digits i" if "i < MAX_THREADS" for i
    using that by (intro print_num_small) (simp_all add: MAX_THREADS_def MAX_DATA_SIZE_def MAX_KEY_SIZE_def)
  then have "inj_on (print_num MAX_KEY_SIZE) {..<MAX_THREADS}" by (auto intro!: inj_onI simp: digits_inject)
  then have "distinct (map (print_num MAX_KEY_SIZE) [0..<MAX_THREADS])"
    by (simp add: distinct_map atLeast0LessThan)
  moreover have "length (print_num n i) < n" if "0 < n" for n i using print_num_facts(2) [of n i] that by linarith
  ultimately show ?thesis
    by (auto simp: distinct_input_def nomr_input_def comp_def list_all_iff print_num_facts(1) MAX_THREADS_def
        MAX_INTERMEDIATE_def MAX_KEY_SIZE_def MAX_VALUE_SIZE_def)
qed

lemma completes_calls_cong:
  "length xs = length ys \<Longrightarrow> completes sched (thread_calls xs n) = completes sched (thread_calls ys n)"
  by (simp add: completes_def thread_calls_def)

text \<open>With \<open>2, 4, \<dots>, 32\<close> reducers exactly that many threads call the reduce function.\<close>

theorem number_of_reducers_passes:
  assumes "map fst rounds = thread_numbers"
    "\<forall>(n, ms, rs)\<in>set rounds. turns 1 MAX_THREADS ms \<and> completes rs (thread_calls nomr_input n)"
    and "holds_pairs s es0" "card (fst ` set es0) < 2 ^ 32" "length (all_slots p) = MAX_THREADS"
  shows "\<exists>s' p'. number_of_reducers rounds s p = ret (s', p', True) \<and> holds_pairs s' es0 \<and> length (all_slots p') = MAX_THREADS"
  unfolding number_of_reducers_def
proof (rule test_rounds_pass [where I = "\<lambda>s. holds_pairs s es0" and J = "\<lambda>p. length (all_slots p) = MAX_THREADS", OF _ assms(3,5)])
  fix r s and p :: "unit slots_state" assume r: "r \<in> set rounds" "holds_pairs s es0" "length (all_slots p) = MAX_THREADS"
  obtain n ms rs where n: "r = (n, ms, rs)" by (cases r)
  have n': "n \<in> set thread_numbers" using r(1) assms(1) unfolding n by (metis fst_conv image_eqI list.set_map)
  then have "0 < n" by (auto simp: thread_numbers)
  have c: "turns 1 MAX_THREADS ms" "completes rs (thread_calls nomr_input n)" using r(1) assms(2) unfolding n by fast+
  have t: "turns 1 (length nomr_input) ms" using c(1) by (simp add: nomr_input_def)
  have l: "length nomr_input = MAX_THREADS" by (simp add: nomr_input_def)
  obtain s' out where m: "mr_exec s nomr_input nor_map 1 (\<lambda>_ _. []) n ms rs = ret (s', out)" "holds_pairs s' es0"
    "map (\<lambda>kv. \<lparr>ikey = okey kv, ivalue = ovalue kv ! 0\<rparr>) (mapped s') = nomr_input"
    using collect_distinct [OF nomr_distinct emitted_pairs(2) \<open>0 < n\<close> t r(2) assms(4)] by blast
  have l': "length (mapped s') = MAX_THREADS" using arg_cong [OF m(3), of length] l by simp
  have c': "completes rs (thread_calls (mapped s') n)" using c(2) completes_calls_cong [of "mapped s'" nomr_input] l l' by simp
  note tc = thread_count_calls [OF n' c' l' r(3) refl]
  show "\<exists>s' p'. reducers_round r s p = ret (s', p', True) \<and> holds_pairs s' es0 \<and> length (all_slots p') = MAX_THREADS"
    using m(1,2) tc unfolding reducers_round_def n by (simp add: Let_def)
qed

section \<open>The partition of the groups\<close>

definition pinter_reduce :: "nat \<Rightarrow> out_kv \<Rightarrow> partitions \<Rightarrow> partitions" where
  "pinter_reduce self kv = record_in (self, (copied MAX_KEY_SIZE (okey kv), copied MAX_VALUE_SIZE (ovalue kv ! 0)))"

definition pinter_input :: "in_kv list" where
  "pinter_input = map (\<lambda>i. \<lparr>ikey = print_num4 MAX_KEY_SIZE i, ivalue = print_num4 MAX_VALUE_SIZE i\<rparr>) [0..<MAX_DATA_SIZE]"

definition pinter_round ::
  "nat \<times> nat list \<times> nat list \<Rightarrow> mr_state \<Rightarrow> partitions \<Rightarrow> (mr_state \<times> partitions \<times> bool) run" where
  "pinter_round r s p = (case r of (n, ms, rs) \<Rightarrow>
    rbind (mr_exec s pinter_input pinter_map 1 (\<lambda>_ _. []) n ms rs) (\<lambda>(s, out).
      let p = fold (\<lambda>(t, kv). pinter_reduce t kv) (calls (mapped s) n rs) (reset_slots p)
      in ret (s, p, partition_cmp pinter_input n p = 0 \<and> \<not> too_many p)))"

definition partition_intermediate :: "(nat \<times> nat list \<times> nat list) list \<Rightarrow> mr_state \<Rightarrow> partitions \<Rightarrow> (mr_state \<times> partitions \<times> bool) run" where
  "partition_intermediate = test_rounds pinter_round"

lemma pinter_input_ok: "distinct_input pinter_input" "kvs_ok pinter_input"
proof -
  have "inj_on (print_num4 MAX_KEY_SIZE) {..<MAX_DATA_SIZE}"
    by (rule inj_onI, rule print_num4_inject [where cap = MAX_KEY_SIZE]) (simp_all add: MAX_KEY_SIZE_def)
  then have "distinct (map (print_num4 MAX_KEY_SIZE) [0..<MAX_DATA_SIZE])"
    by (simp add: distinct_map atLeast0LessThan)
  moreover have "length (print_num4 n i) < n" if "0 < n" for n i using print_num4_facts(2) [of n i] that by linarith
  ultimately show "distinct_input pinter_input" "kvs_ok pinter_input"
    by (auto simp: distinct_input_def kvs_ok_def pinter_input_def comp_def list_all_iff print_num4_facts(1) MAX_DATA_SIZE_def
        MAX_INTERMEDIATE_def MAX_KEY_SIZE_def MAX_VALUE_SIZE_def)
qed

text \<open>With \<open>2, 4, \<dots>, 32\<close> reducers each thread is given one part of the collected groups, in order.\<close>

theorem partition_intermediate_passes:
  assumes "map fst rounds = thread_numbers"
    "\<forall>(n, ms, rs)\<in>set rounds. turns 1 MAX_DATA_SIZE ms \<and> completes rs (thread_calls pinter_input n)"
    and "holds_pairs s es0" "card (fst ` set es0) < 2 ^ 32" "length (all_slots p) = MAX_THREADS"
  shows "\<exists>s' p'. partition_intermediate rounds s p = ret (s', p', True) \<and> holds_pairs s' es0 \<and> length (all_slots p') = MAX_THREADS"
  unfolding partition_intermediate_def
proof (rule test_rounds_pass [where I = "\<lambda>s. holds_pairs s es0" and J = "\<lambda>p. length (all_slots p) = MAX_THREADS", OF _ assms(3,5)])
  fix r s and p :: partitions assume r: "r \<in> set rounds" "holds_pairs s es0" "length (all_slots p) = MAX_THREADS"
  obtain n ms rs where n: "r = (n, ms, rs)" by (cases r)
  have n': "n \<in> set thread_numbers" using r(1) assms(1) unfolding n by (metis fst_conv image_eqI list.set_map)
  then have "0 < n" by (auto simp: thread_numbers)
  have c: "turns 1 MAX_DATA_SIZE ms" "completes rs (thread_calls pinter_input n)" using r(1) assms(2) unfolding n by fast+
  have t: "turns 1 (length pinter_input) ms" using c(1) by (simp add: pinter_input_def)
  have l: "length pinter_input = MAX_DATA_SIZE" by (simp add: pinter_input_def)
  let ?pair = "\<lambda>kv. \<lparr>ikey = okey kv, ivalue = ovalue kv ! 0\<rparr>"
  obtain s' out where m: "mr_exec s pinter_input pinter_map 1 (\<lambda>_ _. []) n ms rs = ret (s', out)" "holds_pairs s' es0"
    "map ?pair (mapped s') = pinter_input"
    using collect_distinct [OF pinter_input_ok(1) emitted_pairs(3) \<open>0 < n\<close> t r(2) assms(4)] by blast
  have "fold (\<lambda>(t, kv). pinter_reduce t kv) (calls (mapped s') n rs) q = fold (\<lambda>(t, kv). pin_map t kv) (calls pinter_input n rs) q" for q
    unfolding m(3) [symmetric] calls_map fold_map by (simp add: comp_def pinter_reduce_def pin_map_def case_prod_unfold)
  moreover note partition_calls [OF n' c(2) pinter_input_ok(2) r(3) refl]
  ultimately show "\<exists>s' p'. pinter_round r s p = ret (s', p', True) \<and> holds_pairs s' es0 \<and> length (all_slots p') = MAX_THREADS"
    using m(1,2) unfolding pinter_round_def n by (simp add: Let_def)
qed

end
