(* ===== verification/Map_Reduce_Tests.thy ===== *)
theory Map_Reduce_Tests
  imports Map_Reduce_Exec
begin

text \<open>
  The word count of \<open>lecture/test3/src/map_and_reduce.c\<close> on the map-reduce framework: its
  map and reduce functions, its comparison with the expected output and its runs with every
  number of threads. The table of \<open>interface.c\<close> is never cleared, so a run finds the results
  of the earlier ones; the theorem says what each run returns.
\<close>

section \<open>The program\<close>

definition amr_map :: "in_kv \<Rightarrow> (bytes \<times> bytes) list" where
  "amr_map kv = [(ivalue kv, [49])]"

definition amr_reduce :: "bytes \<Rightarrow> bytes list \<Rightarrow> (bytes \<times> bytes) list" where
  "amr_reduce key vs =
    (let cnt = length (filter (\<lambda>v. strcmp v [49] = 0) vs)
     in [(key, take (MAX_VALUE_SIZE - 1) (digits cnt))])"

fun amr_cmp :: "(bytes \<times> bytes) list \<Rightarrow> out_kv list \<Rightarrow> int run" where
  "amr_cmp ex [] = ret 0"
| "amr_cmp [] (kv # kvs) = fail OutOfBounds"
| "amr_cmp ((k, v) # ex) (kv # kvs) =
    (if strcmp (okey kv) k \<noteq> 0 then ret (- 1)
     else if ocount kv = 0 then fail OutOfBounds
     else if strcmp (ovalue kv ! 0) v \<noteq> 0 then ret (- 1)
     else amr_cmp ex kvs)"

definition single_map_reduce ::
  "(bytes \<times> bytes) list \<Rightarrow> in_kv list \<Rightarrow> nat \<Rightarrow> nat \<Rightarrow> nat list \<Rightarrow> nat list \<Rightarrow> mr_state \<Rightarrow> (mr_state \<times> bool) run" where
  "single_map_reduce ex input m r msched rsched s =
    rbind (mr_exec s input amr_map m amr_reduce r msched rsched) (\<lambda>(s', out).
      if length out \<noteq> length ex then ret (s', False)
      else rbind (amr_cmp ex out) (\<lambda>c. ret (s', c = 0)))"

text \<open>The runs with \<open>2, 4, \<dots>, 32\<close> mappers and reducers, each with the schedules of its threads.\<close>

fun full_map_reduce ::
  "(bytes \<times> bytes) list \<Rightarrow> in_kv list \<Rightarrow> (nat \<times> nat \<times> nat list \<times> nat list) list \<Rightarrow> mr_state \<Rightarrow> (mr_state \<times> bool) run" where
  "full_map_reduce ex input [] s = ret (s, True)"
| "full_map_reduce ex input ((m, r, msched, rsched) # runs) s =
    rbind (single_map_reduce ex input m r msched rsched s) (\<lambda>(s', res).
      if res then full_map_reduce ex input runs s' else ret (s', False))"

definition thread_counts :: "(nat \<times> nat) list" where
  "thread_counts = concat (map (\<lambda>i. map (\<lambda>j. (2 ^ (i + 1), 2 ^ (j + 1))) [0..<5]) [0..<5])"

section \<open>What the runs return\<close>

definition counted :: "bytes list \<Rightarrow> bytes \<Rightarrow> bytes" where
  "counted ws w = digits (count_list ws w)"

text \<open>After \<open>j\<close> runs on the words \<open>ws\<close>, the table holds the count of each word \<open>j\<close> times.\<close>

definition runs_held :: "mr_state \<Rightarrow> bytes list \<Rightarrow> nat \<Rightarrow> bool" where
  "runs_held s ws j \<longleftrightarrow> (\<exists>es. holds_pairs s es
     \<and> (\<forall>w. vals_of es w = (if w \<in> set ws then replicate j (counted ws w) else [])))"

lemma runs_held_init: "runs_held init_mr ws 0"
  unfolding runs_held_def by (rule exI [of _ "[]"]) (simp add: init_holds)

definition countable_words :: "bytes list \<Rightarrow> bool" where
  "countable_words ws \<longleftrightarrow> list_all (\<lambda>w. cstring w \<and> length w < MAX_KEY_SIZE
     \<and> count_list ws w \<le> MAX_VALUES_PER_KEY) ws \<and> card (set ws) \<le> MAX_INTERMEDIATE"

lemma vals_of_ones: "vals_of (map (\<lambda>w. (w, x)) ws) k = replicate (count_list ws k) x"
  by (induction ws) auto

lemma vals_of_distinct_pairs:
  "distinct ks \<Longrightarrow> vals_of (map (\<lambda>k. (k, f k)) ks) w = (if w \<in> set ks then [f w] else [])"
  by (induction ks) auto

lemma mset_eq_replicate: "mset xs = mset (replicate n x) \<Longrightarrow> xs = replicate n x"
proof -
  assume a: "mset xs = mset (replicate n x)"
  then have "length xs = n" using mset_eq_length [OF a] by simp
  moreover have "set xs \<subseteq> {x}" using mset_eq_setD [OF a] by auto
  ultimately show ?thesis by (metis replicate_eqI singletonD subsetD)
qed

lemma sorted_keys_unique:
  "sorted_wrt (<) xs \<Longrightarrow> set xs = A \<Longrightarrow> xs = sorted_list_of_set (A :: 'a :: linorder set)"
  by (metis strict_sorted_iff sorted_list_of_set.idem_if_sorted_distinct)

lemma emitted_words: "mr_emitted amr_map input = map (\<lambda>w. (w, [49])) (map ivalue input)"
  by (induction input) (simp_all add: mr_emitted_def amr_map_def)

lemma length_count: "n \<le> MAX_VALUES_PER_KEY \<Longrightarrow> length (digits n) \<le> 3"
  by (rule length_digits) (simp_all add: MAX_VALUES_PER_KEY_def)

lemma reduce_ones:
  assumes "n \<le> MAX_VALUES_PER_KEY"
  shows "amr_reduce k (replicate n [49]) = [(k, digits n)]"
  using length_count [OF assms] by (simp add: amr_reduce_def MAX_VALUE_SIZE_def)

lemma reduced_words:
  assumes "countable_words ws"
  shows "mr_reduced amr_reduce (map (\<lambda>w. (w, [49])) ws) = map (\<lambda>w. (w, counted ws w)) (remdups ws)"
proof -
  have "amr_reduce k (replicate (count_list ws k) [49]) = [(k, counted ws k)]" if "k \<in> set ws" for k
    using assms that by (simp add: countable_words_def list_all_iff reduce_ones counted_def)
  then have ev: "map (\<lambda>k. amr_reduce k (replicate (count_list ws k) [49])) (remdups ws)
      = map (\<lambda>w. [(w, counted ws w)]) (remdups ws)" by simp
  have "map fst (map (\<lambda>w. (w, [49 :: u8])) ws) = ws" by (simp add: comp_def)
  then show ?thesis by (simp only: mr_reduced_def vals_of_ones ev concat_map_singleton)
qed

text \<open>Run number \<open>j + 1\<close>, with any numbers of threads and every schedule: unless the hash table
  outgrows its limit, the output lists the words in ascending order, each with its count
  \<open>j + 1\<close> times.\<close>

theorem word_count_correct:
  assumes ws: "countable_words ws" "ws = map ivalue input"
    and held: "runs_held s ws j" "j < MAX_VALUES_PER_KEY"
    and n: "0 < m" "0 < r" "turns m (length ws) msched" "turns r (card (set ws)) rsched"
  shows "(mr_exec s input amr_map m amr_reduce r msched rsched = fail BadShift \<and> overfull (set ws)) \<or>
    (\<exists>s' out. mr_exec s input amr_map m amr_reduce r msched rsched = ret (s', out)
      \<and> map group_of out = map (\<lambda>w. (w, replicate (j + 1) (counted ws w))) (sorted_list_of_set (set ws))
      \<and> runs_held s' ws (j + 1))"
proof -
  let ?E = "map (\<lambda>w. (w, [49 :: u8])) ws" and ?F = "map (\<lambda>w. (w, counted ws w)) (remdups ws)"
  obtain es0 where es0: "holds_pairs s es0"
    "\<And>w. vals_of es0 w = (if w \<in> set ws then replicate j (counted ws w) else [])"
    using held(1) unfolding runs_held_def by blast
  have E: "?E = mr_emitted amr_map input" by (simp add: emitted_words ws(2))
  have F: "?F = mr_reduced amr_reduce ?E" by (simp only: reduced_words [OF ws(1)])
  have all: "vals_of (es0 @ ?F) w = (if w \<in> set ws then replicate (j + 1) (counted ws w) else [])" for w
    by (simp add: es0(2) vals_of_distinct_pairs replicate_append_same)
  have keys: "fst ` set (es0 @ ?F) = set ws"
  proof (rule set_eqI)
    fix w
    have "w \<in> fst ` set (es0 @ ?F) \<longleftrightarrow> vals_of (es0 @ ?F) w \<noteq> []" by (simp only: vals_of_Nil_iff not_not)
    then show "w \<in> fst ` set (es0 @ ?F) \<longleftrightarrow> w \<in> set ws" unfolding all by simp
  qed
  have kE: "fst ` set ?E = set ws" by (simp add: image_image)
  have word: "cstring w \<and> length w < MAX_KEY_SIZE \<and> count_list ws w \<le> MAX_VALUES_PER_KEY" if "w \<in> set ws" for w
    using ws(1) that by (simp add: countable_words_def list_all_iff)
  have okE: "pairs_ok ?E"
    using word by (auto simp: pairs_ok_def emit_ok_def vals_of_ones MAX_VALUE_SIZE_def)
  have ins: "order_insensitive amr_reduce ?E"
    unfolding order_insensitive_def vals_of_ones using mset_eq_replicate by metis
  have okF: "pairs_ok (es0 @ ?F)"
    unfolding pairs_ok_def
  proof (intro conjI ballI)
    fix e assume e: "e \<in> set (es0 @ ?F)"
    then have w: "fst e \<in> set ws" using keys by force
    have "snd e \<in> set (vals_of (es0 @ ?F) (fst e))" using e by (force simp: vals_of_def)
    then have "snd e = counted ws (fst e)" unfolding all using w by (auto split: if_splits)
    moreover have "length (counted ws (fst e)) \<le> 3"
      using word [OF w] by (simp add: counted_def length_count)
    ultimately show "emit_ok (fst e) (snd e)" using word [OF w] by (simp add: emit_ok_def MAX_VALUE_SIZE_def)
  next
    fix k show "length (vals_of (es0 @ ?F) k) \<le> MAX_VALUES_PER_KEY" unfolding all using held(2) by simp
  qed
  have small: "card (fst ` set (es0 @ ?F)) < 2 ^ 32" "card (fst ` set ?E) \<le> MAX_INTERMEDIATE"
    using ws(1) by (simp_all only: keys kE) (simp_all add: countable_words_def MAX_INTERMEDIATE_def)
  have t: "turns m (length ?E) msched" "turns r (length ?F) rsched"
    using n(3,4) by (simp_all add: length_remdups_card_conv)
  from mr_exec_outcome [OF E F n(1,2) okE small(2) ins es0(1) okF small(1) t] show ?thesis
    unfolding keys
  proof (elim disjE exE conjE)
    fix s' out es
    assume ex: "mr_exec s input amr_map m amr_reduce r msched rsched = ret (s', out)"
      and sorted: "sorted_wrt (<) (map okey out)" and ks: "okey ` set out = set ws"
      and vs: "\<forall>kv\<in>set out. mset (ovalues kv) = mset (vals_of (es0 @ ?F) (okey kv))"
      and es: "mset es = mset ?F" and held': "holds_pairs s' (es0 @ es)"
    have "map okey out = sorted_list_of_set (set ws)"
      by (rule sorted_keys_unique [OF sorted]) (simp add: ks)
    moreover have "group_of kv = (okey kv, replicate (j + 1) (counted ws (okey kv)))" if "kv \<in> set out" for kv
    proof -
      have "okey kv \<in> set ws" using that ks by blast
      then have "mset (ovalues kv) = mset (replicate (j + 1) (counted ws (okey kv)))"
        using vs that unfolding all by simp
      then have "ovalues kv = replicate (j + 1) (counted ws (okey kv))" by (rule mset_eq_replicate)
      then show ?thesis by (simp only: group_of_def)
    qed
    then have "map group_of out = map (\<lambda>w. (w, replicate (j + 1) (counted ws w))) (map okey out)" by simp
    ultimately have out: "map group_of out = map (\<lambda>w. (w, replicate (j + 1) (counted ws w))) (sorted_list_of_set (set ws))"
      by simp
    have "vals_of (es0 @ es) w = (if w \<in> set ws then replicate (j + 1) (counted ws w) else [])" for w
    proof -
      have "mset (vals_of (es0 @ es) w) = mset (vals_of (es0 @ ?F) w)"
        using es by (intro mset_vals_of_cong) simp
      then show ?thesis unfolding all
        by (cases "w \<in> set ws") (simp_all only: if_True if_False mset_eq_replicate, simp)
    qed
    then have "runs_held s' ws (j + 1)" using held' unfolding runs_held_def by blast
    with ex out show ?thesis by blast
  qed blast
qed

text \<open>So a run passes the comparison with the right expected output, whatever earlier runs left
  behind: \<open>amr_cmp\<close> looks at the first value only.\<close>

definition expected_counts :: "bytes list \<Rightarrow> (bytes \<times> bytes) list" where
  "expected_counts ws = map (\<lambda>w. (w, counted ws w)) (sorted_list_of_set (set ws))"

lemma amr_cmp_equal:
  "map group_of out = map (\<lambda>w. (w, replicate (Suc j) (f w))) ks \<Longrightarrow> amr_cmp (map (\<lambda>w. (w, f w)) ks) out = ret 0"
proof (induction out arbitrary: ks)
  case Nil
  then show ?case by simp
next
  case (Cons kv out)
  then obtain w ks' where ks: "ks = w # ks'" by (cases ks) auto
  with Cons.prems have kv: "okey kv = w" "ovalues kv = replicate (Suc j) (f w)"
    by (simp_all add: group_of_def)
  have rest: "map group_of out = map (\<lambda>w. (w, replicate (Suc j) (f w))) ks'" using Cons.prems ks by simp
  have n: "ocount kv \<noteq> 0" using kv(2) by (cases "ocount kv") (simp_all add: ovalues_def)
  then have "ovalue kv ! 0 = ovalues kv ! 0" by (simp add: ovalues_def)
  with n kv(2) have "ocount kv \<noteq> 0" "ovalue kv ! 0 = f w" by simp_all
  with Cons.IH [OF rest] kv(1) show ?case by (simp add: ks)
qed

lemma single_map_reduce_passes:
  assumes "countable_words ws" "ws = map ivalue input" "runs_held s ws j" "j < MAX_VALUES_PER_KEY"
    "0 < m" "0 < r" "turns m (length ws) msched" "turns r (card (set ws)) rsched"
  shows "(single_map_reduce (expected_counts ws) input m r msched rsched s = fail BadShift \<and> overfull (set ws)) \<or>
    (\<exists>s'. single_map_reduce (expected_counts ws) input m r msched rsched s = ret (s', True) \<and> runs_held s' ws (j + 1))"
  using word_count_correct [OF assms]
proof (elim disjE exE conjE)
  fix s' out
  assume ex: "mr_exec s input amr_map m amr_reduce r msched rsched = ret (s', out)"
    and out: "map group_of out = map (\<lambda>w. (w, replicate (j + 1) (counted ws w))) (sorted_list_of_set (set ws))"
    and held: "runs_held s' ws (j + 1)"
  have "length out = length (expected_counts ws)"
    using arg_cong [OF out, of length] by (simp add: expected_counts_def)
  moreover have "amr_cmp (expected_counts ws) out = ret 0"
    unfolding expected_counts_def by (rule amr_cmp_equal [where j = j]) (use out in simp)
  ultimately show ?thesis using ex held by (simp add: single_map_reduce_def)
qed (simp add: single_map_reduce_def)

lemma full_map_reduce_passes:
  assumes "countable_words ws" "ws = map ivalue input"
  shows "runs_held s ws j \<Longrightarrow> j + length runs \<le> MAX_VALUES_PER_KEY \<Longrightarrow>
    \<forall>(m, r, ms, rs)\<in>set runs. 0 < m \<and> 0 < r \<and> turns m (length ws) ms \<and> turns r (card (set ws)) rs \<Longrightarrow>
    (full_map_reduce (expected_counts ws) input runs s = fail BadShift \<and> overfull (set ws)) \<or>
    (\<exists>s'. full_map_reduce (expected_counts ws) input runs s = ret (s', True) \<and> runs_held s' ws (j + length runs))"
proof (induction runs arbitrary: s j)
  case (Cons run runs)
  obtain m r ms rs where run: "run = (m, r, ms, rs)" by (cases run)
  have h: "0 < m" "0 < r" "turns m (length ws) ms" "turns r (card (set ws)) rs" "j < MAX_VALUES_PER_KEY"
    using Cons.prems(2,3) by (simp_all add: run)
  from single_map_reduce_passes [OF assms Cons.prems(1) h(5,1-4)] show ?case
  proof (elim disjE exE conjE)
    fix s' assume s': "single_map_reduce (expected_counts ws) input m r ms rs s = ret (s', True)"
      "runs_held s' ws (j + 1)"
    have le: "j + 1 + length runs \<le> MAX_VALUES_PER_KEY" using Cons.prems(2) by simp
    from Cons.IH [OF s'(2) le] Cons.prems(3) s'(1) show ?thesis by (simp add: run)
  qed (simp add: run)
qed simp

text \<open>All 25 runs of \<open>full_map_reduce\<close> pass after the single run, for every schedule of their
  threads, when the words are those the expected output has been made from.\<close>

theorem map_reduce_tests_pass:
  assumes "countable_words ws" "ws = map ivalue input" "map (\<lambda>(m, r, ms, rs). (m, r)) runs = thread_counts"
    and "turns 1 (length ws) ms1" "turns 1 (card (set ws)) rs1"
    and "\<forall>(m, r, ms, rs)\<in>set runs. turns m (length ws) ms \<and> turns r (card (set ws)) rs"
  shows "(rbind (single_map_reduce (expected_counts ws) input 1 1 ms1 rs1 init_mr)
      (\<lambda>(s, res). full_map_reduce (expected_counts ws) input runs s) = fail BadShift \<and> overfull (set ws)) \<or>
    (\<exists>s'. rbind (single_map_reduce (expected_counts ws) input 1 1 ms1 rs1 init_mr)
      (\<lambda>(s, res). full_map_reduce (expected_counts ws) input runs s) = ret (s', True) \<and> runs_held s' ws 26)"
proof -
  have "0 < MAX_VALUES_PER_KEY" by (simp add: MAX_VALUES_PER_KEY_def)
  from single_map_reduce_passes [OF assms(1,2) runs_held_init this zero_less_one zero_less_one assms(4,5)] show ?thesis
  proof (elim disjE exE conjE)
    fix s' assume s': "single_map_reduce (expected_counts ws) input 1 1 ms1 rs1 init_mr = ret (s', True)"
      "runs_held s' ws (0 + 1)"
    have len: "length runs = 25"
      using arg_cong [OF assms(3), of length] by (simp add: thread_counts_def upt_rec)
    have pos: "\<forall>(m, r, ms, rs)\<in>set runs. 0 < m \<and> 0 < r"
    proof -
      have "\<forall>(m, r)\<in>set thread_counts. 0 < m \<and> 0 < r" by (auto simp: thread_counts_def)
      then show ?thesis unfolding assms(3) [symmetric] by force
    qed
    have "0 + 1 + length runs \<le> MAX_VALUES_PER_KEY" by (simp add: len MAX_VALUES_PER_KEY_def)
    moreover have "\<forall>(m, r, ms, rs)\<in>set runs. 0 < m \<and> 0 < r \<and> turns m (length ws) ms \<and> turns r (card (set ws)) rs"
      using pos assms(6) by fast
    ultimately show ?thesis
      using full_map_reduce_passes [OF assms(1,2) s'(2), of runs] s'(1) len by simp
  qed simp_all
qed

definition demo_words :: "in_kv list" where
  "demo_words = [\<lparr>ikey = [48], ivalue = [98]\<rparr>, \<lparr>ikey = [49], ivalue = [97]\<rparr>, \<lparr>ikey = [50], ivalue = [98]\<rparr>]"

lemma demo_words_countable: "countable_words [[98], [97], [98]]"
  by (simp add: countable_words_def MAX_KEY_SIZE_def MAX_VALUES_PER_KEY_def MAX_INTERMEDIATE_def card_insert_if)

lemma demo_words_set: "card (set [[98 :: u8], [97], [98]]) = 2" "sorted_list_of_set (set [[98 :: u8], [97], [98]]) = [[97], [98]]"
  by (simp_all add: insert_commute card_insert_if)

theorem word_count_correct_witness:
  "\<exists>s' out. mr_exec init_mr demo_words amr_map 2 amr_reduce 2 [0, 1, 0, 1, 0, 1] [1, 1, 0, 0] = ret (s', out)
    \<and> map group_of out = [([97], [[49]]), ([98], [[50]])]"
proof -
  have t: "turns 2 (length [[98 :: u8], [97], [98]]) [0, 1, 0, 1, 0, 1 :: nat]"
    "turns 2 (card (set [[98 :: u8], [97], [98]])) [1, 1, 0, 0 :: nat]"
    unfolding demo_words_set by (simp_all add: turns_def less_Suc_eq numeral_2_eq_2)
  have w: "[[98], [97], [98]] = map ivalue demo_words" by (simp add: demo_words_def)
  show ?thesis
    using word_count_correct [OF demo_words_countable w runs_held_init _ _ _ t] unfolding overfull_def demo_words_set
    by (fastforce simp: MAX_VALUES_PER_KEY_def counted_def digits.simps)
qed

theorem map_reduce_tests_pass_witness:
  "\<exists>s'. rbind (single_map_reduce (expected_counts [[98], [97], [98]]) demo_words 1 1 [0, 0, 0] [0, 0] init_mr)
      (\<lambda>(s, res). full_map_reduce (expected_counts [[98], [97], [98]]) demo_words
        (map (\<lambda>(m, r). (m, r, concat (replicate 3 [0..<m]), concat (replicate 2 [0..<r]))) thread_counts) s)
    = ret (s', True) \<and> runs_held s' [[98], [97], [98]] 26"
proof -
  have cl: "count_list (concat (replicate n [0..<m])) t = n" if "t < m" for n m t :: nat
  proof -
    have "count_list [0..<m] t = 1" using that by (induction m) (auto simp: less_Suc_eq)
    then show ?thesis by (induction n) (simp_all add: count_list_append)
  qed
  have w: "[[98], [97], [98]] = map ivalue demo_words" by (simp add: demo_words_def)
  let ?runs = "map (\<lambda>(m, r). (m, r, concat (replicate 3 [0..<m]), concat (replicate 2 [0..<r]))) thread_counts"
  have "map (\<lambda>(m, r, ms, rs). (m, r)) ?runs = thread_counts" by (simp add: comp_def case_prod_beta)
  moreover have "\<forall>(m, r, ms, rs)\<in>set ?runs. turns m (length [[98 :: u8], [97], [98]]) ms
      \<and> turns r (card (set [[98 :: u8], [97], [98]])) rs"
    unfolding demo_words_set by (auto simp: turns_def cl)
  moreover have "turns 1 (length [[98 :: u8], [97], [98]]) [0, 0, 0 :: nat]"
    "turns 1 (card (set [[98 :: u8], [97], [98]])) [0, 0 :: nat]"
    unfolding demo_words_set by (simp_all add: turns_def)
  ultimately show ?thesis
    using map_reduce_tests_pass [OF demo_words_countable w] unfolding overfull_def demo_words_set by fastforce
qed

end
