(* ===== verification/Map_Reduce_Main.thy ===== *)
theory Map_Reduce_Main
  imports Map_Reduce_Reducers Map_Reduce_Tests
begin

text \<open>
  \<open>single_reduce.c\<close>, and \<open>main.c\<close> of \<open>lecture/test3/src\<close>: the eight tests one after the other on
  the state that the earlier ones have left.
\<close>

section \<open>One reducer\<close>

definition MOD :: nat where "MOD = 8"

record single_reduce_state =
  sr_kv_store :: "(bytes \<times> bytes list) list"
  sr_call_count :: nat

definition sr_reduce :: "out_kv \<Rightarrow> single_reduce_state \<Rightarrow> single_reduce_state" where
  "sr_reduce kv s = (let index = sr_call_count s; s = s\<lparr>sr_call_count := index + 1\<rparr>
    in if MOD \<le> index \<or> ocount kv \<noteq> MAX_DATA_SIZE div MOD then s
       else s\<lparr>sr_kv_store := (sr_kv_store s)[index :=
         (copied MAX_KEY_SIZE (okey kv), map (\<lambda>i. copied MAX_VALUE_SIZE (ovalue kv ! i)) [0..<ocount kv])]\<rparr>)"

definition sr_cmp :: "in_kv list \<Rightarrow> single_reduce_state \<Rightarrow> int" where
  "sr_cmp kvs s = (if list_all (\<lambda>i. strncmp (fst (sr_kv_store s ! (i mod MOD))) (ikey (kvs ! i)) MAX_KEY_SIZE = 0
      \<and> strncmp (snd (sr_kv_store s ! (i mod MOD)) ! (i div MOD)) (ivalue (kvs ! i)) MAX_VALUE_SIZE = 0) [0..<MAX_DATA_SIZE]
    then 0 else - 1)"

definition sr_input :: "in_kv list" where
  "sr_input = map (\<lambda>i. \<lparr>ikey = print_num MAX_KEY_SIZE (i mod MOD), ivalue = print_num MAX_VALUE_SIZE i\<rparr>) [0..<MAX_DATA_SIZE]"

definition single_reduce ::
  "nat list \<Rightarrow> nat list \<Rightarrow> (bytes \<times> bytes list) list \<Rightarrow> mr_state \<Rightarrow> (mr_state \<times> bool) run" where
  "single_reduce ms rs store s =
    rbind (mr_exec s sr_input sr_map 1 (\<lambda>_ _. []) 1 ms rs) (\<lambda>(s, out).
      let t = fold (\<lambda>c. sr_reduce (snd c)) (calls (mapped s) 1 rs) \<lparr>sr_kv_store = store, sr_call_count = 0\<rparr>
      in ret (s, sr_call_count t = MOD \<and> sr_cmp sr_input t = 0))"

lemma groups_by_keys: "groups es = map (\<lambda>k. (k, vals_of es k)) (map fst (groups es))"
proof -
  have "map (\<lambda>g. (fst g, vals_of es (fst g))) (groups es) = groups es"
    by (rule map_idI) (auto dest: groups_vals)
  then show ?thesis by (simp add: comp_def)
qed

lemma groups_old_keys: "fst ` set es' \<subseteq> fst ` set es \<Longrightarrow> map fst (groups (es @ es')) = map fst (groups es)"
proof (induction es' rule: rev_induct)
  case (snoc e es')
  then have "fst e \<in> fst ` set (groups (es @ es'))" unfolding groups_keys by auto
  moreover have "groups (es @ es' @ [e]) = group_add (fst e) (snd e) (groups (es @ es'))"
    using groups_snoc [of "es @ es'" "fst e" "snd e"] by simp
  ultimately show ?case using snoc by (simp add: group_add_fst)
qed simp

lemma residues: "k < m \<Longrightarrow> filter (\<lambda>i. i mod m = k) [0..<m * n] = map (\<lambda>j. m * j + k) [0..<n]"
proof (induction n)
  case (Suc n)
  have "[0..<m * n + m] = [0..<m * n] @ [m * n..<m * n + m]" by (rule upt_add_eq_append) simp
  moreover have "[m * n..<m * n + m] = map (\<lambda>i. i + m * n) [0..<m]" by (simp add: map_add_upt add.commute)
  moreover have "filter (\<lambda>i. (i + m * n) mod m = k) [0..<m] = filter (\<lambda>i. i = k) [0..<m]"
    by (rule filter_cong) auto
  moreover have "filter (\<lambda>i. i = k) [0..<m] = [k]" using Suc.prems by (induction m) (auto simp: less_Suc_eq filter_empty_conv)
  moreover have "m * Suc n = m * n + m" by simp
  ultimately have "filter (\<lambda>i. i mod m = k) [0..<m * Suc n] = filter (\<lambda>i. i mod m = k) [0..<m * n] @ [k + m * n]"
    by (simp only: filter_append filter_map comp_def list.map)
  with Suc show ?case by (simp add: add.commute)
qed simp

abbreviation sr_pairs :: "(bytes \<times> bytes) list" where
  "sr_pairs \<equiv> map (\<lambda>i. (print_num MAX_KEY_SIZE (i mod MOD), print_num MAX_VALUE_SIZE i)) [0..<MAX_DATA_SIZE]"

lemma sr_keys_inject: "i < MOD \<Longrightarrow> j < MOD \<Longrightarrow> print_num MAX_KEY_SIZE i = print_num MAX_KEY_SIZE j \<longleftrightarrow> i = j"
  by (simp add: print_num_small MOD_def MAX_DATA_SIZE_def MAX_KEY_SIZE_def digits_inject)

lemma sr_vals: 
  assumes "k < MOD"
  shows "vals_of sr_pairs (print_num MAX_KEY_SIZE k) = map (\<lambda>j. print_num MAX_VALUE_SIZE (MOD * j + k)) [0..<MAX_DATA_SIZE div MOD]"
proof -
  have "i mod MOD < MOD" for i by (simp add: MOD_def)
  then have "filter (\<lambda>i. print_num MAX_KEY_SIZE (i mod MOD) = print_num MAX_KEY_SIZE k) [0..<MAX_DATA_SIZE]
      = filter (\<lambda>i. i mod MOD = k) [0..<MAX_DATA_SIZE]"
    using assms by (simp add: sr_keys_inject)
  moreover have "filter (\<lambda>i. i mod MOD = k) [0..<MAX_DATA_SIZE] = map (\<lambda>j. MOD * j + k) [0..<MAX_DATA_SIZE div MOD]"
    using residues [OF assms, of "MAX_DATA_SIZE div MOD"] by (simp add: MAX_DATA_SIZE_def MOD_def)
  ultimately show ?thesis by (simp add: vals_of_def filter_map comp_def)
qed

lemma sr_groups:
  "groups sr_pairs = map (\<lambda>k. (print_num MAX_KEY_SIZE k, map (\<lambda>j. print_num MAX_VALUE_SIZE (MOD * j + k)) [0..<MAX_DATA_SIZE div MOD])) [0..<MOD]"
proof -
  let ?f = "\<lambda>i. (print_num MAX_KEY_SIZE (i mod MOD), print_num MAX_VALUE_SIZE i)"
  have "[0..<MAX_DATA_SIZE] = [0..<MOD] @ [MOD..<MAX_DATA_SIZE]"
    using upt_add_eq_append [of 0 MOD "MAX_DATA_SIZE - MOD"] by (simp add: MOD_def MAX_DATA_SIZE_def del: upt_rec_numeral)
  then have "sr_pairs = map ?f [0..<MOD] @ map ?f [MOD..<MAX_DATA_SIZE]" by (simp only: map_append)
  moreover have "fst ` set (map ?f [MOD..<MAX_DATA_SIZE]) \<subseteq> fst ` set (map ?f [0..<MOD])"
  proof -
    have "i mod MOD \<in> {0..<MOD}" for i by (simp add: MOD_def)
    then show ?thesis by (force simp: image_image)
  qed
  ultimately have "map fst (groups sr_pairs) = map fst (groups (map ?f [0..<MOD]))"
    by (simp only: groups_old_keys)
  also have "map fst (map ?f [0..<MOD]) = map (print_num MAX_KEY_SIZE) [0..<MOD]" by simp
  then have "distinct (map fst (map ?f [0..<MOD]))"
    by (simp add: distinct_map inj_on_def sr_keys_inject)
  then have "map fst (groups (map ?f [0..<MOD])) = map fst (map ?f [0..<MOD])"
    by (simp only: groups_distinct_pairs) (simp add: comp_def case_prod_beta)
  finally have k: "map fst (groups sr_pairs) = map (print_num MAX_KEY_SIZE) [0..<MOD]" by simp
  show ?thesis by (subst groups_by_keys) (unfold k map_map comp_def, simp add: sr_vals)
qed

lemma fold_sr_reduce:
  "length xs \<le> MOD \<Longrightarrow> length store = MOD \<Longrightarrow> \<forall>kv\<in>set xs. ocount kv = MAX_DATA_SIZE div MOD \<Longrightarrow>
   fold sr_reduce xs \<lparr>sr_kv_store = store, sr_call_count = 0\<rparr> =
     \<lparr>sr_kv_store = map (\<lambda>kv. (copied MAX_KEY_SIZE (okey kv), map (\<lambda>i. copied MAX_VALUE_SIZE (ovalue kv ! i)) [0..<ocount kv])) xs
        @ drop (length xs) store, sr_call_count = length xs\<rparr>"
proof (induction xs rule: rev_induct)
  case (snoc x xs)
  then have "drop (length xs) store = store ! length xs # drop (Suc (length xs)) store"
    by (intro Cons_nth_drop_Suc [symmetric]) simp
  with snoc show ?case by (simp add: sr_reduce_def Let_def list_update_append)
qed simp

lemma sr_pairs_ok: "pairs_ok sr_pairs" "card (fst ` set sr_pairs) \<le> MAX_INTERMEDIATE"
proof -
  have len: "length (print_num n i) < n" if "0 < n" for n i using print_num_facts(2) [of n i] that by linarith
  have k: "fst ` set sr_pairs \<subseteq> print_num MAX_KEY_SIZE ` {..<MOD}" by (auto simp: MOD_def)
  have "length (vals_of sr_pairs key) \<le> MAX_VALUES_PER_KEY" if key: "key \<in> fst ` set sr_pairs" for key
  proof -
    obtain j where "key = print_num MAX_KEY_SIZE j" "j < MOD" using subsetD [OF k key] by auto
    then show ?thesis by (simp only: sr_vals length_map length_upt) (simp add: MAX_DATA_SIZE_def MOD_def MAX_VALUES_PER_KEY_def)
  qed
  then show "pairs_ok sr_pairs" unfolding pairs_ok_def
    using len by (auto simp: emit_ok_def print_num_facts(1) MAX_KEY_SIZE_def MAX_VALUE_SIZE_def)
  have "card (fst ` set sr_pairs) \<le> card (print_num MAX_KEY_SIZE ` {..<MOD})" using k by (intro card_mono) simp_all
  also have "\<dots> \<le> MOD" using card_image_le [of "{..<MOD}" "print_num MAX_KEY_SIZE"] by simp
  finally show "card (fst ` set sr_pairs) \<le> MAX_INTERMEDIATE" by (simp add: MOD_def MAX_INTERMEDIATE_def)
qed

text \<open>The reducer is called once for each of the eight keys, in the order in which the keys first
  appear, with the \<open>128\<close> values of the key in the order of the input.\<close>

lemma sr_cmp_groups:
  assumes "map group_of xs = groups sr_pairs" "\<forall>kv\<in>set xs. ocount kv \<le> length (ovalue kv)" "length store = MOD"
    and t: "t = fold sr_reduce xs \<lparr>sr_kv_store = store, sr_call_count = 0\<rparr>"
  shows "sr_call_count t = MOD" "sr_cmp sr_input t = 0"
proof -
  let ?N = "MAX_DATA_SIZE div MOD"
  have l: "length xs = MOD" using arg_cong [OF assms(1), of length] by (simp add: sr_groups)
  have g: "okey (xs ! k) = print_num MAX_KEY_SIZE k"
    "ovalues (xs ! k) = map (\<lambda>j. print_num MAX_VALUE_SIZE (MOD * j + k)) [0..<?N]" if "k < MOD" for k
    using arg_cong [OF assms(1), of "\<lambda>gs. gs ! k"] that l by (simp_all add: sr_groups group_of_def)
  have n: "ocount (xs ! k) = ?N" if "k < MOD" for k
  proof -
    have "ocount (xs ! k) \<le> length (ovalue (xs ! k))" using assms(2) that l by simp
    then show ?thesis using arg_cong [OF g(2) [OF that], of length] by (simp add: ovalues_def)
  qed
  then have all: "\<forall>kv\<in>set xs. ocount kv = ?N" using l by (metis in_set_conv_nth)
  have f: "t = \<lparr>sr_kv_store = map (\<lambda>kv. (copied MAX_KEY_SIZE (okey kv), map (\<lambda>i. copied MAX_VALUE_SIZE (ovalue kv ! i)) [0..<ocount kv])) xs,
      sr_call_count = MOD\<rparr>"
    unfolding t using fold_sr_reduce [of xs store] all l assms(3) by simp
  show "sr_call_count t = MOD" by (simp add: f)
  have rows: "ovalue (xs ! k) ! j = print_num MAX_VALUE_SIZE (MOD * j + k)" if "k < MOD" "j < ?N" for k j
  proof -
    have "ovalue (xs ! k) ! j = ovalues (xs ! k) ! j" using that n [OF that(1)] by (simp add: ovalues_def)
    then show ?thesis using g(2) [OF that(1)] that(2) by simp
  qed
  have "strncmp (fst (sr_kv_store t ! (i mod MOD))) (ikey (sr_input ! i)) MAX_KEY_SIZE = 0
      \<and> strncmp (snd (sr_kv_store t ! (i mod MOD)) ! (i div MOD)) (ivalue (sr_input ! i)) MAX_VALUE_SIZE = 0"
    if "i < MAX_DATA_SIZE" for i
  proof -
    have b: "i mod MOD < MOD" "i div MOD < ?N" using that by (simp_all add: MOD_def MAX_DATA_SIZE_def less_mult_imp_div_less)
    have s: "sr_kv_store t ! (i mod MOD) = (print_num MAX_KEY_SIZE (i mod MOD), map (\<lambda>j. copied MAX_VALUE_SIZE (ovalue (xs ! (i mod MOD)) ! j)) [0..<?N])"
      using b(1) l n [OF b(1)] g(1) [OF b(1)] by (simp add: f copied_print_num)
    have "copied MAX_VALUE_SIZE (ovalue (xs ! (i mod MOD)) ! (i div MOD)) = print_num MAX_VALUE_SIZE i"
      using rows [OF b] by (simp add: copied_print_num)
    then show ?thesis using that b(2) by (simp add: s sr_input_def)
  qed
  then show "sr_cmp sr_input t = 0" by (simp add: sr_cmp_def list_all_iff)
qed

theorem single_reduce_passes:
  assumes "holds_pairs s es0" "card (fst ` set es0) < 2 ^ 32" "length store = MOD"
    "turns 1 MAX_DATA_SIZE ms" "turns 1 MOD rs"
  shows "\<exists>s'. single_reduce ms rs store s = ret (s', True) \<and> holds_pairs s' es0"
proof -
  have E: "mr_emitted sr_map sr_input = sr_pairs" by (simp add: emitted_pairs sr_input_def)
  have t: "turns 1 (length sr_pairs) ms" using assms(4) by simp
  from mr_exec_collect [OF zero_less_one, of sr_map sr_input ms s es0 rs, unfolded E, OF sr_pairs_ok t assms(1,2)]
  obtain s' out where m: "mr_exec s sr_input sr_map 1 (\<lambda>_ _. []) 1 ms rs = ret (s', out)" "holds_pairs s' es0"
    "inter_view s' = groups sr_pairs" "inter_ok s'" by blast
  have v: "map group_of (mapped s') = groups sr_pairs" using m(3) by (simp only: inter_view_mapped)
  have b: "\<forall>kv\<in>set (mapped s'). ocount kv \<le> length (ovalue kv)"
    using m(4) in_set_takeD [of _ "intermediate_count s'" "intermediate s'"] by (fastforce simp: mapped_def inter_ok_def)
  have l: "length (mapped s') = MOD" using arg_cong [OF v, of length] by (simp add: sr_groups)
  have "completes rs (thread_calls (mapped s') 1)"
    using assms(5) l by (simp add: completes_def turns_def thread_calls_def chunk_start_def chunk_end_def chunk_size_def)
  then have "fold (\<lambda>c. sr_reduce (snd c)) (calls (mapped s') 1 rs) q = fold sr_reduce (mapped s') q" for q
    by (simp only: calls_one_thread) (simp add: fold_map comp_def)
  with sr_cmp_groups [OF v b assms(3) refl] m(1,2) show ?thesis
    by (simp add: single_reduce_def Let_def)
qed

section \<open>The program\<close>

text \<open>The schedules of the threads in the runs of the eight tests.\<close>

record schedules =
  single_map_sched :: "nat list \<times> nat list"
  single_reduce_sched :: "nat list \<times> nat list"
  single_map_reduce_sched :: "nat list \<times> nat list"
  mappers_sched :: "(nat \<times> nat list \<times> nat list) list"
  reducers_sched :: "(nat \<times> nat list \<times> nat list) list"
  input_sched :: "(nat \<times> nat list \<times> nat list) list"
  intermediate_sched :: "(nat \<times> nat list \<times> nat list) list"
  full_sched :: "(nat \<times> nat \<times> nat list \<times> nat list) list"

text \<open>The global arrays start with zeros.\<close>

definition zero_slots :: "'v slots_state" where
  "zero_slots = \<lparr>all_slots = replicate MAX_THREADS \<lparr>slot_id = 0, recorded = []\<rparr>, too_many = False\<rparr>"

definition and_then :: "(mr_state \<times> bool) run \<Rightarrow> (mr_state \<Rightarrow> bool run) \<Rightarrow> bool run" where
  "and_then a b = rbind a (\<lambda>(s, ok). if ok then b s else ret False)"

definition and_then_slots :: "(mr_state \<times> 'p \<times> bool) run \<Rightarrow> (mr_state \<Rightarrow> 'p \<Rightarrow> bool run) \<Rightarrow> bool run" where
  "and_then_slots a b = rbind a (\<lambda>(s, p, ok). if ok then b s p else ret False)"

text \<open>\<open>main\<close>: whether the last \<open>TEST\<close> is reached.\<close>

definition main_mr :: "schedules \<Rightarrow> in_kv list \<Rightarrow> (bytes \<times> bytes) list \<Rightarrow> in_kv list \<Rightarrow> bool run" where
  "main_mr d kvs ex input =
    and_then (single_map (fst (single_map_sched d)) (snd (single_map_sched d)) (replicate MAX_DATA_SIZE ([], [])) init_mr) (\<lambda>s.
    and_then (single_reduce (fst (single_reduce_sched d)) (snd (single_reduce_sched d)) (replicate MOD ([], [])) s) (\<lambda>s.
    and_then (single_map_reduce ex input 1 1 (fst (single_map_reduce_sched d)) (snd (single_map_reduce_sched d)) s) (\<lambda>s.
    and_then_slots (number_of_mappers (mappers_sched d) s zero_slots) (\<lambda>s p.
    and_then_slots (number_of_reducers (reducers_sched d) s p) (\<lambda>s p.
    and_then_slots (partition_input kvs (input_sched d) s zero_slots) (\<lambda>s p.
    and_then_slots (partition_intermediate (intermediate_sched d) s p) (\<lambda>s p.
    and_then (full_map_reduce ex input (full_sched d) s) (\<lambda>s. ret True))))))))"

text \<open>The tests run the numbers of threads of the code, and every thread gets enough turns.\<close>

definition schedules_ok :: "schedules \<Rightarrow> in_kv list \<Rightarrow> bytes list \<Rightarrow> bool" where
  "schedules_ok d kvs ws \<longleftrightarrow>
     completes (fst (single_map_sched d)) (thread_calls sm_input 1)
   \<and> turns 1 MAX_DATA_SIZE (fst (single_reduce_sched d)) \<and> turns 1 MOD (snd (single_reduce_sched d))
   \<and> turns 1 (length ws) (fst (single_map_reduce_sched d)) \<and> turns 1 (card (set ws)) (snd (single_map_reduce_sched d))
   \<and> map fst (mappers_sched d) = thread_numbers
   \<and> (\<forall>(n, ms, rs)\<in>set (mappers_sched d). completes ms (thread_calls nomr_input n))
   \<and> map fst (reducers_sched d) = thread_numbers
   \<and> (\<forall>(n, ms, rs)\<in>set (reducers_sched d). turns 1 MAX_THREADS ms \<and> completes rs (thread_calls nomr_input n))
   \<and> map fst (input_sched d) = thread_numbers
   \<and> (\<forall>(n, ms, rs)\<in>set (input_sched d). completes ms (thread_calls kvs n))
   \<and> map fst (intermediate_sched d) = thread_numbers
   \<and> (\<forall>(n, ms, rs)\<in>set (intermediate_sched d). turns 1 MAX_DATA_SIZE ms \<and> completes rs (thread_calls pinter_input n))
   \<and> map (\<lambda>(m, r, ms, rs). (m, r)) (full_sched d) = thread_counts
   \<and> (\<forall>(m, r, ms, rs)\<in>set (full_sched d). turns m (length ws) ms \<and> turns r (card (set ws)) rs)"

lemma runs_held_pairs:
  assumes "runs_held s ws 1" "countable_words ws"
  obtains es0 where "holds_pairs s es0" "card (fst ` set es0) < 2 ^ 32" "\<And>s'. holds_pairs s' es0 \<Longrightarrow> runs_held s' ws 1"
proof -
  obtain es0 where es0: "holds_pairs s es0" "\<forall>w. vals_of es0 w = (if w \<in> set ws then replicate 1 (counted ws w) else [])"
    using assms(1) unfolding runs_held_def by blast
  have "fst ` set es0 = set ws"
  proof (rule set_eqI)
    fix w
    show "w \<in> fst ` set es0 \<longleftrightarrow> w \<in> set ws" using vals_of_Nil_iff [of es0 w] es0(2) by (cases "w \<in> set ws") simp_all
  qed
  then have "card (fst ` set es0) < 2 ^ 32" using assms(2) by (simp add: countable_words_def MAX_INTERMEDIATE_def)
  then show thesis using es0 that unfolding runs_held_def by blast
qed

lemma full_map_reduce_passes_counts:
  assumes "countable_words ws" "ws = map ivalue input" "runs_held s ws 1" "map (\<lambda>(m, r, ms, rs). (m, r)) runs = thread_counts"
    and "\<forall>(m, r, ms, rs)\<in>set runs. turns m (length ws) ms \<and> turns r (card (set ws)) rs"
  shows "(full_map_reduce (expected_counts ws) input runs s = fail BadShift \<and> overfull (set ws)) \<or>
    (\<exists>s'. full_map_reduce (expected_counts ws) input runs s = ret (s', True) \<and> runs_held s' ws 26)"
proof -
  have len: "length runs = 25"
    using arg_cong [OF assms(4), of length] by (simp add: thread_counts_def upt_rec)
  have "\<forall>(m, r)\<in>set thread_counts. 0 < m \<and> 0 < r" by (auto simp: thread_counts_def)
  then have "\<forall>(m, r, ms, rs)\<in>set runs. 0 < m \<and> 0 < r" unfolding assms(4) [symmetric] by force
  then have "\<forall>(m, r, ms, rs)\<in>set runs. 0 < m \<and> 0 < r \<and> turns m (length ws) ms \<and> turns r (card (set ws)) rs"
    using assms(5) by fast
  moreover have "1 + length runs \<le> MAX_VALUES_PER_KEY" by (simp add: len MAX_VALUES_PER_KEY_def)
  ultimately show ?thesis using full_map_reduce_passes [OF assms(1-3), of runs] by (simp add: len)
qed

text \<open>The tests between the two word counts keep the table.\<close>

lemma middle_tests_pass:
  assumes ok: "schedules_ok d kvs ws" and kvs: "kvs_ok kvs" and h: "holds_pairs s es0" "card (fst ` set es0) < 2 ^ 32"
  obtains s' p where
    "\<And>k. and_then_slots (number_of_mappers (mappers_sched d) s zero_slots) (\<lambda>s p.
     and_then_slots (number_of_reducers (reducers_sched d) s p) (\<lambda>s p.
     and_then_slots (partition_input kvs (input_sched d) s zero_slots) (\<lambda>s p.
     and_then_slots (partition_intermediate (intermediate_sched d) s p) k))) = k s' p"
    "holds_pairs s' es0"
proof -
  have z: "length (all_slots zero_slots) = MAX_THREADS" by (simp add: zero_slots_def)
  note ok = ok [unfolded schedules_ok_def]
  obtain s1 p1 where 1: "number_of_mappers (mappers_sched d) s (zero_slots :: unit slots_state) = ret (s1, p1, True)"
    "holds_pairs s1 es0" "length (all_slots p1) = MAX_THREADS"
    using number_of_mappers_passes [OF _ _ h z] ok by metis
  obtain s2 p2 where 2: "number_of_reducers (reducers_sched d) s1 p1 = ret (s2, p2, True)" "holds_pairs s2 es0"
    using number_of_reducers_passes [OF _ _ 1(2) h(2) 1(3)] ok by metis
  obtain s3 p3 where 3: "partition_input kvs (input_sched d) s2 zero_slots = ret (s3, p3, True)"
    "holds_pairs s3 es0" "length (all_slots p3) = MAX_THREADS"
    using partition_input_passes [OF _ _ kvs 2(2) h(2) z] ok by metis
  obtain s4 p4 where "partition_intermediate (intermediate_sched d) s3 p3 = ret (s4, p4, True)" "holds_pairs s4 es0"
    using partition_intermediate_passes [OF _ _ 3(2) h(2) 3(3)] ok by metis
  with 1(1) 2(1) 3(1) show thesis by (intro that) (simp_all add: and_then_slots_def)
qed

text \<open>For words that the fixed arrays can hold, random pairs with distinct keys and every schedule
  of the threads, all eight tests pass, although the table of the framework is never cleared
  between them; or the hash table outgrows $2^{31}$ buckets, which takes more than 26 words,
  ten of them with one home among the first 32 buckets.\<close>

theorem main_mr_passes:
  assumes "countable_words ws" "ws = map ivalue input" "schedules_ok d kvs ws" "kvs_ok kvs"
  shows "(main_mr d kvs (expected_counts ws) input = fail BadShift \<and> overfull (set ws)) \<or>
    main_mr d kvs (expected_counts ws) input = ret True"
proof -
  note ok = assms(3) [unfolded schedules_ok_def]
  have init: "holds_pairs init_mr []" "card (fst ` set ([] :: (bytes \<times> bytes) list)) < 2 ^ 32" by (simp_all add: init_holds)
  obtain s1 where 1: "single_map (fst (single_map_sched d)) (snd (single_map_sched d)) (replicate MAX_DATA_SIZE ([], [])) init_mr
      = ret (s1, True)" "holds_pairs s1 []"
    using single_map_passes [OF init length_replicate] ok by metis
  obtain s2 where 2: "single_reduce (fst (single_reduce_sched d)) (snd (single_reduce_sched d)) (replicate MOD ([], [])) s1
      = ret (s2, True)" "holds_pairs s2 []"
    using single_reduce_passes [OF 1(2) init(2) length_replicate] ok by metis
  have r2: "runs_held s2 ws 0" using 2(2) unfolding runs_held_def by (intro exI [of _ "[]"]) simp
  have pos: "0 < MAX_VALUES_PER_KEY" by (simp add: MAX_VALUES_PER_KEY_def)
  have t: "turns 1 (length ws) (fst (single_map_reduce_sched d))" "turns 1 (card (set ws)) (snd (single_map_reduce_sched d))"
    using ok by blast+
  from single_map_reduce_passes [OF assms(1,2) r2 pos zero_less_one zero_less_one t, unfolded add_0]
  consider "single_map_reduce (expected_counts ws) input 1 1 (fst (single_map_reduce_sched d)) (snd (single_map_reduce_sched d)) s2 = fail BadShift"
      "overfull (set ws)"
    | s3 where "single_map_reduce (expected_counts ws) input 1 1 (fst (single_map_reduce_sched d)) (snd (single_map_reduce_sched d)) s2 = ret (s3, True)"
      "runs_held s3 ws 1" by blast
  then show ?thesis
  proof cases
    case 1
    then show ?thesis using \<open>single_map _ _ _ _ = _\<close> 2(1) by (simp add: main_mr_def and_then_def)
  next
    case (2 s3)
    obtain es0 where es0: "holds_pairs s3 es0" "card (fst ` set es0) < 2 ^ 32" "\<And>s'. holds_pairs s' es0 \<Longrightarrow> runs_held s' ws 1"
      using runs_held_pairs [OF 2(2) assms(1)] by blast
    obtain s4 p where 4: "\<And>k. and_then_slots (number_of_mappers (mappers_sched d) s3 zero_slots) (\<lambda>s p.
     and_then_slots (number_of_reducers (reducers_sched d) s p) (\<lambda>s p.
     and_then_slots (partition_input kvs (input_sched d) s zero_slots) (\<lambda>s p.
     and_then_slots (partition_intermediate (intermediate_sched d) s p) k))) = k s4 p" "holds_pairs s4 es0"
      using middle_tests_pass [OF assms(3,4) es0(1,2)] by blast
    have f: "(full_map_reduce (expected_counts ws) input (full_sched d) s4 = fail BadShift \<and> overfull (set ws)) \<or>
        (\<exists>s'. full_map_reduce (expected_counts ws) input (full_sched d) s4 = ret (s', True) \<and> runs_held s' ws 26)"
      using full_map_reduce_passes_counts [OF assms(1,2) es0(3) [OF 4(2)]] ok by blast
    have "main_mr d kvs (expected_counts ws) input =
        and_then (full_map_reduce (expected_counts ws) input (full_sched d) s4) (\<lambda>s. ret True)"
      unfolding main_mr_def using \<open>single_map _ _ _ _ = _\<close> \<open>single_reduce _ _ _ _ = _\<close> 2(1)
      by (simp add: and_then_def 4(1))
    with f show ?thesis by (auto simp: and_then_def)
  qed
qed

text \<open>Every thread has its turn again and again, as often as the longest of them needs.\<close>

definition turn_by_turn :: "nat \<Rightarrow> nat \<Rightarrow> schedules" where
  "turn_by_turn n c = \<lparr>
     single_map_sched = (one_by_one (thread_calls sm_input 1), []),
     single_reduce_sched = (replicate MAX_DATA_SIZE 0, replicate MOD 0),
     single_map_reduce_sched = (replicate n 0, replicate c 0),
     mappers_sched = map (\<lambda>n. (n, one_by_one (thread_calls nomr_input n), [])) thread_numbers,
     reducers_sched = map (\<lambda>n. (n, replicate MAX_THREADS 0, one_by_one (thread_calls nomr_input n))) thread_numbers,
     input_sched = map (\<lambda>n. (n, one_by_one (thread_calls pinter_input n), [])) thread_numbers,
     intermediate_sched = map (\<lambda>n. (n, replicate MAX_DATA_SIZE 0, one_by_one (thread_calls pinter_input n))) thread_numbers,
     full_sched = map (\<lambda>(m, r). (m, r, concat (replicate n [0..<m]), concat (replicate c [0..<r]))) thread_counts\<rparr>"

lemma count_list_rounds: "t < m \<Longrightarrow> count_list (concat (replicate n [0..<m])) t = n"
proof -
  assume t: "t < m"
  have "count_list [0..<m] t = 1" using t by (induction m) (auto simp: less_Suc_eq)
  then show ?thesis by (induction n) (simp_all add: count_list_append)
qed

lemma count_list_replicate_same: "count_list (replicate n x) x = n"
  by (induction n) simp_all

lemma turn_by_turn_ok: "schedules_ok (turn_by_turn (length ws) (card (set ws))) pinter_input ws"
proof -
  have f: "map fst (map (\<lambda>n. (n, f n)) ns) = ns" for f and ns :: "nat list" by (simp add: comp_def)
  have "map (\<lambda>(m, r, ms, rs). (m, r)) (full_sched (turn_by_turn (length ws) (card (set ws)))) = thread_counts"
    by (simp add: turn_by_turn_def comp_def case_prod_beta)
  moreover have "turns 1 n (replicate n 0)" for n by (simp add: turns_def count_list_replicate_same)
  moreover have "turns m n (concat (replicate n [0..<m]))" for m n
    unfolding turns_def using count_list_rounds by (metis order_refl)
  ultimately show ?thesis
    unfolding schedules_ok_def
    by (simp only: turn_by_turn_def schedules.simps f fst_conv snd_conv one_by_one_completes) (auto intro: one_by_one_completes)
qed

theorem main_mr_passes_witness:
  "main_mr (turn_by_turn 3 2) pinter_input (expected_counts [[98], [97], [98]]) demo_words = ret True"
proof -
  have w: "[[98], [97], [98]] = map ivalue demo_words" by (simp add: demo_words_def)
  have "schedules_ok (turn_by_turn 3 2) pinter_input [[98], [97], [98]]"
    using turn_by_turn_ok [of "[[98], [97], [98]]"] unfolding demo_words_set by (simp add: eval_nat_numeral)
  from main_mr_passes [OF demo_words_countable w this pinter_input_ok(2)] show ?thesis
    unfolding overfull_def demo_words_set by simp
qed

section \<open>Releasing an output\<close>

text \<open>\<open>free_output\<close>: \<open>None\<close> is \<open>NULL\<close>. The result is the output left behind and the arrays that have been
  released, in this order; a value array has the number of its element.\<close>

datatype released = Value_Array nat | Kv_Array

record 'v mr_output =
  kv_lst :: "'v option list option"
  out_count :: nat

fun free_values :: "nat \<Rightarrow> 'v option list \<Rightarrow> released list" where
  "free_values i [] = []"
| "free_values i (v # vs) = (if v = None then [] else [Value_Array i]) @ free_values (i + 1) vs"

definition free_output :: "'v mr_output option \<Rightarrow> ('v mr_output option \<times> released list) run" where
  "free_output output = (case output of None \<Rightarrow> ret (None, [])
   | Some out \<Rightarrow> (case kv_lst out of None \<Rightarrow> ret (Some out, [])
     | Some kvs \<Rightarrow> if length kvs < out_count out then fail OutOfBounds
         else ret (Some (out\<lparr>kv_lst := None\<rparr>), free_values 0 (take (out_count out) kvs) @ [Kv_Array])))"

lemma free_values_set: "Value_Array j \<in> set (free_values i vs) \<longleftrightarrow> i \<le> j \<and> j < i + length vs \<and> vs ! (j - i) \<noteq> None"
proof (induction vs arbitrary: i)
  case (Cons v vs)
  have "vs ! (j - Suc i) = (v # vs) ! (j - i)" if "i < j" using that by (simp add: nth_Cons')
  with Cons show ?case by (cases "j = i") auto
qed simp

lemma free_values_distinct: "distinct (free_values i vs)" "Kv_Array \<notin> set (free_values i vs)"
proof (induction vs arbitrary: i)
  case (Cons v vs)
  { case 1 show ?case using Cons(1) [of "Suc i"] free_values_set [of i "Suc i" vs] by auto }
  { case 2 show ?case using Cons(2) [of "Suc i"] by auto }
qed simp_all

text \<open>Each array of the output is released once, and a second call releases nothing.\<close>

theorem free_output_once:
  assumes "out_count out = length kvs" "kv_lst out = Some kvs"
  shows "\<exists>out' freed. free_output (Some out) = ret (Some out', freed) \<and> distinct freed
    \<and> set freed = insert Kv_Array {Value_Array j | j. j < length kvs \<and> kvs ! j \<noteq> None}
    \<and> free_output (Some out') = ret (Some out', [])"
proof -
  have "set (free_values 0 kvs) = {Value_Array j | j. j < length kvs \<and> kvs ! j \<noteq> None}"
  proof (rule set_eqI)
    fix r :: released
    show "r \<in> set (free_values 0 kvs) \<longleftrightarrow> r \<in> {Value_Array j | j. j < length kvs \<and> kvs ! j \<noteq> None}"
      using free_values_distinct(2) [of 0 kvs] free_values_set [of _ 0 kvs] by (cases r) auto
  qed
  with assms free_values_distinct [of 0 kvs] show ?thesis by (simp add: free_output_def)
qed

end
