(* ===== verification/Hash_Values.thy ===== *)
theory Hash_Values
  imports UtHash_First 
begin

text \<open>
  The hash of a short key on integers, so that the home of a key can be evaluated.
\<close>

unbundle bit_operations_syntax

section \<open>The hash on integers\<close>

text \<open>The Jenkins hash of a key of at most five bytes, over integers that stay below $2^{32}$: the form
  in which it is evaluated.\<close>

definition down :: "int \<Rightarrow> int \<Rightarrow> int \<Rightarrow> nat \<Rightarrow> int" where
  "down x y z n = take_bit 32 (x - y - z) XOR drop_bit n z"

definition up :: "int \<Rightarrow> int \<Rightarrow> int \<Rightarrow> nat \<Rightarrow> int" where
  "up x y z n = take_bit 32 (x - y - z) XOR take_bit 32 (push_bit n z)"

definition int_mix :: "int \<Rightarrow> int \<Rightarrow> int \<Rightarrow> int" where
  "int_mix a b c =
    (let a = down a b c 13; b = up b c a 8; c = down c a b 13;
         a = down a b c 12; b = up b c a 16; c = down c a b 5;
         a = down a b c 3; b = up b c a 10
     in down c a b 15)"

fun quad :: "nat \<Rightarrow> int list \<Rightarrow> int" where
  "quad sh [] = 0"
| "quad sh (k # ks) = push_bit sh k + quad (sh + 8) ks"

definition int_home :: "int list \<Rightarrow> int" where
  "int_home key = int_mix (take_bit 32 (0x9e3779b9 + quad 0 (take 4 key))) (take_bit 32 (0x9e3779b9 + quad 0 (take 4 (drop 4 key))))
     (take_bit 32 (0xfeedbeef + int (length key))) AND 31"

lemma uint_minus2: "uint (x - y - z :: u32) = take_bit 32 (uint x - uint y - uint z)"
  by (simp add: uint_word_ariths take_bit_eq_mod mod_simps)

lemma take_bit_u32: "take_bit 32 (uint (x :: u32)) = uint x"
  using unsigned_less [of x] by (intro take_bit_int_eq_self) simp_all

lemma take_bit_u8: "take_bit 32 (uint (x :: u8)) = uint x"
proof (rule take_bit_int_eq_self)
  have "uint x < 2 ^ 8" using unsigned_less [where 'a = int, of x] by simp
  then show "uint x < 2 ^ 32" by simp
qed simp

lemma uint_down: "uint ((x - y - z) XOR drop_bit n z :: u32) = down (uint x) (uint y) (uint z) n"
  by (simp add: down_def unsigned_xor_eq unsigned_drop_bit_eq uint_minus2 take_bit_u32)

lemma uint_up: "uint ((x - y - z) XOR push_bit n z :: u32) = up (uint x) (uint y) (uint z) n"
  by (simp add: up_def unsigned_xor_eq unsigned_push_bit_eq uint_minus2)

lemma uint_mix: "uint (snd (snd (jen_mix a b c))) = int_mix (uint a) (uint b) (uint c)"
  unfolding jen_mix_def int_mix_def Let_def snd_conv by (simp only: uint_down uint_up)

text \<open>The last bytes.\<close>

lemma uint_add: "uint (x + y :: u32) = take_bit 32 (uint x + uint y)"
  by (simp add: uint_word_ariths take_bit_eq_mod)

lemma uint_key_byte: "i < length key \<Longrightarrow> sh \<le> 24 \<Longrightarrow> uint (key_byte key i sh) = push_bit sh (uint (key ! i))"
proof -
  assume "sh \<le> 24"
  have "uint (key ! i) * 2 ^ sh < 2 ^ 8 * 2 ^ 24"
  proof (rule mult_less_le_imp_less)
    show "uint (key ! i) < 2 ^ 8" using unsigned_less [of "key ! i"] by simp
    show "(2 :: int) ^ sh \<le> 2 ^ 24" using \<open>sh \<le> 24\<close> by (intro power_increasing) simp_all
  qed simp_all
  then have "take_bit 32 (push_bit sh (uint (key ! i))) = push_bit sh (uint (key ! i))"
    by (simp add: take_bit_int_eq_self push_bit_eq_mult)
  then show ?thesis by (simp add: key_byte_def unsigned_push_bit_eq unsigned_ucast_eq take_bit_u8)
qed

lemma take_bit_add_mod: "take_bit 32 (take_bit 32 x + y) = take_bit 32 (x + y :: int)" "take_bit 32 (x + take_bit 32 y) = take_bit 32 (x + y :: int)"
  by (simp_all add: take_bit_eq_mod mod_simps)

lemma when_add_cases: "when_add False x y = x" "when_add True x y = x + y"
  by (simp_all add: when_add_def)

lemma jen_blocks_short: "k < 12 \<Longrightarrow> jen_blocks key k i j h = (key, k, i, j, h)"
  by (subst jen_blocks.simps) simp

lemma jen_tail_short:
  assumes "length key \<le> 5" "jen_tail key (length key) i j h = (i', j', h')"
  shows "uint i' = take_bit 32 (uint i + quad 0 (take 4 (map uint key)))"
    "uint j' = take_bit 32 (uint j + quad 0 (take 4 (drop 4 (map uint key))))" "h' = h"
proof -
  have "length key \<le> Suc (Suc (Suc (Suc (Suc 0))))" using assms(1) by simp
  then consider "key = []" | a where "key = [a]" | a b where "key = [a, b]" | a b c where "key = [a, b, c]"
    | a b c d where "key = [a, b, c, d]" | a b c d e where "key = [a, b, c, d, e]"
    by (auto simp: le_Suc_eq length_Suc_conv)
  then have "uint i' = take_bit 32 (uint i + quad 0 (take 4 (map uint key)))
    \<and> uint j' = take_bit 32 (uint j + quad 0 (take 4 (drop 4 (map uint key)))) \<and> h' = h"
    using assms(2)
    by cases (auto simp: jen_tail_def Let_def when_add_cases uint_add uint_key_byte take_bit_add_mod take_bit_u32 ac_simps)
  then show "uint i' = take_bit 32 (uint i + quad 0 (take 4 (map uint key)))"
    "uint j' = take_bit 32 (uint j + quad 0 (take 4 (drop 4 (map uint key))))" "h' = h" by blast+
qed

lemma int_home_eq:
  assumes "length key \<le> 5"
  shows "int (home key) = int_home (map uint key)"
proof -
  have u: "unat (of_nat (length key) :: u32) = length key" "uint (of_nat (length key) :: u32) = int (length key)"
    using assms by (simp_all add: unat_of_nat_u32 uint_nat)
  obtain i j h where t: "jen_tail key (length key) 0x9e3779b9 0x9e3779b9 (0xfeedbeef + of_nat (length key)) = (i, j, h)"
    by (metis prod_cases3)
  note t' = jen_tail_short [OF assms t]
  have "hash_jen key (of_nat (length key)) = snd (snd (jen_mix i j h))"
    using assms by (simp add: hash_jen_def u jen_blocks_short t case_prod_beta)
  then have "uint (hash_jen key (of_nat (length key))) = int_mix (uint i) (uint j) (uint h)" by (simp only: uint_mix)
  moreover have "uint h = take_bit 32 (0xfeedbeef + int (length key))" unfolding t'(3) uint_add u by simp
  ultimately show ?thesis
    unfolding home_def hash_to_bkt_def uint_nat [symmetric] by (simp add: unsigned_and_eq int_home_def t'(1,2))
qed

end
