(* ===== verification/Map_Reduce_Data.thy ===== *)
theory Map_Reduce_Data
  imports Map_Reduce_Main Hash_Values "HOL-Library.Tree"
begin

text \<open>
  The tables of \<open>lecture/test3/src/map_and_reduce.c\<close>: the words and the counts that the tests expect.
  The expected counts are those of the words, and no ten words have the same home in the hash table, so
  the program passes its tests on its own data without any condition on the words.
\<close>

section \<open>The tables\<close>

definition ascii :: "string \<Rightarrow> bytes" where
  "ascii w = map of_char w"

definition first_words :: "string list" where
  "first_words = [
    ''to'', ''be'', ''the'', ''also'', ''have'', ''by'', ''not'', ''also'', ''or'', ''have'', ''other'', ''in'', ''with'', ''how'', ''have'',
    ''that'', ''be'', ''do'', ''all'', ''like'', ''for'', ''there'', ''and'', ''if'', ''do'', ''no'', ''which'', ''more'', ''some'', ''their'',
    ''the'', ''from'', ''for'', ''will'', ''or'', ''they'', ''on'', ''to'', ''there'', ''this'', ''to'', ''no'', ''also'', ''one'', ''some'',
    ''with'', ''other'', ''what'', ''on'', ''to'', ''for'', ''in'', ''and'', ''you'', ''been'', ''more'', ''have'', ''more'', ''one'', ''all'',
    ''what'', ''her'', ''like'', ''like'', ''this'', ''not'', ''her'', ''do'', ''from'', ''with'', ''have'', ''at'', ''it'', ''her'', ''was'',
    ''more'', ''in'', ''more'', ''their'', ''the'', ''do'', ''on'', ''be'', ''that'', ''with'', ''of'', ''there'', ''their'', ''not'', ''we'',
    ''from'', ''like'', ''which'', ''by'', ''time'', ''have'', ''at'', ''so'', ''so'', ''that'', ''other'', ''that'', ''this'', ''would'', ''was'',
    ''been'', ''you'', ''at'', ''which'', ''all'', ''have'', ''are'', ''can'', ''more'', ''if'', ''there'', ''one'', ''what'', ''about'', ''when'',
    ''out'', ''also'', ''some'', ''her'', ''up'', ''other'', ''do'', ''time'', ''how'', ''has'', ''like'', ''no'', ''then'', ''its'', ''would'',
    ''them'', ''so'', ''more'', ''from'', ''by'', ''but'', ''not'', ''their'', ''all'', ''you'', ''we'', ''can'', ''has'', ''will'', ''which'',
    ''more'', ''if'', ''there'', ''one'', ''what'', ''about'', ''when'', ''out'', ''also'', ''some'', ''her'', ''up'', ''other'', ''do'', ''time'',
    ''how'', ''has'', ''been'', ''like'', ''no'', ''then'', ''its'', ''would'', ''them'', ''so'', ''more'', ''from'', ''by'', ''but'', ''not'',
    ''their'', ''all'', ''you'', ''we'', ''can'', ''has'', ''will'', ''which'', ''more'', ''if'', ''there'', ''one'', ''what'', ''about'', ''when'',
    ''out'', ''also'', ''some'', ''her'', ''up'', ''other'', ''as'', ''or'', ''with'', ''some'', ''from'', ''more'', ''some'', ''can'', ''we'',
    ''there'', ''are'', ''was'', ''they'', ''from'', ''or'', ''an'', ''have'', ''at'', ''but'', ''not'', ''their'', ''all'', ''you'', ''we'',
    ''can'', ''has'', ''will'', ''which'', ''more'', ''if'', ''there'', ''one'', ''what'', ''about'', ''when'', ''out'', ''also'', ''some'',
    ''her'', ''up'', ''other'', ''do'', ''time'', ''how'', ''has'', ''been'', ''like'', ''no'', ''then'', ''its'', ''would'', ''them'', ''so'',
    ''more'', ''from'', ''by'', ''but'', ''not'', ''their'', ''all'', ''you'', ''we'', ''can'', ''has'', ''will'', ''which'', ''more'', ''if'',
    ''there'', ''one'', ''what'', ''about'', ''when'', ''out'', ''also'', ''some'', ''her'', ''up'', ''other'', ''do'', ''time'', ''how'', ''has'',
    ''been'', ''like'', ''no'', ''then'', ''its'', ''would'', ''them'', ''so'', ''more'', ''from'', ''by'', ''but'', ''not'', ''their'', ''all'',
    ''you'', ''we'', ''when'', ''its'', ''and'', ''is'', ''is'', ''more'', ''an'', ''other'', ''to'', ''what'', ''about'', ''when'', ''out'',
    ''also'', ''some'', ''her'', ''up'', ''other'', ''do'', ''time'', ''how'', ''has'', ''been'', ''like'', ''no'', ''then'', ''its'', ''would'',
    ''them'', ''so'', ''more'', ''from'', ''by'', ''but'', ''not'', ''their'', ''all'', ''you'', ''we'', ''can'', ''has'', ''will'', ''which'',
    ''more'', ''if'', ''there'', ''one'', ''what'', ''about'', ''when'', ''out'', ''also'', ''some'', ''her'', ''up'', ''other'', ''do'', ''time'',
    ''how'', ''has'', ''been'', ''like'', ''no'', ''then'', ''its'', ''would'', ''them'', ''so'', ''more'', ''from'', ''by'', ''but'', ''not'',
    ''their'', ''all'', ''you'', ''we'', ''can'', ''has'', ''will'', ''which'', ''more'', ''if'', ''there'', ''one'', ''what'', ''about'', ''when'',
    ''out'', ''also'', ''some'', ''her'', ''up'', ''other'', ''do'', ''time'', ''how'', ''has'', ''been'', ''like'', ''there'', ''is'', ''them'',
    ''other'', ''that'', ''so'', ''them'', ''then'', ''about'', ''like'', ''no'', ''its'', ''would'', ''them'', ''so'', ''more'', ''from'', ''by'',
    ''but'', ''not'', ''their'', ''all'', ''you'', ''we'', ''can'', ''has'', ''will'', ''which'', ''more'', ''if'', ''there'', ''one'', ''what'',
    ''about'', ''when'', ''out'', ''also'', ''some'', ''her'', ''up'', ''other'', ''do'', ''time'', ''how'', ''has'', ''been'', ''like'', ''no'',
    ''then'', ''its'', ''would'', ''them'', ''so'', ''more'', ''from'', ''by'', ''but'', ''not'', ''their'', ''all'', ''you'', ''we'', ''can'',
    ''has'', ''will'', ''which'', ''more'', ''if'', ''there'', ''one'', ''what'', ''about'', ''when'', ''out'', ''also'', ''some'', ''her'', ''up'',
    ''other'', ''do'', ''time'', ''how'', ''has'', ''been'', ''like'', ''no'', ''then'', ''its'', ''would'', ''them'', ''so'', ''more'', ''from'',
    ''by'', ''but'', ''not'', ''their'', ''all'', ''you'', ''we'', ''or'', ''more'', ''the'', ''up'', ''to'', ''we'', ''one'', ''that'', ''be'',
    ''was'', ''been'']"

definition last_words :: "string list" where
  "last_words = [
    ''you'', ''at'', ''which'', ''all'', ''have'', ''are'', ''can'', ''more'', ''if'', ''there'', ''one'', ''what'', ''about'', ''when'', ''out'',
    ''also'', ''some'', ''her'', ''up'', ''other'', ''do'', ''time'', ''how'', ''has'', ''been'', ''like'', ''no'', ''then'', ''its'', ''would'',
    ''them'', ''so'', ''more'', ''from'', ''by'', ''but'', ''not'', ''their'', ''all'', ''you'', ''we'', ''can'', ''has'', ''will'', ''which'',
    ''more'', ''if'', ''there'', ''one'', ''what'', ''about'', ''when'', ''out'', ''also'', ''some'', ''her'', ''up'', ''other'', ''do'', ''time'',
    ''how'', ''has'', ''been'', ''like'', ''no'', ''then'', ''its'', ''would'', ''them'', ''so'', ''more'', ''from'', ''by'', ''but'', ''not'',
    ''their'', ''all'', ''you'', ''we'', ''can'', ''has'', ''will'', ''which'', ''more'', ''if'', ''there'', ''one'', ''what'', ''about'', ''it'',
    ''out'', ''will'', ''they'', ''of'', ''other'', ''and'', ''also'', ''more'', ''their'', ''all'', ''you'', ''we'', ''can'', ''has'', ''will'',
    ''which'', ''more'', ''if'', ''there'', ''one'', ''what'', ''about'', ''when'', ''out'', ''also'', ''some'', ''her'', ''up'', ''other'', ''do'',
    ''time'', ''how'', ''has'', ''been'', ''like'', ''no'', ''then'', ''its'', ''would'', ''them'', ''so'', ''more'', ''from'', ''by'', ''but'',
    ''not'', ''their'', ''all'', ''you'', ''we'', ''can'', ''has'', ''will'', ''which'', ''more'', ''if'', ''there'', ''one'', ''what'', ''about'',
    ''when'', ''out'', ''also'', ''some'', ''her'', ''up'', ''other'', ''do'', ''time'', ''how'', ''has'', ''been'', ''like'', ''no'', ''then'',
    ''its'', ''would'', ''them'', ''so'', ''more'', ''from'', ''by'', ''but'', ''not'', ''their'', ''all'', ''you'', ''we'', ''can'', ''has'',
    ''will'', ''which'', ''more'', ''if'', ''there'', ''one'', ''what'', ''about'', ''when'', ''we'', ''up'', ''at'', ''its'', ''time'', ''it'',
    ''they'', ''in'', ''with'', ''when'', ''out'', ''also'', ''some'', ''her'', ''up'', ''other'', ''do'', ''time'', ''how'', ''has'', ''been'',
    ''like'', ''no'', ''then'', ''its'', ''would'', ''them'', ''so'', ''more'', ''from'', ''by'', ''but'', ''not'', ''their'', ''all'', ''you'',
    ''we'', ''can'', ''has'', ''will'', ''which'', ''more'', ''if'', ''there'', ''one'', ''what'', ''about'', ''when'', ''out'', ''also'', ''some'',
    ''her'', ''up'', ''other'', ''do'', ''time'', ''how'', ''has'', ''been'', ''like'', ''no'', ''then'', ''its'', ''would'', ''them'', ''so'',
    ''more'', ''from'', ''by'', ''but'', ''not'', ''their'', ''all'', ''you'', ''we'', ''can'', ''has'', ''will'', ''which'', ''more'', ''if'',
    ''there'', ''one'', ''what'', ''about'', ''when'', ''out'', ''also'', ''some'', ''her'', ''up'', ''other'', ''do'', ''time'', ''how'', ''has'',
    ''been'', ''like'', ''no'', ''then'', ''with'', ''her'', ''at'', ''would'', ''by'', ''about'', ''been'', ''then'', ''we'', ''an'', ''have'',
    ''at'', ''but'', ''not'', ''their'', ''all'', ''you'', ''we'', ''can'', ''has'', ''will'', ''which'', ''more'', ''if'', ''there'', ''one'',
    ''what'', ''about'', ''when'', ''out'', ''also'', ''some'', ''her'', ''up'', ''other'', ''do'', ''time'', ''how'', ''has'', ''been'', ''like'',
    ''no'', ''then'', ''its'', ''would'', ''them'', ''so'', ''more'', ''from'', ''by'', ''but'', ''not'', ''their'', ''all'', ''you'', ''we'',
    ''can'', ''has'', ''will'', ''which'', ''more'', ''if'', ''there'', ''one'', ''what'', ''about'', ''when'', ''out'', ''also'', ''some'',
    ''her'', ''up'', ''other'', ''do'', ''time'', ''how'', ''has'', ''been'', ''like'', ''no'', ''then'', ''its'', ''would'', ''them'', ''so'',
    ''more'', ''from'', ''by'', ''but'', ''not'', ''their'', ''all'', ''you'', ''we'', ''can'', ''has'', ''will'', ''which'', ''more'', ''if'',
    ''there'', ''it'', ''its'', ''as'', ''that'', ''its'', ''has'', ''like'', ''how'', ''when'', ''out'', ''also'', ''some'', ''her'', ''up'',
    ''other'', ''do'', ''time'', ''how'', ''has'', ''been'', ''like'', ''no'', ''then'', ''its'', ''would'', ''them'', ''so'', ''more'', ''from'',
    ''by'', ''but'', ''not'', ''their'', ''all'', ''you'', ''we'', ''can'', ''has'', ''will'', ''which'', ''more'', ''if'', ''there'', ''one'',
    ''what'', ''about'', ''when'', ''out'', ''also'', ''some'', ''her'', ''up'', ''other'', ''do'', ''time'', ''how'', ''has'', ''been'', ''like'',
    ''no'', ''then'', ''its'', ''would'', ''them'', ''so'', ''more'', ''from'', ''by'', ''but'', ''not'', ''their'', ''all'', ''you'', ''we'',
    ''can'', ''has'', ''will'', ''which'', ''more'', ''if'', ''there'', ''one'', ''what'', ''about'', ''when'', ''out'', ''also'', ''some'',
    ''her'', ''up'', ''other'', ''do'', ''time'', ''how'', ''has'', ''been'', ''like'', ''no'', ''then'', ''its'', ''would'', ''them'', ''so'',
    ''more'', ''from'', ''by'', ''but'', ''not'', ''their'', ''all'', ''you'', ''we'', ''can'', ''has'', ''will'', ''which'', ''more'', ''if'',
    ''there'', ''one'', ''what'', ''about'']"

definition ex_words :: "string list" where
  "ex_words = first_words @ last_words"

text \<open>The key of a word is its position.\<close>

definition ex_in_kv_lst :: "in_kv list" where
  "ex_in_kv_lst = map (\<lambda>(i, w). \<lparr>ikey = digits i, ivalue = ascii w\<rparr>) (zip [0..<length ex_words] ex_words)"

definition ex_counts :: "(string \<times> string) list" where
  "ex_counts = [
    (''about'', ''25''), (''all'', ''27''), (''also'', ''26''), (''an'', ''3''), (''and'', ''4''), (''are'', ''3''), (''as'', ''2''), (''at'', ''8''),
    (''be'', ''4''), (''been'', ''24''), (''but'', ''22''), (''by'', ''23''), (''can'', ''24''), (''do'', ''25''), (''for'', ''3''),
    (''from'', ''25''), (''has'', ''43''), (''have'', ''10''), (''her'', ''26''), (''how'', ''23''), (''if'', ''24''), (''in'', ''4''),
    (''is'', ''3''), (''it'', ''4''), (''its'', ''24''), (''like'', ''27''), (''more'', ''52''), (''no'', ''23''), (''not'', ''25''), (''of'', ''2''),
    (''on'', ''3''), (''one'', ''25''), (''or'', ''5''), (''other'', ''28''), (''out'', ''23''), (''so'', ''23''), (''some'', ''26''),
    (''that'', ''7''), (''the'', ''4''), (''their'', ''26''), (''them'', ''22''), (''then'', ''22''), (''there'', ''28''), (''they'', ''4''),
    (''this'', ''3''), (''time'', ''23''), (''to'', ''6''), (''up'', ''24''), (''was'', ''4''), (''we'', ''28''), (''what'', ''25''),
    (''when'', ''24''), (''which'', ''25''), (''will'', ''23''), (''with'', ''7''), (''would'', ''22''), (''you'', ''26'')]"

definition ex_out_kv_lst :: "(bytes \<times> bytes) list" where
  "ex_out_kv_lst = map (\<lambda>(w, n). (ascii w, ascii n)) ex_counts"

section \<open>Counting\<close>

text \<open>A search tree that counts, to evaluate with.\<close>

fun tallied :: "('a :: linorder \<times> int) tree \<Rightarrow> 'a \<Rightarrow> int" where
  "tallied Leaf x = 0"
| "tallied (Node l (a, n) r) x = (if x = a then n else if x < a then tallied l x else tallied r x)"

fun tally :: "('a :: linorder \<times> int) tree \<Rightarrow> 'a \<Rightarrow> ('a \<times> int) tree" where
  "tally Leaf x = Node Leaf (x, 1) Leaf"
| "tally (Node l (a, n) r) x = (if x = a then Node l (a, n + 1) r
     else if x < a then Node (tally l x) (a, n) r else Node l (a, n) (tally r x))"

lemma tallied_tally: "tallied (tally t x) y = tallied t y + (if y = x then 1 else 0)"
  by (induction t x rule: tally.induct) auto

lemma tallied_foldl: "tallied (foldl tally t xs) y = tallied t y + int (count_list xs y)"
  by (induction xs arbitrary: t) (auto simp: tallied_tally)

text \<open>The words by their positions among the expected ones.\<close>

definition ex_keys :: "string list" where
  "ex_keys = map fst ex_counts"

definition ex_positions :: "int list" where
  "ex_positions = [
    46, 8, 38, 2, 17, 11, 28, 2, 32, 17, 33, 21, 54, 19, 17, 37, 8, 13, 1, 25, 14, 42, 4, 20, 13, 27, 52, 26, 36, 39, 38, 15, 14, 53, 32, 43, 30, 46,
    42, 44, 46, 27, 2, 31, 36, 54, 33, 50, 30, 46, 14, 21, 4, 56, 9, 26, 17, 26, 31, 1, 50, 18, 25, 25, 44, 28, 18, 13, 15, 54, 17, 7, 23, 18, 48, 26,
    21, 26, 39, 38, 13, 30, 8, 37, 54, 29, 42, 39, 28, 49, 15, 25, 52, 11, 45, 17, 7, 35, 35, 37, 33, 37, 44, 55, 48, 9, 56, 7, 52, 1, 17, 5, 12, 26,
    20, 42, 31, 50, 0, 51, 34, 2, 36, 18, 47, 33, 13, 45, 19, 16, 25, 27, 41, 24, 55, 40, 35, 26, 15, 11, 10, 28, 39, 1, 56, 49, 12, 16, 53, 52, 26,
    20, 42, 31, 50, 0, 51, 34, 2, 36, 18, 47, 33, 13, 45, 19, 16, 9, 25, 27, 41, 24, 55, 40, 35, 26, 15, 11, 10, 28, 39, 1, 56, 49, 12, 16, 53, 52,
    26, 20, 42, 31, 50, 0, 51, 34, 2, 36, 18, 47, 33, 6, 32, 54, 36, 15, 26, 36, 12, 49, 42, 5, 48, 43, 15, 32, 3, 17, 7, 10, 28, 39, 1, 56, 49, 12,
    16, 53, 52, 26, 20, 42, 31, 50, 0, 51, 34, 2, 36, 18, 47, 33, 13, 45, 19, 16, 9, 25, 27, 41, 24, 55, 40, 35, 26, 15, 11, 10, 28, 39, 1, 56, 49,
    12, 16, 53, 52, 26, 20, 42, 31, 50, 0, 51, 34, 2, 36, 18, 47, 33, 13, 45, 19, 16, 9, 25, 27, 41, 24, 55, 40, 35, 26, 15, 11, 10, 28, 39, 1, 56,
    49, 51, 24, 4, 22, 22, 26, 3, 33, 46, 50, 0, 51, 34, 2, 36, 18, 47, 33, 13, 45, 19, 16, 9, 25, 27, 41, 24, 55, 40, 35, 26, 15, 11, 10, 28, 39, 1,
    56, 49, 12, 16, 53, 52, 26, 20, 42, 31, 50, 0, 51, 34, 2, 36, 18, 47, 33, 13, 45, 19, 16, 9, 25, 27, 41, 24, 55, 40, 35, 26, 15, 11, 10, 28, 39,
    1, 56, 49, 12, 16, 53, 52, 26, 20, 42, 31, 50, 0, 51, 34, 2, 36, 18, 47, 33, 13, 45, 19, 16, 9, 25, 42, 22, 40, 33, 37, 35, 40, 41, 0, 25, 27, 24,
    55, 40, 35, 26, 15, 11, 10, 28, 39, 1, 56, 49, 12, 16, 53, 52, 26, 20, 42, 31, 50, 0, 51, 34, 2, 36, 18, 47, 33, 13, 45, 19, 16, 9, 25, 27, 41,
    24, 55, 40, 35, 26, 15, 11, 10, 28, 39, 1, 56, 49, 12, 16, 53, 52, 26, 20, 42, 31, 50, 0, 51, 34, 2, 36, 18, 47, 33, 13, 45, 19, 16, 9, 25, 27,
    41, 24, 55, 40, 35, 26, 15, 11, 10, 28, 39, 1, 56, 49, 32, 26, 38, 47, 46, 49, 31, 37, 8, 48, 9, 56, 7, 52, 1, 17, 5, 12, 26, 20, 42, 31, 50, 0,
    51, 34, 2, 36, 18, 47, 33, 13, 45, 19, 16, 9, 25, 27, 41, 24, 55, 40, 35, 26, 15, 11, 10, 28, 39, 1, 56, 49, 12, 16, 53, 52, 26, 20, 42, 31, 50,
    0, 51, 34, 2, 36, 18, 47, 33, 13, 45, 19, 16, 9, 25, 27, 41, 24, 55, 40, 35, 26, 15, 11, 10, 28, 39, 1, 56, 49, 12, 16, 53, 52, 26, 20, 42, 31,
    50, 0, 23, 34, 53, 43, 29, 33, 4, 2, 26, 39, 1, 56, 49, 12, 16, 53, 52, 26, 20, 42, 31, 50, 0, 51, 34, 2, 36, 18, 47, 33, 13, 45, 19, 16, 9, 25,
    27, 41, 24, 55, 40, 35, 26, 15, 11, 10, 28, 39, 1, 56, 49, 12, 16, 53, 52, 26, 20, 42, 31, 50, 0, 51, 34, 2, 36, 18, 47, 33, 13, 45, 19, 16, 9,
    25, 27, 41, 24, 55, 40, 35, 26, 15, 11, 10, 28, 39, 1, 56, 49, 12, 16, 53, 52, 26, 20, 42, 31, 50, 0, 51, 49, 47, 7, 24, 45, 23, 43, 21, 54, 51,
    34, 2, 36, 18, 47, 33, 13, 45, 19, 16, 9, 25, 27, 41, 24, 55, 40, 35, 26, 15, 11, 10, 28, 39, 1, 56, 49, 12, 16, 53, 52, 26, 20, 42, 31, 50, 0,
    51, 34, 2, 36, 18, 47, 33, 13, 45, 19, 16, 9, 25, 27, 41, 24, 55, 40, 35, 26, 15, 11, 10, 28, 39, 1, 56, 49, 12, 16, 53, 52, 26, 20, 42, 31, 50,
    0, 51, 34, 2, 36, 18, 47, 33, 13, 45, 19, 16, 9, 25, 27, 41, 54, 18, 7, 55, 11, 0, 9, 41, 49, 3, 17, 7, 10, 28, 39, 1, 56, 49, 12, 16, 53, 52, 26,
    20, 42, 31, 50, 0, 51, 34, 2, 36, 18, 47, 33, 13, 45, 19, 16, 9, 25, 27, 41, 24, 55, 40, 35, 26, 15, 11, 10, 28, 39, 1, 56, 49, 12, 16, 53, 52,
    26, 20, 42, 31, 50, 0, 51, 34, 2, 36, 18, 47, 33, 13, 45, 19, 16, 9, 25, 27, 41, 24, 55, 40, 35, 26, 15, 11, 10, 28, 39, 1, 56, 49, 12, 16, 53,
    52, 26, 20, 42, 23, 24, 6, 37, 24, 16, 25, 19, 51, 34, 2, 36, 18, 47, 33, 13, 45, 19, 16, 9, 25, 27, 41, 24, 55, 40, 35, 26, 15, 11, 10, 28, 39,
    1, 56, 49, 12, 16, 53, 52, 26, 20, 42, 31, 50, 0, 51, 34, 2, 36, 18, 47, 33, 13, 45, 19, 16, 9, 25, 27, 41, 24, 55, 40, 35, 26, 15, 11, 10, 28,
    39, 1, 56, 49, 12, 16, 53, 52, 26, 20, 42, 31, 50, 0, 51, 34, 2, 36, 18, 47, 33, 13, 45, 19, 16, 9, 25, 27, 41, 24, 55, 40, 35, 26, 15, 11, 10,
    28, 39, 1, 56, 49, 12, 16, 53, 52, 26, 20, 42, 31, 50, 0]"

definition key_at :: "int \<Rightarrow> string" where
  "key_at i = ex_keys ! nat i"

definition ex_numbers :: "nat list" where
  "ex_numbers = [
    25, 27, 26, 3, 4, 3, 2, 8, 4, 24, 22, 23, 24, 25, 3, 25, 43, 10, 26, 23, 24, 4, 3, 4, 24, 27, 52, 23, 25, 2, 3, 25, 5, 28, 23, 23, 26, 7, 4, 26,
    22, 22, 28, 4, 3, 23, 6, 24, 4, 28, 25, 24, 25, 23, 7, 22, 26]"

lemma length_keys: "length ex_keys = 57"
  by (simp add: ex_keys_def ex_counts_def)

lemma ex_words_positions: "ex_words = map key_at ex_positions"
  by (simp add: ex_words_def first_words_def last_words_def ex_positions_def ex_keys_def ex_counts_def key_at_def)

lemma position_tally: "map (tallied (foldl tally Leaf ex_positions)) [0..56] = map int ex_numbers"
  by code_simp

lemma positions_bound: "list_all (\<lambda>i. 0 \<le> i \<and> i < 57) ex_positions"
  by code_simp

lemma ascii_keys: "map ascii ex_keys = [
    [97, 98, 111, 117, 116], [97, 108, 108], [97, 108, 115, 111], [97, 110], [97, 110, 100], [97, 114, 101], [97, 115], [97, 116], [98, 101],
    [98, 101, 101, 110], [98, 117, 116], [98, 121], [99, 97, 110], [100, 111], [102, 111, 114], [102, 114, 111, 109], [104, 97, 115],
    [104, 97, 118, 101], [104, 101, 114], [104, 111, 119], [105, 102], [105, 110], [105, 115], [105, 116], [105, 116, 115], [108, 105, 107, 101],
    [109, 111, 114, 101], [110, 111], [110, 111, 116], [111, 102], [111, 110], [111, 110, 101], [111, 114], [111, 116, 104, 101, 114],
    [111, 117, 116], [115, 111], [115, 111, 109, 101], [116, 104, 97, 116], [116, 104, 101], [116, 104, 101, 105, 114], [116, 104, 101, 109],
    [116, 104, 101, 110], [116, 104, 101, 114, 101], [116, 104, 101, 121], [116, 104, 105, 115], [116, 105, 109, 101], [116, 111], [117, 112],
    [119, 97, 115], [119, 101], [119, 104, 97, 116], [119, 104, 101, 110], [119, 104, 105, 99, 104], [119, 105, 108, 108], [119, 105, 116, 104],
    [119, 111, 117, 108, 100], [121, 111, 117]]"
  by (simp add: ex_keys_def ex_counts_def ascii_def)

lemma sorted_keys: "sorted_wrt (<) (map ascii ex_keys)"
  unfolding ascii_keys by (simp add: sorted_wrt2 sorted_wrt1 del: sorted_wrt.simps(2))

lemma key_homes: "map int_home (map (map uint) (map ascii ex_keys)) = [
    1, 11, 10, 31, 8, 0, 22, 10, 17, 14, 15, 23, 7, 18, 9, 28, 15, 26, 25, 0, 11, 21, 8, 6, 24, 21, 14, 27, 22, 0, 4, 11, 25, 12, 21, 0, 7, 7, 8, 21,
    17, 24, 0, 11, 14, 10, 19, 22, 9, 25, 5, 11, 1, 7, 3, 25, 20]"
proof -
  have "map (map uint) (map ascii ex_keys) = [
    [97, 98, 111, 117, 116], [97, 108, 108], [97, 108, 115, 111], [97, 110], [97, 110, 100], [97, 114, 101], [97, 115], [97, 116], [98, 101],
    [98, 101, 101, 110], [98, 117, 116], [98, 121], [99, 97, 110], [100, 111], [102, 111, 114], [102, 114, 111, 109], [104, 97, 115],
    [104, 97, 118, 101], [104, 101, 114], [104, 111, 119], [105, 102], [105, 110], [105, 115], [105, 116], [105, 116, 115], [108, 105, 107, 101],
    [109, 111, 114, 101], [110, 111], [110, 111, 116], [111, 102], [111, 110], [111, 110, 101], [111, 114], [111, 116, 104, 101, 114],
    [111, 117, 116], [115, 111], [115, 111, 109, 101], [116, 104, 97, 116], [116, 104, 101], [116, 104, 101, 105, 114], [116, 104, 101, 109],
    [116, 104, 101, 110], [116, 104, 101, 114, 101], [116, 104, 101, 121], [116, 104, 105, 115], [116, 105, 109, 101], [116, 111], [117, 112],
    [119, 97, 115], [119, 101], [119, 104, 97, 116], [119, 104, 101, 110], [119, 104, 105, 99, 104], [119, 105, 108, 108], [119, 105, 116, 104],
    [119, 111, 117, 108, 100], [121, 111, 117]]" unfolding ascii_keys by simp
  then show ?thesis by (simp only:) code_simp
qed

end
