(* ===== verification/Map_Reduce_Data_Pass.thy ===== *)
theory Map_Reduce_Data_Pass
  imports Map_Reduce_Data
begin

text \<open>The counts of the program's own words, and its tests on them (\<open>map_and_reduce.c\<close>, \<open>main.c\<close>):
  each list is counted by the positions of its words in the list of keys, so no two strings are compared
  more often than needed; the homes of the 57 keys in a table of 32 buckets are computed with
  \<open>Hash_Values\<close>, and fewer than ten of them share one.\<close>

lemma inj_ascii: "inj ascii"
proof (rule injI)
  fix x y assume e: "ascii x = ascii y"
  have u: "unat (of_char c :: u8) = of_char c" for c
  proof -
    have "(of_char c :: nat) < 256" by simp
    then have "unat (of_nat (of_char c) :: u8) = of_char c" by (simp only: unat_of_nat) simp
    then show ?thesis by (simp only: of_nat_of_char)
  qed
  from e have "map (\<lambda>b. char_of (unat b)) (ascii x) = map (\<lambda>b. char_of (unat b)) (ascii y)" by simp
  then show "x = y" by (simp add: ascii_def comp_def u)
qed

lemma count_list_inj: "inj_on f (insert x (set xs)) \<Longrightarrow> count_list (map f xs) (f x) = count_list xs x"
  by (induction xs) (auto simp: inj_on_def)

lemma distinct_keys: "distinct (map ascii ex_keys)"
  using sorted_keys by (simp add: strict_sorted_iff)

lemma key_at_inj: "inj_on key_at {0..56}"
proof (rule inj_onI)
  fix i j :: int assume ij: "i \<in> {0..56}" "j \<in> {0..56}" "key_at i = key_at j"
  have "distinct ex_keys" using distinct_keys by (simp add: distinct_map)
  moreover have "nat i < length ex_keys" "nat j < length ex_keys" using ij(1,2) by (simp_all add: length_keys nat_less_iff)
  moreover have "ex_keys ! nat i = ex_keys ! nat j" using ij(3) by (simp only: key_at_def)
  ultimately have "nat i = nat j" by (simp only: nth_eq_iff_index_eq)
  with ij(1,2) show "i = j" by (simp add: eq_nat_nat_iff)
qed

lemma position_counts: "map (count_list ex_positions) [0..56] = ex_numbers"
proof -
  have "map int (map (count_list ex_positions) [0..56]) = map int ex_numbers"
  proof -
    have "tallied (foldl tally Leaf ex_positions) = (\<lambda>y. int (count_list ex_positions y))"
      by (rule ext) (simp add: tallied_foldl)
    with position_tally show ?thesis by (simp only: map_map comp_def)
  qed
  then show ?thesis by (rule map_injective) (simp add: inj_def)
qed

lemma keys_at: "ex_keys = map key_at [0..56]"
proof (rule nth_equalityI)
  fix i assume "i < length ex_keys"
  then show "ex_keys ! i = map key_at [0..56] ! i" by (simp add: length_keys key_at_def)
qed (simp add: length_keys)

lemma positions_in: "set ex_positions \<subseteq> {0..56}"
  using positions_bound by (auto simp: list_all_iff)

lemma word_counts: "map (count_list ex_words) ex_keys = ex_numbers"
proof -
  have "count_list ex_words (key_at i) = count_list ex_positions i" if "i \<in> set [0..56]" for i
  proof -
    have "inj_on key_at (insert i (set ex_positions))"
      by (rule inj_on_subset [OF key_at_inj]) (use that positions_in in auto)
    then show ?thesis unfolding ex_words_positions by (rule count_list_inj)
  qed
  then have "map (count_list ex_words) (map key_at [0..56]) = map (count_list ex_positions) [0..56]" by simp
  then show ?thesis by (simp only: keys_at position_counts)
qed

lemma numbers_bound: "list_all (\<lambda>n. 0 < n \<and> n \<le> MAX_VALUES_PER_KEY) ex_numbers"
  by (simp add: ex_numbers_def MAX_VALUES_PER_KEY_def)

lemma key_count: "k \<in> set ex_keys \<Longrightarrow> 0 < count_list ex_words k \<and> count_list ex_words k \<le> MAX_VALUES_PER_KEY"
proof -
  assume "k \<in> set ex_keys"
  then have "count_list ex_words k \<in> set (map (count_list ex_words) ex_keys)" by simp
  then show ?thesis using numbers_bound unfolding word_counts by (simp add: list_all_iff)
qed

lemma set_words: "set ex_words = set ex_keys"
proof
  show "set ex_words \<subseteq> set ex_keys" using positions_in by (auto simp: ex_words_positions keys_at)
  show "set ex_keys \<subseteq> set ex_words"
  proof
    fix k assume "k \<in> set ex_keys"
    then have "count_list ex_words k \<noteq> 0" using key_count by simp
    then show "k \<in> set ex_words" by (simp add: count_list_0_iff)
  qed
qed

lemma ex_values: "map ivalue ex_in_kv_lst = map ascii ex_words"
proof -
  have "map ivalue ex_in_kv_lst = map (\<lambda>x. ascii (snd x)) (zip [0..<length ex_words] ex_words)"
    by (simp add: ex_in_kv_lst_def comp_def case_prod_beta)
  also have "\<dots> = map ascii (map snd (zip [0..<length ex_words] ex_words))" by (simp only: map_map comp_def)
  finally show ?thesis by (simp only: map_snd_zip length_upt diff_zero)
qed

lemma ascii_count: "count_list (map ascii ws) (ascii w) = count_list ws w"
  by (rule count_list_inj) (rule inj_on_subset [OF inj_ascii], simp)

lemma short_keys: "list_all (\<lambda>k. cstring k \<and> length k \<le> 5) (map ascii ex_keys)"
  unfolding ascii_keys by (simp add: cstring_def)

lemma ex_countable: "countable_words (map ascii ex_words)"
proof -
  have "cstring (ascii w) \<and> length (ascii w) < MAX_KEY_SIZE \<and> count_list (map ascii ex_words) (ascii w) \<le> MAX_VALUES_PER_KEY"
    if "w \<in> set ex_words" for w
    using short_keys key_count [of w] that unfolding set_words ascii_count by (auto simp: list_all_iff MAX_KEY_SIZE_def)
  moreover have "card (set (map ascii ex_words)) \<le> MAX_INTERMEDIATE"
  proof -
    have "card (set (map ascii ex_words)) = card (set (map ascii ex_keys))" by (simp add: set_words)
    also have "\<dots> \<le> length (map ascii ex_keys)" by (rule card_length)
    finally show ?thesis by (simp add: length_keys MAX_INTERMEDIATE_def)
  qed
  ultimately show ?thesis by (simp add: countable_words_def list_all_iff)
qed

lemma ex_expected: "expected_counts (map ascii ex_words) = ex_out_kv_lst"
proof -
  have "set (map ascii ex_words) = set (map ascii ex_keys)" by (simp add: set_words)
  then have srt: "sorted_list_of_set (set (map ascii ex_words)) = map ascii ex_keys"
    by (intro sorted_keys_unique [symmetric] sorted_keys) simp
  have "map (\<lambda>w. counted (map ascii ex_words) (ascii w)) ex_keys = map digits (map (count_list ex_words) ex_keys)"
    by (simp add: counted_def ascii_count)
  also have "\<dots> = map ascii (map snd ex_counts)"
    unfolding word_counts by (simp add: ex_numbers_def ex_counts_def digits.simps ascii_def)
  finally have "map (\<lambda>w. counted (map ascii ex_words) (ascii w)) ex_keys = map ascii (map snd ex_counts)" .
  then have "zip (map ascii ex_keys) (map (\<lambda>w. counted (map ascii ex_words) (ascii w)) ex_keys) = zip (map ascii ex_keys) (map ascii (map snd ex_counts))"
    by (simp only:)
  then show ?thesis unfolding expected_counts_def srt ex_out_kv_lst_def ex_keys_def
    by (simp add: zip_map_map zip_map_fst_snd comp_def case_prod_beta zip_same_conv_map)
qed

text \<open>Fewer than ten keys share a home.\<close>

lemma homes_spread: "list_all (\<lambda>x. count_list (map int_home (map (map uint) (map ascii ex_keys))) x < 10)
    (map int_home (map (map uint) (map ascii ex_keys)))"
  unfolding key_homes by code_simp

lemma ex_not_crowded: "\<not> crowded (set (map ascii ex_words))"
proof
  let ?ks = "map ascii ex_keys"
  assume "crowded (set (map ascii ex_words))"
  then obtain i where i: "10 \<le> card {k \<in> set ?ks. home k = i}" by (auto simp: crowded_def set_words)
  have home: "int (home k) = int_home (map uint k)" if "k \<in> set ?ks" for k
    using short_keys that by (intro int_home_eq) (auto simp: list_all_iff)
  have "{k \<in> set ?ks. home k = i} = set (filter (\<lambda>k. home k = i) ?ks)" by auto
  also have "card \<dots> = length (filter (\<lambda>k. home k = i) ?ks)" by (intro distinct_card distinct_filter distinct_keys)
  also have "filter (\<lambda>k. home k = i) ?ks = filter (\<lambda>k. int_home (map uint k) = int i) ?ks"
    using home by (intro filter_cong refl) (metis of_nat_eq_iff)
  also have "length \<dots> = count_list (map int_home (map (map uint) ?ks)) (int i)"
    by (simp add: count_list_eq_length_filter filter_map comp_def eq_commute [of "int i"])
  also have "\<dots> < 10"
  proof (cases "int i \<in> set (map int_home (map (map uint) ?ks))")
    case True
    then show ?thesis using homes_spread by (simp only: list_all_iff)
  next
    case False
    then have "count_list (map int_home (map (map uint) ?ks)) (int i) = 0" by (simp only: count_list_0_iff not_False_eq_True)
    then show ?thesis by simp
  qed
  finally show False using i by simp
qed

section \<open>The program on its own data\<close>

text \<open>Property C14. The repository's test program of the map-reduce framework passes on its own data:
  with the 1024 words of \<open>ex_in_kv_lst\<close> as input and the 57 counts of \<open>ex_out_kv_lst\<close> as expected
  output, for any 1024 random pairs with distinct keys and for every schedule of the threads in which
  each thread gets the turns it needs, all eight tests of \<open>main\<close> hold and the program exits with 0.
  The hash table, which is never cleared between the tests, does not reach its limit on this data.\<close>

theorem main_mr_data_passes:
  assumes "schedules_ok d kvs (map ivalue ex_in_kv_lst)" "kvs_ok kvs"
  shows "main_mr d kvs ex_out_kv_lst ex_in_kv_lst = ret True"
proof -
  have "\<not> overfull (set (map ascii ex_words))" using ex_not_crowded unfolding overfull_def by blast
  then show ?thesis
    using main_mr_passes [OF ex_countable ex_values [symmetric] assms(1) [unfolded ex_values] assms(2)]
    unfolding ex_expected by blast
qed

theorem main_mr_data_passes_witness:
  "main_mr (turn_by_turn (length ex_words) (card (set (map ascii ex_words)))) pinter_input ex_out_kv_lst ex_in_kv_lst = ret True"
proof (rule main_mr_data_passes)
  show "schedules_ok (turn_by_turn (length ex_words) (card (set (map ascii ex_words)))) pinter_input (map ivalue ex_in_kv_lst)"
    using turn_by_turn_ok [of "map ascii ex_words"] unfolding ex_values length_map .
qed (rule pinter_input_ok(2))

end
