(* ===== verification/Lab8.thy ===== *)
theory Lab8
  imports Hash_Objects
begin

text \<open>
  The word count of \<open>lab/lab8.c\<close>: the sequential count, which \<open>main\<close> uses, is correct
  on every input; the count with threads takes the mutex in every round of its loop and
  never gives it back, so it does not return as soon as there are two words.

  The program includes the installed \<open>uthash.h\<close>; the copy of the library that the
  repository holds (\<open>lecture/test3/src\<close>, theory \<open>UtHash\<close>) is taken for it. The mutex
  parameter is the flag \<open>use_lock\<close>; \<open>lock_held\<close> says that some thread holds it, and a
  \<open>pthread_mutex_lock\<close> of a default mutex that is held does not return.
\<close>

section \<open>Counting the words of a chunk\<close>

record word_count_entry =
  word_of :: bytes
  word_count :: nat

record count_map =
  map_table :: "nat uthash option"
  map_entries :: "word_count_entry list"

definition empty_map :: count_map where
  "empty_map = \<lparr>map_table = None, map_entries = []\<rparr>"

definition create_entry :: "bytes \<Rightarrow> nat \<Rightarrow> word_count_entry" where
  "create_entry w n = \<lparr>word_of = w, word_count = n\<rparr>"

text \<open>The body of the loop of \<open>add_word_counts_in_chunk\<close>, inside the lock.\<close>

definition count_word :: "count_map \<Rightarrow> bytes \<Rightarrow> count_map run" where
  "count_word m w =
    (case hash_find_str (map_table m) w of
       Some p \<Rightarrow> ret (m\<lparr>map_entries := (map_entries m)[p :=
           (map_entries m ! p)\<lparr>word_count := word_count (map_entries m ! p) + 1\<rparr>]\<rparr>)
     | None \<Rightarrow>
         let p = length (map_entries m)
         in rbind (hash_add_str (map_table m) w p) (\<lambda>tbl.
              ret \<lparr>map_table = tbl, map_entries = map_entries m @ [create_entry w 1]\<rparr>))"

fun add_word_counts_in_chunk :: "bool \<Rightarrow> bytes list \<Rightarrow> count_map \<times> bool \<Rightarrow> (count_map \<times> bool) run" where
  "add_word_counts_in_chunk use_lock [] st = ret st"
| "add_word_counts_in_chunk use_lock (w # ws) st =
    (if use_lock \<and> snd st then None
     else rbind (count_word (fst st) w)
            (\<lambda>m. add_word_counts_in_chunk use_lock ws (m, snd st \<or> use_lock)))"

definition count_words_seq :: "bytes list \<Rightarrow> count_map run" where
  "count_words_seq ws = rbind (add_word_counts_in_chunk False ws (empty_map, False)) (\<lambda>st. ret (fst st))"

section \<open>Counting with threads\<close>

definition THREAD_COUNT :: nat where "THREAD_COUNT = 3"

text \<open>The words of thread \<open>i\<close>; the last thread also gets the remainder.\<close>

definition thread_words :: "bytes list \<Rightarrow> nat \<Rightarrow> bytes list" where
  "thread_words ws i =
    (let chunk = length ws div THREAD_COUNT
     in take (chunk + (if i = THREAD_COUNT - 1 then length ws mod THREAD_COUNT else 0))
          (drop (i * chunk) ws))"

record parallel_count =
  count_state :: count_map
  lock_held :: bool
  words_left :: "bytes list list"

text \<open>A thread that is scheduled runs one round of the loop, or is stuck at the mutex.\<close>

definition count_step :: "nat \<Rightarrow> parallel_count \<Rightarrow> parallel_count run" where
  "count_step t s =
    (case words_left s ! t of [] \<Rightarrow> ret s
     | w # ws \<Rightarrow>
         if lock_held s then ret s
         else rbind (count_word (count_state s) w) (\<lambda>m.
                ret \<lparr>count_state = m, lock_held = True, words_left = (words_left s)[t := ws]\<rparr>))"

fun run_counters :: "nat list \<Rightarrow> parallel_count \<Rightarrow> parallel_count run" where
  "run_counters [] s = ret s"
| "run_counters (t # sched) s =
    (if t < length (words_left s) then rbind (count_step t s) (run_counters sched)
     else run_counters sched s)"

text \<open>\<open>None\<close> when the schedule ends with a thread that \<open>pthread_join\<close> waits for.\<close>

definition count_words_parallel :: "nat list \<Rightarrow> bytes list \<Rightarrow> count_map run" where
  "count_words_parallel sched ws =
    rbind (run_counters sched \<lparr>count_state = empty_map, lock_held = False,
             words_left = map (thread_words ws) [0..<THREAD_COUNT]\<rparr>)
      (\<lambda>s. if concat (words_left s) = [] then ret (count_state s) else None)"

section \<open>Output and release\<close>

definition sort_func :: "word_count_entry \<Rightarrow> word_count_entry \<Rightarrow> int" where
  "sort_func a b = strcmp (word_of a) (word_of b)"

definition sort_map :: "count_map \<Rightarrow> count_map" where
  "sort_map m = m\<lparr>map_table :=
     hash_sort (\<lambda>p q. sort_func (map_entries m ! p) (map_entries m ! q)) (map_table m)\<rparr>"

text \<open>The lines that \<open>print_counts\<close> writes.\<close>

definition print_counts :: "count_map \<Rightarrow> (bytes \<times> nat) list" where
  "print_counts m = map (\<lambda>p. (word_of (map_entries m ! p), word_count (map_entries m ! p)))
     (hash_iter (map_table m))"

definition delete_table :: "count_map \<Rightarrow> nat uthash option run" where
  "delete_table m =
    (case map_table m of None \<Rightarrow> ret None | Some t \<Rightarrow> delete_each (items t) (Some t))"

text \<open>\<open>main\<close> on the words of its array: the printed lines.\<close>

definition main_lab8 :: "bytes list \<Rightarrow> (bytes \<times> nat) list run" where
  "main_lab8 words_in =
    rbind (count_words_seq words_in) (\<lambda>m.
      if map_table m = None then ret []
      else let m' = sort_map m
           in rbind (delete_table m') (\<lambda>t. ret (print_counts m')))"

section \<open>Correctness of the sequential count\<close>

definition counts_held :: "count_map \<Rightarrow> bytes list \<Rightarrow> bool" where
  "counts_held m ws \<longleftrightarrow> obj_ok (map_table m) (map_entries m)
     \<and> obj_map (map_table m) (map_entries m) =
         (\<lambda>w. if w \<in> set ws then Some \<lparr>word_of = w, word_count = count_list ws w\<rparr> else None)"

lemma counts_held_empty: "counts_held empty_map []"
  by (simp add: counts_held_def empty_map_def)

lemma counts_held_keys:
  assumes "counts_held m ws"
  shows "fst ` set (entries (map_table m)) = set ws" "length (entries (map_table m)) = card (set ws)"
proof -
  show k: "fst ` set (entries (map_table m)) = set ws"
    using assms dom_obj_map [of "map_table m" "map_entries m"]
    by (auto simp: counts_held_def dom_def split: if_splits)
  have "distinct (map fst (entries (map_table m)))"
    using assms obj_okD(3) by (auto simp: counts_held_def)
  then show "length (entries (map_table m)) = card (set ws)"
    unfolding k [symmetric] by (metis distinct_card image_set length_map)
qed

lemma count_word_correct:
  assumes m: "counts_held m ws" and len: "length w < 2 ^ 32"
  shows "(count_word m w = fail BadShift \<and> w \<notin> set ws \<and> 26 \<le> card (set ws)) \<or>
    (\<exists>m'. count_word m w = ret m' \<and> counts_held m' (ws @ [w]))"
proof -
  let ?t = "map_table m" and ?e = "map_entries m"
  have ok: "obj_ok ?t ?e" and view: "obj_map ?t ?e =
      (\<lambda>w. if w \<in> set ws then Some \<lparr>word_of = w, word_count = count_list ws w\<rparr> else None)"
    using m by (simp_all add: counts_held_def)
  have find: "hash_find_str ?t w = map_of (entries ?t) w" by (rule obj_map_find [OF ok len])
  have step: "(obj_map ?t ?e)(w \<mapsto> \<lparr>word_of = w, word_count = count_list ws w + 1\<rparr>) =
      (\<lambda>v. if v \<in> set (ws @ [w]) then Some \<lparr>word_of = v, word_count = count_list (ws @ [w]) v\<rparr> else None)"
    by (auto simp: view fun_eq_iff)
  show ?thesis
  proof (cases "map_of (entries ?t) w")
    case (Some p)
    then have "obj_map ?t ?e w = Some (?e ! p)" by (simp add: obj_map_def)
    then have e: "?e ! p = \<lparr>word_of = w, word_count = count_list ws w\<rparr>"
      by (simp add: view split: if_splits)
    show ?thesis
      using obj_update [OF ok Some, of "\<lparr>word_of = w, word_count = count_list ws w + 1\<rparr>"]
      unfolding step by (simp add: count_word_def find Some e counts_held_def)
  next
    case None
    then have new: "w \<notin> fst ` set (entries ?t)" by (simp add: map_of_eq_None_iff)
    then have nw: "w \<notin> set ws" by (simp add: counts_held_keys(1) [OF m])
    then have "count_list ws w = 0" by simp
    with obj_add [OF ok len new] nw show ?thesis
      unfolding counts_held_def step [symmetric] counts_held_keys(2) [OF m]
      by (cases rule: obj_add [OF ok len new])
        (auto simp: count_word_def find None Let_def create_entry_def counts_held_keys(2) [OF m])
  qed
qed

lemma chunk_correct:
  assumes "counts_held m ws0" "\<forall>w\<in>set ws. length w < 2 ^ 32"
  shows "(add_word_counts_in_chunk False ws (m, False) = fail BadShift \<and> 26 < card (set (ws0 @ ws))) \<or>
    (\<exists>m'. add_word_counts_in_chunk False ws (m, False) = ret (m', False) \<and> counts_held m' (ws0 @ ws))"
  using assms
proof (induction ws arbitrary: m ws0)
  case (Cons w ws)
  have len: "length w < 2 ^ 32" using Cons.prems(2) by simp
  consider (full) "count_word m w = fail BadShift" "w \<notin> set ws0" "26 \<le> card (set ws0)"
    | (counted) m' where "count_word m w = ret m'" "counts_held m' (ws0 @ [w])"
    using count_word_correct [OF Cons.prems(1) len] by blast
  then show ?case
  proof cases
    case full
    have "26 < card (insert w (set ws0))" using full(2,3) by simp
    also have "\<dots> \<le> card (set (ws0 @ w # ws))" by (intro card_mono) auto
    finally show ?thesis using full(1) by simp
  next
    case counted
    from Cons.IH [OF counted(2)] Cons.prems(2) counted(1) show ?thesis by simp
  qed
qed simp

section \<open>The printed table\<close>

interpretation word_order: comparison sort_func "\<lambda>e. cstring (word_of e)"
  by unfold_locales (auto simp: sort_func_def strcmp_le)

lemma sorted_counts:
  assumes m: "counts_held m ws" and cs: "\<forall>w\<in>set ws. cstring w"
  shows "print_counts (sort_map m) = map (\<lambda>w. (w, count_list ws w)) (sorted_list_of_set (set ws))"
    and "delete_table (sort_map m) = ret None"
proof -
  let ?e = "map_entries m" and ?t = "map_table m"
  let ?cmp = "\<lambda>p q. sort_func (?e ! p) (?e ! q)"
  let ?E = "entries (hash_sort ?cmp ?t)"
  have ok: "obj_ok ?t ?e" using m by (simp add: counts_held_def)
  note srt = obj_sort [OF ok, of ?cmp]
  have m': "counts_held (sort_map m) ws"
    using m srt by (simp add: counts_held_def sort_map_def)
  have entry: "word_of (?e ! p) = k \<and> word_count (?e ! p) = count_list ws k \<and> k \<in> set ws"
    if "(k, p) \<in> set (entries ?t)" for k p
  proof -
    have "obj_map ?t ?e k = Some (?e ! p)"
      using map_of_is_SomeI [OF obj_okD(3) [OF ok] that] by (simp add: obj_map_def)
    with m have "?e ! p = \<lparr>word_of = k, word_count = count_list ws k\<rparr> \<and> k \<in> set ws"
      by (simp add: counts_held_def split: if_splits)
    then show ?thesis by simp
  qed
  have "sorted_wrt (<) (map fst ?E)"
    by (rule obj_sort_keys [OF ok word_order.comparison_axioms])
      (use entry cs in \<open>auto simp: sort_func_def strcmp_le\<close>)
  moreover have "set (map fst ?E) = set ws"
    using counts_held_keys(1) [OF m'] by (simp add: sort_map_def)
  moreover have "length (map fst ?E) = card (set ws)"
    using counts_held_keys(2) [OF m'] by (simp add: sort_map_def)
  ultimately have keys: "sorted_list_of_set (set ws) = map fst ?E"
    using sorted_list_of_set_unique [of "set ws" "map fst ?E"] by blast
  have "print_counts (sort_map m) = map (\<lambda>(k, p). (word_of (?e ! p), word_count (?e ! p))) ?E"
    by (simp add: print_counts_def sort_map_def hash_iter_entries comp_def case_prod_beta)
  also have "\<dots> = map (\<lambda>w. (w, count_list ws w)) (map fst ?E)"
    using entry mset_eq_setD [OF srt(3)] by (auto simp: case_prod_beta)
  finally show "print_counts (sort_map m) = map (\<lambda>w. (w, count_list ws w)) (sorted_list_of_set (set ws))"
    by (simp only: keys)
  show "delete_table (sort_map m) = ret None"
    using obj_okD(1) [OF srt(1)] delete_each_all
    by (auto simp: delete_table_def sort_map_def hash_ok_def split: option.splits)
qed

lemma counts_held_None:
  assumes "counts_held m ws" "map_table m = None"
  shows "ws = []"
  using counts_held_keys(1) [OF assms(1)] assms(2) by (simp add: entries_def)

text \<open>Property C23. The program prints every different word once, in ascending order, with the number of
  its occurrences; the only other outcome, a table that would outgrow $2^{31}$ buckets,
  takes more than 26 different words.\<close>

theorem main_lab8_correct:
  assumes "\<forall>w\<in>set ws. cstring w \<and> length w < 2 ^ 32"
  shows "main_lab8 ws = ret (map (\<lambda>w. (w, count_list ws w)) (sorted_list_of_set (set ws)))
    \<or> (main_lab8 ws = fail BadShift \<and> 26 < card (set ws))"
proof -
  have "\<forall>w\<in>set ws. length w < 2 ^ 32" using assms by blast
  from chunk_correct [OF counts_held_empty this]
  consider (full) "count_words_seq ws = fail BadShift" "26 < card (set ws)"
    | (counted) m where "count_words_seq ws = ret m" "counts_held m ws"
    by (auto simp: count_words_seq_def)
  then show ?thesis
  proof cases
    case counted
    show ?thesis
    proof (cases "map_table m")
      case None
      with counts_held_None [OF counted(2)] counted(1) show ?thesis by (simp add: main_lab8_def)
    next
      case (Some t)
      with counted(1) sorted_counts [OF counted(2)] assms show ?thesis
        by (simp add: main_lab8_def Let_def)
    qed
  qed (simp add: main_lab8_def)
qed

theorem main_lab8_correct_witness:
  "main_lab8 [[102, 111, 120], [100, 111, 103], [102, 111, 120]]
     = ret [([100, 111, 103], 1), ([102, 111, 120], 2)]"
proof -
  let ?ws = "[[102, 111, 120], [100, 111, 103], [102, 111, 120]] :: bytes list"
  have c: "card (set ?ws) \<le> 26" by (rule order_trans [OF card_length]) simp
  have s: "sorted_list_of_set (set ?ws) = [[100, 111, 103], [102, 111, 120]]"
  proof (rule sorted_list_of_set_unique [THEN iffD1])
    have "set ?ws = {[100, 111, 103], [102, 111, 120]}" by auto
    then show "sorted_wrt (<) [[100, 111, 103], [102, 111, 120] :: bytes] \<and>
        set [[100, 111, 103], [102, 111, 120]] = set ?ws \<and>
        length [[100, 111, 103], [102, 111, 120] :: bytes] = card (set ?ws)"
      by (simp only:) simp
  qed simp
  have "main_lab8 ?ws = ret (map (\<lambda>w. (w, count_list ?ws w)) (sorted_list_of_set (set ?ws)))"
    using main_lab8_correct [of ?ws] c by simp
  then show ?thesis unfolding s by simp
qed

section \<open>The count with threads\<close>

lemma thread_words_partition: "concat (map (thread_words ws) [0..<THREAD_COUNT]) = ws"
proof -
  let ?c = "length ws div 3"
  have len: "length ws = 3 * ?c + length ws mod 3" by simp
  have "concat (map (thread_words ws) [0..<THREAD_COUNT]) =
      take ?c ws @ take ?c (drop ?c ws) @ take (?c + length ws mod 3) (drop (2 * ?c) ws)"
    by (simp add: thread_words_def THREAD_COUNT_def upt_rec numeral_2_eq_2 Let_def)
  also have "take (?c + length ws mod 3) (drop (2 * ?c) ws) = drop (2 * ?c) ws"
  proof (rule take_all)
    show "length (drop (2 * ?c) ws) \<le> ?c + length ws mod 3"
      unfolding length_drop using len by linarith
  qed
  also have "take ?c (drop ?c ws) @ drop (2 * ?c) ws = drop ?c ws"
    using append_take_drop_id [of ?c "drop ?c ws"] by (simp add: mult_2)
  finally show ?thesis by simp
qed

lemma run_counters_held: "lock_held s \<Longrightarrow> run_counters sched s = ret s"
  by (induction sched) (auto simp: count_step_def split: list.splits)

lemma count_word_first:
  assumes "length w < 2 ^ 32"
  shows "\<exists>m. count_word empty_map w = ret m"
  using count_word_correct [OF counts_held_empty assms] by auto

lemma run_counters_one:
  assumes "\<forall>w\<in>set (concat (words_left s)). length w < 2 ^ 32" "\<not> lock_held s" "count_state s = empty_map"
  shows "\<exists>s'. run_counters sched s = ret s'
    \<and> length (concat (words_left s)) \<le> length (concat (words_left s')) + 1"
proof (induction sched)
  case (Cons t sched)
  show ?case
  proof (cases "t < length (words_left s) \<and> words_left s ! t \<noteq> []")
    case True
    then obtain w ws where w: "words_left s ! t = w # ws" by (cases "words_left s ! t") auto
    note upd = concat_update [OF conjunct1 [OF True] w]
    obtain m where m: "count_word empty_map w = ret m" using upd(1) assms(1) count_word_first by blast
    let ?s' = "\<lparr>count_state = m, lock_held = True, words_left = (words_left s)[t := ws]\<rparr>"
    have "length (concat (words_left s)) = length (concat (words_left ?s')) + 1"
      using upd(2) by simp
    moreover have "run_counters (t # sched) s = ret ?s'"
      using True w m assms(2,3) by (simp add: count_step_def run_counters_held)
    ultimately show ?thesis by simp
  next
    case False
    then have "run_counters (t # sched) s = run_counters sched s" by (auto simp: count_step_def)
    with Cons show ?thesis by simp
  qed
qed simp

text \<open>Property C34. With two words or more, \<open>count_words_parallel\<close> does not return, whatever the
  schedule of its threads: the first round of any thread keeps the mutex.\<close>

theorem count_words_parallel_hangs:
  assumes "2 \<le> length ws" "\<forall>w\<in>set ws. length w < 2 ^ 32"
  shows "count_words_parallel sched ws = None"
proof -
  let ?s = "\<lparr>count_state = empty_map, lock_held = False,
      words_left = map (thread_words ws) [0..<THREAD_COUNT]\<rparr>"
  have c: "concat (words_left ?s) = ws" using thread_words_partition by simp
  have "\<exists>s'. run_counters sched ?s = ret s'
      \<and> length (concat (words_left ?s)) \<le> length (concat (words_left s')) + 1"
    by (rule run_counters_one) (use assms(2) c in simp_all)
  then obtain s' where s': "run_counters sched ?s = ret s'" "length ws \<le> length (concat (words_left s')) + 1"
    unfolding c by blast
  have "concat (words_left s') \<noteq> []"
  proof
    assume "concat (words_left s') = []"
    with s'(2) assms(1) show False by (simp only: list.size)
  qed
  with s'(1) show ?thesis by (simp only: count_words_parallel_def rbind_ret if_False)
qed

theorem count_words_parallel_hangs_witness:
  "count_words_parallel [0, 1, 2, 0, 1, 2] [[97], [98], [97]] = None"
  by (rule count_words_parallel_hangs) simp_all

end
