(* ===== verification/Lab7.thy ===== *)
theory Lab7
  imports Grouping C_Strings
begin

text \<open>
  The sequential map-reduce of \<open>lab/lab7.c\<close>: numbers are read from the standard input,
  doubled, grouped by their double, and each group is printed with its line numbers and
  with its size. An \<open>int\<close> is a 32-bit word read with \<open>sint\<close>; doubling a number
  outside of $[-2^{30}, 2^{30})$ is undefined in C and a fault here. \<open>line_number\<close> and
  \<open>count\<close> stay below 100 and are natural numbers. The input is the list of the strings that \<open>fgets\<close>
  returns, which ends with the NULL it returns at the end of the file.
\<close>

definition MAX_INPUT :: nat where "MAX_INPUT = 100"

section \<open>Reading\<close>

record input =
  line_number :: nat
  ivalue :: cint

record intermediate_input =
  iline_number :: nat
  idoubled :: cint

record lab7_output =
  doubled_value :: cint
  line_numbers :: "nat list"
  ocount :: nat

text \<open>\<open>sscanf\<close> with a format that has no conversion: EOF when the input ends before the
  literal is matched, and 0 otherwise, whether the literal matches or not.\<close>

fun scan_literal :: "bytes \<Rightarrow> bytes \<Rightarrow> int" where
  "scan_literal [] s = 0"
| "scan_literal (l # ls) [] = -1"
| "scan_literal (l # ls) (b # bs) = (if l = b then scan_literal ls bs else 0)"

definition lit_end :: bytes where "lit_end = [101, 110, 100]"

text \<open>The \<open>while\<close> loop of \<open>main\<close>: \<open>ins\<close> is the filled part of \<open>input_data\<close>.\<close>

fun read_input :: "bytes list \<Rightarrow> input list \<Rightarrow> input list" where
  "read_input [] ins = ins"
| "read_input (buf # bufs) ins =
    (if length ins < MAX_INPUT
     then (case scan_int buf of
             Some v \<Rightarrow> read_input bufs (ins @ [\<lparr>line_number = length ins + 1, ivalue = v\<rparr>])
           | None \<Rightarrow> if scan_literal lit_end buf = 0 then ins else read_input bufs ins)
     else ins)"

section \<open>Map, group, reduce\<close>

definition fits_int :: "int \<Rightarrow> bool" where
  "fits_int n \<longleftrightarrow> - (2 ^ 31) \<le> n \<and> n < 2 ^ 31"

definition map_input :: "input \<Rightarrow> intermediate_input run" where
  "map_input i =
    (if fits_int (sint (ivalue i) * 2)
     then ret \<lparr>iline_number = line_number i, idoubled = word_of_int (sint (ivalue i) * 2)\<rparr>
     else fail Overflow)"

fun map_all :: "input list \<Rightarrow> intermediate_input list run" where
  "map_all [] = ret []"
| "map_all (i # is) = rbind (map_input i) (\<lambda>m. rbind (map_all is) (\<lambda>ms. ret (m # ms)))"

text \<open>The index of the first of the \<open>n\<close> outputs with the value.\<close>

fun find_output :: "lab7_output list \<Rightarrow> cint \<Rightarrow> nat option" where
  "find_output [] v = None"
| "find_output (x # xs) v =
    (if doubled_value x = v then Some 0 else map_option Suc (find_output xs v))"

definition groupByKey :: "intermediate_input \<Rightarrow> lab7_output list \<times> nat \<Rightarrow> (lab7_output list \<times> nat) run" where
  "groupByKey inp st =
    (case st of (outs, n) \<Rightarrow>
      (case find_output (take n outs) (idoubled inp) of
         Some i \<Rightarrow>
           let x = outs ! i
           in if ocount x < length (line_numbers x)
              then ret (outs[i := x\<lparr>line_numbers := (line_numbers x)[ocount x := iline_number inp],
                                   ocount := ocount x + 1\<rparr>], n)
              else fail OutOfBounds
       | None \<Rightarrow>
           if n < length outs
           then let x = outs ! n
                in ret (outs[n := x\<lparr>doubled_value := idoubled inp,
                          line_numbers := (line_numbers x)[0 := iline_number inp], ocount := 1\<rparr>], n + 1)
           else fail OutOfBounds))"

fun group_all :: "intermediate_input list \<Rightarrow> lab7_output list \<times> nat \<Rightarrow> (lab7_output list \<times> nat) run" where
  "group_all [] st = ret st"
| "group_all (i # is) st = rbind (groupByKey i st) (group_all is)"

text \<open>The two lines printed for an output: its line numbers, and how many they are.\<close>

definition reduce :: "lab7_output \<Rightarrow> cint \<times> nat list" where
  "reduce x = (doubled_value x, map (\<lambda>i. line_numbers x ! i) [0..<ocount x])"

definition reduceSum :: "lab7_output \<Rightarrow> cint \<times> nat" where
  "reduceSum x = (doubled_value x, foldl (\<lambda>n i. n + 1) 0 [0..<ocount x])"

definition zero_outputs :: "lab7_output list" where
  "zero_outputs = replicate MAX_INPUT \<lparr>doubled_value = 0, line_numbers = replicate MAX_INPUT 0, ocount = 0\<rparr>"

definition main_lab7 :: "bytes list \<Rightarrow> ((cint \<times> nat list) list \<times> (cint \<times> nat) list) run" where
  "main_lab7 bufs =
    rbind (map_all (read_input bufs [])) (\<lambda>ms.
    rbind (group_all ms (zero_outputs, 0)) (\<lambda>(outs, n).
      let used = filter (\<lambda>x. 0 < ocount x) (take n outs)
      in ret (map reduce used, map reduceSum used)))"

section \<open>Correctness\<close>

definition out_group :: "lab7_output \<Rightarrow> cint \<times> nat list" where
  "out_group x = (doubled_value x, take (ocount x) (line_numbers x))"

text \<open>\<open>m\<close> pairs have been grouped.\<close>

definition outs_ok :: "lab7_output list \<times> nat \<Rightarrow> nat \<Rightarrow> bool" where
  "outs_ok st m \<longleftrightarrow> length (fst st) = MAX_INPUT \<and> snd st \<le> m
     \<and> (\<forall>x\<in>set (fst st). length (line_numbers x) = MAX_INPUT)
     \<and> (\<forall>x\<in>set (take (snd st) (fst st)). 0 < ocount x \<and> ocount x \<le> m)"

definition outs_view :: "lab7_output list \<times> nat \<Rightarrow> (cint \<times> nat list) list" where
  "outs_view st = map out_group (take (snd st) (fst st))"

lemma find_output_None: "find_output xs v = None \<longleftrightarrow> v \<notin> doubled_value ` set xs"
  by (induction xs) auto

lemma find_output_Some:
  "find_output xs v = Some i \<Longrightarrow>
   i < length xs \<and> doubled_value (xs ! i) = v \<and> (\<forall>j<i. doubled_value (xs ! j) \<noteq> v)"
proof (induction xs arbitrary: i)
  case (Cons x xs)
  show ?case
  proof (cases "doubled_value x = v")
    case False
    then obtain j where j: "find_output xs v = Some j" "i = Suc j" using Cons.prems by auto
    with Cons False show ?thesis by (auto simp: less_Suc_eq_0_disj)
  qed (use Cons.prems in simp)
qed simp

lemma group_step:
  assumes ok: "outs_ok st m" and m: "m < MAX_INPUT"
  shows "\<exists>st'. groupByKey inp st = ret st' \<and> outs_ok st' (m + 1)
    \<and> outs_view st' = group_add (idoubled inp) (iline_number inp) (outs_view st)"
proof -
  obtain outs n where st: "st = (outs, n)" by (cases st)
  have len: "length outs = MAX_INPUT" "n \<le> m" and rows: "\<forall>x\<in>set outs. length (line_numbers x) = MAX_INPUT"
    and cnt: "\<forall>x\<in>set (take n outs). 0 < ocount x \<and> ocount x \<le> m"
    using ok by (simp_all add: outs_ok_def st)
  then have n: "length (take n outs) = n" using m by simp
  show ?thesis
  proof (cases "find_output (take n outs) (idoubled inp)")
    case (Some i)
    let ?x = "outs ! i"
    let ?x' = "?x\<lparr>line_numbers := (line_numbers ?x)[ocount ?x := iline_number inp], ocount := ocount ?x + 1\<rparr>"
    have i: "i < n" "doubled_value ?x = idoubled inp" "\<forall>j<i. doubled_value (outs ! j) \<noteq> idoubled inp"
      using find_output_Some [OF Some] n by auto
    then have x: "?x \<in> set (take n outs)" "?x \<in> set outs"
      using n nth_mem [of i "take n outs"] len m by simp_all
    have c: "ocount ?x < length (line_numbers ?x)" "ocount ?x \<le> m"
      using cnt rows x m by auto
    have cnt': "\<forall>x\<in>set (take n outs). 0 < ocount x \<and> ocount x \<le> m + 1" using cnt by auto
    have upd: "outs_ok (outs[i := ?x'], n) (m + 1)"
      using len rows x c ball_list_update [OF rows, of ?x' i] ball_list_update [OF cnt', of ?x' i]
      by (simp add: outs_ok_def take_update_swap)
    have "out_group ?x' = (idoubled inp, snd (out_group ?x) @ [iline_number inp])"
      using c(1) i(2) by (simp add: out_group_def take_Suc_conv_app_nth)
    moreover have "outs_view st ! i = out_group ?x" "i < length (outs_view st)"
      using i(1) n by (simp_all add: outs_view_def st)
    moreover have "\<forall>j<i. fst (outs_view st ! j) \<noteq> idoubled inp" "fst (outs_view st ! i) = idoubled inp"
      using i n by (simp_all add: outs_view_def st out_group_def)
    ultimately have "outs_view (outs[i := ?x'], n) = group_add (idoubled inp) (iline_number inp) (outs_view st)"
      by (subst group_add_old [of i]) (simp_all add: outs_view_def st take_update_swap map_update)
    with Some c upd show ?thesis by (simp add: groupByKey_def st Let_def)
  next
    case None
    let ?x' = "(outs ! n)\<lparr>doubled_value := idoubled inp, line_numbers := (line_numbers (outs ! n))[0 := iline_number inp], ocount := 1\<rparr>"
    have lt: "n < length outs" using len m by simp
    have row: "length (line_numbers (outs ! n)) = MAX_INPUT" using rows lt by simp
    have tk: "take (Suc n) (outs[n := ?x']) = take n outs @ [?x']"
      using lt by (simp add: take_Suc_conv_app_nth)
    have upd: "outs_ok (outs[n := ?x'], n + 1) (m + 1)"
      using len cnt ball_list_update [OF rows, of ?x' n] row
      unfolding outs_ok_def fst_conv snd_conv Suc_eq_plus1 [symmetric] tk by auto
    have "line_numbers ?x' \<noteq> []" using row by (auto simp: MAX_INPUT_def)
    then have "out_group ?x' = (idoubled inp, [iline_number inp])"
      using row by (cases "line_numbers (outs ! n)") (auto simp: out_group_def MAX_INPUT_def)
    moreover have "idoubled inp \<notin> fst ` set (outs_view st)"
      using None by (simp add: find_output_None outs_view_def st out_group_def image_image)
    moreover have "outs_view (outs[n := ?x'], n + 1) = outs_view st @ [out_group ?x']"
      unfolding outs_view_def st fst_conv snd_conv Suc_eq_plus1 [symmetric] tk by simp
    ultimately have "outs_view (outs[n := ?x'], n + 1) = group_add (idoubled inp) (iline_number inp) (outs_view st)"
      by (simp add: group_add_new)
    with None lt upd show ?thesis by (simp add: groupByKey_def st Let_def)
  qed
qed

lemma group_all_correct:
  "outs_ok st m \<Longrightarrow> m + length is \<le> MAX_INPUT \<Longrightarrow> outs_view st = groups es \<Longrightarrow>
   \<exists>st'. group_all is st = ret st' \<and> outs_ok st' (m + length is)
     \<and> outs_view st' = groups (es @ map (\<lambda>i. (idoubled i, iline_number i)) is)"
proof (induction "is" arbitrary: st m es)
  case (Cons i "is")
  then have "m < MAX_INPUT" by simp
  from group_step [OF Cons.prems(1) this, of i] obtain st1 where
    st1: "groupByKey i st = ret st1" "outs_ok st1 (m + 1)"
    "outs_view st1 = group_add (idoubled i) (iline_number i) (outs_view st)" by blast
  have "outs_view st1 = groups (es @ [(idoubled i, iline_number i)])"
    by (simp add: st1(3) Cons.prems(3))
  from Cons.IH [OF st1(2) _ this] Cons.prems(2) st1(1) show ?case by simp
qed simp

subsection \<open>What is read\<close>

text \<open>Which lines are numbers, and which are too short to decide whether they are "end":
  the empty string, "e" and "en", without a newline. Such a line, the last one of a file that
  does not end in a newline, is reported and skipped; any other line that is not a number ends
  the input. The numbers read are those of the lines before the end, the first 100 of them.\<close>

definition skipped :: "bytes \<Rightarrow> bool" where
  "skipped buf \<longleftrightarrow> buf \<in> {[], [101], [101, 110]}"

definition numbers_read :: "bytes list \<Rightarrow> cint list" where
  "numbers_read bufs =
    take 100 (List.map_filter scan_int (takeWhile (\<lambda>buf. scan_int buf \<noteq> None \<or> skipped buf) bufs))"

definition numbered_from :: "nat \<Rightarrow> cint list \<Rightarrow> input list" where
  "numbered_from n vs = map (\<lambda>(i, v). \<lparr>line_number = i, ivalue = v\<rparr>) (zip [n..<n + length vs] vs)"

lemma scan_literal_end: "scan_literal lit_end buf \<noteq> 0 \<longleftrightarrow> skipped buf"
proof -
  have 1: "scan_literal [100] b \<noteq> 0 \<longleftrightarrow> b = []" for b by (cases b) simp_all
  have 2: "scan_literal [110, 100] b \<noteq> 0 \<longleftrightarrow> b = [] \<or> b = [110]" for b using 1 by (cases b) simp_all
  show ?thesis using 2 by (cases buf) (simp_all add: lit_end_def skipped_def)
qed

lemma upt_front: "[n..<n + Suc k] = n # [Suc n..<Suc n + k]"
  by (simp add: upt_conv_Cons del: upt_Suc)

lemma numbered_from_Nil [simp]: "numbered_from n [] = []"
  by (simp add: numbered_from_def)

lemma numbered_from_Cons [simp]:
  "numbered_from n (v # vs) = \<lparr>line_number = n, ivalue = v\<rparr> # numbered_from (n + 1) vs"
  unfolding numbered_from_def length_Cons upt_front by simp

lemma read_input_spec:
  "length ins \<le> MAX_INPUT \<Longrightarrow>
   read_input bufs ins = ins @ numbered_from (length ins + 1)
     (take (MAX_INPUT - length ins)
       (List.map_filter scan_int (takeWhile (\<lambda>buf. scan_int buf \<noteq> None \<or> skipped buf) bufs)))"
proof (induction bufs ins rule: read_input.induct)
  case (2 buf bufs ins)
  show ?case
  proof (cases "length ins < MAX_INPUT")
    case True
    then have d: "MAX_INPUT - length ins = Suc (MAX_INPUT - Suc (length ins))" by simp
    show ?thesis
    proof (cases "scan_int buf")
      case None
      show ?thesis
      proof (cases "skipped buf")
        case True
        then show ?thesis using 2(1) [OF \<open>length ins < MAX_INPUT\<close> None] scan_literal_end [of buf] 2(3) None
          \<open>length ins < MAX_INPUT\<close> scan_literal_end [of buf] by (simp add: map_filter_simps)
      qed (use None \<open>length ins < MAX_INPUT\<close> scan_literal_end [of buf] in \<open>simp add: map_filter_simps\<close>)
    next
      case (Some v)
      then show ?thesis using 2(2) [OF True Some] True by (simp add: map_filter_simps d)
    qed
  qed (use 2(3) in simp)
qed (simp add: map_filter_simps)

lemma map_all_fits:
  "\<forall>v\<in>set vs. fits_int (sint v * 2) \<Longrightarrow>
   map_all (numbered_from n vs) =
     ret (map (\<lambda>i. \<lparr>iline_number = line_number i, idoubled = word_of_int (sint (ivalue i) * 2)\<rparr>)
       (numbered_from n vs))"
  by (induction vs arbitrary: n) (simp_all add: map_input_def)

lemma map_all_overflow:
  "v \<in> set vs \<Longrightarrow> \<not> fits_int (sint v * 2) \<Longrightarrow> map_all (numbered_from n vs) = fail Overflow"
proof (induction vs arbitrary: n)
  case (Cons w vs)
  show ?case
  proof (cases "fits_int (sint w * 2)")
    case True
    with Cons show ?thesis by (auto simp: map_input_def)
  qed (simp add: map_input_def)
qed simp

lemma length_numbered_from [simp]: "length (numbered_from n vs) = length vs"
  by (simp add: numbered_from_def)

lemma map_numbered_from:
  "map (\<lambda>i. (f (ivalue i), line_number i)) (numbered_from n vs) = zip (map f vs) [n..<n + length vs]"
proof (induction vs arbitrary: n)
  case (Cons v vs)
  show ?case unfolding length_Cons upt_front using Cons by simp
qed simp

lemma foldl_count: "foldl (\<lambda>n i. Suc n) c [0..<m] = c + m"
  by (induction m) auto

lemma reduce_group: "ocount x \<le> length (line_numbers x) \<Longrightarrow> reduce x = out_group x"
  by (auto simp: reduce_def out_group_def intro: nth_equalityI)

lemma group_and_print:
  assumes "length ms \<le> MAX_INPUT"
  shows "rbind (group_all ms (zero_outputs, 0)) (\<lambda>(outs, n).
      let used = filter (\<lambda>x. 0 < ocount x) (take n outs)
      in ret (map reduce used, map reduceSum used)) =
    (let gs = groups (map (\<lambda>i. (idoubled i, iline_number i)) ms)
     in ret (gs, map (\<lambda>g. (fst g, length (snd g))) gs))"
proof -
  have "outs_ok (zero_outputs, 0) 0" "outs_view (zero_outputs, 0) = groups []"
    by (simp_all add: outs_ok_def zero_outputs_def outs_view_def)
  from group_all_correct [OF this(1) _ this(2), of ms] assms obtain st where
    st: "group_all ms (zero_outputs, 0) = ret st" "outs_ok st (length ms)"
    "outs_view st = groups (map (\<lambda>i. (idoubled i, iline_number i)) ms)" by auto
  obtain outs n where o: "st = (outs, n)" by (cases st)
  have "\<forall>x\<in>set (take n outs). 0 < ocount x \<and> ocount x \<le> length (line_numbers x)"
  proof
    fix x assume x: "x \<in> set (take n outs)"
    then have "x \<in> set outs" by (rule in_set_takeD)
    with x st(2) assms show "0 < ocount x \<and> ocount x \<le> length (line_numbers x)"
      by (auto simp: outs_ok_def o)
  qed
  moreover have "filter (\<lambda>x. 0 < ocount x) (take n outs) = take n outs"
    using calculation by (simp add: filter_id_conv)
  moreover have "map reduce (take n outs) = outs_view st"
    using calculation(1) by (simp add: outs_view_def o reduce_group)
  moreover have "map reduceSum (take n outs) = map (\<lambda>g. (fst g, length (snd g))) (outs_view st)"
    using calculation(1) by (simp add: outs_view_def o reduceSum_def foldl_count out_group_def)
  moreover have "outs_view st = groups (map (\<lambda>i. (idoubled i, iline_number i)) ms)"
    by (simp add: st(3))
  ultimately show ?thesis
    by (simp add: st(1) o Let_def)
qed

text \<open>Property C24. The numbers are those of the lines up to the first line that is not a
  number (other than a last "e" or "en" without a newline), at most 100, each converted as
  \<open>%d\<close> does it. When the double of each of them is an \<open>int\<close>, the program prints the groups
  of the positions 1, 2, ... by doubled value, in the order in which the values first appear, and the
  sizes of the groups, and no access leaves the arrays of 100 elements. When one of them lies
  outside of $[-2^{30}, 2^{30})$ the behaviour is undefined.\<close>

theorem main_lab7_correct:
  "main_lab7 bufs =
    (let vs = numbers_read bufs;
         gs = groups (zip (map (\<lambda>v. word_of_int (2 * sint v)) vs) [1..<length vs + 1])
     in if list_all (\<lambda>v. - (2 ^ 30) \<le> sint v \<and> sint v < 2 ^ 30) vs
        then ret (gs, map (\<lambda>g. (fst g, length (snd g))) gs) else fail Overflow)"
proof -
  let ?vs = "numbers_read bufs"
  let ?f = "\<lambda>i. \<lparr>iline_number = line_number i, idoubled = word_of_int (sint (ivalue i) * 2)\<rparr>"
  have r: "read_input bufs [] = numbered_from 1 ?vs"
    using read_input_spec [of "[]" bufs] by (simp add: numbers_read_def MAX_INPUT_def)
  have fit: "fits_int (sint v * 2) \<longleftrightarrow> - (2 ^ 30) \<le> sint v \<and> sint v < 2 ^ 30" for v :: cint
    by (auto simp: fits_int_def)
  show ?thesis
  proof (cases "list_all (\<lambda>v. - (2 ^ 30) \<le> sint v \<and> sint v < 2 ^ 30) ?vs")
    case True
    then have "\<forall>v\<in>set ?vs. fits_int (sint v * 2)" by (simp only: fit list_all_iff)
    note m = map_all_fits [OF this, of 1]
    have "length (map ?f (numbered_from 1 ?vs)) \<le> MAX_INPUT"
      by (simp add: numbers_read_def MAX_INPUT_def)
    note g = group_and_print [OF this]
    have "map (\<lambda>i. (idoubled i, iline_number i)) (map ?f (numbered_from 1 ?vs)) =
        map (\<lambda>i. (word_of_int (2 * sint (ivalue i)), line_number i)) (numbered_from 1 ?vs)"
      by (simp add: mult.commute)
    also have "\<dots> = zip (map (\<lambda>v. word_of_int (2 * sint v)) ?vs) [1..<length ?vs + 1]"
      using map_numbered_from [of "\<lambda>v. word_of_int (2 * sint v)" 1 ?vs] by (simp only: add.commute)
    finally have z: "map (\<lambda>i. (idoubled i, iline_number i)) (map ?f (numbered_from 1 ?vs)) =
        zip (map (\<lambda>v. word_of_int (2 * sint v)) ?vs) [1..<length ?vs + 1]" .
    with True g show ?thesis unfolding main_lab7_def r m rbind_ret Let_def by (simp only: z if_True)
  next
    case False
    then obtain v where "v \<in> set ?vs" "\<not> fits_int (sint v * 2)" unfolding fit list_all_iff by blast
    from map_all_overflow [OF this] False show ?thesis
      unfolding main_lab7_def r Let_def by (simp only: rbind_fail if_False)
  qed
qed

text \<open>The message for an invalid line is unreachable for lines that end in a newline: any
  line that is not a number ends the input, as "end" does.\<close>

theorem invalid_line_ends_input:
  assumes "scan_int (buf @ [10]) = None" "10 \<notin> set lit_end"
  shows "read_input ((buf @ [10]) # bufs) ins = ins"
proof -
  have "scan_literal ls (b @ [10]) = 0" if "10 \<notin> set ls" for ls b :: bytes
    using that by (induction ls b rule: scan_literal.induct) auto
  with assms show ?thesis by simp
qed

theorem invalid_line_ends_input_witness:
  "read_input [[120, 10], [49, 10]] [] = []"
  using invalid_line_ends_input [of "[120]" "[[49, 10]]" "[]"]
  by (simp add: scan_int_def scan_number_def isspace_def isdigit_def lit_end_def Let_def clamp_long_def)

end
