(* ===== verification/Fit_Policy.thy ===== *)
theory Fit_Policy
  imports Node_Store
begin

text \<open>
  The three placement policies (first, best and worst fit) that \<open>lab/lab5.c\<close>,
  \<open>lecture/test2/alloc.c\<close> and \<open>lecture/test2/alloc2.c\<close> implement as loops over a linked
  free list, on the list of pairs of a block and its size, and the contract
  \<open>fit_policy\<close> they share.
\<close>

section \<open>The policies on a list of blocks\<close>

fun first_pick :: "('a \<times> u64) list \<Rightarrow> u64 \<Rightarrow> 'a option" where
  "first_pick [] n = None"
| "first_pick ((a, s) # xs) n = (if n \<le> s then Some a else first_pick xs n)"

fun best_loop :: "'a option \<Rightarrow> u64 \<Rightarrow> ('a \<times> u64) list \<Rightarrow> u64 \<Rightarrow> 'a option" where
  "best_loop b bs [] n = b"
| "best_loop b bs ((a, s) # xs) n =
     (if n \<le> s \<and> s < bs then best_loop (Some a) s xs n else best_loop b bs xs n)"

fun worst_loop :: "'a option \<Rightarrow> u64 \<Rightarrow> ('a \<times> u64) list \<Rightarrow> u64 \<Rightarrow> 'a option" where
  "worst_loop w ws [] n = w"
| "worst_loop w ws ((a, s) # xs) n =
     (if n \<le> s \<and> ws < s then worst_loop (Some a) s xs n else worst_loop w ws xs n)"

text \<open>\<open>best_fit_size\<close> starts at \<open>UINT64_MAX\<close>, \<open>worst_fit_size\<close> at 0.\<close>

definition best_pick :: "('a \<times> u64) list \<Rightarrow> u64 \<Rightarrow> 'a option" where
  "best_pick xs n = best_loop None (- 1) xs n"

definition worst_pick :: "('a \<times> u64) list \<Rightarrow> u64 \<Rightarrow> 'a option" where
  "worst_pick xs n = worst_loop None 0 xs n"

section \<open>The contract of a policy\<close>

text \<open>
  A policy returns a block of the list that is large enough, and finds one whenever
  there is one. The laws ask for a positive request and a block below \<open>UINT64_MAX\<close>:
  worst fit never selects a block of size 0, best fit none of size \<open>UINT64_MAX\<close>.
\<close>

locale fit_policy =
  fixes pick :: "('a \<times> u64) list \<Rightarrow> u64 \<Rightarrow> 'a option"
  assumes sound: "pick xs n = Some a \<Longrightarrow> \<exists>s. (a, s) \<in> set xs \<and> n \<le> s"
    and complete: "0 < n \<Longrightarrow> (a, s) \<in> set xs \<Longrightarrow> n \<le> s \<Longrightarrow> s \<noteq> - 1 \<Longrightarrow> pick xs n \<noteq> None"
begin

lemma pick_split:
  assumes "pick xs n = Some a" "distinct (map fst xs)"
  obtains ys s zs where "xs = ys @ (a, s) # zs" "n \<le> s" "a \<notin> fst ` set ys" "a \<notin> fst ` set zs"
proof -
  from sound [OF assms(1)] obtain s where s: "(a, s) \<in> set xs" "n \<le> s" by blast
  from s(1) obtain ys zs where xs: "xs = ys @ (a, s) # zs" by (meson split_list)
  with assms(2) have "a \<notin> fst ` set ys" "a \<notin> fst ` set zs" by auto
  with xs s(2) that show ?thesis by blast
qed

lemma pick_None_iff:
  assumes "0 < n" "\<And>a s. (a, s) \<in> set xs \<Longrightarrow> s \<noteq> - 1"
  shows "pick xs n = None \<longleftrightarrow> (\<forall>(a, s) \<in> set xs. s < n)"
proof
  assume "pick xs n = None"
  then show "\<forall>(a, s) \<in> set xs. s < n"
    using complete [OF assms(1)] assms(2) by (fastforce simp: not_le [symmetric])
next
  assume "\<forall>(a, s) \<in> set xs. s < n"
  with sound [of xs n] show "pick xs n = None"
    by (cases "pick xs n") fastforce+
qed

end

lemma first_pick_sound: "first_pick xs n = Some a \<Longrightarrow> \<exists>s. (a, s) \<in> set xs \<and> n \<le> s"
  by (induction xs n rule: first_pick.induct) (auto split: if_splits)

lemma first_pick_complete: "(a, s) \<in> set xs \<Longrightarrow> n \<le> s \<Longrightarrow> first_pick xs n \<noteq> None"
  by (induction xs n rule: first_pick.induct) auto

lemma best_loop_sound:
  "best_loop b bs xs n = Some a \<Longrightarrow> b = Some a \<or> (\<exists>s. (a, s) \<in> set xs \<and> n \<le> s)"
  by (induction b bs xs n rule: best_loop.induct) (auto split: if_splits)

lemma best_loop_Some: "best_loop (Some b) bs xs n \<noteq> None"
  by (induction "Some b" bs xs n arbitrary: b rule: best_loop.induct) auto

lemma best_loop_complete: "(a, s) \<in> set xs \<Longrightarrow> n \<le> s \<Longrightarrow> s < bs \<Longrightarrow> best_loop b bs xs n \<noteq> None"
  by (induction b bs xs n rule: best_loop.induct) (auto simp: best_loop_Some simp del: not_None_eq)

lemma worst_loop_sound:
  "worst_loop w ws xs n = Some a \<Longrightarrow> w = Some a \<or> (\<exists>s. (a, s) \<in> set xs \<and> n \<le> s)"
  by (induction w ws xs n rule: worst_loop.induct) (auto split: if_splits)

lemma worst_loop_Some: "worst_loop (Some w) ws xs n \<noteq> None"
  by (induction "Some w" ws xs n arbitrary: w rule: worst_loop.induct) auto

lemma worst_loop_complete: "(a, s) \<in> set xs \<Longrightarrow> n \<le> s \<Longrightarrow> ws < s \<Longrightarrow> worst_loop w ws xs n \<noteq> None"
  by (induction w ws xs n rule: worst_loop.induct) (auto simp: worst_loop_Some simp del: not_None_eq)

lemma below_max: "(s :: u64) \<noteq> - 1 \<Longrightarrow> s < - 1"
  by (simp add: word_order.not_eq_extremum)

interpretation first_fit: fit_policy first_pick
  by unfold_locales (auto dest: first_pick_sound first_pick_complete)

lemma best_pick_sound: "best_pick xs n = Some a \<Longrightarrow> \<exists>s. (a, s) \<in> set xs \<and> n \<le> s"
  using best_loop_sound [of None "- 1" xs n a] by (simp add: best_pick_def)

lemma best_pick_complete:
  "(a, s) \<in> set xs \<Longrightarrow> n \<le> s \<Longrightarrow> s \<noteq> - 1 \<Longrightarrow> best_pick xs n \<noteq> None"
  unfolding best_pick_def by (rule best_loop_complete [OF _ _ below_max])

lemma worst_pick_sound: "worst_pick xs n = Some a \<Longrightarrow> \<exists>s. (a, s) \<in> set xs \<and> n \<le> s"
  using worst_loop_sound [of None 0 xs n a] by (simp add: worst_pick_def)

lemma worst_pick_complete:
  "0 < n \<Longrightarrow> (a, s) \<in> set xs \<Longrightarrow> n \<le> s \<Longrightarrow> worst_pick xs n \<noteq> None"
  unfolding worst_pick_def by (rule worst_loop_complete [OF _ _ less_le_trans])

interpretation best_fit: fit_policy best_pick
  by unfold_locales (rule best_pick_sound, assumption, rule best_pick_complete)

interpretation worst_fit: fit_policy worst_pick
  by unfold_locales (rule worst_pick_sound, assumption, rule worst_pick_complete)

text \<open>Best fit returns a smallest block that fits, worst fit a largest one.\<close>

lemma best_loop_min:
  "best_loop b bs xs n = Some a \<Longrightarrow>
     (b = Some a \<and> (\<forall>x t. (x, t) \<in> set xs \<longrightarrow> n \<le> t \<longrightarrow> bs \<le> t)) \<or>
     (\<exists>s. (a, s) \<in> set xs \<and> n \<le> s \<and> s < bs \<and> (\<forall>x t. (x, t) \<in> set xs \<longrightarrow> n \<le> t \<longrightarrow> s \<le> t))"
proof (induction b bs xs n rule: best_loop.induct)
  case (2 b bs c s xs n)
  show ?case
  proof (cases "n \<le> s \<and> s < bs")
    case True
    with 2(1) 2(3) consider (here) "c = a" "\<forall>x t. (x, t) \<in> set xs \<longrightarrow> n \<le> t \<longrightarrow> s \<le> t"
      | (later) r where "(a, r) \<in> set xs" "n \<le> r" "r < s"
          "\<forall>x t. (x, t) \<in> set xs \<longrightarrow> n \<le> t \<longrightarrow> r \<le> t" by auto
    then show ?thesis
    proof cases
      case here
      with True show ?thesis by (intro disjI2 exI [of _ s]) simp
    next
      case later
      with True show ?thesis by (intro disjI2 exI [of _ r]) (auto intro: less_imp_le less_trans)
    qed
  next
    case False
    with 2(2) 2(3) consider (here) "b = Some a" "\<forall>x t. (x, t) \<in> set xs \<longrightarrow> n \<le> t \<longrightarrow> bs \<le> t"
      | (later) r where "(a, r) \<in> set xs" "n \<le> r" "r < bs"
          "\<forall>x t. (x, t) \<in> set xs \<longrightarrow> n \<le> t \<longrightarrow> r \<le> t" by auto
    then show ?thesis
    proof cases
      case here
      with False show ?thesis by (intro disjI1) auto
    next
      case later
      with False show ?thesis by (intro disjI2 exI [of _ r]) (auto simp: not_less not_le)
    qed
  qed
qed simp

lemma worst_loop_max:
  "worst_loop w ws xs n = Some a \<Longrightarrow>
     (w = Some a \<and> (\<forall>x t. (x, t) \<in> set xs \<longrightarrow> n \<le> t \<longrightarrow> t \<le> ws)) \<or>
     (\<exists>s. (a, s) \<in> set xs \<and> n \<le> s \<and> ws < s \<and> (\<forall>x t. (x, t) \<in> set xs \<longrightarrow> n \<le> t \<longrightarrow> t \<le> s))"
proof (induction w ws xs n rule: worst_loop.induct)
  case (2 w ws c s xs n)
  show ?case
  proof (cases "n \<le> s \<and> ws < s")
    case True
    with 2(1) 2(3) consider (here) "c = a" "\<forall>x t. (x, t) \<in> set xs \<longrightarrow> n \<le> t \<longrightarrow> t \<le> s"
      | (later) r where "(a, r) \<in> set xs" "n \<le> r" "s < r"
          "\<forall>x t. (x, t) \<in> set xs \<longrightarrow> n \<le> t \<longrightarrow> t \<le> r" by auto
    then show ?thesis
    proof cases
      case here
      with True show ?thesis by (intro disjI2 exI [of _ s]) simp
    next
      case later
      with True show ?thesis by (intro disjI2 exI [of _ r]) (auto intro: less_imp_le less_trans)
    qed
  next
    case False
    with 2(2) 2(3) consider (here) "w = Some a" "\<forall>x t. (x, t) \<in> set xs \<longrightarrow> n \<le> t \<longrightarrow> t \<le> ws"
      | (later) r where "(a, r) \<in> set xs" "n \<le> r" "ws < r"
          "\<forall>x t. (x, t) \<in> set xs \<longrightarrow> n \<le> t \<longrightarrow> t \<le> r" by auto
    then show ?thesis
    proof cases
      case here
      with False show ?thesis by (intro disjI1) auto
    next
      case later
      with False show ?thesis by (intro disjI2 exI [of _ r]) (auto simp: not_less not_le)
    qed
  qed
qed simp

lemma best_pick_min:
  "best_pick xs n = Some a \<Longrightarrow>
     \<exists>s. (a, s) \<in> set xs \<and> n \<le> s \<and> (\<forall>(x, t) \<in> set xs. n \<le> t \<longrightarrow> s \<le> t)"
  using best_loop_min [of None "- 1" xs n a] by (fastforce simp: best_pick_def)

lemma worst_pick_max:
  "worst_pick xs n = Some a \<Longrightarrow>
     \<exists>s. (a, s) \<in> set xs \<and> n \<le> s \<and> (\<forall>(x, t) \<in> set xs. n \<le> t \<longrightarrow> t \<le> s)"
  using worst_loop_max [of None 0 xs n a] by (fastforce simp: worst_pick_def)

end
