(* ===== verification/Free_List.thy ===== *)
theory Free_List
  imports Byte_Memory Fit_Policy
begin

text \<open>
  The free list of the allocators of \<open>lecture/test2\<close>, at two levels.
  \<^item> On lists of blocks (address and size): the merging of adjacent blocks and what it
    preserves.
  \<^item> In memory: \<open>blks m hp xs\<close> says that the headers reached from \<open>hd\<close> are those of \<open>xs\<close>
    and that no two of them share a byte; unlinking a block and changing a size are
    described on it.
\<close>

type_synonym blk = "u64 \<times> u64"

section \<open>Merging on lists of blocks\<close>

text \<open>The block \<open>y\<close> starts where \<open>x\<close> ends.\<close>

definition adjacent :: "blk \<Rightarrow> blk \<Rightarrow> bool" where
  "adjacent x y \<longleftrightarrow> fst x \<noteq> fst y \<and> fst x + snd x = fst y"

definition put_size :: "u64 \<Rightarrow> u64 \<Rightarrow> blk list \<Rightarrow> blk list" where
  "put_size a v xs = map (\<lambda>(b, s). (b, if b = a then v else s)) xs"

definition drop_blk :: "u64 \<Rightarrow> blk list \<Rightarrow> blk list" where
  "drop_blk a xs = filter (\<lambda>x. fst x \<noteq> a) xs"

definition absorb :: "blk \<Rightarrow> blk \<Rightarrow> blk list \<Rightarrow> blk list" where
  "absorb x y xs = drop_blk (fst y) (put_size (fst x) (snd x + snd y) xs)"

fun merge_with :: "blk \<Rightarrow> blk list \<Rightarrow> blk list \<Rightarrow> blk list option" where
  "merge_with x [] all = None"
| "merge_with x (y # ys) all =
     (if adjacent x y then Some (absorb x y all)
      else if adjacent y x then Some (absorb y x all)
      else merge_with x ys all)"

fun merge_any :: "blk list \<Rightarrow> blk list \<Rightarrow> blk list option" where
  "merge_any [] all = None"
| "merge_any (x # xs) all =
     (case merge_with x all all of None \<Rightarrow> merge_any xs all | Some ys \<Rightarrow> Some ys)"

lemma merge_with_Some:
  "merge_with x ys all = Some zs \<Longrightarrow>
     \<exists>y \<in> set ys. (adjacent x y \<and> zs = absorb x y all) \<or> (adjacent y x \<and> zs = absorb y x all)"
  by (induction x ys all rule: merge_with.induct) (auto split: if_splits)

lemma merge_with_None:
  "merge_with x ys all = None \<Longrightarrow> y \<in> set ys \<Longrightarrow> \<not> adjacent x y \<and> \<not> adjacent y x"
  by (induction x ys all rule: merge_with.induct) (auto split: if_splits)

lemma merge_any_Some:
  assumes "merge_any xs all = Some zs" "set xs \<subseteq> set all"
  obtains x y where "x \<in> set all" "y \<in> set all" "adjacent x y" "zs = absorb x y all"
  using assms by (induction xs all arbitrary: thesis rule: merge_any.induct)
    (auto split: option.splits dest!: merge_with_Some)

lemma merge_any_None:
  "merge_any xs all = None \<Longrightarrow> x \<in> set xs \<Longrightarrow> y \<in> set all \<Longrightarrow> \<not> adjacent x y"
  by (induction xs all rule: merge_any.induct) (auto split: option.splits dest: merge_with_None)

lemma fst_put_size [simp]: "map fst (put_size a v xs) = map fst xs"
  by (simp add: put_size_def comp_def case_prod_beta)

lemma put_size_Cons [simp]:
  "put_size a v ((b, s) # xs) = (b, if b = a then v else s) # put_size a v xs"
  by (simp add: put_size_def)

lemma put_size_append [simp]: "put_size a v (xs @ ys) = put_size a v xs @ put_size a v ys"
  by (simp add: put_size_def)

lemma put_size_Nil [simp]: "put_size a v [] = []"
  by (simp add: put_size_def)

lemma put_size_notin [simp]: "a \<notin> fst ` set xs \<Longrightarrow> put_size a v xs = xs"
  by (induction xs) auto

lemma drop_blk_simps [simp]:
  "drop_blk a [] = []" "drop_blk a (x # xs) = (if fst x = a then drop_blk a xs else x # drop_blk a xs)"
  "drop_blk a (xs @ ys) = drop_blk a xs @ drop_blk a ys"
  by (simp_all add: drop_blk_def)

lemma drop_blk_notin [simp]: "a \<notin> fst ` set xs \<Longrightarrow> drop_blk a xs = xs"
  unfolding drop_blk_def by (rule filter_True) auto

lemma fst_drop_blk: "map fst (drop_blk a xs) = filter (\<lambda>b. b \<noteq> a) (map fst xs)"
  by (simp add: drop_blk_def filter_map comp_def)

lemma length_absorb:
  assumes "y \<in> set xs"
  shows "length (absorb x y xs) < length xs"
proof -
  let ?zs = "put_size (fst x) (snd x + snd y) xs"
  have "fst y \<in> set (map fst ?zs)" using assms by (simp only: fst_put_size) simp
  then obtain z where "z \<in> set ?zs" "fst y = fst z" by (rule set_map [THEN equalityD1, THEN subsetD, THEN imageE])
  then have "z \<in> set ?zs" "\<not> fst z \<noteq> fst y" by simp_all
  then have "length (drop_blk (fst y) ?zs) < length ?zs"
    unfolding drop_blk_def by (rule length_filter_less)
  then show ?thesis by (simp add: absorb_def put_size_def)
qed

function coalesce :: "blk list \<Rightarrow> blk list" where
  "coalesce xs = (case merge_any xs xs of None \<Rightarrow> xs | Some ys \<Rightarrow> coalesce ys)"
  by pat_completeness auto
termination
  by (relation "measure length") (auto elim!: merge_any_Some intro: length_absorb)

declare coalesce.simps [simp del]

text \<open>What one merge keeps is kept by all of them.\<close>

lemma coalesce_invariant:
  assumes "P xs"
    and "\<And>x y zs. P zs \<Longrightarrow> x \<in> set zs \<Longrightarrow> y \<in> set zs \<Longrightarrow> adjacent x y \<Longrightarrow> P (absorb x y zs)"
  shows "P (coalesce xs)"
  using assms(1)
proof (induction xs rule: coalesce.induct)
  case (1 xs)
  show ?case
  proof (cases "merge_any xs xs")
    case None
    with 1 show ?thesis by (simp add: coalesce.simps)
  next
    case (Some ys)
    from Some 1(2) have "P ys" by (elim merge_any_Some) (auto intro: assms(2))
    with 1(1) Some have "P (coalesce ys)" by simp
    with Some show ?thesis by (simp add: coalesce.simps [of xs])
  qed
qed

theorem coalesce_no_adjacent: "x \<in> set (coalesce xs) \<Longrightarrow> y \<in> set (coalesce xs) \<Longrightarrow> \<not> adjacent x y"
proof (induction xs rule: coalesce.induct)
  case (1 xs)
  show ?case
  proof (cases "merge_any xs xs")
    case None
    with 1 show ?thesis by (auto simp: coalesce.simps [of xs] dest: merge_any_None)
  next
    case (Some ys)
    with 1 show ?thesis by (simp add: coalesce.simps [of xs])
  qed
qed

section \<open>What a merge preserves\<close>

lemma fst_absorb: "map fst (absorb x y xs) = filter (\<lambda>a. a \<noteq> fst y) (map fst xs)"
  by (simp only: absorb_def fst_drop_blk fst_put_size)

lemma absorb_split:
  assumes d: "distinct (map fst xs)" and x: "x \<in> set xs" and y: "y \<in> set xs" and "adjacent x y"
  obtains us vs ws where
    "(xs = us @ x # vs @ y # ws \<or> xs = us @ y # vs @ x # ws)"
    "absorb x y xs = us @ [(fst x, snd x + snd y)] @ vs @ ws \<or>
     absorb x y xs = us @ vs @ [(fst x, snd x + snd y)] @ ws"
proof -
  from assms(4) have ne: "fst x \<noteq> fst y" by (simp add: adjacent_def)
  from x obtain us vs where xs: "xs = us @ x # vs" by (meson split_list)
  with y ne have "y \<in> set us \<or> y \<in> set vs" by auto
  then show ?thesis
  proof
    assume "y \<in> set us"
    then obtain us1 us2 where us: "us = us1 @ y # us2" by (meson split_list)
    have "absorb x y xs = us1 @ us2 @ [(fst x, snd x + snd y)] @ vs"
      using d xs us ne by (cases x; cases y) (simp add: absorb_def)
    with xs us that show ?thesis by auto
  next
    assume "y \<in> set vs"
    then obtain vs1 vs2 where vs: "vs = vs1 @ y # vs2" by (meson split_list)
    have "absorb x y xs = us @ [(fst x, snd x + snd y)] @ vs1 @ vs2"
      using d xs vs ne by (cases x; cases y) (simp add: absorb_def)
    with xs vs that show ?thesis by auto
  qed
qed

definition total :: "blk list \<Rightarrow> u64" where
  "total xs = sum_list (map snd xs)"

lemma total_simps [simp]:
  "total [] = 0" "total (x # xs) = snd x + total xs" "total (xs @ ys) = total xs + total ys"
  by (simp_all add: total_def)

lemma total_absorb:
  assumes "distinct (map fst xs)" "x \<in> set xs" "y \<in> set xs" "adjacent x y"
  shows "total (absorb x y xs) = total xs"
  using assms by (rule absorb_split) (auto simp: algebra_simps)

text \<open>The bytes a block covers, its header included, and those of a list of blocks.\<close>

definition region :: "blk \<Rightarrow> u64 set" where
  "region x = (\<lambda>i. fst x + of_nat i) ` {..<unat (snd x)}"

definition covered :: "blk list \<Rightarrow> u64 set" where
  "covered xs = (\<Union>x \<in> set xs. region x)"

text \<open>No block is at address 0 and none reaches past the end of the address space.\<close>

definition in_space :: "blk list \<Rightarrow> bool" where
  "in_space xs \<longleftrightarrow> (\<forall>(a, s) \<in> set xs. a \<noteq> 0 \<and> unat a + unat s \<le> 2 ^ 64)"

lemma adjacent_sizes:
  assumes "adjacent x y" "unat (fst x) + unat (snd x) \<le> 2 ^ 64" "unat (fst y) + unat (snd y) \<le> 2 ^ 64"
    "fst x \<noteq> 0" "fst y \<noteq> 0"
  shows "unat (snd x + snd y) = unat (snd x) + unat (snd y)"
    "unat (fst x) + (unat (snd x) + unat (snd y)) \<le> 2 ^ 64"
proof -
  from assms(1) have e: "fst y = fst x + snd x" by (simp add: adjacent_def)
  have lt: "unat (fst x) + unat (snd x) < 2 ^ 64"
  proof (rule ccontr)
    assume "\<not> unat (fst x) + unat (snd x) < 2 ^ 64"
    with assms(2) have "unat (fst x) + unat (snd x) = 2 ^ 64" by simp
    then have "unat (fst x + snd x) = 0" by (simp add: unat_word_ariths)
    with e assms(5) show False by (simp add: word_unat_eq_iff)
  qed
  then have "unat (fst y) = unat (fst x) + unat (snd x)"
    unfolding e by (simp add: unat_word_ariths)
  with assms(3) show b: "unat (fst x) + (unat (snd x) + unat (snd y)) \<le> 2 ^ 64" by simp
  have "0 < unat (fst x)" using assms(4) by (simp add: word_neq_0_conv unat_gt_0)
  with b show "unat (snd x + snd y) = unat (snd x) + unat (snd y)"
    by (simp add: unat_word_ariths)
qed

lemma region_join:
  assumes "adjacent x y" "unat (fst x) + unat (snd x) \<le> 2 ^ 64" "unat (fst y) + unat (snd y) \<le> 2 ^ 64"
    "fst x \<noteq> 0" "fst y \<noteq> 0"
  shows "region (fst x, snd x + snd y) = region x \<union> region y"
proof -
  let ?n = "unat (snd x)" and ?k = "unat (snd y)"
  have "fst y + of_nat i = fst x + of_nat (?n + i)" for i
    using assms(1) by (simp add: adjacent_def)
  then have "region y = (\<lambda>i. fst x + of_nat i) ` (+) ?n ` {..<?k}"
    unfolding region_def image_image by (simp add: add.assoc)
  also have "(+) ?n ` {..<?k} = {?n..<?n + ?k}"
    using image_add_atLeastLessThan [of ?n 0 ?k] by (simp add: lessThan_atLeast0 add.commute)
  moreover have "{..<?n + ?k} = {..<?n} \<union> {?n..<?n + ?k}" by auto
  moreover have "region (fst x, snd x + snd y) = (\<lambda>i. fst x + of_nat i) ` {..<?n + ?k}"
    using adjacent_sizes(1) [OF assms] by (simp add: region_def)
  ultimately show ?thesis by (simp only: image_Un) (simp add: region_def)
qed

lemma covered_simps [simp]:
  "covered [] = {}" "covered (x # xs) = region x \<union> covered xs"
  "covered (xs @ ys) = covered xs \<union> covered ys"
  by (auto simp: covered_def)

lemma in_space_simps [simp]:
  "in_space []"
  "in_space (x # xs) \<longleftrightarrow> fst x \<noteq> 0 \<and> unat (fst x) + unat (snd x) \<le> 2 ^ 64 \<and> in_space xs"
  "in_space (xs @ ys) \<longleftrightarrow> in_space xs \<and> in_space ys"
  by (auto simp: in_space_def)

lemma absorb_space:
  assumes "distinct (map fst xs)" "x \<in> set xs" "y \<in> set xs" "adjacent x y" "in_space xs"
  shows "in_space (absorb x y xs) \<and> covered (absorb x y xs) = covered xs"
proof -
  have "unat (fst x) + unat (snd x) \<le> 2 ^ 64" "unat (fst y) + unat (snd y) \<le> 2 ^ 64"
    "fst x \<noteq> 0" "fst y \<noteq> 0"
    using assms by (auto simp: in_space_def)
  note j = region_join [OF assms(4) this] adjacent_sizes [OF assms(4) this]
  obtain us vs ws where "(xs = us @ x # vs @ y # ws \<or> xs = us @ y # vs @ x # ws)"
    and "absorb x y xs = us @ [(fst x, snd x + snd y)] @ vs @ ws \<or>
      absorb x y xs = us @ vs @ [(fst x, snd x + snd y)] @ ws"
    using assms(1-4) by (rule absorb_split)
  with assms(5) j show ?thesis by (elim disjE) (simp_all add: Un_ac)
qed

text \<open>\<open>merged_from xs zs\<close>: \<open>zs\<close> may come from \<open>xs\<close> by merging.\<close>

definition merged_from :: "blk list \<Rightarrow> blk list \<Rightarrow> bool" where
  "merged_from xs zs \<longleftrightarrow> distinct (map fst zs) \<and> total zs = total xs
     \<and> set (map fst zs) \<subseteq> set (map fst xs)
     \<and> (in_space xs \<longrightarrow> in_space zs \<and> covered zs = covered xs)"

lemma merged_from_absorb:
  assumes P: "merged_from xs zs" and m: "x \<in> set zs" "y \<in> set zs" "adjacent x y"
  shows "merged_from xs (absorb x y zs)"
proof -
  from P have dz: "distinct (map fst zs)" by (simp add: merged_from_def)
  show ?thesis unfolding merged_from_def
  proof (intro conjI impI)
    show "distinct (map fst (absorb x y zs))" using dz unfolding fst_absorb by simp
    show "total (absorb x y zs) = total xs"
      using total_absorb [OF dz m] P by (simp add: merged_from_def)
    have "set (map fst (absorb x y zs)) \<subseteq> set (map fst zs)" unfolding fst_absorb by auto
    then show "set (map fst (absorb x y zs)) \<subseteq> set (map fst xs)"
      using P unfolding merged_from_def by (elim conjE) (rule subset_trans)
    assume "in_space xs"
    with P have "in_space zs" "covered zs = covered xs" by (simp_all add: merged_from_def)
    with absorb_space [OF dz m]
    show "in_space (absorb x y zs)" "covered (absorb x y zs) = covered xs" by simp_all
  qed
qed

theorem coalesce_preserves: "distinct (map fst xs) \<Longrightarrow> merged_from xs (coalesce xs)"
  by (rule coalesce_invariant) (simp add: merged_from_def, rule merged_from_absorb)

section \<open>The free list in memory\<close>

definition blks :: "mem \<Rightarrow> u64 \<Rightarrow> blk list \<Rightarrow> bool" where
  "blks m hp xs \<longleftrightarrow> llist (next_at m) hp (map fst xs)
     \<and> (\<forall>(a, s) \<in> set xs. size_at m a = s) \<and> sorted_wrt apart (map fst xs)"

text \<open>The bytes of the headers of a list.\<close>

definition header_area :: "blk list \<Rightarrow> u64 set" where
  "header_area xs = (\<Union>x \<in> set xs. header_bytes (fst x))"

lemma blks_size: "blks m hp xs \<Longrightarrow> (a, s) \<in> set xs \<Longrightarrow> size_at m a = s \<and> a \<noteq> 0"
  by (force simp: blks_def dest: lseg_nonzero)

lemma blks_distinct: "blks m hp xs \<Longrightarrow> distinct (map fst xs)"
  unfolding blks_def by (elim conjE) (rule llist_distinct)

lemma blks_Nil [simp]: "blks m hp [] \<longleftrightarrow> hp = 0"
  by (simp add: blks_def)

lemma blks_Cons: "blks m hp ((a, s) # xs) \<longleftrightarrow>
    hp = a \<and> a \<noteq> 0 \<and> size_at m a = s \<and> (\<forall>b \<in> fst ` set xs. apart a b) \<and> blks m (next_at m a) xs"
  by (auto simp: blks_def)

lemma blks_apart: "blks m hp (xs @ (a, s) # ys) \<Longrightarrow> b \<in> fst ` set xs \<or> b \<in> fst ` set ys \<Longrightarrow> apart a b"
  by (auto simp: blks_def sorted_wrt_append intro: apart_sym)

lemma lseg_set_next:
  assumes "\<And>a. a \<in> set as \<Longrightarrow> a = p \<or> apart p a"
  shows "lseg (next_at (set_next p v m)) x as q \<longleftrightarrow> lseg ((next_at m)(p := v)) x as q"
  by (rule lseg_cong) (use assms in force)

lemma blks_cong:
  assumes "blks m hp xs" "\<And>q. q \<in> header_area xs \<Longrightarrow> m' q = m q"
  shows "blks m' hp xs"
proof -
  have eq: "next_at m' a = next_at m a \<and> size_at m' a = size_at m a" if "(a, s) \<in> set xs" for a s
    using that assms(2) by (intro conjI size_at_cong next_at_cong) (force simp: header_area_def)+
  then have "lseg (next_at m') hp (map fst xs) 0 \<longleftrightarrow> lseg (next_at m) hp (map fst xs) 0"
    by (intro lseg_cong) auto
  with assms(1) eq show ?thesis by (fastforce simp: blks_def)
qed

lemma blks_set_size:
  assumes "blks m hp xs" and "a \<in> fst ` set xs \<or> (\<forall>b \<in> fst ` set xs. apart a b)"
  shows "blks (set_size a v m) hp (put_size a v xs)"
proof -
  have ap: "b = a \<or> apart a b" if "b \<in> fst ` set xs" for b
  proof (cases "a \<in> fst ` set xs")
    case True
    then obtain us s vs where "xs = us @ (a, s) # vs" by (fastforce dest: split_list)
    with blks_apart [of m hp us a s vs b] that assms(1) show ?thesis by auto
  qed (use assms(2) that in blast)
  have "next_at (set_size a v m) b = next_at m b" if "b \<in> fst ` set xs" for b
    using ap [OF that] by auto
  then have "lseg (next_at (set_size a v m)) hp (map fst xs) 0 \<longleftrightarrow> llist (next_at m) hp (map fst xs)"
    by (intro lseg_cong) auto
  moreover have "size_at (set_size a v m) b = (if b = a then v else s)" if "(b, s) \<in> set xs" for b s
    using ap [of b] that blks_size [OF assms(1) that] by force
  ultimately show ?thesis
    using assms(1) unfolding blks_def fst_put_size by (auto simp: put_size_def)
qed

lemma blks_unlink_head: "blks m hp ((b, s) # ys) \<Longrightarrow> blks m (next_at m b) ys"
  by (simp add: blks_Cons)

lemma blks_unlink:
  assumes "blks m hp (us @ (p, t) # (b, s) # ys)"
  shows "blks (set_next p (next_at m b) m) hp (us @ (p, t) # ys)"
proof -
  let ?as = "map fst (us @ (p, t) # ys)"
  have ap: "a = p \<or> apart p a" if "a \<in> set ?as" for a
    using that blks_apart [OF assms, of a] by auto
  from blks_distinct [OF assms] have d: "p \<notin> fst ` set us" "p \<notin> fst ` set ys" by auto
  from assms have "lseg (next_at m) hp (map fst us) p" "p \<noteq> 0" "llist (next_at m) (next_at m b) (map fst ys)"
    by (auto simp: blks_def)
  with d have "llist ((next_at m)(p := next_at m b)) hp ?as" by auto
  then have "llist (next_at (set_next p (next_at m b) m)) hp ?as"
    using lseg_set_next [of ?as p "next_at m b" m hp 0] ap by blast
  moreover have "size_at (set_next p (next_at m b) m) a = v" if "(a, v) \<in> set (us @ (p, t) # ys)" for a v
    using ap [of a] that blks_size [OF assms, of a v] by (cases "a = p") force+
  moreover have "sorted_wrt apart ?as" using assms by (auto simp: blks_def sorted_wrt_append)
  ultimately show ?thesis unfolding blks_def by blast
qed

lemma blks_push:
  assumes "blks m hp xs" "h \<noteq> 0" "\<forall>b \<in> fst ` set xs. apart h b"
  shows "blks (set_next h hp m) h ((h, size_at m h) # xs)"
proof -
  have "blks (set_next h hp m) hp xs"
    using assms(3) by (intro blks_cong [OF assms(1)] set_next_other)
      (auto simp: header_area_def apart_def)
  with assms show ?thesis by (simp add: blks_Cons)
qed

text \<open>Replacing the block \<open>b\<close> behind \<open>p\<close> by the block \<open>c\<close>, which points where \<open>b\<close> did.\<close>

lemma blks_relink:
  assumes b: "blks m hp (us @ (p, t) # (b, s) # ys)" and c: "c \<noteq> 0" "next_at m c = next_at m b" "size_at m c = v"
    and ap: "\<forall>a \<in> fst ` set (us @ (p, t) # ys). apart c a"
  shows "blks (set_next p c m) hp (us @ (p, t) # (c, v) # ys)"
proof -
  let ?as = "map fst (us @ (p, t) # (c, v) # ys)"
  have "apart p c" using ap by (auto intro: apart_sym)
  then have app: "a = p \<or> apart p a" if "a \<in> set ?as" for a
    using that blks_apart [OF b, of a] by auto
  from blks_distinct [OF b] have d: "p \<notin> fst ` set us" "p \<notin> fst ` set ys" by auto
  from b have "lseg (next_at m) hp (map fst us) p" "p \<noteq> 0" "llist (next_at m) (next_at m b) (map fst ys)"
    by (auto simp: blks_def)
  with d c \<open>apart p c\<close> have "llist ((next_at m)(p := c)) hp ?as" by (auto dest: apart_neq)
  then have "llist (next_at (set_next p c m)) hp ?as"
    using lseg_set_next [of ?as p c m hp 0] app by blast
  moreover have "size_at (set_next p c m) a = w" if "(a, w) \<in> set (us @ (p, t) # (c, v) # ys)" for a w
    using app [of a] that blks_size [OF b, of a w] c by (cases "a = p") force+
  moreover have "sorted_wrt apart ?as" using b ap by (auto simp: blks_def sorted_wrt_append intro: apart_sym)
  ultimately show ?thesis unfolding blks_def by blast
qed

end
