(* ===== verification/Alloc.thy ===== *)
theory Alloc
  imports Free_List
begin

text \<open>
  The allocator of \<open>lecture/test2/alloc.c\<close>: its static variables, the memory it manages
  and the program break as a record, and every function of the file. \<open>sbrk\<close> moves the
  break up to \<open>brk_max\<close>, the bound the operating system sets, and returns \<open>-1\<close> past it.
  Sizes are \<open>int\<close> in the interface and are sign-extended where the code adds them to
  \<open>uint64_t\<close> values and to pointers. What is printed is not modelled.
\<close>

section \<open>State\<close>

datatype algs = FIRST_FIT | BEST_FIT | WORST_FIT

record alloc_state =
  limit :: cint
  alg :: algs
  head :: u64
  heap_origin :: u64
  heap_end :: u64
  deallocCalled :: bool
  mem :: mem
  brk :: u64
  brk_max :: u64

definition init_state :: "u64 \<Rightarrow> u64 \<Rightarrow> alloc_state" where
  "init_state b bmax = \<lparr>limit = 0, alg = FIRST_FIT, head = 0, heap_origin = 0, heap_end = 0,
     deallocCalled = False, mem = (\<lambda>_. 0), brk = b, brk_max = bmax\<rparr>"

definition INCREMENT :: u64 where
  "INCREMENT = 256"

abbreviation sext :: "cint \<Rightarrow> u64" where
  "sext n \<equiv> scast n"

definition sbrk :: "u64 \<Rightarrow> alloc_state \<Rightarrow> u64 \<times> alloc_state" where
  "sbrk n s = (if brk s + n \<le> brk_max s then (brk s, s\<lparr>brk := brk s + n\<rparr>) else (- 1, s))"

section \<open>Searching the free list\<close>

partial_function (option) get_last_loop :: "mem \<Rightarrow> u64 \<Rightarrow> u64 \<Rightarrow> u64 \<Rightarrow> u64 run" where
  "get_last_loop m block temp lst = (if temp = 0 then ret 0
     else if temp = block then ret lst
     else get_last_loop m block (next_at m temp) temp)"

definition get_last :: "mem \<Rightarrow> u64 \<Rightarrow> u64 \<Rightarrow> u64 run" where
  "get_last m hp block = get_last_loop m block hp 0"

partial_function (option) find_first_fit :: "mem \<Rightarrow> u64 \<Rightarrow> u64 \<Rightarrow> u64 run" where
  "find_first_fit m p n = (if p = 0 then ret 0
     else if n \<le> size_at m p then ret p
     else find_first_fit m (next_at m p) n)"

partial_function (option) get_next :: "mem \<Rightarrow> u64 \<Rightarrow> u64 \<Rightarrow> u64 run" where
  "get_next m p block = (if p = 0 then ret 0
     else if p = block then ret (next_at m p)
     else get_next m (next_at m p) block)"

partial_function (option) find_best_loop :: "mem \<Rightarrow> u64 \<Rightarrow> u64 \<Rightarrow> u64 \<Rightarrow> u64 \<Rightarrow> u64 run" where
  "find_best_loop m p n best best_size = (if p = 0 then ret best
     else if n \<le> size_at m p \<and> size_at m p < best_size
       then find_best_loop m (next_at m p) n p (size_at m p)
     else find_best_loop m (next_at m p) n best best_size)"

definition find_best_fit :: "mem \<Rightarrow> u64 \<Rightarrow> u64 \<Rightarrow> u64 run" where
  "find_best_fit m p n = find_best_loop m p n 0 (- 1)"

partial_function (option) find_worst_loop :: "mem \<Rightarrow> u64 \<Rightarrow> u64 \<Rightarrow> u64 \<Rightarrow> u64 \<Rightarrow> u64 run" where
  "find_worst_loop m p n worst worst_size = (if p = 0 then ret worst
     else if n \<le> size_at m p \<and> worst_size < size_at m p
       then find_worst_loop m (next_at m p) n p (size_at m p)
     else find_worst_loop m (next_at m p) n worst worst_size)"

definition find_worst_fit :: "mem \<Rightarrow> u64 \<Rightarrow> u64 \<Rightarrow> u64 run" where
  "find_worst_fit m p n = find_worst_loop m p n 0 0"

section \<open>Coalescing\<close>

text \<open>
  The inner loop (over \<open>b\<close>) for one \<open>a\<close>. It returns \<open>merged\<close>, the memory and the head.
\<close>

partial_function (option) coal_inner ::
  "mem \<Rightarrow> u64 \<Rightarrow> u64 \<Rightarrow> u64 \<Rightarrow> u64 \<Rightarrow> u64 \<Rightarrow> (bool \<times> mem \<times> u64) run" where
  "coal_inner m hp a prev b b_prev = (if b = 0 then ret (False, m, hp)
     else if a \<noteq> b \<and> a + 16 + size_at m a = b + 16 then
       (let m = set_size a (size_at m a + size_at m b) m
        in if b_prev \<noteq> 0 then ret (True, set_next b_prev (next_at m b) m, hp)
           else ret (True, m, next_at m b))
     else if a \<noteq> b \<and> b + 16 + size_at m b = a + 16 then
       (let m = set_size b (size_at m b + size_at m a) m
        in if prev \<noteq> 0 then ret (True, set_next prev (next_at m a) m, hp)
           else ret (True, m, next_at m a))
     else coal_inner m hp a prev (next_at m b) b)"

partial_function (option) coal_outer :: "mem \<Rightarrow> u64 \<Rightarrow> u64 \<Rightarrow> u64 \<Rightarrow> (bool \<times> mem \<times> u64) run" where
  "coal_outer m hp a prev = (if a = 0 then ret (False, m, hp)
     else rbind (coal_inner m hp a prev hp 0) (\<lambda>(merged, m, hp).
       if merged then ret (True, m, hp) else coal_outer m hp (next_at m a) a))"

partial_function (option) coal_loop :: "mem \<Rightarrow> u64 \<Rightarrow> (mem \<times> u64) run" where
  "coal_loop m hp = rbind (coal_outer m hp hp 0) (\<lambda>(merged, m, hp).
     if merged then coal_loop m hp else ret (m, hp))"

definition coalesce_unsorted :: "alloc_state \<Rightarrow> alloc_state run" where
  "coalesce_unsorted s = rbind (coal_loop (mem s) (head s)) (\<lambda>(m, hp). ret (s\<lparr>mem := m, head := hp\<rparr>))"

section \<open>Allocation\<close>

text \<open>Lines 137 to 162: the first call, or a call after the last block was handed out.\<close>

definition alloc_first :: "cint \<Rightarrow> alloc_state \<Rightarrow> (u64 \<times> alloc_state) run" where
  "alloc_first sz s = (case sbrk INCREMENT s of (start, s1) \<Rightarrow>
     if start = - 1 then ret (0, s1)
     else let next_block = start + 16 + sext sz;
              m = set_next start 0 (set_size start (sext sz + 16) (mem s1));
              m = set_next next_block 0 (set_size next_block (INCREMENT - 32 - sext sz) m)
          in ret (start + 16, s1\<lparr>heap_origin := start, heap_end := brk s1, mem := m,
               head := next_block\<rparr>))"

text \<open>Lines 207 to 224: cutting the block at \<open>head\<close>.\<close>

definition alloc_cut :: "cint \<Rightarrow> alloc_state \<Rightarrow> (u64 \<times> alloc_state) run" where
  "alloc_cut sz s = (let block = head s; next_block = block + 16 + sext sz;
       m = set_size next_block (size_at (mem s) block - sext sz - 16) (mem s);
       m = set_next next_block 0 m;
       m = set_size block (sext sz + 16) m
     in if size_at m next_block = 0
        then ret (block + 16, s\<lparr>mem := set_size block (size_at m block + 16) m,
               head := next_block + 16\<rparr>)
        else ret (block + 16, s\<lparr>mem := m, head := next_block\<rparr>))"

text \<open>Lines 164 to 206; \<open>heap_end - heap_origin\<close> is a signed difference.\<close>

definition heap_span :: "alloc_state \<Rightarrow> int" where
  "heap_span s = sint (heap_end s - heap_origin s)"

definition alloc_bump :: "cint \<Rightarrow> alloc_state \<Rightarrow> (u64 \<times> alloc_state) run" where
  "alloc_bump sz s = (let free = size_at (mem s) (head s); n = sext sz;
       span = heap_span s; lim = sint (limit s)
     in if free < n \<and> span = lim then ret (0, s)
        else if n < free \<and> free < n + 16 * 2 \<and> span < lim
        then ret (head s + 16, s\<lparr>mem := set_size (head s) (free + 16) (mem s), head := 0\<rparr>)
        else if n < free \<and> free < n + 16 \<and> span = lim
        then ret (head s + 16, s\<lparr>head := 0\<rparr>)
        else if (span < lim \<and> free < n) \<or> (span < lim \<and> n \<le> free \<and> free < n + 16)
        then (case sbrk INCREMENT s of (res, s1) \<Rightarrow> if res = - 1 then ret (0, s1)
          else alloc_cut sz (s1\<lparr>heap_end := brk s1,
            mem := set_size (head s1) (size_at (mem s1) (head s1) + INCREMENT) (mem s1)\<rparr>))
        else alloc_cut sz s)"

text \<open>Lines 225 to 262: once \<open>dealloc\<close> has been called, blocks come from the free list.\<close>

definition find_fit :: "algs \<Rightarrow> mem \<Rightarrow> u64 \<Rightarrow> u64 \<Rightarrow> u64 run" where
  "find_fit g m p n = (case g of FIRST_FIT \<Rightarrow> find_first_fit m p n
     | BEST_FIT \<Rightarrow> find_best_fit m p n | WORST_FIT \<Rightarrow> find_worst_fit m p n)"

definition alloc_reuse :: "cint \<Rightarrow> alloc_state \<Rightarrow> (u64 \<times> alloc_state) run" where
  "alloc_reuse sz s = rbind (find_fit (alg s) (mem s) (head s) (sext sz + 16)) (\<lambda>temp.
     rbind (get_next (mem s) (head s) temp) (\<lambda>next_block.
       let new_block = temp + 16 + sext sz
       in if temp = 0 then fail NullDeref
          else if size_at (mem s) temp < sext sz + 16 then ret (temp + 16, s\<lparr>head := next_block\<rparr>)
          else let m = set_size new_block (size_at (mem s) temp - sext sz - 16) (mem s);
                   m = set_next new_block next_block m;
                   m = set_size temp (sext sz + 16) m
               in if temp = head s then ret (temp + 16, s\<lparr>mem := m, head := new_block\<rparr>)
                  else rbind (get_last m (head s) temp) (\<lambda>lst.
                    if lst = 0 then fail NullDeref
                    else ret (temp + 16, s\<lparr>mem := set_next lst new_block m\<rparr>))))"

definition alloc :: "cint \<Rightarrow> alloc_state \<Rightarrow> (u64 \<times> alloc_state) run" where
  "alloc sz s = (if \<not> deallocCalled s
     then if head s = 0 then alloc_first sz s else alloc_bump sz s
     else alloc_reuse sz s)"

section \<open>The rest of the interface\<close>

definition dealloc :: "u64 \<Rightarrow> alloc_state \<Rightarrow> alloc_state run" where
  "dealloc p s = (if p = 0 then ret s
     else let s = s\<lparr>deallocCalled := True\<rparr>; block = p - 16
          in if block = 0 then fail NullDeref
             else coalesce_unsorted (s\<lparr>mem := set_next block (head s) (mem s), head := block\<rparr>))"

partial_function (option) printinfo_loop ::
  "mem \<Rightarrow> u64 \<Rightarrow> (u64 \<times> u64 \<times> u64) list \<Rightarrow> (u64 \<times> u64 \<times> u64) list run" where
  "printinfo_loop m p out = (if p = 0 then ret out
     else printinfo_loop m (next_at m p) (out @ [(p, size_at m p, next_at m p)]))"

definition printinfo :: "alloc_state \<Rightarrow> (u64 \<times> u64 \<times> u64) list run" where
  "printinfo s = printinfo_loop (mem s) (head s) []"

definition resetalloc :: "alloc_state \<Rightarrow> alloc_state" where
  "resetalloc s = (if heap_origin s = 0 then s
     else let diff = brk s - heap_origin s;
              s = (if 0 < sint diff then snd (sbrk (- diff) s) else s)
          in s\<lparr>limit := 0, heap_origin := 0, heap_end := 0, head := 0, deallocCalled := False\<rparr>)"

definition allocopt :: "algs \<Rightarrow> cint \<Rightarrow> alloc_state \<Rightarrow> alloc_state" where
  "allocopt algopt sz s = (let s = resetalloc s
     in s\<lparr>alg := algopt, heap_origin := brk s, limit := sz, heap_end := brk s + sext sz\<rparr>)"

record allocinfo_t =
  free_size :: u64
  free_chunks :: u64
  largest_free_chunk_size :: u64
  smallest_free_chunk_size :: u64

partial_function (option) allocinfo_loop ::
  "mem \<Rightarrow> u64 \<Rightarrow> u64 \<Rightarrow> u64 \<Rightarrow> u64 \<Rightarrow> u64 \<Rightarrow> allocinfo_t run" where
  "allocinfo_loop m p cnt temp mn mx = (if p = 0
     then ret \<lparr>free_size = temp, free_chunks = cnt, largest_free_chunk_size = mx,
       smallest_free_chunk_size = mn\<rparr>
     else allocinfo_loop m (next_at m p) (cnt + 1) (temp + size_at m p)
       (if size_at m p < mn then size_at m p else mn) (if mx < size_at m p then size_at m p else mx))"

definition allocinfo :: "alloc_state \<Rightarrow> allocinfo_t run" where
  "allocinfo s = rbind (allocinfo_loop (mem s) (head s) 0 0 (- 1) 0) (\<lambda>i.
     let i = (if free_size i = 0 then i\<lparr>smallest_free_chunk_size := free_size i\<rparr> else i)
     in ret (if free_size i = sext (limit s) then i\<lparr>free_size := free_size i - 16\<rparr> else i))"

section \<open>One step of each loop\<close>

lemma get_last_loop_step [run_simps]:
  "get_last_loop m block 0 l = ret 0"
  "p \<noteq> 0 \<Longrightarrow> get_last_loop m block p l =
     (if p = block then ret l else get_last_loop m block (next_at m p) p)"
  by (subst get_last_loop.simps; simp)+

lemma find_first_fit_step [run_simps]:
  "find_first_fit m 0 n = ret 0"
  "p \<noteq> 0 \<Longrightarrow> find_first_fit m p n =
     (if n \<le> size_at m p then ret p else find_first_fit m (next_at m p) n)"
  by (subst find_first_fit.simps; simp)+

lemma get_next_step [run_simps]:
  "get_next m 0 b = ret 0"
  "p \<noteq> 0 \<Longrightarrow> get_next m p b = (if p = b then ret (next_at m p) else get_next m (next_at m p) b)"
  by (subst get_next.simps; simp)+

lemma find_best_loop_step [run_simps]:
  "find_best_loop m 0 n b bs = ret b"
  "p \<noteq> 0 \<Longrightarrow> find_best_loop m p n b bs =
     (if n \<le> size_at m p \<and> size_at m p < bs then find_best_loop m (next_at m p) n p (size_at m p)
      else find_best_loop m (next_at m p) n b bs)"
  by (subst find_best_loop.simps; simp)+

lemma find_worst_loop_step [run_simps]:
  "find_worst_loop m 0 n w ws = ret w"
  "p \<noteq> 0 \<Longrightarrow> find_worst_loop m p n w ws =
     (if n \<le> size_at m p \<and> ws < size_at m p then find_worst_loop m (next_at m p) n p (size_at m p)
      else find_worst_loop m (next_at m p) n w ws)"
  by (subst find_worst_loop.simps; simp)+

lemma coal_inner_0 [run_simps]: "coal_inner m hp a prev 0 b_prev = ret (False, m, hp)"
  by (subst coal_inner.simps) simp

lemma coal_inner_step [run_simps]:
  "b \<noteq> 0 \<Longrightarrow> coal_inner m hp a prev b b_prev =
     (if adjacent (a, size_at m a) (b, size_at m b) then
       (let m = set_size a (size_at m a + size_at m b) m
        in if b_prev \<noteq> 0 then ret (True, set_next b_prev (next_at m b) m, hp)
           else ret (True, m, next_at m b))
     else if adjacent (b, size_at m b) (a, size_at m a) then
       (let m = set_size b (size_at m b + size_at m a) m
        in if prev \<noteq> 0 then ret (True, set_next prev (next_at m a) m, hp)
           else ret (True, m, next_at m a))
     else coal_inner m hp a prev (next_at m b) b)"
proof -
  have e: "x + 16 + y = z + 16 \<longleftrightarrow> x + y = z" for x y z :: u64
  proof -
    have "x + 16 + y = (x + y) + 16" by (simp only: ac_simps)
    then show ?thesis by (simp only: add_right_cancel)
  qed
  assume b: "b \<noteq> 0"
  show ?thesis
    by (subst coal_inner.simps) (simp only: e adjacent_def fst_conv snd_conv b if_False eq_commute [of b a])
qed

lemma coal_outer_step [run_simps]:
  "coal_outer m hp 0 prev = ret (False, m, hp)"
  "a \<noteq> 0 \<Longrightarrow> coal_outer m hp a prev = rbind (coal_inner m hp a prev hp 0) (\<lambda>(merged, m, hp).
       if merged then ret (True, m, hp) else coal_outer m hp (next_at m a) a)"
  by (subst coal_outer.simps; simp)+

lemma printinfo_loop_step [run_simps]:
  "printinfo_loop m 0 out = ret out"
  "p \<noteq> 0 \<Longrightarrow> printinfo_loop m p out = printinfo_loop m (next_at m p) (out @ [(p, size_at m p, next_at m p)])"
  by (subst printinfo_loop.simps; simp)+

lemma allocinfo_loop_step [run_simps]:
  "allocinfo_loop m 0 c t mn mx = ret \<lparr>free_size = t, free_chunks = c,
     largest_free_chunk_size = mx, smallest_free_chunk_size = mn\<rparr>"
  "p \<noteq> 0 \<Longrightarrow> allocinfo_loop m p c t mn mx = allocinfo_loop m (next_at m p) (c + 1) (t + size_at m p)
     (if size_at m p < mn then size_at m p else mn) (if mx < size_at m p then size_at m p else mx)"
  by (subst allocinfo_loop.simps; simp)+

end
