(* ===== verification/Alloc_Coalesce.thy ===== *)
theory Alloc_Coalesce
  imports Alloc
begin

text \<open>
  The loops of \<open>lecture/test2/alloc.c\<close> on a well-formed free list: the searches compute
  the policies of \<open>Fit_Policy\<close>, and \<open>coalesce_unsorted\<close> computes \<open>coalesce\<close> of
  \<open>Free_List\<close>, writes nothing outside the headers of free blocks, and always returns.
\<close>

section \<open>Searches\<close>

definition or_null :: "u64 option \<Rightarrow> u64" where
  "or_null r = (case r of None \<Rightarrow> 0 | Some p \<Rightarrow> p)"

lemma or_null_simps [simp]: "or_null None = 0" "or_null (Some p) = p"
  by (simp_all add: or_null_def)

lemma find_first_fit_blks: "blks m p xs \<Longrightarrow> find_first_fit m p n = ret (or_null (first_pick xs n))"
  by (induction xs n arbitrary: p rule: first_pick.induct) (simp_all add: blks_Cons find_first_fit_step)

lemma find_best_loop_blks:
  "blks m p xs \<Longrightarrow> find_best_loop m p n (or_null b) bs = ret (or_null (best_loop b bs xs n))"
proof (induction b bs xs n arbitrary: p rule: best_loop.induct)
  case (2 b bs a s xs n)
  from 2(3) have "a = p" "a \<noteq> 0" "size_at m a = s" "blks m (next_at m a) xs"
    by (simp_all add: blks_Cons)
  with 2(1) [of "next_at m a"] 2(2) [of "next_at m a"] show ?case
    by (simp add: find_best_loop_step)
qed (simp add: find_best_loop_step)

lemma find_worst_loop_blks:
  "blks m p xs \<Longrightarrow> find_worst_loop m p n (or_null w) ws = ret (or_null (worst_loop w ws xs n))"
proof (induction w ws xs n arbitrary: p rule: worst_loop.induct)
  case (2 w ws a s xs n)
  from 2(3) have "a = p" "a \<noteq> 0" "size_at m a = s" "blks m (next_at m a) xs"
    by (simp_all add: blks_Cons)
  with 2(1) [of "next_at m a"] 2(2) [of "next_at m a"] show ?case
    by (simp add: find_worst_loop_step)
qed (simp add: find_worst_loop_step)

definition policy :: "algs \<Rightarrow> blk list \<Rightarrow> u64 \<Rightarrow> u64 option" where
  "policy g = (case g of FIRST_FIT \<Rightarrow> first_pick | BEST_FIT \<Rightarrow> best_pick | WORST_FIT \<Rightarrow> worst_pick)"

lemma find_fit_blks: "blks m p xs \<Longrightarrow> find_fit g m p n = ret (or_null (policy g xs n))"
  using find_best_loop_blks [of m p xs n None "- 1"] find_worst_loop_blks [of m p xs n None 0]
  by (cases g) (simp_all add: find_fit_def policy_def find_first_fit_blks find_best_fit_def
      find_worst_fit_def best_pick_def worst_pick_def)

text \<open>Whatever policy is set, the contract of the policies holds.\<close>

interpretation fit: fit_policy "policy g :: blk list \<Rightarrow> u64 \<Rightarrow> u64 option"
proof
  show "policy g xs n = Some a \<Longrightarrow> \<exists>s. (a, s) \<in> set xs \<and> n \<le> s" for xs :: "blk list" and n a
    by (cases g) (simp_all add: policy_def first_fit.sound best_fit.sound worst_fit.sound)
  show "0 < n \<Longrightarrow> (a, s) \<in> set xs \<Longrightarrow> n \<le> s \<Longrightarrow> s \<noteq> - 1 \<Longrightarrow> policy g xs n \<noteq> None"
    for xs :: "blk list" and n a s
    by (cases g) (simp_all add: policy_def first_fit.complete best_fit.complete worst_fit.complete
        del: not_None_eq)
qed

definition prev_of :: "blk list \<Rightarrow> u64" where
  "prev_of us = (if us = [] then 0 else fst (last us))"

lemma prev_of_simps [simp]: "prev_of [] = 0" "prev_of (us @ [x]) = fst x"
  by (simp_all add: prev_of_def)

lemma get_next_blks: "blks m p (us @ (t, s) # vs) \<Longrightarrow> get_next m p t = ret (next_at m t)"
  by (induction us arbitrary: p) (auto simp: blks_Cons get_next_step dest: apart_neq)

lemma get_next_missing: "blks m p xs \<Longrightarrow> t \<notin> fst ` set xs \<Longrightarrow> get_next m p t = ret 0"
  by (induction xs arbitrary: p) (auto simp: blks_Cons get_next_step)

lemma get_last_loop_blks:
  "blks m p (us @ (t, s) # vs) \<Longrightarrow>
     get_last_loop m t p l = ret (if us = [] then l else prev_of us)"
proof (induction us arbitrary: p l)
  case Nil
  then show ?case by (simp add: blks_Cons get_last_loop_step)
next
  case (Cons x us)
  obtain a v where x: "x = (a, v)" by (cases x)
  from Cons.prems x have "p = a" "a \<noteq> 0" "apart a t" and b: "blks m (next_at m a) (us @ (t, s) # vs)"
    by (auto simp: blks_Cons)
  moreover from this have "a \<noteq> t" by (auto dest: apart_neq)
  ultimately show ?case using Cons.IH [OF b, of a] x
    by (simp add: get_last_loop_step prev_of_def)
qed

lemma get_last_blks: "blks m hp (us @ (t, s) # vs) \<Longrightarrow> get_last m hp t = ret (prev_of us)"
  by (simp add: get_last_def get_last_loop_blks)

section \<open>One merge\<close>

lemma fst_set_put_size [simp]: "fst ` set (put_size a v xs) = fst ` set xs"
  by (metis fst_put_size set_map)

lemma absorb_removes:
  assumes "distinct (map fst (us @ (b, t) # vs))"
  shows "absorb (a, s) (b, t) (us @ (b, t) # vs) = put_size a (s + t) us @ put_size a (s + t) vs"
proof -
  from assms have "b \<notin> fst ` set us" "b \<notin> fst ` set vs" by auto
  then show ?thesis by (simp add: absorb_def)
qed

text \<open>Growing \<open>a\<close> and unlinking \<open>b\<close>, as both branches of the inner loop do.\<close>

lemma merge_memory:
  assumes b: "blks m hp (us @ (b, t) # vs)" and a: "(a, s) \<in> set (us @ (b, t) # vs)" and ne: "a \<noteq> b"
    and m1: "m1 = set_size a (s + t) m"
  shows "us = [] \<Longrightarrow> blks m1 (next_at m1 b) (absorb (a, s) (b, t) (us @ (b, t) # vs))"
    and "us \<noteq> [] \<Longrightarrow> blks (set_next (prev_of us) (next_at m1 b) m1) hp
      (absorb (a, s) (b, t) (us @ (b, t) # vs))"
    and "us \<noteq> [] \<Longrightarrow> prev_of us \<noteq> 0"
proof -
  have "a \<in> fst ` set (us @ (b, t) # vs)" using a by force
  then have g: "blks m1 hp (put_size a (s + t) us @ (b, t) # put_size a (s + t) vs)"
    using blks_set_size [OF b, of a "s + t"] m1 ne by simp
  have e: "absorb (a, s) (b, t) (us @ (b, t) # vs) = put_size a (s + t) us @ put_size a (s + t) vs"
    by (rule absorb_removes [OF blks_distinct [OF b]])
  show "us = [] \<Longrightarrow> blks m1 (next_at m1 b) (absorb (a, s) (b, t) (us @ (b, t) # vs))"
    using g e blks_unlink_head by simp
  assume "us \<noteq> []"
  then obtain us' p v where us: "us = us' @ [(p, v)]" by (cases us rule: rev_cases) auto
  with g have "blks (set_next p (next_at m1 b) m1) hp
      (put_size a (s + t) us' @ (p, if p = a then s + t else v) # put_size a (s + t) vs)"
    by (intro blks_unlink [where s = t]) simp
  then show "blks (set_next (prev_of us) (next_at m1 b) m1) hp
      (absorb (a, s) (b, t) (us @ (b, t) # vs))"
    using e us by simp
  show "prev_of us \<noteq> 0" using b us blks_size [of m hp _ p v] by force
qed

definition same_outside :: "u64 set \<Rightarrow> mem \<Rightarrow> mem \<Rightarrow> bool" where
  "same_outside S m m' \<longleftrightarrow> (\<forall>q. q \<notin> S \<longrightarrow> m' q = m q)"

lemma same_outside_refl [simp]: "same_outside S m m"
  by (simp add: same_outside_def)

lemma same_outside_trans:
  "same_outside S m m' \<Longrightarrow> same_outside T m' m'' \<Longrightarrow> T \<subseteq> S \<Longrightarrow> same_outside S m m''"
  by (auto simp: same_outside_def)

lemma same_outside_size: "header_bytes p \<subseteq> S \<Longrightarrow> same_outside S m m' \<Longrightarrow> same_outside S m (set_size p v m')"
  unfolding same_outside_def by (metis set_size_other subsetD)

lemma same_outside_next: "header_bytes p \<subseteq> S \<Longrightarrow> same_outside S m m' \<Longrightarrow> same_outside S m (set_next p v m')"
  unfolding same_outside_def by (metis set_next_other subsetD)

lemma header_area_mem: "p \<in> fst ` set xs \<Longrightarrow> header_bytes p \<subseteq> header_area xs"
  by (auto simp: header_area_def)

text \<open>\<open>merged_to m xs r ys\<close>: the result \<open>r\<close> is a merge of the free list \<open>xs\<close> into \<open>ys\<close>.\<close>

definition merged_to :: "mem \<Rightarrow> blk list \<Rightarrow> (bool \<times> mem \<times> u64) run \<Rightarrow> blk list \<Rightarrow> bool" where
  "merged_to m xs r ys \<longleftrightarrow> (\<exists>m' hp'. r = ret (True, m', hp') \<and> blks m' hp' ys
     \<and> same_outside (header_area xs) m m')"

lemma merge_branch:
  assumes b: "blks m hp (us @ (b, t) # vs)" and a: "(a, s) \<in> set (us @ (b, t) # vs)" and ne: "a \<noteq> b"
  shows "merged_to m (us @ (b, t) # vs)
    (let m = set_size a (s + t) m
     in if prev_of us \<noteq> 0 then ret (True, set_next (prev_of us) (next_at m b) m, hp)
        else ret (True, m, next_at m b))
    (absorb (a, s) (b, t) (us @ (b, t) # vs))"
proof -
  define m1 where "m1 = set_size a (s + t) m"
  note mm = merge_memory [OF b a ne m1_def]
  have sa: "same_outside (header_area (us @ (b, t) # vs)) m m1"
    unfolding m1_def using a by (intro same_outside_size header_area_mem) force+
  show ?thesis
  proof (cases "us = []")
    case True
    with mm(1) sa show ?thesis by (simp add: merged_to_def Let_def m1_def)
  next
    case False
    then have "prev_of us \<in> fst ` set (us @ (b, t) # vs)" by (simp add: prev_of_def)
    then have "same_outside (header_area (us @ (b, t) # vs)) m (set_next (prev_of us) (next_at m1 b) m1)"
      by (intro same_outside_next header_area_mem sa)
    with mm(2,3) False show ?thesis by (simp add: merged_to_def Let_def m1_def)
  qed
qed

section \<open>The loops\<close>

lemma coal_inner_blks:
  assumes all: "blks m hp (us @ bs)" "us @ bs = as @ (a, s) # cs" and b: "b = (if bs = [] then 0 else fst (List.hd bs))"
  shows "case merge_with (a, s) bs (us @ bs) of
      None \<Rightarrow> coal_inner m hp a (prev_of as) b (prev_of us) = ret (False, m, hp)
    | Some ys \<Rightarrow> merged_to m (us @ bs) (coal_inner m hp a (prev_of as) b (prev_of us)) ys"
  using assms
proof (induction bs arbitrary: us b)
  case Nil
  then show ?case by (simp add: coal_inner_0)
next
  case (Cons x bs)
  obtain c t where x: "x = (c, t)" by (cases x)
  let ?all = "us @ (c, t) # bs"
  have all: "blks m hp ?all" and eq: "?all = as @ (a, s) # cs" and b: "b = c"
    using Cons.prems x by simp_all
  have mem: "(a, s) \<in> set ?all" unfolding eq by simp
  then have sz: "size_at m a = s" "size_at m c = t" "c \<noteq> 0"
    using blks_size [OF all, of a s] blks_size [OF all, of c t] by simp_all
  note step = coal_inner_step [OF sz(3), of m hp a "prev_of as" "prev_of us", unfolded sz(1,2)]
  show ?case
  proof (cases "adjacent (a, s) (c, t) \<or> adjacent (c, t) (a, s)")
    case True
    then have ne: "a \<noteq> c" by (auto simp: adjacent_def)
    show ?thesis
    proof (cases "adjacent (a, s) (c, t)")
      case fwd: True
      then show ?thesis using merge_branch [OF all mem ne] x b by (simp add: step)
    next
      case False
      have all': "blks m hp (as @ (a, s) # cs)" and mem': "(c, t) \<in> set (as @ (a, s) # cs)"
        using all eq by (simp, metis in_set_conv_decomp)
      from True False show ?thesis
        using merge_branch [OF all' mem' ne [symmetric]] x b eq by (simp add: step)
    qed
  next
    case False
    from all have nx: "next_at m c = (if bs = [] then 0 else fst (List.hd bs))"
      by (cases bs) (auto simp: blks_def)
    have "case merge_with (a, s) bs ((us @ [(c, t)]) @ bs) of
        None \<Rightarrow> coal_inner m hp a (prev_of as) (next_at m c) (prev_of (us @ [(c, t)])) = ret (False, m, hp)
      | Some ys \<Rightarrow> merged_to m ((us @ [(c, t)]) @ bs)
          (coal_inner m hp a (prev_of as) (next_at m c) (prev_of (us @ [(c, t)]))) ys"
      using all eq nx by (intro Cons.IH) simp_all
    with False x b show ?thesis by (simp add: step cong: option.case_cong)
  qed
qed

lemma coal_outer_blks:
  assumes "blks m hp (as @ bs)" "a = (if bs = [] then 0 else fst (List.hd bs))"
  shows "case merge_any bs (as @ bs) of
      None \<Rightarrow> coal_outer m hp a (prev_of as) = ret (False, m, hp)
    | Some ys \<Rightarrow> merged_to m (as @ bs) (coal_outer m hp a (prev_of as)) ys"
  using assms
proof (induction bs arbitrary: as a)
  case Nil
  then show ?case by (simp add: coal_outer_step)
next
  case (Cons x bs)
  obtain c t where x: "x = (c, t)" by (cases x)
  let ?all = "as @ (c, t) # bs"
  from Cons.prems x have all: "blks m hp ?all" and a: "a = c" by simp_all
  from blks_size [OF all, of c t] have c: "c \<noteq> 0" by simp
  have hp: "hp = (if ?all = [] then 0 else fst (List.hd ?all))"
    using all by (cases as) (auto simp: blks_def)
  have inner: "case merge_with (c, t) ?all ?all of
      None \<Rightarrow> coal_inner m hp c (prev_of as) hp 0 = ret (False, m, hp)
    | Some ys \<Rightarrow> merged_to m ?all (coal_inner m hp c (prev_of as) hp 0) ys"
    using coal_inner_blks [of m hp "[]" ?all as c t bs hp, unfolded append_Nil prev_of_simps] all hp
    by blast
  from all have nx: "next_at m c = (if bs = [] then 0 else fst (List.hd bs))"
    by (cases bs) (auto simp: blks_def)
  have outer: "case merge_any bs ((as @ [(c, t)]) @ bs) of
      None \<Rightarrow> coal_outer m hp (next_at m c) (prev_of (as @ [(c, t)])) = ret (False, m, hp)
    | Some ys \<Rightarrow> merged_to m ((as @ [(c, t)]) @ bs) (coal_outer m hp (next_at m c) (prev_of (as @ [(c, t)]))) ys"
    using all nx by (intro Cons.IH) simp_all
  show ?case
  proof (cases "merge_with (c, t) ?all ?all")
    case None
    with inner have "coal_outer m hp c (prev_of as) = coal_outer m hp (next_at m c) c"
      by (simp add: coal_outer_step(2) [OF c])
    with None outer x a show ?thesis by (simp cong: option.case_cong)
  next
    case (Some ys)
    with inner x a show ?thesis by (auto simp: coal_outer_step(2) [OF c] merged_to_def)
  qed
qed

theorem coal_loop_blks:
  "blks m hp xs \<Longrightarrow> \<exists>m' hp'. coal_loop m hp = ret (m', hp') \<and> blks m' hp' (coalesce xs)
     \<and> same_outside (header_area xs) m m'"
proof (induction xs arbitrary: m hp rule: coalesce.induct)
  case (1 xs)
  have "hp = (if xs = [] then 0 else fst (List.hd xs))"
    using 1(2) by (cases xs) (auto simp: blks_def)
  with coal_outer_blks [of m hp "[]" xs hp, unfolded append_Nil prev_of_simps] 1(2)
  have outer: "case merge_any xs xs of None \<Rightarrow> coal_outer m hp hp 0 = ret (False, m, hp)
    | Some ys \<Rightarrow> merged_to m xs (coal_outer m hp hp 0) ys" by blast
  show ?case
  proof (cases "merge_any xs xs")
    case None
    with outer 1(2) show ?thesis by (subst coal_loop.simps) (simp add: coalesce.simps [of xs])
  next
    case (Some ys)
    with outer obtain m1 hp1 where o: "coal_outer m hp hp 0 = ret (True, m1, hp1)" "blks m1 hp1 ys"
      "same_outside (header_area xs) m m1" by (auto simp: merged_to_def)
    from 1(1) [OF Some o(2)] obtain m' hp' where l: "coal_loop m1 hp1 = ret (m', hp')"
      "blks m' hp' (coalesce ys)" "same_outside (header_area ys) m1 m'" by blast
    from Some obtain x y where "ys = absorb x y xs" by (rule merge_any_Some) simp
    then have "set (map fst ys) \<subseteq> set (map fst xs)" by (auto simp only: fst_absorb set_filter)
    then have "header_area ys \<subseteq> header_area xs" by (force simp: header_area_def)
    with o l have "same_outside (header_area xs) m m'" by (meson same_outside_trans)
    with o l Some show ?thesis
      by (subst coal_loop.simps) (simp add: coalesce.simps [of xs])
  qed
qed

end
