(* ===== verification/Alloc_Ops.thy ===== *)
theory Alloc_Ops
  imports Alloc_Coalesce
begin

text \<open>
  The operations of \<open>lecture/test2/alloc.c\<close> on a well-formed free list: what \<open>dealloc\<close>
  adds, what an allocation from the free list removes, what \<open>allocinfo\<close> counts.
\<close>

section \<open>Giving back a block\<close>

lemma coalesce_unsorted_blks:
  assumes "blks (mem s) (head s) xs"
  obtains s' where "coalesce_unsorted s = ret s'" "blks (mem s') (head s') (coalesce xs)"
    "same_outside (header_area xs) (mem s) (mem s')" "s' = s\<lparr>mem := mem s', head := head s'\<rparr>"
proof -
  from coal_loop_blks [OF assms] obtain m' hp' where
    "coal_loop (mem s) (head s) = ret (m', hp')" "blks m' hp' (coalesce xs)"
    "same_outside (header_area xs) (mem s) m'" by blast
  then show thesis
    by (intro that [of "s\<lparr>mem := m', head := hp'\<rparr>"]) (simp_all add: coalesce_unsorted_def)
qed

text \<open>
  Property C15. \<open>coalesce_unsorted\<close> returns on every well-formed free list. The resulting list
  is well formed, no block of it ends where another begins, it holds the same number of
  bytes and covers exactly the same addresses, and no byte outside the headers of the free
  blocks is written.
\<close>

theorem coalesce_unsorted_correct:
  assumes "blks (mem s) (head s) xs" "in_space xs"
  shows "\<exists>s' ys. coalesce_unsorted s = ret s' \<and> blks (mem s') (head s') ys
    \<and> (\<forall>x \<in> set ys. \<forall>y \<in> set ys. \<not> adjacent x y)
    \<and> total ys = total xs \<and> covered ys = covered xs \<and> in_space ys
    \<and> (\<forall>q. q \<notin> header_area xs \<longrightarrow> mem s' q = mem s q)"
proof -
  from coalesce_unsorted_blks [OF assms(1)] obtain s' where s': "coalesce_unsorted s = ret s'"
    "blks (mem s') (head s') (coalesce xs)" "same_outside (header_area xs) (mem s) (mem s')" by metis
  have "merged_from xs (coalesce xs)" by (rule coalesce_preserves [OF blks_distinct [OF assms(1)]])
  with s' assms(2) show ?thesis
    by (intro exI [of _ s'] exI [of _ "coalesce xs"])
      (simp add: merged_from_def coalesce_no_adjacent same_outside_def)
qed

text \<open>
  Property C19. \<open>dealloc\<close> of a block whose header shares no byte with the headers of the free
  blocks returns; the free list then covers the block as well, its size has grown by the
  block's, no two blocks of it are adjacent, and allocations are served from it from now on.
\<close>

theorem dealloc_correct:
  assumes b: "blks (mem s) (head s) xs" and p: "p \<noteq> 0" "p - 16 \<noteq> 0"
    and ap: "\<forall>a \<in> fst ` set xs. apart (p - 16) a"
    and sp: "in_space ((p - 16, size_at (mem s) (p - 16)) # xs)"
  shows "\<exists>s' ys. dealloc p s = ret s' \<and> blks (mem s') (head s') ys \<and> deallocCalled s'
    \<and> (\<forall>x \<in> set ys. \<forall>y \<in> set ys. \<not> adjacent x y)
    \<and> total ys = total xs + size_at (mem s) (p - 16)
    \<and> covered ys = covered xs \<union> region (p - 16, size_at (mem s) (p - 16)) \<and> in_space ys"
proof -
  let ?x = "(p - 16, size_at (mem s) (p - 16))"
  let ?s = "s\<lparr>deallocCalled := True, mem := set_next (p - 16) (head s) (mem s), head := p - 16\<rparr>"
  have d: "dealloc p s = coalesce_unsorted ?s"
    using p by (simp add: dealloc_def Let_def)
  have bl: "blks (mem ?s) (head ?s) (?x # xs)" using blks_push [OF b p(2) ap] by simp
  from coalesce_unsorted_blks [OF bl] obtain s' where s': "coalesce_unsorted ?s = ret s'"
    "blks (mem s') (head s') (coalesce (?x # xs))" "s' = ?s\<lparr>mem := mem s', head := head s'\<rparr>" by metis
  have "deallocCalled s'" by (subst s'(3)) simp
  moreover have "merged_from (?x # xs) (coalesce (?x # xs))"
    by (rule coalesce_preserves [OF blks_distinct [OF bl]])
  ultimately show ?thesis using s'(1,2) d sp
    by (intro exI [of _ s'] exI [of _ "coalesce (?x # xs)"])
      (simp add: merged_from_def coalesce_no_adjacent Un_commute)
qed

section \<open>Allocation from the free list\<close>

lemma word_add_0_right: "(a :: u64) + 16 + b = a + (b + 16)"
  by simp

text \<open>Cutting the block \<open>t\<close> of a list: the rest \<open>c\<close> takes its place.\<close>

lemma cut_memory:
  assumes b: "blks m hp (us @ (t, st) # vs)" and c: "c \<noteq> 0" "\<forall>a \<in> fst ` set (us @ (t, st) # vs). apart c a"
    and m3: "m3 = set_size t n (set_next c (next_at m t) (set_size c v m))"
  shows "blks m3 hp (us @ (t, n) # vs)"
    and "us = [] \<Longrightarrow> blks m3 c ((c, v) # vs)"
    and "us \<noteq> [] \<Longrightarrow> blks (set_next (prev_of us) c m3) hp (us @ (c, v) # vs)"
    and "us \<noteq> [] \<Longrightarrow> prev_of us \<noteq> 0 \<and> apart (prev_of us) t"
    and "size_at m3 t = n" "size_at m3 c = v"
proof -
  let ?all = "us @ (t, st) # vs"
  have cb: "q \<notin> header_bytes c" if "q \<in> header_area ?all" for q
    using that c(2) unfolding header_area_def apart_def by blast
  have m2: "blks (set_next c (next_at m t) (set_size c v m)) hp ?all"
    by (rule blks_cong [OF b]) (simp add: cb set_size_other set_next_other)
  from blks_distinct [OF b] have d: "t \<notin> fst ` set us" "t \<notin> fst ` set vs" by auto
  show m3': "blks m3 hp (us @ (t, n) # vs)"
    using blks_set_size [OF m2, of t n] d m3 by simp
  from c(2) have ct: "apart c t" "apart t c" by (simp_all add: apart_sym)
  have nx: "next_at m3 c = next_at m t" "next_at m3 t = next_at m t" "size_at m3 c = v"
    using ct unfolding m3 by simp_all
  then show "size_at m3 t = n" "size_at m3 c = v" unfolding m3 by simp_all
  show "us = [] \<Longrightarrow> blks m3 c ((c, v) # vs)"
    using m3' c nx by (simp add: blks_Cons)
  assume "us \<noteq> []"
  then obtain us' p w where us: "us = us' @ [(p, w)]" by (cases us rule: rev_cases) auto
  have "blks (set_next p c m3) hp (us' @ (p, w) # (c, v) # vs)"
    using m3' us c nx by (intro blks_relink [where b = t and s = n]) auto
  then show "blks (set_next (prev_of us) c m3) hp (us @ (c, v) # vs)" using us by simp
  show "prev_of us \<noteq> 0 \<and> apart (prev_of us) t"
    using us blks_size [OF b, of p w] blks_apart [OF b, of p] by (auto intro: apart_sym)
qed

lemma alloc_reuse_split:
  assumes b: "blks (mem s) (head s) (us @ (t, st) # vs)" (is "blks _ _ ?xs")
    and pk: "policy (alg s) (us @ (t, st) # vs) (sext sz + 16) = Some t"
    and n: "n = sext sz + 16" "n \<le> st"
    and c: "t + n \<noteq> 0" "\<forall>a \<in> fst ` set (us @ (t, st) # vs). apart (t + n) a"
  shows "\<exists>s'. alloc_reuse sz s = ret (t + 16, s') \<and> blks (mem s') (head s') (us @ (t + n, st - n) # vs)
    \<and> size_at (mem s') t = n \<and> size_at (mem s') (t + n) = st - n
    \<and> s' = s\<lparr>mem := mem s', head := head s'\<rparr>"
proof -
  define m3 where "m3 = set_size t n (set_next (t + n) (next_at (mem s) t) (set_size (t + n) (st - n) (mem s)))"
  note cm = cut_memory [OF b c m3_def]
  from blks_size [OF b, of t st] have t: "t \<noteq> 0" "size_at (mem s) t = st" by simp_all
  have eq: "t + 16 + sext sz = t + n" "st - sext sz - 16 = st - n" using n by simp_all
  have "apart t (t + n)" using c(2) by (simp add: apart_sym)
  then have ap: "apart (t + n) t" by (rule apart_sym)
  have fnd: "find_fit (alg s) (mem s) (head s) n = ret t"
    using pk find_fit_blks [OF b, of "alg s" n] n(1) by simp
  have lt: "(st < n) = False" using n(2) by simp
  have start: "alloc_reuse sz s = (if t = head s then ret (t + 16, s\<lparr>mem := m3, head := t + n\<rparr>)
      else rbind (get_last m3 (head s) t) (\<lambda>p. if p = 0 then fail NullDeref
        else ret (t + 16, s\<lparr>mem := set_next p (t + n) m3\<rparr>)))"
    unfolding alloc_reuse_def n(1) [symmetric]
    by (simp only: fnd get_next_blks [OF b] rbind_ret Let_def eq t lt if_False m3_def)
  show ?thesis
  proof (cases "us = []")
    case True
    with b have "head s = t" by (simp add: blks_Cons)
    with start cm True show ?thesis
      by (intro exI [of _ "s\<lparr>mem := m3, head := t + n\<rparr>"]) simp
  next
    case False
    then obtain a w us' where us: "us = (a, w) # us'" by (cases us) auto
    with b have hd: "head s = a" "apart a t" by (auto simp: blks_Cons)
    then have "t \<noteq> head s" by (auto dest: apart_neq)
    moreover have "get_last m3 (head s) t = ret (prev_of us)" by (rule get_last_blks [OF cm(1)])
    moreover from False have "prev_of us \<in> fst ` set us" by (simp add: prev_of_def)
    then have "apart (t + n) (prev_of us)" by (intro bspec [OF c(2)]) (simp add: image_Un)
    then have "apart (prev_of us) (t + n)" by (rule apart_sym)
    ultimately show ?thesis using start cm(3,4,5,6) False
      by (intro exI [of _ "s\<lparr>mem := set_next (prev_of us) (t + n) m3\<rparr>"]) simp
  qed
qed

text \<open>
  Property C17. An allocation served from the free list takes the block the policy picks and
  returns the address behind its header. The block is given the size asked for (header
  included); the rest of it takes its place in the list, so the list loses exactly that
  size. The hypothesis is that the rest has room for a header of its own.
\<close>

theorem alloc_reuse_correct:
  assumes m: "deallocCalled s" and b: "blks (mem s) (head s) xs" and n: "n = sext sz + 16"
    and pk: "policy (alg s) xs n = Some t"
    and room: "t + n \<noteq> 0" "\<forall>a \<in> fst ` set xs. apart (t + n) a"
  shows "\<exists>s' us st vs. alloc sz s = ret (t + 16, s') \<and> xs = us @ (t, st) # vs \<and> n \<le> st
    \<and> blks (mem s') (head s') (us @ (t + n, st - n) # vs)
    \<and> size_at (mem s') t = n \<and> total (us @ (t + n, st - n) # vs) = total xs - n"
proof -
  from fit.pick_split [OF pk blks_distinct [OF b]] obtain us st vs
    where xs: "xs = us @ (t, st) # vs" "n \<le> st" by metis
  have b': "blks (mem s) (head s) (us @ (t, st) # vs)" using b unfolding xs(1) .
  have pk': "policy (alg s) (us @ (t, st) # vs) (sext sz + 16) = Some t" using pk n xs(1) by simp
  have r: "\<forall>a \<in> fst ` set (us @ (t, st) # vs). apart (t + n) a" using room(2) unfolding xs(1) .
  from alloc_reuse_split [OF b' pk' n xs(2) room(1) r] obtain s'
    where "alloc_reuse sz s = ret (t + 16, s')" "blks (mem s') (head s') (us @ (t + n, st - n) # vs)"
      "size_at (mem s') t = n" by blast
  moreover have "total (us @ (t + n, st - n) # vs) = total xs - n" using xs(1) by simp
  ultimately show ?thesis using m xs by (auto simp: alloc_def)
qed

text \<open>
  Property C35. Once \<open>dealloc\<close> has been called, an allocation that no free block can serve
  dereferences \<open>NULL\<close> instead of returning it.
\<close>

theorem alloc_reuse_no_fit_faults:
  assumes "deallocCalled s" "blks (mem s) (head s) xs"
    and "\<forall>(a, t) \<in> set xs. t < sext sz + 16"
  shows "alloc sz s = fail NullDeref"
proof -
  have "policy (alg s) xs (sext sz + 16) = None"
    using fit.sound [of "alg s" xs "sext sz + 16"] assms(3)
    by (cases "policy (alg s) xs (sext sz + 16)") fastforce+
  moreover have "0 \<notin> fst ` set xs" using assms(2) blks_size by fastforce
  ultimately show ?thesis
    using assms find_fit_blks [OF assms(2)] get_next_missing [OF assms(2)]
    by (simp add: alloc_def alloc_reuse_def)
qed

text \<open>
  Property C36. A block that fits exactly leaves no room for the header of a rest, which is
  written all the same: the sixteen bytes behind the block, where the header of the next
  block in memory lies, are overwritten with a size of 0.
\<close>

theorem alloc_reuse_exact_fit_overwrites:
  assumes m: "deallocCalled s" and b: "blks (mem s) (head s) xs"
    and pk: "policy (alg s) xs (sext sz + 16) = Some t" and e: "size_at (mem s) t = sext sz + 16"
    and nf: "t + size_at (mem s) t \<noteq> 0" "\<forall>a \<in> fst ` set xs. apart (t + size_at (mem s) t) a"
  shows "\<exists>s'. alloc sz s = ret (t + 16, s') \<and> size_at (mem s') (t + size_at (mem s) t) = 0"
proof -
  from fit.pick_split [OF pk blks_distinct [OF b]] obtain us st vs
    where xs: "xs = us @ (t, st) # vs" by metis
  have b': "blks (mem s) (head s) (us @ (t, st) # vs)" using b unfolding xs .
  from blks_size [OF b', of t st] have st: "size_at (mem s) t = st" by simp
  have pk': "policy (alg s) (us @ (t, st) # vs) (sext sz + 16) = Some t" using pk xs by simp
  have le: "st \<le> st" by simp
  have n: "st = sext sz + 16" using e st by simp
  have nf': "t + st \<noteq> 0" "\<forall>a \<in> fst ` set (us @ (t, st) # vs). apart (t + st) a"
    using nf unfolding st xs by simp_all
  from alloc_reuse_split [OF b' pk' n le nf'] m show ?thesis
    by (auto simp: alloc_def st)
qed

section \<open>Statistics\<close>

fun min_size :: "u64 \<Rightarrow> blk list \<Rightarrow> u64" where
  "min_size v [] = v"
| "min_size v ((a, s) # xs) = min_size (if s < v then s else v) xs"

fun max_size :: "u64 \<Rightarrow> blk list \<Rightarrow> u64" where
  "max_size v [] = v"
| "max_size v ((a, s) # xs) = max_size (if v < s then s else v) xs"

lemma if_min: "(if s < v then s else v) = min v s" for s v :: u64
  by (auto simp: min_def)

lemma if_max: "(if v < s then s else v) = max v s" for s v :: u64
  by (auto simp: max_def)

lemma min_size_Min: "min_size v xs = Min (insert v (snd ` set xs))"
proof (induction v xs rule: min_size.induct)
  case (2 v a s xs)
  have "Min (insert (min v s) (snd ` set xs)) = Min (insert v (insert s (snd ` set xs)))"
    by (cases "xs = []") (simp_all add: min.assoc)
  with 2 show ?case by (simp add: if_min)
qed simp

lemma max_size_Max: "max_size v xs = Max (insert v (snd ` set xs))"
proof (induction v xs rule: max_size.induct)
  case (2 v a s xs)
  have "Max (insert (max v s) (snd ` set xs)) = Max (insert v (insert s (snd ` set xs)))"
    by (cases "xs = []") (simp_all add: max.assoc)
  with 2 show ?case by (simp add: if_max)
qed simp

lemma allocinfo_loop_blks:
  "blks m p xs \<Longrightarrow> allocinfo_loop m p c t mn mx = ret \<lparr>free_size = t + total xs,
     free_chunks = c + of_nat (length xs), largest_free_chunk_size = max_size mx xs,
     smallest_free_chunk_size = min_size mn xs\<rparr>"
proof (induction xs arbitrary: p c t mn mx)
  case (Cons x xs)
  obtain a s where x: "x = (a, s)" by (cases x)
  with Cons show ?case by (simp add: blks_Cons allocinfo_loop_step add.assoc)
qed (simp add: allocinfo_loop_step)

text \<open>
  \<open>allocinfo\<close> returns, on every well-formed free list, the number of its blocks,
  their total size, the largest and the smallest size. When the total is 0 the smallest
  is 0; when it equals the limit a header is taken off the total.
\<close>

theorem allocinfo_correct:
  assumes "blks (mem s) (head s) xs" "xs \<noteq> []" "total xs \<noteq> 0" "total xs \<noteq> sext (limit s)"
  shows "allocinfo s = ret \<lparr>free_size = sum_list (map snd xs), free_chunks = of_nat (length xs),
    largest_free_chunk_size = Max (snd ` set xs), smallest_free_chunk_size = Min (snd ` set xs)\<rparr>"
proof -
  have "snd ` set xs \<noteq> {}" using assms(2) by simp
  then have "Max (insert 0 (snd ` set xs)) = Max (snd ` set xs)"
    "Min (insert (- 1) (snd ` set xs)) = Min (snd ` set xs)" by (simp_all add: min_absorb2 [OF word_order.extremum])
  with assms allocinfo_loop_blks [OF assms(1)] show ?thesis
    by (simp add: allocinfo_def total_def max_size_Max min_size_Min)
qed

section \<open>A heap with two free blocks\<close>

text \<open>
  Free blocks of 64 bytes at 4096 and of \<open>n\<close> bytes at 4160, in the reverse order of their
  addresses, and a block in use of 24 bytes at 4288.
\<close>

definition demo_heap :: "u64 \<Rightarrow> alloc_state" where
  "demo_heap n = \<lparr>limit = 512, alg = BEST_FIT, head = 4160, heap_origin = 4096, heap_end = 4608,
     deallocCalled = True, mem = set_size 4288 24 (set_next 4160 4096 (set_size 4160 n (set_size 4096 64 (\<lambda>_. 0)))),
     brk = 4608, brk_max = 65536\<rparr>"

lemma zero_memory [simp]: "load_le n (\<lambda>_. 0) p = 0"
  by (induction n arbitrary: p) simp_all

lemma demo_heap: "blks (mem (demo_heap n)) (head (demo_heap n)) [(4160, n), (4096, 64)]"
proof -
  have z: "size_at (\<lambda>_. 0) p = 0" "next_at (\<lambda>_. 0) p = 0" for p
    by (simp_all add: size_at_def next_at_def)
  show ?thesis by (simp add: blks_Cons demo_heap_def apart_iff z)
qed

theorem coalesce_unsorted_correct_witness: "\<exists>s' ys. coalesce_unsorted (demo_heap 32) = ret s'
    \<and> blks (mem s') (head s') ys \<and> total ys = 96"
  using coalesce_unsorted_correct [OF demo_heap, of 32] by (auto simp: in_space_def)

lemma demo_heap_sizes [simp]:
  "size_at (mem (demo_heap n)) 4160 = n" "size_at (mem (demo_heap n)) 4288 = 24"
  using blks_size [OF demo_heap, of 4160 n n] by (simp_all add: demo_heap_def apart_iff)

lemma demo_heap_fields [simp]: "deallocCalled (demo_heap n)" "alg (demo_heap n) = BEST_FIT"
  "limit (demo_heap n) = 512"
  by (simp_all add: demo_heap_def)

theorem dealloc_correct_witness: "\<exists>s' ys. dealloc 4304 (demo_heap 32) = ret s'
    \<and> blks (mem s') (head s') ys \<and> total ys = 120"
proof -
  have "\<exists>s' ys. dealloc 4304 (demo_heap 32) = ret s' \<and> blks (mem s') (head s') ys \<and> deallocCalled s'
    \<and> (\<forall>x \<in> set ys. \<forall>y \<in> set ys. \<not> adjacent x y)
    \<and> total ys = total [(4160, 32), (4096, 64)] + size_at (mem (demo_heap 32)) (4304 - 16)
    \<and> covered ys = covered [(4160, 32), (4096, 64)] \<union> region (4304 - 16, size_at (mem (demo_heap 32)) (4304 - 16))
    \<and> in_space ys"
    by (rule dealloc_correct [OF demo_heap]) (simp_all add: apart_iff)
  then show ?thesis by auto
qed

theorem alloc_reuse_correct_witness: "\<exists>s'. alloc 8 (demo_heap 48) = ret (4176, s')"
  using alloc_reuse_correct [OF demo_heap_fields(1) demo_heap, of 24 8 48 4160]
  by (auto simp: policy_def best_pick_def apart_iff)

theorem alloc_reuse_no_fit_faults_witness: "alloc 80 (demo_heap 48) = fail NullDeref"
  using alloc_reuse_no_fit_faults [OF demo_heap_fields(1) demo_heap, of 48 80] by simp

theorem alloc_reuse_exact_fit_overwrites_witness:
  "\<exists>s'. alloc 112 (demo_heap 128) = ret (4176, s') \<and> size_at (mem s') 4288 = 0"
  using alloc_reuse_exact_fit_overwrites [OF demo_heap_fields(1) demo_heap, of 128 112 4160]
  by (simp add: policy_def best_pick_def apart_iff)

theorem allocinfo_correct_witness: "allocinfo (demo_heap 32) = ret \<lparr>free_size = 96, free_chunks = 2,
    largest_free_chunk_size = 64, smallest_free_chunk_size = 32\<rparr>"
  using allocinfo_correct [OF demo_heap, of 32] by (simp add: max_def min_def)

end
