(* ===== verification/Alloc2.thy ===== *)
theory Alloc2
  imports Alloc_Ops
begin

text \<open>
  The second version of the allocator, \<open>lecture/test2/alloc2.c\<close>, over the state of the
  first one. Allocation is a rewrite of the same code, which is proved to compute the same;
  \<open>dealloc\<close> coalesces in its own way, and with another convention for the size of a block.
\<close>

section \<open>Searching\<close>

partial_function (option) first_fit :: "mem \<Rightarrow> u64 \<Rightarrow> u64 \<Rightarrow> u64 run" where
  "first_fit m free n = (if free \<noteq> 0
     then if n \<le> size_at m free then ret free else first_fit m (next_at m free) n
     else ret 0)"

partial_function (option) best_fit_loop :: "mem \<Rightarrow> u64 \<Rightarrow> u64 \<Rightarrow> u64 \<Rightarrow> u64 \<Rightarrow> u64 run" where
  "best_fit_loop m free n best best_size = (if free \<noteq> 0
     then if n \<le> size_at m free \<and> size_at m free < best_size
          then best_fit_loop m (next_at m free) n free (size_at m free)
          else best_fit_loop m (next_at m free) n best best_size
     else ret best)"

definition best_fit :: "mem \<Rightarrow> u64 \<Rightarrow> u64 \<Rightarrow> u64 run" where
  "best_fit m free n = best_fit_loop m free n 0 (- 1)"

partial_function (option) worst_fit_loop :: "mem \<Rightarrow> u64 \<Rightarrow> u64 \<Rightarrow> u64 \<Rightarrow> u64 \<Rightarrow> u64 run" where
  "worst_fit_loop m free n worst worst_size = (if free \<noteq> 0
     then if n \<le> size_at m free \<and> worst_size < size_at m free
          then worst_fit_loop m (next_at m free) n free (size_at m free)
          else worst_fit_loop m (next_at m free) n worst worst_size
     else ret worst)"

definition worst_fit :: "mem \<Rightarrow> u64 \<Rightarrow> u64 \<Rightarrow> u64 run" where
  "worst_fit m free n = worst_fit_loop m free n 0 0"

partial_function (option) get_last2_loop :: "mem \<Rightarrow> u64 \<Rightarrow> u64 \<Rightarrow> u64 \<Rightarrow> u64 run" where
  "get_last2_loop m block lst free = (if free \<noteq> 0
     then if free = block then ret lst else get_last2_loop m block free (next_at m free)
     else ret 0)"

definition get_last2 :: "mem \<Rightarrow> u64 \<Rightarrow> u64 \<Rightarrow> u64 run" where
  "get_last2 m hp block = get_last2_loop m block 0 hp"

definition get_next2 :: "mem \<Rightarrow> u64 \<Rightarrow> u64 run" where
  "get_next2 m block = (if block = 0 then fail NullDeref else ret (next_at m block))"

section \<open>Allocation\<close>

text \<open>The results of \<open>sbrk\<close> are not tested; a failed one leaves the address \<open>- 1\<close>, which the
  process cannot write to.\<close>

definition alloc2_first :: "cint \<Rightarrow> alloc_state \<Rightarrow> (u64 \<times> alloc_state) run" where
  "alloc2_first sz s = (case sbrk INCREMENT s of (start, s1) \<Rightarrow>
     if start = - 1 then fail BadDeref
     else let block = start; next_block = block + 16 + sext sz;
              m = set_size block (sext sz + 16) (mem s1);
              m = set_next block 0 m;
              m = set_size next_block (INCREMENT - 16 * 2 - sext sz) m;
              m = set_next next_block 0 m
          in ret (block + 16, s1\<lparr>heap_origin := start, heap_end := brk s1, mem := m, head := next_block\<rparr>))"

definition alloc2_cut :: "cint \<Rightarrow> alloc_state \<Rightarrow> (u64 \<times> alloc_state) run" where
  "alloc2_cut sz s = (let block = head s; next_block = block + 16 + sext sz;
       m = set_size next_block (size_at (mem s) block - sext sz - 16) (mem s);
       m = set_next next_block 0 m;
       m = set_size block (sext sz + 16) m;
       s = s\<lparr>mem := m, head := next_block\<rparr>
     in if size_at (mem s) (head s) = 0
        then ret (block + 16, s\<lparr>mem := set_size block (size_at (mem s) block + 16) (mem s), head := next_block + 16\<rparr>)
        else ret (block + 16, s))"

definition alloc2_bump :: "cint \<Rightarrow> alloc_state \<Rightarrow> (u64 \<times> alloc_state) run" where
  "alloc2_bump sz s = (let n = sext sz; span = heap_span s; lim = sint (limit s);
       hsize = size_at (mem s) (head s)
     in if hsize < n \<and> span = lim then ret (0, s)
        else if n < hsize \<and> hsize < n + 16 * 2 \<and> span < lim
        then ret (head s + 16, s\<lparr>mem := set_size (head s) (hsize + 16) (mem s), head := 0\<rparr>)
        else if n < hsize \<and> hsize < n + 16 \<and> span = lim
        then ret (head s + 16, s\<lparr>head := 0\<rparr>)
        else alloc2_cut sz (if span < lim \<and> (hsize < n \<or> n \<le> hsize \<and> hsize < n + 16)
          then (let s1 = snd (sbrk INCREMENT s)
                in s1\<lparr>heap_end := brk s1,
                      mem := set_size (head s1) (size_at (mem s1) (head s1) + INCREMENT) (mem s1)\<rparr>)
          else s))"

definition alloc2_reuse :: "cint \<Rightarrow> alloc_state \<Rightarrow> (u64 \<times> alloc_state) run" where
  "alloc2_reuse sz s = (let block = head s; n = sext sz + 16 in
     rbind (case alg s of FIRST_FIT \<Rightarrow> first_fit (mem s) block n
       | BEST_FIT \<Rightarrow> best_fit (mem s) block n | WORST_FIT \<Rightarrow> worst_fit (mem s) block n) (\<lambda>temp.
     rbind (get_next2 (mem s) temp) (\<lambda>next_block.
       let new_block = temp + 16 + sext sz
       in if size_at (mem s) temp < n then ret (temp + 16, s\<lparr>head := next_block\<rparr>)
          else let m = set_size new_block (size_at (mem s) temp - sext sz - 16) (mem s);
                   m = set_next new_block next_block m;
                   m = set_size temp n m
               in if head s = temp then ret (temp + 16, s\<lparr>mem := m, head := new_block\<rparr>)
                  else rbind (get_last2 m (head s) temp) (\<lambda>lst.
                    if lst = 0 then fail NullDeref
                    else ret (temp + 16, s\<lparr>mem := set_next lst new_block m\<rparr>)))))"

definition alloc2 :: "cint \<Rightarrow> alloc_state \<Rightarrow> (u64 \<times> alloc_state) run" where
  "alloc2 sz s = (if deallocCalled s = False
     then if head s = 0 then alloc2_first sz s else alloc2_bump sz s
     else alloc2_reuse sz s)"

section \<open>Release and options\<close>

text \<open>One pass over the list; \<open>coal\<close> becomes true when blocks have been merged.\<close>

partial_function (option) coal2_pass ::
  "mem \<Rightarrow> u64 \<Rightarrow> u64 \<Rightarrow> u64 \<Rightarrow> bool \<Rightarrow> (bool \<times> mem \<times> u64) run" where
  "coal2_pass m hp temp lst coal = (if temp = 0 then ret (coal, m, hp)
     else
       let (m, coal) =
         (if next_at m temp \<noteq> 0 \<and> temp + 16 + size_at m temp = next_at m temp
          then let m = set_size temp (size_at m temp + (16 + size_at m (next_at m temp))) m
               in (set_next temp (next_at m (next_at m temp)) m, True)
          else (m, coal))
       in if lst \<noteq> 0 \<and> temp + 16 + size_at m temp = lst
          then let m = set_size temp (size_at m temp + (16 + size_at m lst)) m;
                   hp = (if hp = lst then temp else hp)
               in if hp = 0 then fail NullDeref
                  else let m = (if next_at m hp \<noteq> 0 \<and> size_at m (next_at m hp) = 0
                           \<and> hp + 16 + size_at m hp = next_at m hp
                         then set_next hp 0 (set_size hp (size_at m hp + 16) m) else m)
                    in coal2_pass m hp (next_at m temp) temp True
          else coal2_pass m hp (next_at m temp) temp coal)"

partial_function (option) coal2_loop :: "mem \<Rightarrow> u64 \<Rightarrow> (mem \<times> u64) run" where
  "coal2_loop m hp = rbind (coal2_pass m hp hp 0 False) (\<lambda>(coal, m, hp).
     if coal then coal2_loop m hp else ret (m, hp))"

definition dealloc2 :: "u64 \<Rightarrow> alloc_state \<Rightarrow> alloc_state run" where
  "dealloc2 p s = (let block = p - 16 in
     if block = 0 then fail NullDeref
     else if p = 0 then fail BadDeref
     else rbind (coal2_loop (set_next block (head s) (mem s)) block) (\<lambda>(m, hp).
       ret (s\<lparr>deallocCalled := True, mem := m, head := hp\<rparr>)))"

text \<open>\<open>sbrk\<close> also fails when the break would fall below \<open>bmin\<close>, where the heap of the
  process begins: in the first call \<open>heap_origin\<close> is NULL, and the whole break is asked back.\<close>

definition allocopt2 :: "u64 \<Rightarrow> algs \<Rightarrow> cint \<Rightarrow> alloc_state \<Rightarrow> alloc_state" where
  "allocopt2 bmin algopt sz s =
    (let sizeDif = brk s - heap_origin s;
         s = (if 0 < sint sizeDif \<and> bmin \<le> brk s - sizeDif then snd (sbrk (- sizeDif) s) else s)
     in s\<lparr>limit := sz, alg := algopt, head := 0, heap_origin := brk s, heap_end := brk s + sext sz,
          deallocCalled := False\<rparr>)"

partial_function (option) allocinfo2_loop ::
  "mem \<Rightarrow> u64 \<Rightarrow> u64 \<Rightarrow> u64 \<Rightarrow> u64 \<Rightarrow> u64 \<Rightarrow> (u64 \<times> u64 \<times> u64 \<times> u64) run" where
  "allocinfo2_loop m free temp mx mn cnt = (if free \<noteq> 0
     then allocinfo2_loop m (next_at m free) (temp + size_at m free)
            (if mx < size_at m free then size_at m free else mx)
            (if size_at m free < mn then size_at m free else mn) (cnt + 1)
     else ret (temp, mx, mn, cnt))"

definition allocinfo2 :: "alloc_state \<Rightarrow> allocinfo_t run" where
  "allocinfo2 s = rbind (allocinfo2_loop (mem s) (head s) 0 0 (- 1) 0) (\<lambda>(temp, mx, mn, cnt).
     let mn = (if temp = 0 then temp else mn);
         temp = (if temp = sext (limit s) then temp - 16 else temp)
     in ret \<lparr>free_size = temp, free_chunks = cnt, largest_free_chunk_size = mx, smallest_free_chunk_size = mn\<rparr>)"

section \<open>Both versions allocate alike\<close>

lemma option_eqI:
  "(\<And>y. a = Some y \<Longrightarrow> b = Some y) \<Longrightarrow> (\<And>y. b = Some y \<Longrightarrow> a = Some y) \<Longrightarrow> a = b"
  by (cases a; cases b) auto

lemma first_fit_eq: "first_fit m p n = find_first_fit m p n"
proof (rule option_eqI)
  show "find_first_fit m p n = Some y" if "first_fit m p n = Some y" for y
    by (rule first_fit.raw_induct [OF _ that]) (subst find_first_fit.simps, auto split: if_splits)
  show "first_fit m p n = Some y" if "find_first_fit m p n = Some y" for y
    by (rule find_first_fit.raw_induct [OF _ that]) (subst first_fit.simps, auto split: if_splits)
qed

lemma best_fit_loop_eq: "best_fit_loop m p n b bs = find_best_loop m p n b bs"
proof (rule option_eqI)
  show "find_best_loop m p n b bs = Some y" if "best_fit_loop m p n b bs = Some y" for y
    by (rule best_fit_loop.raw_induct [OF _ that]) (subst find_best_loop.simps, auto split: if_splits)
  show "best_fit_loop m p n b bs = Some y" if "find_best_loop m p n b bs = Some y" for y
    by (rule find_best_loop.raw_induct [OF _ that]) (subst best_fit_loop.simps, auto split: if_splits)
qed

lemma worst_fit_loop_eq: "worst_fit_loop m p n w ws = find_worst_loop m p n w ws"
proof (rule option_eqI)
  show "find_worst_loop m p n w ws = Some y" if "worst_fit_loop m p n w ws = Some y" for y
    by (rule worst_fit_loop.raw_induct [OF _ that]) (subst find_worst_loop.simps, auto split: if_splits)
  show "worst_fit_loop m p n w ws = Some y" if "find_worst_loop m p n w ws = Some y" for y
    by (rule find_worst_loop.raw_induct [OF _ that]) (subst worst_fit_loop.simps, auto split: if_splits)
qed

lemma get_last2_loop_eq: "get_last2_loop m b l p = get_last_loop m b p l"
proof (rule option_eqI)
  show "get_last_loop m b p l = Some y" if "get_last2_loop m b l p = Some y" for y
    by (rule get_last2_loop.raw_induct [OF _ that]) (subst get_last_loop.simps, auto split: if_splits)
  show "get_last2_loop m b l p = Some y" if "get_last_loop m b p l = Some y" for y
    by (rule get_last_loop.raw_induct [OF _ that]) (subst get_last2_loop.simps, auto split: if_splits)
qed

lemmas search_eqs = first_fit_eq best_fit_def worst_fit_def find_best_fit_def find_worst_fit_def
  best_fit_loop_eq worst_fit_loop_eq get_last2_def get_last_def get_last2_loop_eq

lemma best_loop_pick: "best_loop b bs xs n = b \<or> (\<exists>a. best_loop b bs xs n = Some a \<and> a \<in> fst ` set xs)"
  by (induction b bs xs n rule: best_loop.induct) auto

lemma get_next_finds: "blks m hp xs \<Longrightarrow> p \<in> fst ` set xs \<Longrightarrow> get_next m hp p = ret (next_at m p)"
proof (induction xs arbitrary: hp)
  case (Cons x xs)
  obtain a s where x: "x = (a, s)" by (cases x)
  have b: "hp = a" "a \<noteq> 0" "blks m (next_at m a) xs" using Cons.prems(1) by (simp_all add: x blks_Cons)
  show ?case
  proof (cases "p = a")
    case False
    then have "get_next m (next_at m a) p = ret (next_at m p)" using Cons b(3) x by auto
    then show ?thesis using b False by (simp add: get_next_step)
  qed (use b in \<open>simp add: get_next_step\<close>)
qed simp

lemma alloc2_reuse_eq:
  assumes "blks (mem s) (head s) xs"
  shows "alloc2_reuse sz s = alloc_reuse sz s"
proof -
  let ?n = "sext sz + 16"
  have ff: "(case alg s of FIRST_FIT \<Rightarrow> first_fit (mem s) (head s) ?n
      | BEST_FIT \<Rightarrow> best_fit (mem s) (head s) ?n | WORST_FIT \<Rightarrow> worst_fit (mem s) (head s) ?n)
      = ret (or_null (policy (alg s) xs ?n))"
    using find_fit_blks [OF assms, of "alg s" ?n] by (cases "alg s") (simp_all add: find_fit_def search_eqs)
  show ?thesis
  proof (cases "policy (alg s) xs ?n")
    case None
    have "\<exists>v. get_next (mem s) (head s) 0 = ret v"
      using assms
    proof (induction xs arbitrary: s)
      case (Cons x xs)
      then show ?case by (cases x) (simp add: blks_Cons get_next_step, metis alloc_state.simps)
    qed (simp add: get_next_step)
    then show ?thesis
      using ff find_fit_blks [OF assms, of "alg s" ?n] None
      by (auto simp: alloc2_reuse_def alloc_reuse_def get_next2_def Let_def)
  next
    case (Some t)
    obtain st where t: "(t, st) \<in> set xs" using fit.sound [OF Some] by blast
    then have "t \<noteq> 0" using blks_size [OF assms] by blast
    moreover have "get_next (mem s) (head s) t = ret (next_at (mem s) t)"
      using t by (intro get_next_finds [OF assms]) force
    ultimately show ?thesis
      using ff find_fit_blks [OF assms, of "alg s" ?n] Some
      by (simp add: alloc2_reuse_def alloc_reuse_def get_next2_def Let_def search_eqs)
  qed
qed

text \<open>Property C20. On every state with a well-formed free list, and while the operating system provides
  memory, a call to \<open>alloc\<close> returns the same pointer and leaves the same state in both
  versions, faults included.\<close>

theorem alloc2_eq_alloc:
  assumes "deallocCalled s \<Longrightarrow> blks (mem s) (head s) xs"
    and "brk s + 256 \<le> brk_max s" "brk s \<noteq> - 1"
  shows "alloc2 sz s = alloc sz s"
proof -
  have os: "sbrk INCREMENT s = (brk s, s\<lparr>brk := brk s + 256\<rparr>)"
    using assms(2) by (simp add: sbrk_def INCREMENT_def)
  have first: "alloc2_first sz s = alloc_first sz s"
    using assms(3) by (simp add: alloc2_first_def alloc_first_def os Let_def)
  have cut: "alloc2_cut sz s = alloc_cut sz s" for s :: alloc_state
    by (simp add: alloc2_cut_def alloc_cut_def Let_def)
  have bump: "alloc2_bump sz s = alloc_bump sz s"
    using assms(3) by (simp add: alloc2_bump_def alloc_bump_def os Let_def cut) blast
  show ?thesis
    using alloc2_reuse_eq [of s xs] assms(1) by (simp add: alloc2_def alloc_def first bump)
qed

theorem alloc2_eq_alloc_witness: "alloc2 8 (demo_heap 48) = alloc 8 (demo_heap 48)"
  by (rule alloc2_eq_alloc [OF demo_heap]) (simp_all add: demo_heap_def)

section \<open>Release\<close>

text \<open>\<open>dealloc\<close> of this version looks for a block that begins 16 bytes behind the end of
  another: it adds the size of a header to a size that already counts it.\<close>

definition gap_adjacent :: "blk \<Rightarrow> blk \<Rightarrow> bool" where
  "gap_adjacent x y \<longleftrightarrow> fst x + 16 + snd x = fst y"

lemma coal2_pass_skip:
  assumes "temp \<noteq> 0" "\<not> (next_at m temp \<noteq> 0 \<and> temp + 16 + size_at m temp = next_at m temp)"
    "\<not> (lst \<noteq> 0 \<and> temp + 16 + size_at m temp = lst)"
  shows "coal2_pass m hp temp lst coal = coal2_pass m hp (next_at m temp) temp coal"
  by (subst coal2_pass.simps) (simp only: assms if_False Let_def prod.case simp_thms)

lemma coal2_pass_none:
  "blks m temp xs \<Longrightarrow> \<forall>x\<in>set xs. \<forall>y\<in>set xs. \<not> gap_adjacent x y \<Longrightarrow>
   \<forall>x\<in>set xs. lst \<noteq> 0 \<longrightarrow> \<not> gap_adjacent x (lst, sl) \<Longrightarrow>
   coal2_pass m hp temp lst coal = ret (coal, m, hp)"
proof (induction xs arbitrary: temp lst sl)
  case Nil
  then show ?case by (simp add: coal2_pass.simps)
next
  case (Cons x xs)
  obtain a s where x: "x = (a, s)" by (cases x)
  have b: "temp = a" "a \<noteq> 0" "size_at m a = s" "blks m (next_at m a) xs"
    using Cons.prems(1) by (simp_all add: x blks_Cons)
  have nx: "\<not> (next_at m a \<noteq> 0 \<and> a + 16 + s = next_at m a)"
  proof (cases xs)
    case (Cons y ys)
    then have "fst y = next_at m a" using b(4) by (cases y) (simp add: blks_Cons)
    moreover have "\<not> gap_adjacent x y" using Cons.prems(2) Cons by simp
    ultimately show ?thesis by (simp add: gap_adjacent_def x)
  qed (use b in simp)
  have "\<not> (lst \<noteq> 0 \<and> a + 16 + s = lst)" using Cons.prems(3) by (auto simp: gap_adjacent_def x)
  then have "coal2_pass m hp temp lst coal = coal2_pass m hp (next_at m a) a coal"
    using coal2_pass_skip [of a m lst hp coal] nx b(1-3) by simp
  also have "\<dots> = ret (coal, m, hp)"
  proof (rule Cons.IH [OF b(4)])
    show "\<forall>x\<in>set xs. \<forall>y\<in>set xs. \<not> gap_adjacent x y" using Cons.prems(2) by simp
    show "\<forall>y\<in>set xs. a \<noteq> 0 \<longrightarrow> \<not> gap_adjacent y (a, s)" using Cons.prems(2) by (simp add: x)
  qed
  finally show ?case .
qed

text \<open>So unless a block happens to begin 16 bytes behind another, \<open>dealloc\<close> only puts the block
  in front of the free list, and merges nothing, also when blocks are adjacent in the sense of
  the first version.\<close>

theorem dealloc2_merges_nothing:
  assumes "blks (mem s) (head s) xs" "p \<noteq> 0" "p - 16 \<noteq> 0" "\<forall>a\<in>fst ` set xs. apart (p - 16) a"
    and "list_all (\<lambda>x. list_all (\<lambda>y. \<not> gap_adjacent x y) ((p - 16, size_at (mem s) (p - 16)) # xs))
      ((p - 16, size_at (mem s) (p - 16)) # xs)"
  shows "\<exists>s'. dealloc2 p s = ret s' \<and> blks (mem s') (head s') ((p - 16, size_at (mem s) (p - 16)) # xs)
    \<and> deallocCalled s'"
proof -
  let ?x = "(p - 16, size_at (mem s) (p - 16))" and ?m = "set_next (p - 16) (head s) (mem s)"
  have b: "blks ?m (p - 16) (?x # xs)" by (rule blks_push [OF assms(1,3,4)])
  have "coal2_pass ?m (p - 16) (p - 16) 0 False = ret (False, ?m, p - 16)"
    by (rule coal2_pass_none [OF b]) (use assms(5) in \<open>simp_all add: list_all_iff\<close>)
  then have "coal2_loop ?m (p - 16) = ret (?m, p - 16)" by (subst coal2_loop.simps) simp
  with b assms(2,3) show ?thesis by (simp add: dealloc2_def Let_def)
qed

text \<open>The blocks at 4096 (64 bytes) and 4160 touch each other.\<close>

theorem dealloc2_merges_nothing_witness:
  "\<exists>s'. dealloc2 4304 (demo_heap 32) = ret s'
    \<and> blks (mem s') (head s') [(4288, 24), (4160, 32), (4096, 64)] \<and> adjacent (4096, 64) (4160, 32)"
  using dealloc2_merges_nothing [OF demo_heap, of 4304 32]
  by (auto simp: apart_iff gap_adjacent_def adjacent_def)

text \<open>The statistics and the options of both versions agree.\<close>

lemma allocinfo2_loop_blks:
  "blks m p xs \<Longrightarrow> allocinfo2_loop m p t mx mn c = rbind (allocinfo_loop m p c t mn mx) (\<lambda>i.
     ret (free_size i, largest_free_chunk_size i, smallest_free_chunk_size i, free_chunks i))"
proof (induction xs arbitrary: p t mx mn c)
  case Nil
  then show ?case by (simp add: allocinfo2_loop.simps allocinfo_loop_step)
next
  case (Cons x xs)
  obtain a s where x: "x = (a, s)" by (cases x)
  then show ?case using Cons
    by (subst allocinfo2_loop.simps) (simp add: blks_Cons allocinfo_loop_step)
qed

theorem allocinfo2_eq_allocinfo:
  assumes "blks (mem s) (head s) xs"
  shows "allocinfo2 s = allocinfo s"
  using allocinfo2_loop_blks [OF assms] allocinfo_loop_blks [OF assms]
  by (simp add: allocinfo2_def allocinfo_def Let_def)

theorem allocinfo2_eq_allocinfo_witness: "allocinfo2 (demo_heap 32) = allocinfo (demo_heap 32)"
  by (rule allocinfo2_eq_allocinfo [OF demo_heap])

theorem allocopt2_eq_allocopt:
  assumes "heap_origin s \<noteq> 0" "bmin \<le> heap_origin s"
  shows "allocopt2 bmin g sz s = allocopt g sz s"
  using assms by (simp add: allocopt2_def allocopt_def resetalloc_def sbrk_def Let_def)

theorem allocopt2_eq_allocopt_witness:
  "allocopt2 4096 FIRST_FIT 512 (demo_heap 32) = allocopt FIRST_FIT 512 (demo_heap 32)"
  by (rule allocopt2_eq_allocopt) (simp_all add: demo_heap_def)

end
