(* ===== verification/Lab_Server.thy ===== *)
theory Lab_Server
  imports C_Strings Node_Store
begin

text \<open>
  The two programs of \<open>lab/server.c\<close>: a client that sends five padded messages, and a
  server that collects the messages of at most four clients in a linked list with a dummy
  head. The list is kept in a store; the buffer of a node is allocated with the node and kept
  in it. The threads of the server run as a sequence of events in any order: an iteration of
  the acceptor, or of a client thread with the result of its \<open>read\<close>. The access to the list
  is under a lock, so an iteration is one step.
\<close>

section \<open>The client\<close>

definition BUF_SIZE :: nat where "BUF_SIZE = 1024"




section \<open>The list\<close>

record list_node =
  next_node :: nat
  data_buf :: bytes

record list_handle =
  lheap :: "list_node store"
  last_ptr :: nat
  lcount :: u32

text \<open>\<open>head\<close> is the first node of the store.\<close>

definition HEAD :: nat where "HEAD = 1"

definition init_list :: "nat \<Rightarrow> list_handle" where
  "init_list n = \<lparr>lheap = snd (malloc \<lparr>next_node = 0, data_buf = []\<rparr> (empty_store n)),
     last_ptr = HEAD, lcount = 0\<rparr>"

definition add_to_list :: "nat \<Rightarrow> list_handle \<Rightarrow> list_handle run" where
  "add_to_list new_node l =
    rbind (assign (lheap l) (last_ptr l) (\<lambda>n. n\<lparr>next_node := new_node\<rparr>)) (\<lambda>h.
    rbind (deref h (last_ptr l)) (\<lambda>n.
      ret (l\<lparr>lheap := h, last_ptr := next_node n, lcount := lcount l + 1\<rparr>)))"

text \<open>\<open>printf\<close> with \<open>%s\<close> of a buffer.\<close>

definition print_data :: "bytes \<Rightarrow> bytes run" where
  "print_data d = (if 0 \<in> set d then ret (cstr_of d) else fail OutOfBounds)"

partial_function (option) collect_loop :: "list_node store \<Rightarrow> nat \<Rightarrow> u32 \<Rightarrow> (bytes list \<times> u32) run" where
  "collect_loop h node tot =
    (if node = 0 then ret ([], tot)
     else rbind (deref h node) (\<lambda>n. rbind (print_data (data_buf n)) (\<lambda>x.
       rbind (release h node) (\<lambda>h.
       rbind (collect_loop h (next_node n) (tot + 1)) (\<lambda>(xs, t). ret (x # xs, t))))))"

definition collect_all :: "list_handle \<Rightarrow> (bytes list \<times> u32) run" where
  "collect_all l = rbind (deref (lheap l) HEAD) (\<lambda>head. collect_loop (lheap l) (next_node head) 0)"

section \<open>The threads\<close>

definition MAX_CLIENTS :: nat where "MAX_CLIENTS = 4"
definition NUM_MSG_PER_CLIENT :: nat where "NUM_MSG_PER_CLIENT = 5"

datatype lab_read = Again | Failed | Got bytes

text \<open>A client thread: its descriptor, its buffer, and whether its loop is still running.\<close>

record client_thread =
  cfd :: cint
  msg_buf :: bytes
  active :: bool

record lab_server =
  list_handle :: list_handle
  threads :: "client_thread list"
  closes :: "cint list"

text \<open>\<open>Accept fd buf\<close>: \<open>accept\<close> returned \<open>fd\<close>, and the buffer on the stack of the thread
  holds \<open>buf\<close>.\<close>

datatype lab_event = Accept cint bytes | Accept_again | Accept_failed | Client_reads nat lab_read

definition store_message :: "bytes \<Rightarrow> list_handle \<Rightarrow> list_handle run" where
  "store_message d l =
    (case malloc \<lparr>next_node = 0, data_buf = d\<rparr> (lheap l) of (p, h) \<Rightarrow>
      if p = 0 then fail NullDeref else add_to_list p (l\<lparr>lheap := h\<rparr>))"

definition run_client :: "nat \<Rightarrow> lab_read \<Rightarrow> lab_server \<Rightarrow> lab_server run" where
  "run_client i r s =
    (let t = threads s ! i
     in case r of
          Again \<Rightarrow> ret s
        | Failed \<Rightarrow> ret (s\<lparr>threads := (threads s)[i := t\<lparr>active := False\<rparr>], closes := closes s @ [cfd t]\<rparr>)
        | Got bs \<Rightarrow>
            (let d = take BUF_SIZE bs
             in if d = [] then ret s
                else let b = d @ drop (length d) (msg_buf t)
                  in rbind (store_message b (list_handle s)) (\<lambda>l.
                       ret (s\<lparr>list_handle := l, threads := (threads s)[i := t\<lparr>msg_buf := b\<rparr>]\<rparr>))))"

fun lab_step :: "lab_event \<Rightarrow> lab_server \<Rightarrow> lab_server run" where
  "lab_step (Accept fd buf) s =
    (if length (threads s) < MAX_CLIENTS
     then ret (s\<lparr>threads := threads s @ [\<lparr>cfd = fd, msg_buf = buf, active = True\<rparr>]\<rparr>) else ret s)"
| "lab_step Accept_again s = ret s"
| "lab_step Accept_failed s = (if length (threads s) < MAX_CLIENTS then exit_with 1 else ret s)"
| "lab_step (Client_reads i r) s =
    (if i < length (threads s) \<and> active (threads s ! i) then run_client i r s else ret s)"

fun lab_steps :: "lab_event list \<Rightarrow> lab_server \<Rightarrow> lab_server run" where
  "lab_steps [] s = ret s"
| "lab_steps (e # es) s = rbind (lab_step e s) (lab_steps es)"

text \<open>The end of the acceptor: every client thread closes its descriptor when its loop ends,
  and the acceptor closes it again after the join.\<close>

definition stop_clients :: "lab_server \<Rightarrow> lab_server" where
  "stop_clients s = s\<lparr>closes := closes s @ concat (map (\<lambda>t. (if active t then [cfd t] else []) @ [cfd t]) (threads s)),
     threads := map (\<lambda>t. t\<lparr>active := False\<rparr>) (threads s)\<rparr>"

definition init_server :: "nat \<Rightarrow> lab_server" where
  "init_server n = \<lparr>list_handle = init_list n, threads = [], closes = []\<rparr>"

text \<open>\<open>main\<close>: \<open>evs\<close> is what happens until it leaves its loop and clears \<open>run\<close>, \<open>late\<close> what
  happens until the threads have seen that. The result is the lines printed by
  \<open>collect_all\<close> and the status; \<open>None\<close> when the loop is not left.\<close>

definition lab_main :: "nat \<Rightarrow> lab_event list \<Rightarrow> lab_event list \<Rightarrow> (bytes list \<times> int) run" where
  "lab_main n evs late = rbind (lab_steps evs (init_server n)) (\<lambda>s.
     if unat (lcount (list_handle s)) < MAX_CLIENTS * NUM_MSG_PER_CLIENT then None
     else rbind (lab_steps late s) (\<lambda>s.
       let s = stop_clients s; expected = lcount (list_handle s)
       in if unat expected \<noteq> MAX_CLIENTS * NUM_MSG_PER_CLIENT then ret ([], 1)
          else rbind (collect_all (list_handle s)) (\<lambda>(xs, collected).
            if collected \<noteq> expected then ret (xs, 1) else ret (xs, 0))))"

section \<open>The list refines a list\<close>

definition list_holds :: "list_handle \<Rightarrow> bytes list \<Rightarrow> bool" where
  "list_holds l ds \<longleftrightarrow> store_ok (lheap l) \<and> lcount l = of_nat (length ds)
     \<and> top (lheap l) = Suc (length ds)
     \<and> (\<exists>ns. chain next_node (cells (lheap l)) HEAD ns 0 \<and> map (data_buf \<circ> snd) ns = [] # ds
          \<and> last_ptr l = fst (last ns))"

lemma list_holds_init: "0 < n \<Longrightarrow> list_holds (init_list n) []"
  by (auto simp: list_holds_def init_list_def malloc_def empty_store_def store_ok_def HEAD_def
      intro!: exI [of _ "[(Suc 0, \<lparr>next_node = 0, data_buf = []\<rparr>)]"])

lemma store_message_holds:
  assumes "list_holds l ds" "Suc (length ds) < cap (lheap l)"
  shows "\<exists>l'. store_message d l = ret l' \<and> list_holds l' (ds @ [d]) \<and> cap (lheap l') = cap (lheap l)"
proof -
  obtain ns where ok: "store_ok (lheap l)" and cnt: "lcount l = of_nat (length ds)"
    and top: "top (lheap l) = Suc (length ds)"
    and c: "chain next_node (cells (lheap l)) HEAD ns 0" and ds: "map (data_buf \<circ> snd) ns = [] # ds"
    and lst: "last_ptr l = fst (last ns)"
    using assms(1) unfolding list_holds_def by (elim conjE exE)
  let ?nd = "\<lparr>next_node = 0, data_buf = d\<rparr>" and ?p = "Suc (top (lheap l))"
  define h where "h = (lheap l)\<lparr>cells := (cells (lheap l))(?p \<mapsto> ?nd), top := ?p\<rparr>"
  have m: "malloc ?nd (lheap l) = (?p, h)" using assms(2) top by (simp add: malloc_def h_def)
  have "ns \<noteq> []" using ds by auto
  then obtain us x where "ns = us @ [x]" by (cases ns rule: rev_cases) auto
  moreover obtain a n where "x = (a, n)" by (cases x)
  ultimately have ns: "ns = us @ [(a, n)]" by simp
  have a: "a \<notin> fst ` set us" using chain_distinct [OF c] by (simp add: ns)
  have ca: "chain next_node (cells (lheap l)) HEAD us a" "a \<noteq> 0" "cells (lheap l) a = Some n"
    using c by (simp_all add: ns)
  have fresh: "?p \<notin> fst ` set ns" using chain_below_top [OF ok c] .
  define h2 where "h2 = h\<lparr>cells := (cells h)(a \<mapsto> n\<lparr>next_node := ?p\<rparr>)\<rparr>"
  have ha: "cells h a = Some n" using ca fresh by (auto simp: h_def ns)
  have "store_message d l = ret (l\<lparr>lheap := h2, last_ptr := ?p, lcount := lcount l + 1\<rparr>)"
    using m lst ca ha by (simp add: store_message_def add_to_list_def ns h2_def)
  moreover have "chain next_node (cells h2) HEAD (us @ [(a, n\<lparr>next_node := ?p\<rparr>), (?p, ?nd)]) 0"
    using ca a fresh by (auto simp: h2_def h_def ns)
  moreover have "store_ok h2"
    unfolding h2_def by (rule store_ok_upd [OF store_ok_malloc [OF ok m] ha])
  moreover have "map (data_buf \<circ> snd) (us @ [(a, n\<lparr>next_node := ?p\<rparr>), (?p, ?nd)]) = [] # (ds @ [d])"
    using ds by (simp add: ns)
  moreover have "top h2 = Suc (Suc (length ds))" "cap h2 = cap (lheap l)"
    by (simp_all add: h2_def h_def top)
  ultimately show ?thesis using cnt unfolding list_holds_def
    by (intro exI [of _ "l\<lparr>lheap := h2, last_ptr := ?p, lcount := lcount l + 1\<rparr>"])
      (auto intro!: exI [of _ "us @ [(a, n\<lparr>next_node := ?p\<rparr>), (?p, ?nd)]"])
qed

lemma collect_loop_chain:
  "chain next_node (cells h) p ns 0 \<Longrightarrow> distinct (map fst ns) \<Longrightarrow>
   collect_loop h p t = (if list_all (\<lambda>x. 0 \<in> set (data_buf (snd x))) ns
     then ret (map (cstr_of \<circ> data_buf \<circ> snd) ns, t + of_nat (length ns)) else fail OutOfBounds)"
proof (induction ns arbitrary: h p t)
  case Nil
  then show ?case by (simp add: collect_loop.simps)
next
  case (Cons m ns)
  obtain a n where m: "m = (a, n)" by (cases m)
  let ?h = "h\<lparr>cells := (cells h)(a := None)\<rparr>"
  have "a \<notin> fst ` set ns" using Cons.prems(2) by (simp add: m)
  then have "chain next_node (cells ?h) (next_node n) ns 0" using Cons.prems(1) by (simp add: m)
  then have "collect_loop ?h (next_node n) (t + 1) = (if list_all (\<lambda>x. 0 \<in> set (data_buf (snd x))) ns
      then ret (map (cstr_of \<circ> data_buf \<circ> snd) ns, t + 1 + of_nat (length ns)) else fail OutOfBounds)"
    by (rule Cons.IH) (use Cons.prems(2) in \<open>simp add: m\<close>)
  with Cons.prems(1) show ?case
    by (subst collect_loop.simps) (simp add: m print_data_def add.assoc)
qed

lemma collect_all_holds:
  assumes "list_holds l ds"
  shows "collect_all l = (if list_all (\<lambda>d. 0 \<in> set d) ds then ret (map cstr_of ds, lcount l) else fail OutOfBounds)"
proof -
  obtain ns where c: "chain next_node (cells (lheap l)) HEAD ns 0" and ds: "map (data_buf \<circ> snd) ns = [] # ds"
    and cnt: "lcount l = of_nat (length ds)"
    using assms unfolding list_holds_def by (elim conjE exE)
  obtain a n ms where ns: "ns = (a, n) # ms" using ds by (cases ns) auto
  have ms: "ds = map (data_buf \<circ> snd) ms" using ds by (simp add: ns)
  have "chain next_node (cells (lheap l)) (next_node n) ms 0" "distinct (map fst ms)"
    using c chain_distinct [OF c] by (simp_all add: ns)
  moreover have "deref (lheap l) HEAD = ret n" using c by (auto simp: ns)
  ultimately show ?thesis by (simp add: collect_all_def cnt ms collect_loop_chain list_all_iff comp_assoc)
qed

section \<open>The server\<close>

text \<open>The buffers that arrive, in order: a read fills the beginning of the buffer of its thread,
  and the whole buffer is stored.\<close>

fun arrivals :: "bytes list \<Rightarrow> lab_event list \<Rightarrow> bytes list" where
  "arrivals bufs [] = []"
| "arrivals bufs (Accept fd b # es) = arrivals (if length bufs < MAX_CLIENTS then bufs @ [b] else bufs) es"
| "arrivals bufs (Client_reads i (Got bs) # es) =
    (let d = take BUF_SIZE bs
     in if i < length bufs \<and> d \<noteq> []
        then let b = d @ drop (length d) (bufs ! i) in b # arrivals (bufs[i := b]) es
        else arrivals bufs es)"
| "arrivals bufs (e # es) = arrivals bufs es"

fun no_failure :: "lab_event \<Rightarrow> bool" where
  "no_failure Accept_failed = False"
| "no_failure (Client_reads i Failed) = False"
| "no_failure e = True"

definition server_holds :: "lab_server \<Rightarrow> bytes list \<Rightarrow> bytes list \<Rightarrow> nat \<Rightarrow> bool" where
  "server_holds s bufs ds n \<longleftrightarrow> list_holds (list_handle s) ds \<and> cap (lheap (list_handle s)) = n
     \<and> list_all active (threads s) \<and> map msg_buf (threads s) = bufs"

lemma length_arrivals: "length (arrivals bufs es) \<le> length es"
  by (induction bufs es rule: arrivals.induct) (auto simp: Let_def)

lemma read_holds:
  assumes "server_holds s bufs ds n" "i < length bufs" "Suc (length ds) < n" "take BUF_SIZE bs \<noteq> []"
  defines "b \<equiv> take BUF_SIZE bs @ drop (length (take BUF_SIZE bs)) (bufs ! i)"
  shows "\<exists>s'. lab_step (Client_reads i (Got bs)) s = ret s' \<and> server_holds s' (bufs[i := b]) (ds @ [b]) n"
proof -
  have s: "list_holds (list_handle s) ds" "cap (lheap (list_handle s)) = n" "list_all active (threads s)"
    "map msg_buf (threads s) = bufs" using assms(1) by (simp_all add: server_holds_def)
  obtain l where l: "store_message b (list_handle s) = ret l" "list_holds l (ds @ [b])" "cap (lheap l) = n"
    using store_message_holds [OF s(1), of b] s(2) assms(3) by auto
  have i: "i < length (threads s)" "active (threads s ! i)" "msg_buf (threads s ! i) = bufs ! i"
    using assms(2) s(3,4) by (auto simp: list_all_length)
  let ?s' = "s\<lparr>list_handle := l, threads := (threads s)[i := (threads s ! i)\<lparr>msg_buf := b\<rparr>]\<rparr>"
  have "lab_step (Client_reads i (Got bs)) s = ret ?s'"
    using i l(1) assms(4) by (simp add: run_client_def b_def)
  moreover have "list_all active (threads ?s')" using s(3) i(2)
    by (auto simp: list_all_iff dest!: set_update_subset_insert [THEN subsetD])
  moreover have "map msg_buf (threads ?s') = bufs[i := b]" using s(4) by (simp add: map_update)
  ultimately show ?thesis using l by (auto simp: server_holds_def)
qed

lemma lab_step_holds:
  assumes "server_holds s bufs ds n" "no_failure e" "Suc (length ds) < n"
  shows "\<exists>s' bufs' ds'. lab_step e s = ret s' \<and> server_holds s' bufs' (ds @ ds') n \<and> length ds' \<le> 1
    \<and> (\<forall>es. arrivals bufs (e # es) = ds' @ arrivals bufs' es)"
proof -
  have len: "length (threads s) = length bufs" using assms(1) by (auto simp: server_holds_def)
  have skip: ?thesis if "lab_step e s = ret s" "\<And>es. arrivals bufs (e # es) = arrivals bufs es"
    using that assms(1) by (intro exI [of _ s] exI [of _ bufs] exI [of _ "[]"]) simp
  show ?thesis
  proof (cases e)
    case (Accept fd b)
    let ?s = "s\<lparr>threads := threads s @ [\<lparr>cfd = fd, msg_buf = b, active = True\<rparr>]\<rparr>"
    show ?thesis
    proof (cases "length bufs < MAX_CLIENTS")
      case True
      then show ?thesis using assms(1) len Accept
        by (intro exI [of _ ?s] exI [of _ "bufs @ [b]"] exI [of _ "[]"]) (simp add: server_holds_def)
    qed (use skip len Accept in simp)
  next
    case (Client_reads i r)
    show ?thesis
    proof (cases r)
      case (Got bs)
      show ?thesis
      proof (cases "i < length bufs \<and> take BUF_SIZE bs \<noteq> []")
        case True
        let ?b = "take BUF_SIZE bs @ drop (length (take BUF_SIZE bs)) (bufs ! i)"
        obtain s1 where "lab_step e s = ret s1" "server_holds s1 (bufs[i := ?b]) (ds @ [?b]) n"
          using read_holds [OF assms(1)] True assms(3) Client_reads Got by blast
        then show ?thesis using True Client_reads Got
          by (intro exI [of _ s1] exI [of _ "bufs[i := ?b]"] exI [of _ "[?b]"])
            (simp add: Let_def del: lab_step.simps)
      next
        case False
        then show ?thesis using skip len Client_reads Got by (auto simp: run_client_def Let_def)
      qed
    qed (use skip assms(2) Client_reads in \<open>simp_all add: run_client_def\<close>)
  qed (use skip assms(2) in simp_all)
qed

lemma lab_steps_holds:
  "server_holds s bufs ds n \<Longrightarrow> list_all no_failure es \<Longrightarrow> length ds + length es + 1 < n \<Longrightarrow>
   \<exists>s' bufs'. lab_steps es s = ret s' \<and> server_holds s' bufs' (ds @ arrivals bufs es) n
     \<and> (\<forall>fs. arrivals bufs (es @ fs) = arrivals bufs es @ arrivals bufs' fs)"
proof (induction es arbitrary: s bufs ds)
  case Nil
  then show ?case by auto
next
  case (Cons e es)
  obtain s1 bufs1 ds1 where s1: "lab_step e s = ret s1" "server_holds s1 bufs1 (ds @ ds1) n" "length ds1 \<le> 1"
    "\<And>es. arrivals bufs (e # es) = ds1 @ arrivals bufs1 es"
    using lab_step_holds [OF Cons.prems(1), of e] Cons.prems(2,3) by auto
  from Cons.IH [OF s1(2)] Cons.prems(2,3) s1(3) obtain s' bufs' where
    "lab_steps es s1 = ret s'" "server_holds s' bufs' ((ds @ ds1) @ arrivals bufs1 es) n"
    "\<forall>fs. arrivals bufs1 (es @ fs) = arrivals bufs1 es @ arrivals bufs' fs"
    by auto
  then show ?case using s1(1,4) by (intro exI [of _ s'] exI [of _ bufs']) simp
qed

text \<open>The outcome of the program for every order of events.\<close>

lemma lab_main_outcome:
  assumes "list_all no_failure (evs @ late)" "length evs + length late + 1 < n" "n < 2 ^ 32"
  shows "lab_main n evs late =
    (if length (arrivals [] evs) < 20 then None
     else if length (arrivals [] (evs @ late)) \<noteq> 20 then ret ([], 1)
     else if list_all (\<lambda>d. 0 \<in> set d) (arrivals [] (evs @ late))
       then ret (map cstr_of (arrivals [] (evs @ late)), 0) else fail OutOfBounds)"
proof -
  let ?all = "arrivals [] (evs @ late)"
  have "server_holds (init_server n) [] [] n"
    using assms(2) list_holds_init [of n]
    by (simp add: server_holds_def init_server_def) (simp add: init_list_def malloc_def empty_store_def)
  then obtain s1 bufs where s1: "lab_steps evs (init_server n) = ret s1"
    "server_holds s1 bufs (arrivals [] evs) n" "?all = arrivals [] evs @ arrivals bufs late"
    using lab_steps_holds [of "init_server n" "[]" "[]" n evs] assms by auto
  have "length (arrivals [] evs) + length late + 1 < n"
    using length_arrivals [of "[]" evs] assms(2) by linarith
  then obtain s2 bufs' where s2: "lab_steps late s1 = ret s2" "server_holds s2 bufs' ?all n"
    using lab_steps_holds [OF s1(2), of late] assms(1) s1(3) by auto
  have cnt: "unat (of_nat (length xs) :: u32) = length xs" if "length xs \<le> length (evs @ late)" for xs :: "bytes list"
    using that assms(2,3) by (simp add: unat_of_nat)
  have c1: "unat (lcount (list_handle s1)) = length (arrivals [] evs)"
    using s1(2) cnt [of "arrivals [] evs"] length_arrivals [of "[]" evs]
    by (simp add: server_holds_def list_holds_def)
  have h2: "list_holds (list_handle s2) ?all" using s2(2) by (simp add: server_holds_def)
  then have c2: "unat (lcount (list_handle s2)) = length ?all"
    using cnt [of ?all] length_arrivals [of "[]" "evs @ late"] by (simp add: list_holds_def)
  have stop: "list_handle (stop_clients s) = list_handle s" for s by (simp add: stop_clients_def)
  have "MAX_CLIENTS * NUM_MSG_PER_CLIENT = 20" by (simp add: MAX_CLIENTS_def NUM_MSG_PER_CLIENT_def)
  then show ?thesis
    using s1(1) s2(1) collect_all_holds [OF h2] by (simp add: lab_main_def Let_def c1 c2 stop)
qed

text \<open>Property C26. For every order of the events in which no call fails: the server stays in its loop while
  fewer than twenty nonempty reads have happened; otherwise it ends, with status 1 when there
  are more than twenty in the end, and else with status 0, having printed the strings in the
  order of their arrival. A buffer without a NUL is read beyond its end.\<close>

theorem lab_main_correct:
  assumes "list_all no_failure (evs @ late)" "length evs + length late + 1 < n" "n < 2 ^ 32"
  shows "lab_main n evs late =
    (if length (arrivals [] evs) < 20 then None
     else if length (arrivals [] (evs @ late)) \<noteq> 20 then ret ([], 1)
     else if list_all (\<lambda>d. 0 \<in> set d) (arrivals [] (evs @ late))
       then ret (map cstr_of (arrivals [] (evs @ late)), 0) else fail OutOfBounds)"
  by (rule lab_main_outcome [OF assms])

theorem lab_main_correct_witness:
  "lab_main 10 [Accept 4 (replicate 1024 0), Client_reads 0 (Got [65])] [] = None"
  using lab_main_correct [of "[Accept 4 (replicate 1024 0), Client_reads 0 (Got [65])]" "[]" 10]
  by (simp add: Let_def BUF_SIZE_def MAX_CLIENTS_def)

section \<open>The client and the server together\<close>
















end
