(* ===== verification/Shell_Base.thy ===== *)
theory Shell_Base
  imports C_Strings
begin

text \<open>
  What the three shells of \<open>lecture/test\<close> share: the messages of \<open>msgs.h\<close>, the
  tokenizer \<open>strtok\<close>, \<open>atoi\<close>, the history kept by the specification (the last ten
  commands with their numbers), and the operating system as an environment: the results of
  \<open>read\<close> and \<open>fork\<close> come with each round of the main loop, \<open>chdir\<close>, \<open>getcwd\<close> and
  \<open>getenv\<close> are functions of the record \<open>env\<close>.
\<close>

section \<open>Strings and messages\<close>

definition str :: "string \<Rightarrow> bytes" where
  "str s = map of_char s"

definition FORMAT_MSG :: "string \<Rightarrow> string \<Rightarrow> bytes" where
  "FORMAT_MSG cmd msg = str cmd @ str '': '' @ str msg @ [10]"

definition TMA_MSG :: string where "TMA_MSG = ''too many arguments''"
definition HELP_HELP_MSG :: string where "HELP_HELP_MSG = ''show help information''"
definition EXTERN_HELP_MSG :: string where "EXTERN_HELP_MSG = ''external command or application''"
definition EXIT_HELP_MSG :: string where "EXIT_HELP_MSG = ''exit the shell''"
definition PWD_HELP_MSG :: string where "PWD_HELP_MSG = ''print the current directory''"
definition CD_HELP_MSG :: string where "CD_HELP_MSG = ''change the current directory''"
definition HISTORY_HELP_MSG :: string where "HISTORY_HELP_MSG = ''print the history of commands''"
definition HISTORY_INVALID_MSG :: string where "HISTORY_INVALID_MSG = ''command invalid''"
definition HISTORY_NO_LAST_MSG :: string where "HISTORY_NO_LAST_MSG = ''no command entered''"
definition GETCWD_ERROR_MSG :: string where "GETCWD_ERROR_MSG = ''unable to get current directory''"
definition CHDIR_ERROR_MSG :: string where "CHDIR_ERROR_MSG = ''unable to change directory''"
definition READ_ERROR_MSG :: string where "READ_ERROR_MSG = ''unable to read command''"
definition FORK_ERROR_MSG :: string where "FORK_ERROR_MSG = ''unable to fork''"

text \<open>What a shell does to the outside: bytes written to the standard output, and commands
  started, with the flag that says whether the shell waits for them.\<close>

datatype action = Write bytes | Start "bytes list" bool

section \<open>The tokenizer\<close>

function strtok :: "(u8 \<Rightarrow> bool) \<Rightarrow> bytes \<Rightarrow> bytes list" where
  "strtok delim s =
    (let t = dropWhile delim s
     in if t = [] then []
        else takeWhile (\<lambda>b. \<not> delim b) t # strtok delim (dropWhile (\<lambda>b. \<not> delim b) t))"
  by pat_completeness auto
termination
proof (relation "measure (\<lambda>(delim, s). length s)", goal_cases)
  case (2 delim s t)
  then have "t \<noteq> []" "\<not> delim (hd t)" by (auto simp: hd_dropWhile)
  then have "length (dropWhile (\<lambda>b. \<not> delim b) t) < length t"
    by (cases t) (auto simp: le_imp_less_Suc length_dropWhile_le)
  also have "length t \<le> length s" using 2 by (simp add: length_dropWhile_le)
  finally show ?case by simp
qed simp

declare strtok.simps [simp del]

lemma strtok_blank: "\<forall>b\<in>set s. delim b \<Longrightarrow> strtok delim s = []"
  by (simp add: strtok.simps dropWhile_eq_Nil_conv)

lemma strtok_word:
  assumes "w \<noteq> []" "\<forall>b\<in>set w. \<not> delim b" "s = [] \<or> delim (hd s)"
  shows "strtok delim (w @ s) = w # strtok delim s"
proof -
  have d: "dropWhile delim (w @ s) = w @ s" using assms by (cases w) auto
  have "takeWhile (\<lambda>b. \<not> delim b) s = [] \<and> dropWhile (\<lambda>b. \<not> delim b) s = s"
    using assms(3) by (cases s) auto
  then have "takeWhile (\<lambda>b. \<not> delim b) (w @ s) = w" "dropWhile (\<lambda>b. \<not> delim b) (w @ s) = s"
    using assms(2) takeWhile_append2 [of w "\<lambda>b. \<not> delim b" s] dropWhile_append2 [of w "\<lambda>b. \<not> delim b" s]
    by simp_all
  then show ?thesis using assms(1) by (subst strtok.simps) (simp add: d Let_def)
qed

lemma strtok_skip: "delim b \<Longrightarrow> strtok delim (b # s) = strtok delim s"
  by (subst (1 2) strtok.simps) simp

lemma strtok_tokens:
  "t \<in> set (strtok delim s) \<Longrightarrow> t \<noteq> [] \<and> (\<forall>b\<in>set t. \<not> delim b)"
proof (induction delim s rule: strtok.induct)
  case (1 delim s)
  let ?t = "dropWhile delim s"
  show ?case
  proof (cases "?t = []")
    case True
    with 1(2) show ?thesis by (subst (asm) strtok.simps) simp
  next
    case False
    then have ne: "takeWhile (\<lambda>b. \<not> delim b) ?t \<noteq> []"
      using hd_dropWhile [OF False] by (cases ?t) simp_all
    have "strtok delim s = takeWhile (\<lambda>b. \<not> delim b) ?t # strtok delim (dropWhile (\<lambda>b. \<not> delim b) ?t)"
      using False by (subst strtok.simps) (simp add: Let_def)
    then consider "t = takeWhile (\<lambda>b. \<not> delim b) ?t"
      | "t \<in> set (strtok delim (dropWhile (\<lambda>b. \<not> delim b) ?t))"
      using 1(2) by force
    then show ?thesis
    proof cases
      case 1
      with ne show ?thesis by (metis set_takeWhileD)
    next
      case 2
      then show ?thesis by (rule "1.IH" [OF refl False])
    qed
  qed
qed

text \<open>Words joined by delimiters come apart again.\<close>

fun join :: "u8 \<Rightarrow> bytes list \<Rightarrow> bytes" where
  "join d [] = []"
| "join d [w] = w"
| "join d (w # v # ws) = w @ d # join d (v # ws)"

lemma strtok_join:
  "delim d \<Longrightarrow> \<forall>w\<in>set ws. w \<noteq> [] \<and> (\<forall>b\<in>set w. \<not> delim b) \<Longrightarrow> strtok delim (join d ws) = ws"
proof (induction d ws rule: join.induct)
  case (2 d w)
  then show ?case using strtok_word [of w delim "[]"] by (simp add: strtok_blank)
next
  case (3 d w v ws)
  then show ?case using strtok_word [of w delim "d # join d (v # ws)"] by (simp add: strtok_skip)
qed (simp add: strtok_blank)

section \<open>The environment\<close>

record env =
  home :: "bytes option"
  chdir :: "bytes \<Rightarrow> bytes \<Rightarrow> bytes option"
  getcwd_ok :: "bytes \<Rightarrow> bool"

datatype read_result = Interrupted | Read_Error | Data bytes

text \<open>A round of a main loop: the result of \<open>read\<close>, and the result of the \<open>fork\<close> it may
  call (in the parent; the child executes the command and is not part of the shell).\<close>

record event =
  read_of :: read_result
  fork_of :: int

section \<open>The specification of the history\<close>

text \<open>At most ten commands, oldest first, and the number of the newest one.\<close>

definition HIST :: nat where "HIST = 10"

definition last_n :: "nat \<Rightarrow> 'a list \<Rightarrow> 'a list" where
  "last_n n xs = drop (length xs - n) xs"

lemma length_last_n [simp]: "length (last_n n xs) = min n (length xs)"
  by (simp add: last_n_def)

lemma last_n_all: "length xs \<le> n \<Longrightarrow> last_n n xs = xs"
  by (simp add: last_n_def)

lemma last_n_snoc: "0 < n \<Longrightarrow> last_n n (last_n n xs @ [x]) = last_n n (xs @ [x])"
  by (cases "length xs \<le> n"; cases "length xs = n") (auto simp: last_n_def Suc_diff_le)

text \<open>The shells keep it in an array of ten pointers to copies of the commands: a pointer is
  NULL, or points to a string, or to memory that has been freed.\<close>

datatype cell = Null | Str bytes | Freed

fun string_at :: "cell \<Rightarrow> bytes run" where
  "string_at Null = fail NullDeref"
| "string_at (Str x) = ret x"
| "string_at Freed = fail BadDeref"

definition free_cell :: "cell \<Rightarrow> unit run" where
  "free_cell c = (if c = Freed then fail BadDeref else ret ())"

definition shift_cells :: "nat \<Rightarrow> cell list \<Rightarrow> cell list" where
  "shift_cells n c = foldl (\<lambda>c i. c[i - 1 := c ! i]) c [1..<n]"

definition cells_hold :: "cell list \<Rightarrow> bytes list \<Rightarrow> bool" where
  "cells_hold c xs \<longleftrightarrow> length c = HIST \<and> length xs \<le> HIST \<and> take (length xs) c = map Str xs"

lemma cells_hold_Nil: "length c = HIST \<Longrightarrow> cells_hold c []"
  by (simp add: cells_hold_def)

lemma cells_hold_nth: "cells_hold c xs \<Longrightarrow> i < length xs \<Longrightarrow> c ! i = Str (xs ! i)"
  unfolding cells_hold_def by (metis length_map nth_map nth_take)

lemma shift_cells_eq:
  "0 < n \<Longrightarrow> n \<le> length c \<Longrightarrow> shift_cells n c = take (n - 1) (drop 1 c) @ drop (n - 1) c"
proof (induction n)
  case (Suc n)
  show ?case
  proof (cases "n = 0")
    case False
    let ?f = "take (n - 1) (drop 1 c) @ drop (n - 1) c"
    have "[1..<Suc n] = [1..<n] @ [n]" using False by simp
    then have "shift_cells (Suc n) c = (shift_cells n c)[n - 1 := shift_cells n c ! n]"
      by (simp add: shift_cells_def)
    also have "\<dots> = ?f[n - 1 := ?f ! n]" using Suc False by simp
    also have "\<dots> = take n (drop 1 c) @ drop n c"
    proof -
      obtain k where k: "n = Suc k" using False by (cases n) auto
      obtain a c' where c: "c = a # c'" using Suc.prems(2) by (cases c) auto
      have lt: "k < length c'" using Suc.prems(2) by (simp add: k c)
      then have "drop k (a # c') = (a # c') ! k # drop k c'"
        using Cons_nth_drop_Suc [of k "a # c'"] by simp
      moreover have "drop k c' = c' ! k # drop (Suc k) c'" using lt by (simp add: Cons_nth_drop_Suc)
      ultimately show ?thesis
        using lt by (simp add: k c nth_append list_update_append take_Suc_conv_app_nth)
    qed
    finally show ?thesis by simp
  qed (simp add: shift_cells_def)
qed simp

lemma cells_hold_shift:
  assumes "cells_hold c (x # xs)"
  shows "cells_hold (shift_cells (Suc (length xs)) (c[0 := Freed])) xs"
proof -
  have h: "length c = HIST" "Suc (length xs) \<le> HIST" "take (Suc (length xs)) c = Str x # map Str xs"
    using assms by (simp_all add: cells_hold_def)
  have "take (length xs) (drop 1 c) = map Str xs"
    using arg_cong [OF h(3), of "drop 1"] by (simp add: drop_take)
  then show ?thesis using h(1,2) by (simp add: cells_hold_def shift_cells_eq)
qed

lemma cells_hold_snoc:
  "cells_hold c xs \<Longrightarrow> length xs < HIST \<Longrightarrow> cells_hold (c[length xs := Str x]) (xs @ [x])"
  by (simp add: cells_hold_def take_Suc_conv_app_nth)

lemma cells_hold_snocD:
  assumes "cells_hold c (xs @ [x])"
  shows "cells_hold (c[length xs := d]) xs"
proof -
  have h: "length c = HIST" "Suc (length xs) \<le> HIST" "take (Suc (length xs)) c = map Str xs @ [Str x]"
    using assms by (simp_all add: cells_hold_def)
  have "take (length xs) c = map Str xs"
    using arg_cong [OF h(3), of "take (length xs)"] by (simp add: take_take min_def)
  then show ?thesis using h(1,2) by (simp add: cells_hold_def)
qed

section \<open>Histories\<close>

text \<open>What a shell needs of its history: an operation that adds a command, and a relation
  \<open>holds s n xs\<close>, that \<open>n\<close> commands have been entered and \<open>xs\<close> is what is left of them.
  A sequence of commands then leaves the last ten, as long as no more than \<open>limit\<close>
  are entered (a counter of the commands is an \<open>int\<close>).\<close>

fun add_all :: "('x \<Rightarrow> 's \<Rightarrow> 's run) \<Rightarrow> 'x list \<Rightarrow> 's \<Rightarrow> 's run" where
  "add_all add [] s = ret s"
| "add_all add (x # xs) s = rbind (add x s) (add_all add xs)"

locale history =
  fixes add :: "bytes \<Rightarrow> 's \<Rightarrow> 's run" and holds :: "'s \<Rightarrow> nat \<Rightarrow> bytes list \<Rightarrow> bool"
    and limit :: nat
  assumes add_holds: "holds s n xs \<Longrightarrow> n < limit \<Longrightarrow>
    \<exists>s'. add x s = ret s' \<and> holds s' (n + 1) (last_n HIST (xs @ [x]))"
begin

lemma add_all_holds:
  "holds s n (last_n HIST xs) \<Longrightarrow> n + length cmds \<le> limit \<Longrightarrow>
   \<exists>s'. add_all add cmds s = ret s' \<and> holds s' (n + length cmds) (last_n HIST (xs @ cmds))"
proof (induction cmds arbitrary: s n xs)
  case (Cons c cmds)
  obtain s1 where s1: "add c s = ret s1" "holds s1 (n + 1) (last_n HIST (last_n HIST xs @ [c]))"
    using add_holds [OF Cons.prems(1), of c] Cons.prems(2) by auto
  have "holds s1 (n + 1) (last_n HIST (xs @ [c]))"
    using s1(2) by (simp add: last_n_snoc HIST_def)
  from Cons.IH [OF this] show ?case using s1(1) Cons.prems(2) by simp
qed auto

lemma add_all_from_empty:
  "holds s 0 [] \<Longrightarrow> length cmds \<le> limit \<Longrightarrow> \<exists>s'. add_all add cmds s = ret s' \<and> holds s' (length cmds) (last_n HIST cmds)"
  using add_all_holds [of s 0 "[]" cmds] by (simp add: last_n_def)

end

end
