(* ===== verification/Shell.thy ===== *)
theory Shell
  imports Shell_Base
begin

text \<open>
  The shell of \<open>lecture/test/test.c\<close>. The history is an array of ten pointers to copies
  of the commands, with the number of entries \<open>hist\<close> and the number of commands \<open>cnt\<close>. A round of the main loop
  returns the actions it performs and whether the loop goes on. \<open>lastPath\<close> is
  uninitialised until the first \<open>cd\<close>.
\<close>

section \<open>State\<close>

record shell =
  input_hist :: "cell list"
  hist :: nat
  cnt :: nat
  os_cwd :: bytes
  cwd_buffer :: bytes
  lastPath :: "bytes option"

definition init_shell :: "bytes \<Rightarrow> shell" where
  "init_shell cwd = \<lparr>input_hist = replicate 10 Null, hist = 0, cnt = 0,
     os_cwd = cwd, cwd_buffer = cwd, lastPath = None\<rparr>"

definition hist_cell :: "shell \<Rightarrow> int \<Rightarrow> cell run" where
  "hist_cell s i = (if 0 \<le> i \<and> nat i < length (input_hist s) then ret (input_hist s ! nat i)
     else fail OutOfBounds)"

section \<open>The history\<close>

definition dequeue :: "shell \<Rightarrow> shell run" where
  "dequeue s = rbind (free_cell (input_hist s ! 0)) (\<lambda>u.
     ret (s\<lparr>input_hist := shift_cells (hist s) ((input_hist s)[0 := Freed]),
            hist := hist s - 1\<rparr>))"

definition removeLast :: "shell \<Rightarrow> shell run" where
  "removeLast s =
    (if hist s = 0 then ret s
     else rbind (free_cell (input_hist s ! (hist s - 1))) (\<lambda>u.
       ret (s\<lparr>input_hist := (input_hist s)[hist s - 1 := Freed], hist := hist s - 1,
              cnt := (if 0 < cnt s then cnt s - 1 else cnt s)\<rparr>)))"

definition enqueue :: "bytes \<Rightarrow> shell \<Rightarrow> shell run" where
  "enqueue input s =
    rbind (if 9 < hist s then dequeue s else ret s) (\<lambda>s'.
      if hist s' < length (input_hist s')
      then ret (s'\<lparr>input_hist := (input_hist s')[hist s' := Str input],
                   hist := hist s' + 1, cnt := cnt s' + 1\<rparr>)
      else fail OutOfBounds)"

definition get_hist :: "shell \<Rightarrow> int \<Rightarrow> cell run" where
  "get_hist s num =
    (if num = 0 \<and> 1 \<le> cnt s then hist_cell s 0
     else if num = 0 then ret Null
     else if int (cnt s) < num \<or> num < int (cnt s) - int (hist s) then ret Null
     else if cnt s < 10 then hist_cell s num
     else hist_cell s (num - int (cnt s) + int (hist s)))"

definition get_Last :: "shell \<Rightarrow> cell run" where
  "get_Last s = hist_cell s (int (hist s) - 1)"

text \<open>\<open>counter\<close> has room for ten bytes: the number, a colon, a blank and the NUL.\<close>

fun print_hist_from :: "shell \<Rightarrow> nat \<Rightarrow> action list run" where
  "print_hist_from s 0 = ret []"
| "print_hist_from s (Suc i) =
    (let counter = digits (cnt s + i + 1 - hist s) @ str '': ''
     in if 10 \<le> length counter then fail OutOfBounds else
        rbind (hist_cell s (int i)) (\<lambda>c. rbind (string_at c) (\<lambda>x.
        rbind (print_hist_from s i) (\<lambda>rest. ret (Write counter # Write x # rest)))))"

definition print_hist :: "shell \<Rightarrow> action list run" where
  "print_hist s = print_hist_from s (hist s)"

section \<open>Arguments\<close>

definition blank :: "u8 \<Rightarrow> bool" where
  "blank b \<longleftrightarrow> b = 32 \<or> b = 9 \<or> b = 10 \<or> b = 13"

definition phrase :: "bytes \<Rightarrow> bytes option list run" where
  "phrase input =
    (let ts = strtok blank input
     in if length ts < 16 then ret (map Some ts @ replicate (16 - length ts) None)
        else fail OutOfBounds)"

definition numOnly :: "bytes \<Rightarrow> bool" where
  "numOnly input = list_all (\<lambda>i. isdigit (input ! 1)) [1..<length input]"

fun background_loop :: "bytes option list \<Rightarrow> nat list \<Rightarrow> bool run" where
  "background_loop args [] = ret False"
| "background_loop args (i # is) =
    (case args ! i of None \<Rightarrow> fail NullDeref
     | Some a \<Rightarrow> if strcmp a (str ''&'') = 0 \<and> args ! (i + 1) = None then ret True
                 else background_loop args is)"

definition background :: "bytes option list \<Rightarrow> bool run" where
  "background args = background_loop args [0..<7]"

text \<open>Two functions nothing calls: \<open>reap_background\<close> gets the results of \<open>waitpid\<close> before
  the first that is not positive.\<close>

definition printArgs :: "bytes option list \<Rightarrow> action list" where
  "printArgs args = concat (map (\<lambda>a. [Write (the a), Write [10]]) (takeWhile (\<lambda>a. a \<noteq> None) args))"

definition reap_background :: "int list \<Rightarrow> action list" where
  "reap_background pids = map (\<lambda>pid. Write (str ''[Reaped background PID '' @ digits (nat pid) @ str '']'' @ [10]))
     (takeWhile (\<lambda>pid. 0 < pid) pids)"

text \<open>\<open>!!\<close> and \<open>!n\<close>: the command to run instead, or \<open>None\<close> after a message.\<close>

definition expand :: "shell \<Rightarrow> bytes \<Rightarrow> (bytes option \<times> action list) run" where
  "expand s input =
    (if input \<noteq> [] \<and> hd input = 33 then
       if 1 < length input \<and> input ! 1 = 33 then
         rbind (get_Last s) (\<lambda>c.
           if c = Null then ret (None, [Write (FORMAT_MSG ''history'' HISTORY_NO_LAST_MSG)])
           else rbind (string_at c) (\<lambda>t. ret (Some t, [])))
       else
         rbind (strcpy 4 (tl input)) (\<lambda>num.
         rbind (get_hist s (atoi num)) (\<lambda>c.
           if \<not> numOnly input then ret (None, [Write (FORMAT_MSG ''history'' HISTORY_INVALID_MSG)])
           else if c = Null \<and> hist s = 0 then ret (None, [Write (FORMAT_MSG ''history'' HISTORY_NO_LAST_MSG)])
           else rbind (string_at c) (\<lambda>t. ret (Some t, []))))
     else ret (Some input, []))"

section \<open>The built-in commands\<close>

text \<open>The state, the actions, and whether the main loop goes on.\<close>

type_synonym outcome_of_round = "(shell \<times> action list \<times> bool) run"

definition go :: "shell \<Rightarrow> action list \<Rightarrow> outcome_of_round" where
  "go s acts = ret (s, acts, True)"

definition do_history :: "shell \<Rightarrow> bytes option list \<Rightarrow> outcome_of_round" where
  "do_history s args =
    (if args ! 1 \<noteq> None then go s [Write (FORMAT_MSG ''history'' TMA_MSG)]
     else rbind (print_hist s) (go s))"

definition do_exit :: "shell \<Rightarrow> bytes option list \<Rightarrow> outcome_of_round" where
  "do_exit s args =
    (if args ! 1 \<noteq> None then go s [Write (FORMAT_MSG ''exit'' TMA_MSG)] else ret (s, [], False))"

text \<open>\<open>chdir(path)\<close> of a pointer that may be NULL; \<open>None\<close> is the result -1.\<close>

definition os_chdir :: "env \<Rightarrow> shell \<Rightarrow> bytes option \<Rightarrow> shell option" where
  "os_chdir env s path =
    (case path of None \<Rightarrow> None
     | Some p \<Rightarrow> (case chdir env (os_cwd s) p of None \<Rightarrow> None | Some d \<Rightarrow> Some (s\<lparr>os_cwd := d\<rparr>)))"

definition cd_path :: "env \<Rightarrow> shell \<Rightarrow> bytes option \<Rightarrow> (shell \<times> bytes option) run" where
  "cd_path env s arg =
    (case arg of
       None \<Rightarrow> ret (s, home env)
     | Some p \<Rightarrow>
         if hd p = 126 then
           (case home env of None \<Rightarrow> fail NullDeref | Some h \<Rightarrow> ret (s, Some (take 4095 (h @ tl p))))
         else if hd p = 45 then
           (let s' = (case os_chdir env s (home env) of None \<Rightarrow> s | Some s' \<Rightarrow> s')
            in case lastPath s of None \<Rightarrow> fail Indeterminate | Some l \<Rightarrow> ret (s', Some l))
         else ret (s, Some p))"

definition do_cd :: "env \<Rightarrow> shell \<Rightarrow> bytes option list \<Rightarrow> outcome_of_round" where
  "do_cd env s args =
    (if args ! 2 \<noteq> None then go s [Write (FORMAT_MSG ''cd'' TMA_MSG)] else
     rbind (cd_path env s (args ! 1)) (\<lambda>(s', path).
       case os_chdir env s' path of
         Some s'' \<Rightarrow> go (s''\<lparr>lastPath := Some (take 4096 (cwd_buffer s''))\<rparr>) []
       | None \<Rightarrow>
           (case args ! 1 of None \<Rightarrow> fail NullDeref
            | Some a \<Rightarrow>
                if hd a \<noteq> 126 then go s' [Write (FORMAT_MSG ''cd'' CHDIR_ERROR_MSG)]
                else go (s'\<lparr>lastPath := Some (take 4096 (cwd_buffer s'))\<rparr>) [])))"

definition do_pwd :: "env \<Rightarrow> shell \<Rightarrow> bytes option list \<Rightarrow> outcome_of_round" where
  "do_pwd env s args =
    (if args ! 1 \<noteq> None then go s [Write (FORMAT_MSG ''pwd'' TMA_MSG)]
     else if \<not> getcwd_ok env (os_cwd s) then go s [Write (FORMAT_MSG ''pwd'' GETCWD_ERROR_MSG)]
     else go (s\<lparr>cwd_buffer := os_cwd s\<rparr>) [Write (os_cwd s), Write [10]])"

definition help_all :: "action list" where
  "help_all = [Write (FORMAT_MSG ''help'' HELP_HELP_MSG), Write (FORMAT_MSG ''cd'' CD_HELP_MSG),
     Write (FORMAT_MSG ''exit'' EXIT_HELP_MSG), Write (FORMAT_MSG ''pwd'' PWD_HELP_MSG),
     Write (FORMAT_MSG ''history'' HISTORY_HELP_MSG)]"

text \<open>\<open>handle_sigint\<close> writes the same messages behind a newline.\<close>

definition handle_sigint :: "action list" where
  "handle_sigint = Write [10] # help_all"

definition do_help :: "shell \<Rightarrow> bytes option list \<Rightarrow> outcome_of_round" where
  "do_help s args =
    (if args ! 2 \<noteq> None then go s [Write (FORMAT_MSG ''help'' TMA_MSG)] else
     (case args ! 1 of None \<Rightarrow> go s help_all
      | Some a \<Rightarrow>
          if strcmp a (str ''help'') = 0 then go s [Write (FORMAT_MSG ''help'' HELP_HELP_MSG)]
          else if strcmp a (str ''cd'') = 0 then go s [Write (FORMAT_MSG ''cd'' CD_HELP_MSG)]
          else if strcmp a (str ''exit'') = 0 then go s [Write (FORMAT_MSG ''exit'' EXIT_HELP_MSG)]
          else if strcmp a (str ''pwd'') = 0 then go s [Write (FORMAT_MSG ''pwd'' PWD_HELP_MSG)]
          else if strcmp a (str ''history'') = 0 then go s [Write (FORMAT_MSG ''history'' HISTORY_HELP_MSG)]
          else let msg = a @ str '': '' @ str EXTERN_HELP_MSG @ [10]
               in if length msg < 1024 then go s [Write msg] else fail OutOfBounds))"

section \<open>Other commands\<close>

text \<open>\<open>pid\<close> is the result of \<open>fork\<close> in the process of the shell: -1 or the number of the child. The
  result 0 is that of the child, which runs lines 303 to 309 only, that is \<open>execvp\<close> and \<open>exit\<close>, and never comes
  back to the shell; what it starts is the action \<open>Start\<close>.\<close>

definition do_external :: "shell \<Rightarrow> bytes option list \<Rightarrow> int \<Rightarrow> outcome_of_round" where
  "do_external s args pid =
    (if pid < 0 then go s [Write (FORMAT_MSG ''shell'' FORK_ERROR_MSG)]
     else rbind (background args) (\<lambda>bg.
       let cmd = map the (takeWhile (\<lambda>a. a \<noteq> None) args)
       in if bg then go s [Start cmd False,
              Write (str ''[Background PID '' @ digits (nat pid) @ str '']'' @ [10])]
          else go s [Start cmd True]))"

definition dispatch :: "env \<Rightarrow> int \<Rightarrow> shell \<Rightarrow> bytes option list \<Rightarrow> outcome_of_round" where
  "dispatch env pid s args =
    (case args ! 0 of
       None \<Rightarrow> rbind (removeLast s) (\<lambda>s'. go s' [Write (FORMAT_MSG ''shell'' READ_ERROR_MSG)])
     | Some c \<Rightarrow>
         if strcmp c (str ''history'') = 0 then do_history s args
         else if strcmp c (str ''exit'') = 0 then do_exit s args
         else if strcmp c (str ''cd'') = 0 then do_cd env s args
         else if strcmp c (str ''pwd'') = 0 then do_pwd env s args
         else if strcmp c (str ''help'') = 0 then do_help s args
         else do_external s args pid)"

section \<open>The main loop\<close>

definition prompt :: "env \<Rightarrow> shell \<Rightarrow> shell \<times> action list" where
  "prompt env s =
    (let s' = (if getcwd_ok env (os_cwd s) then s\<lparr>cwd_buffer := os_cwd s\<rparr> else s)
     in (s', [Write (cwd_buffer s'), Write (str ''$ '')]))"

definition run_input :: "env \<Rightarrow> int \<Rightarrow> shell \<Rightarrow> bytes \<Rightarrow> outcome_of_round" where
  "run_input env pid s input =
    rbind (expand s input) (\<lambda>(cmd, acts).
      case cmd of None \<Rightarrow> go s acts
      | Some c \<Rightarrow> rbind (enqueue c s) (\<lambda>s'. rbind (phrase c) (dispatch env pid s')))"

definition shell_round :: "env \<Rightarrow> event \<Rightarrow> shell \<Rightarrow> outcome_of_round" where
  "shell_round env ev s =
    (case prompt env s of (s', acts) \<Rightarrow>
      rbind (case read_of ev of
          Interrupted \<Rightarrow> go s' []
        | Read_Error \<Rightarrow> go s' [Write (FORMAT_MSG ''shell'' READ_ERROR_MSG)]
        | Data d \<Rightarrow> run_input env (fork_of ev) s' (cstr_of d))
      (\<lambda>(s'', more, cont). ret (s'', acts @ more, cont)))"

fun shell_main :: "env \<Rightarrow> event list \<Rightarrow> shell \<Rightarrow> outcome_of_round" where
  "shell_main env [] s = ret (s, [], True)"
| "shell_main env (ev # evs) s =
    rbind (shell_round env ev s) (\<lambda>(s', acts, cont).
      if cont then rbind (shell_main env evs s') (\<lambda>(s'', more, c). ret (s'', acts @ more, c))
      else ret (s', acts, False))"

end
