(* ===== verification/Shell_Correct.thy ===== *)
theory Shell_Correct
  imports Shell
begin

text \<open>
  The shell of \<open>lecture/test/test.c\<close>: its array of pointers refines the list of the last
  ten commands, the built-in commands keep it so, and the places where the program leaves
  the defined behaviour: \<open>!!\<close> without a history, \<open>!n\<close> with the newest number, commands
  with fewer than seven arguments.
\<close>

section \<open>The history refines a list\<close>

definition hist_holds :: "shell \<Rightarrow> bytes list \<Rightarrow> bool" where
  "hist_holds s xs \<longleftrightarrow> cells_hold (input_hist s) xs \<and> hist s = length xs \<and> length xs \<le> cnt s"

lemma hist_holds_simps:
  assumes "hist_holds s xs"
  shows "hist s = length xs" "length (input_hist s) = HIST" "length xs \<le> HIST" "length xs \<le> cnt s"
    "i < length xs \<Longrightarrow> input_hist s ! i = Str (xs ! i)"
  using assms cells_hold_nth [of "input_hist s" xs i] by (auto simp: hist_holds_def cells_hold_def)

lemma hist_holds_init: "hist_holds (init_shell d) []"
  by (simp add: hist_holds_def init_shell_def cells_hold_Nil HIST_def)

lemma hist_holds_nth: "hist_holds s xs \<Longrightarrow> i < length xs \<Longrightarrow> input_hist s ! i = Str (xs ! i)"
  by (rule hist_holds_simps(5))

lemma dequeue_holds:
  assumes "hist_holds s (x # xs)"
  shows "\<exists>s'. dequeue s = ret s' \<and> hist_holds s' xs \<and> cnt s' = cnt s
    \<and> os_cwd s' = os_cwd s \<and> cwd_buffer s' = cwd_buffer s \<and> lastPath s' = lastPath s"
  using assms hist_holds_nth [OF assms, of 0] cells_hold_shift [of "input_hist s" x xs]
  by (simp add: dequeue_def free_cell_def hist_holds_def)

lemma enqueue_room:
  assumes "hist_holds s xs" "length xs < HIST"
  shows "\<exists>s'. (if hist s < length (input_hist s)
      then ret (s\<lparr>input_hist := (input_hist s)[hist s := Str x], hist := hist s + 1, cnt := cnt s + 1\<rparr>)
      else fail OutOfBounds) = ret s' \<and> hist_holds s' (xs @ [x]) \<and> cnt s' = cnt s + 1
    \<and> os_cwd s' = os_cwd s \<and> cwd_buffer s' = cwd_buffer s \<and> lastPath s' = lastPath s"
  using assms hist_holds_simps(1,2) [OF assms(1)]
  by (simp add: hist_holds_def cells_hold_snoc)

text \<open>\<open>enqueue\<close> keeps the last ten commands; \<open>removeLast\<close> drops the newest.\<close>

lemma enqueue_holds:
  assumes "hist_holds s xs"
  shows "\<exists>s'. enqueue x s = ret s' \<and> hist_holds s' (last_n HIST (xs @ [x])) \<and> cnt s' = cnt s + 1
    \<and> os_cwd s' = os_cwd s \<and> cwd_buffer s' = cwd_buffer s \<and> lastPath s' = lastPath s"
proof (cases "length xs < HIST")
  case True
  have "hist s = length xs" using assms by (simp add: hist_holds_def)
  then have "\<not> 9 < hist s" using True by (simp add: HIST_def)
  with enqueue_room [OF assms True, of x] True show ?thesis
    by (simp add: enqueue_def last_n_all)
next
  case False
  then have n: "length xs = HIST" using hist_holds_simps(3) [OF assms] by simp
  then obtain y ys where xs: "xs = y # ys" by (cases xs) (auto simp: HIST_def)
  obtain s1 where s1: "dequeue s = ret s1" "hist_holds s1 ys" "cnt s1 = cnt s"
    "os_cwd s1 = os_cwd s" "cwd_buffer s1 = cwd_buffer s" "lastPath s1 = lastPath s"
    using dequeue_holds assms unfolding xs by blast
  have "9 < hist s" using assms n by (simp add: hist_holds_def HIST_def)
  moreover have "last_n HIST (xs @ [x]) = ys @ [x]" using n by (simp add: last_n_def xs)
  moreover have "length ys < HIST" using n by (simp add: xs)
  ultimately show ?thesis
    using enqueue_room [OF s1(2), of x] s1 by (simp add: enqueue_def)
qed

lemma removeLast_holds:
  assumes "hist_holds s xs"
  shows "\<exists>s'. removeLast s = ret s' \<and> hist_holds s' (butlast xs)
    \<and> cnt s' = (if xs = [] then cnt s else cnt s - 1)
    \<and> os_cwd s' = os_cwd s \<and> cwd_buffer s' = cwd_buffer s \<and> lastPath s' = lastPath s"
proof (cases xs rule: rev_cases)
  case (snoc ys y)
  have "cells_hold ((input_hist s)[length ys := Freed]) ys"
    using assms cells_hold_snocD [of "input_hist s" ys y] by (simp add: hist_holds_def snoc)
  with assms hist_holds_nth [OF assms, of "length ys"] show ?thesis
    by (simp add: removeLast_def free_cell_def hist_holds_def snoc) linarith
qed (use assms in \<open>simp add: removeLast_def hist_holds_def\<close>)

interpretation shell_history: history enqueue "\<lambda>s n xs. hist_holds s xs \<and> cnt s = n" limit for limit
  by unfold_locales (use enqueue_holds in fastforce)

section \<open>Printing and recalling\<close>

definition entry_lines :: "nat \<Rightarrow> bytes \<Rightarrow> action list" where
  "entry_lines n x = [Write (digits n @ str '': ''), Write x]"

lemma print_hist_from_ret:
  assumes "hist_holds s xs" "cnt s < 10 ^ 7"
  shows "i \<le> length xs \<Longrightarrow> print_hist_from s i =
    ret (concat (rev (map (\<lambda>j. entry_lines (cnt s - length xs + j + 1) (xs ! j)) [0..<i])))"
proof (induction i)
  case (Suc i)
  have n: "cnt s + i + 1 - hist s = cnt s - length xs + i + 1"
    using assms(1) by (simp add: hist_holds_def cells_hold_def Suc_diff_le trans_le_add1)
  have "cnt s - length xs + i + 1 < 10 ^ 7" using assms Suc.prems by (simp add: hist_holds_def cells_hold_def)
  then have "length (digits (cnt s - length xs + i + 1)) \<le> 7" by (intro length_digits) simp_all
  moreover have "hist_cell s (int i) = ret (Str (xs ! i))"
    using assms(1) Suc.prems hist_holds_nth [OF assms(1), of i]
    by (simp add: hist_cell_def hist_holds_def cells_hold_def)
  ultimately show ?case
    using Suc unfolding print_hist_from.simps n Let_def
    by (simp add: str_def entry_lines_def)
qed simp

text \<open>The number that \<open>print_hist\<close> shows for the entry with index \<open>i\<close>.\<close>

definition shown_number :: "shell \<Rightarrow> nat \<Rightarrow> nat" where
  "shown_number s i = cnt s - hist s + i + 1"

text \<open>After any sequence of commands the history holds the last ten of them, and \<open>history\<close>
  prints them, newest first, with their numbers.\<close>

text \<open>Property C30. After any sequence of at most \<open>10 ^ 7 - 1\<close> commands, the history holds the last ten, and
  \<open>history\<close> prints them, the newest first, each behind the number of the command.\<close>

theorem history_correct:
  assumes "length cmds < 10 ^ 7"
  shows "\<exists>s. add_all enqueue cmds (init_shell d) = ret s \<and> hist_holds s (last_n HIST cmds)
    \<and> print_hist s = ret (concat (rev (map (\<lambda>j.
        entry_lines (length cmds - min HIST (length cmds) + j + 1) (last_n HIST cmds ! j))
          [0..<min HIST (length cmds)])))"
proof -
  obtain s where s: "add_all enqueue cmds (init_shell d) = ret s"
    "hist_holds s (last_n HIST cmds)" "cnt s = length cmds"
    using shell_history.add_all_from_empty [of "init_shell d" cmds "length cmds"] hist_holds_init [of d]
    by (auto simp: init_shell_def)
  have "hist s = min HIST (length cmds)" using hist_holds_simps(1) [OF s(2)] by simp
  with print_hist_from_ret [OF s(2), of "min HIST (length cmds)"] s assms show ?thesis
    by (simp add: print_hist_def)
qed

theorem history_correct_witness:
  "\<exists>s. add_all enqueue [[97], [98]] (init_shell []) = ret s
    \<and> print_hist s = ret [Write ([50] @ str '': ''), Write [98], Write ([49] @ str '': ''), Write [97]]"
  using history_correct [of "[[97], [98]]" "[]"]
  by (auto simp: last_n_def HIST_def entry_lines_def digits.simps numeral_2_eq_2 upt_rec)

text \<open>\<open>!n\<close> does not run the command that \<open>history\<close> shows with the number \<open>n\<close>, but the
  one with the number \<open>n + 1\<close>.\<close>

theorem get_hist_next_command:
  assumes "hist_holds s xs" "cnt s = length xs \<or> 10 \<le> cnt s" "0 < n" "cnt s - length xs \<le> n" "n < cnt s"
  shows "\<exists>i<length xs. get_hist s (int n) = ret (Str (xs ! i)) \<and> shown_number s i = n + 1"
proof -
  let ?i = "n - (cnt s - length xs)"
  have h: "hist s = length xs" "length xs \<le> cnt s" "length (input_hist s) = HIST"
    using assms(1) by (simp_all add: hist_holds_def cells_hold_def)
  have i: "?i < length xs" using assms(4,5) h by linarith
  have cell: "hist_cell s (int ?i) = ret (Str (xs ! ?i))"
    using hist_holds_nth [OF assms(1) i] i assms(1) by (simp add: hist_cell_def hist_holds_def cells_hold_def)
  have idx: "int ?i = int n - int (cnt s) + int (hist s)" using h assms(4) by simp
  have "get_hist s (int n) =
      (if cnt s < 10 then hist_cell s (int n) else hist_cell s (int n - int (cnt s) + int (hist s)))"
    using assms(3,4,5) h by (auto simp: get_hist_def)
  also have "\<dots> = hist_cell s (int ?i)"
    using assms(2) idx by (cases "cnt s < 10") auto
  finally have "get_hist s (int n) = ret (Str (xs ! ?i))" by (simp only: cell)
  moreover have "shown_number s ?i = n + 1" using h assms(4) by (simp add: shown_number_def)
  ultimately show ?thesis using i by blast
qed

definition demo_shell :: shell where
  "demo_shell = \<lparr>input_hist = [Str [97], Str [98]] @ replicate 8 Null, hist = 2, cnt = 2,
     os_cwd = [47], cwd_buffer = [47], lastPath = None\<rparr>"

lemma demo_shell_holds: "hist_holds demo_shell [[97], [98]]"
  by (simp add: hist_holds_def cells_hold_def demo_shell_def HIST_def)

theorem get_hist_next_command_witness:
  "\<exists>i<2. get_hist demo_shell 1 = ret (Str ([[97], [98]] ! i)) \<and> shown_number demo_shell i = 2"
  using get_hist_next_command [OF demo_shell_holds, of 1] by (simp add: demo_shell_def numeral_2_eq_2)

text \<open>Once ten commands have been entered, \<open>!n\<close> with the number of the newest command
  reads behind the array.\<close>

theorem get_hist_newest_overrun:
  assumes "hist_holds s xs" "length xs = HIST"
  shows "get_hist s (int (cnt s)) = fail OutOfBounds"
  using assms by (auto simp: get_hist_def hist_holds_def cells_hold_def hist_cell_def HIST_def)

definition full_shell :: shell where
  "full_shell = \<lparr>input_hist = replicate 10 (Str [97]), hist = 10, cnt = 12,
     os_cwd = [47], cwd_buffer = [47], lastPath = None\<rparr>"

theorem get_hist_newest_overrun_witness: "get_hist full_shell 12 = fail OutOfBounds"
  using get_hist_newest_overrun [of full_shell "replicate 10 [97]"]
  by (simp add: full_shell_def hist_holds_def cells_hold_def HIST_def map_replicate_const)

section \<open>Rounds of the main loop\<close>

definition demo_env :: env where
  "demo_env = \<lparr>home = Some [47], chdir = (\<lambda>cwd path. Some path), getcwd_ok = (\<lambda>cwd. True)\<rparr>"

definition args_of :: "bytes list \<Rightarrow> bytes option list" where
  "args_of ts = map Some ts @ replicate (16 - length ts) None"

lemma phrase_ret: "length (strtok blank c) < 16 \<Longrightarrow> phrase c = ret (args_of (strtok blank c))"
  by (simp add: phrase_def args_of_def Let_def)

lemma args_of_nth:
  "i < length ts \<Longrightarrow> args_of ts ! i = Some (ts ! i)"
  "length ts \<le> i \<Longrightarrow> i < 16 \<Longrightarrow> args_of ts ! i = None"
  by (simp_all add: args_of_def nth_append)

lemma run_input_plain:
  assumes "hist_holds s xs" "c = [] \<or> hd c \<noteq> 33" "length (strtok blank c) < 16"
  obtains s' where "run_input env pid s c = dispatch env pid s' (args_of (strtok blank c))"
    "hist_holds s' (last_n HIST (xs @ [c]))" "cnt s' = cnt s + 1"
    "os_cwd s' = os_cwd s" "cwd_buffer s' = cwd_buffer s" "lastPath s' = lastPath s"
proof -
  obtain s' where s': "enqueue c s = ret s'" "hist_holds s' (last_n HIST (xs @ [c]))" "cnt s' = cnt s + 1"
    "os_cwd s' = os_cwd s" "cwd_buffer s' = cwd_buffer s" "lastPath s' = lastPath s"
    using enqueue_holds [OF assms(1)] by blast
  have "expand s c = ret (Some c, [])" using assms(2) by (auto simp: expand_def)
  then have "run_input env pid s c = dispatch env pid s' (args_of (strtok blank c))"
    using s'(1) phrase_ret [OF assms(3)] by (simp add: run_input_def)
  then show ?thesis using s'(2-) by (rule that)
qed

text \<open>An empty line, and the end of the input, which the program takes for one: the entry is
  taken back, the message is printed, and the loop goes on.\<close>

lemma blank_round:
  assumes "hist_holds s xs" "strtok blank c = []" "c = [] \<or> hd c \<noteq> 33"
  shows "\<exists>s' ys. run_input env pid s c = ret (s', [Write (FORMAT_MSG ''shell'' READ_ERROR_MSG)], True)
    \<and> hist_holds s' ys"
proof -
  obtain s1 where s1: "run_input env pid s c = dispatch env pid s1 (args_of (strtok blank c))"
    "hist_holds s1 (last_n HIST (xs @ [c]))"
    by (rule run_input_plain [OF assms(1,3), of env pid]) (simp_all add: assms(2))
  obtain s2 where s2: "removeLast s1 = ret s2" "hist_holds s2 (butlast (last_n HIST (xs @ [c])))"
    using removeLast_holds [OF s1(2)] by blast
  have "args_of (strtok blank c) ! 0 = None" by (simp add: assms(2) args_of_nth)
  with s1(1) s2 show ?thesis by (auto simp: dispatch_def go_def)
qed

text \<open>At the end of the input \<open>read\<close> returns 0; however often that happens, the shell has not
  ended, and has not faulted.\<close>

theorem shell_ignores_eof:
  assumes "hist_holds s xs"
  shows "\<exists>s' acts. shell_main env (replicate k \<lparr>read_of = Data [], fork_of = pid\<rparr>) s = ret (s', acts, True)"
  using assms
proof (induction k arbitrary: s xs)
  case (Suc k)
  let ?s = "fst (prompt env s)"
  have "hist_holds ?s xs" using Suc.prems by (simp add: prompt_def Let_def hist_holds_def cells_hold_def)
  from blank_round [OF this, of "[]" env pid] obtain s' ys where
    "run_input env pid ?s [] = ret (s', [Write (FORMAT_MSG ''shell'' READ_ERROR_MSG)], True)"
    "hist_holds s' ys" by (auto simp: strtok.simps)
  with Suc.IH [of s' ys] show ?case
    by (auto simp: shell_round_def cstr_of_def case_prod_beta)
qed simp

theorem shell_ignores_eof_witness:
  "\<exists>s' acts. shell_main demo_env (replicate 1000 \<lparr>read_of = Data [], fork_of = 0\<rparr>) (init_shell [47]) = ret (s', acts, True)"
  by (rule shell_ignores_eof [OF hist_holds_init])

text \<open>\<open>!!\<close> before the first command reads in front of the array.\<close>

theorem bang_bang_first_faults:
  assumes "hist s = 0"
  shows "run_input env pid s (33 # 33 # rest) = fail OutOfBounds"
  using assms by (simp add: run_input_def expand_def get_Last_def hist_cell_def)

theorem bang_bang_first_faults_witness:
  "run_input demo_env 0 (init_shell [47]) [33, 33, 10] = fail OutOfBounds"
  by (rule bang_bang_first_faults) (simp add: init_shell_def)

text \<open>\<open>background\<close> compares its first seven arguments with "\<open>&\<close>", NULL or not: with fewer
  than seven, and no "\<open>&\<close>" at the end, it dereferences NULL. The child has been started by
  then; the shell dies.\<close>

lemma background_few:
  assumes "length ts < 7" "strcmp (last ts) (str ''&'') \<noteq> 0"
  shows "i \<le> length ts \<Longrightarrow> background_loop (args_of ts) [i..<7] = fail NullDeref"
proof (induction "length ts - i" arbitrary: i)
  case 0
  then show ?case using assms(1) by (simp add: upt_rec [of i] args_of_nth)
next
  case (Suc n)
  then have i: "i < length ts" by simp
  have no: "\<not> (strcmp (ts ! i) (str ''&'') = 0 \<and> args_of ts ! (i + 1) = None)"
  proof
    assume a: "strcmp (ts ! i) (str ''&'') = 0 \<and> args_of ts ! (i + 1) = None"
    then have "\<not> i + 1 < length ts" using args_of_nth(1) [of "i + 1" ts] by auto
    then have "i = length ts - 1" "ts \<noteq> []" using i by auto
    then have "ts ! i = last ts" by (simp add: last_conv_nth)
    with a assms(2) show False by simp
  qed
  have "background_loop (args_of ts) [i + 1..<7] = fail NullDeref"
    by (rule Suc(1)) (use Suc(2) i in simp_all)
  moreover have "[i..<7] = i # [i + 1..<7]" using i assms(1) by (simp add: upt_rec [of i])
  ultimately show ?case using no args_of_nth(1) [OF i] by simp
qed

definition builtins :: "bytes list" where
  "builtins = [str ''history'', str ''exit'', str ''cd'', str ''pwd'', str ''help'']"

lemma dispatch_external:
  assumes "\<forall>b\<in>set builtins. strcmp (hd ts) b \<noteq> 0" "ts \<noteq> []"
  shows "dispatch env pid s (args_of ts) = do_external s (args_of ts) pid"
proof -
  have "args_of ts ! 0 = Some (hd ts)" using assms(2) by (simp add: args_of_nth hd_conv_nth)
  with assms(1) show ?thesis by (simp add: dispatch_def builtins_def)
qed

text \<open>Property C33. So an external command of one to six words, not ended by "\<open>&\<close>", kills the shell.\<close>

theorem external_command_crashes:
  assumes "hist_holds s xs" "c = [] \<or> hd c \<noteq> 33" "strtok blank c \<noteq> []" "length (strtok blank c) < 7"
    and "\<forall>b\<in>set builtins. strcmp (hd (strtok blank c)) b \<noteq> 0"
    and "strcmp (last (strtok blank c)) (str ''&'') \<noteq> 0" "0 \<le> pid"
  shows "run_input env pid s c = fail NullDeref"
proof -
  let ?ts = "strtok blank c"
  have "length ?ts < 16" using assms(4) by simp
  then obtain s' where d: "run_input env pid s c = dispatch env pid s' (args_of ?ts)"
    by (rule run_input_plain [OF assms(1,2), of env pid])
  have "background (args_of ?ts) = fail NullDeref"
    using background_few [OF assms(4,6), of 0] by (simp add: background_def)
  then have "do_external s' (args_of ?ts) pid = fail NullDeref"
    using assms(7) by (simp add: do_external_def)
  with d show ?thesis by (simp only: dispatch_external [OF assms(5,3)])
qed

theorem external_command_crashes_witness:
  "run_input demo_env 42 (init_shell [47]) [108, 115, 10] = fail NullDeref"
proof -
  have t: "strtok blank [108, 115, 10] = [[108, 115]]" by (simp add: strtok.simps blank_def)
  show ?thesis
    by (rule external_command_crashes [OF hist_holds_init])
      (simp_all add: t builtins_def str_def)
qed

text \<open>The other built-in commands: no fault, the command is recorded, and the loop goes on
  except after \<open>exit\<close> without arguments.\<close>

theorem builtin_round:
  assumes "hist_holds s xs" "cnt s + 1 < 10 ^ 7" "c = [] \<or> hd c \<noteq> 33"
    and "strtok blank c = t # ts" "length ts < 15" "\<forall>u\<in>set ts. length u < 900"
    and "t = str ''history'' \<or> t = str ''exit'' \<or> t = str ''pwd'' \<or> t = str ''help''"
  shows "\<exists>s' acts cont. run_input env pid s c = ret (s', acts, cont)
    \<and> hist_holds s' (last_n HIST (xs @ [c])) \<and> os_cwd s' = os_cwd s
    \<and> (cont \<longleftrightarrow> \<not> (t = str ''exit'' \<and> ts = []))"
proof -
  let ?args = "args_of (t # ts)"
  obtain s' where s': "run_input env pid s c = dispatch env pid s' ?args"
    "hist_holds s' (last_n HIST (xs @ [c]))" "cnt s' = cnt s + 1" "os_cwd s' = os_cwd s"
    by (rule run_input_plain [OF assms(1,3), of env pid]) (use assms(4,5) in simp_all)
  have a0: "?args ! 0 = Some t" by (simp add: args_of_nth)
  have a1: "?args ! 1 = (case ts of [] \<Rightarrow> None | u # us \<Rightarrow> Some u)"
    by (cases ts) (simp_all add: args_of_nth)
  have ph: "\<exists>acts. print_hist s' = ret acts"
    using print_hist_from_ret [OF s'(2), of "hist s'"] s'(2,3) assms(2)
    by (simp add: print_hist_def hist_holds_def cells_hold_def)
  have hlp: "\<exists>acts. do_help s' ?args = ret (s', acts, True)"
  proof (cases ts)
    case (Cons u us)
    have "length (u @ str '': '' @ str EXTERN_HELP_MSG @ [10]) < 1024"
      using assms(6) by (simp add: Cons str_def EXTERN_HELP_MSG_def)
    then show ?thesis using a1 by (simp add: do_help_def go_def Let_def Cons)
  qed (use a1 in \<open>simp add: do_help_def go_def\<close>)
  consider "t = str ''history''" | "t = str ''exit''" | "t = str ''pwd''" | "t = str ''help''"
    using assms(7) by blast
  then show ?thesis
  proof cases
    case 1
    then show ?thesis using s' a0 a1 ph
      by (cases ts) (auto simp: dispatch_def do_history_def go_def str_def)
  next
    case 2
    then show ?thesis using s' a0 a1
      by (cases ts) (auto simp: dispatch_def do_exit_def go_def str_def)
  next
    case 3
    then show ?thesis using s' a0 a1
      by (cases ts) (auto simp: dispatch_def do_pwd_def go_def str_def hist_holds_def cells_hold_def)
  next
    case 4
    then show ?thesis using s' a0 hlp by (auto simp: dispatch_def str_def)
  qed
qed

theorem builtin_round_witness:
  "\<exists>s' acts. run_input demo_env 0 (init_shell [47]) [112, 119, 100, 10] = ret (s', acts, True)
    \<and> hist_holds s' [[112, 119, 100, 10]]"
proof -
  have t: "strtok blank [112, 119, 100, 10] = [[112, 119, 100]]" by (simp add: strtok.simps blank_def)
  show ?thesis
    using builtin_round [OF hist_holds_init _ _ t, of "[47]" demo_env 0]
    by (auto simp: init_shell_def str_def last_n_def HIST_def)
qed

end
