(* ===== verification/Shell2.thy ===== *)
theory Shell2
  imports Shell_Base
begin

text \<open>
  The second shell, \<open>lecture/test/test2.c\<close>, and the small one of \<open>lecture/test/sigtest.c\<close>.
  The array of arguments lives across the rounds of the main loop: only the entries up to
  the first NULL are written in a round, and \<open>cd\<close> looks at the third entry whatever the
  number of arguments. An entry is \<open>None\<close> as long as nothing has been written to it.
\<close>

section \<open>State\<close>

definition MAX_ARGS :: nat where "MAX_ARGS = 16"
definition HIST_SIZE :: nat where "HIST_SIZE = 10"
definition INPUT_SIZE :: nat where "INPUT_SIZE = 4096"

type_synonym arg = "bytes option option"

record shell2 =
  input_hist :: "cell list"
  hist_count :: nat
  hist_size :: nat
  args :: "arg list"
  os_cwd :: bytes
  cwd_buffer :: bytes
  lastPath :: bytes

definition init_shell2 :: "bytes \<Rightarrow> shell2" where
  "init_shell2 cwd = \<lparr>input_hist = replicate HIST_SIZE Null, hist_count = 0, hist_size = 0,
     args = replicate MAX_ARGS None, os_cwd = cwd, cwd_buffer = cwd, lastPath = []\<rparr>"

section \<open>The history\<close>

definition enqueue_history :: "bytes \<Rightarrow> shell2 \<Rightarrow> shell2 run" where
  "enqueue_history input s =
    rbind (if hist_size s = HIST_SIZE
           then rbind (free_cell (input_hist s ! 0)) (\<lambda>u.
             ret (s\<lparr>input_hist := shift_cells HIST_SIZE ((input_hist s)[0 := Freed]),
                    hist_size := hist_size s - 1\<rparr>))
           else ret s) (\<lambda>s'.
      if length (input_hist s') \<le> hist_size s' then fail OutOfBounds
      else if INT_MAX \<le> hist_count s' then fail Overflow
      else ret (s'\<lparr>input_hist := (input_hist s')[hist_size s' := Str input],
                   hist_size := hist_size s' + 1, hist_count := hist_count s' + 1\<rparr>))"

definition get_last_history :: "shell2 \<Rightarrow> cell" where
  "get_last_history s = (if 0 < hist_size s then input_hist s ! (hist_size s - 1) else Null)"

definition get_history :: "shell2 \<Rightarrow> int \<Rightarrow> cell" where
  "get_history s n =
    (if n \<le> 0 \<or> int (hist_count s) < n then Null
     else let index = (if HIST_SIZE < hist_count s then n - (int (hist_count s) - int HIST_SIZE) - 1 else n - 1)
       in if index < 0 \<or> int (hist_size s) \<le> index then Null else input_hist s ! nat index)"

text \<open>\<open>snprintf\<close> cuts the line to the 64 bytes of \<open>buf\<close> but returns its full length, which
  \<open>write\<close> then takes for the number of bytes to read from \<open>buf\<close>.\<close>

definition write_formatted :: "nat \<Rightarrow> bytes \<Rightarrow> action run" where
  "write_formatted cap line =
    (if length line < cap then ret (Write line)
     else if length line = cap then ret (Write (butlast line @ [0]))
     else fail OutOfBounds)"

fun print_history_from :: "shell2 \<Rightarrow> nat list \<Rightarrow> action list run" where
  "print_history_from s [] = ret []"
| "print_history_from s (i # is) =
    rbind (string_at (input_hist s ! i)) (\<lambda>x.
    rbind (write_formatted 64 (digits (hist_count s - hist_size s + i + 1) @ str '': '' @ x @ [10])) (\<lambda>w.
    rbind (print_history_from s is) (\<lambda>ws. ret (w # ws))))"

definition print_history :: "shell2 \<Rightarrow> action list run" where
  "print_history s = print_history_from s [0..<hist_size s]"

section \<open>Arguments\<close>

definition is_number_only :: "bytes \<Rightarrow> bool" where
  "is_number_only s = list_all isdigit s"

definition delim2 :: "u8 \<Rightarrow> bool" where
  "delim2 b \<longleftrightarrow> b = 32 \<or> b = 9 \<or> b = 10"

text \<open>The tokens, at most \<open>max_args - 1\<close> of them, and a NULL; the entries behind it keep what
  they have.\<close>

definition tokenize :: "bytes \<Rightarrow> arg list \<Rightarrow> nat \<Rightarrow> arg list" where
  "tokenize input old max_args =
    (let ts = take (max_args - 1) (strtok delim2 input)
     in map (\<lambda>t. Some (Some t)) ts @ Some None # drop (length ts + 1) old)"

text \<open>The value of an argument the program reads.\<close>

definition arg_at :: "arg list \<Rightarrow> nat \<Rightarrow> bytes option run" where
  "arg_at a i =
    (if i < length a then (case a ! i of None \<Rightarrow> fail Indeterminate | Some v \<Rightarrow> ret v) else fail OutOfBounds)"

definition count_args :: "arg list \<Rightarrow> nat" where
  "count_args a = length (takeWhile (\<lambda>x. x \<noteq> Some None) a)"

definition is_background :: "arg list \<Rightarrow> nat \<Rightarrow> (bool \<times> arg list) run" where
  "is_background a argc =
    (if 0 < argc
     then rbind (arg_at a (argc - 1)) (\<lambda>v.
       case v of None \<Rightarrow> fail NullDeref
       | Some t \<Rightarrow> if strcmp t (str ''&'') = 0 then ret (True, a[argc - 1 := Some None]) else ret (False, a))
     else ret (False, a))"

definition reap_background2 :: "int list \<Rightarrow> action list" where
  "reap_background2 pids = map (\<lambda>pid. Write (str ''[Reaped background PID '' @ digits (nat pid) @ str '']'' @ [10]))
     (takeWhile (\<lambda>pid. 0 < pid) pids)"

text \<open>\<open>!!\<close> and \<open>!n\<close>; \<open>None\<close> when there is no such command.\<close>

definition recall :: "shell2 \<Rightarrow> bytes \<Rightarrow> bytes option run" where
  "recall s input =
    (if input \<noteq> [] \<and> hd input = 33 then
       let c = (if 1 < length input \<and> input ! 1 = 33 then get_last_history s
                else if is_number_only (tl input) then get_history s (atoi (tl input)) else Null)
       in if c = Null then ret None else rbind (string_at c) (\<lambda>t. ret (Some t))
     else ret (Some input))"

section \<open>Commands\<close>

definition help_msgs :: "action list" where
  "help_msgs = [Write (FORMAT_MSG ''help'' HELP_HELP_MSG), Write (FORMAT_MSG ''cd'' CD_HELP_MSG),
     Write (FORMAT_MSG ''exit'' EXIT_HELP_MSG), Write (FORMAT_MSG ''pwd'' PWD_HELP_MSG),
     Write (FORMAT_MSG ''history'' HISTORY_HELP_MSG)]"

definition sigint_handler :: "action list" where
  "sigint_handler = Write [10] # help_msgs"

type_synonym round2 = "(shell2 \<times> action list \<times> bool) run"

definition stay :: "shell2 \<Rightarrow> action list \<Rightarrow> round2" where
  "stay s acts = ret (s, acts, True)"

definition too_many :: "shell2 \<Rightarrow> string \<Rightarrow> round2" where
  "too_many s cmd = stay s [Write (FORMAT_MSG cmd TMA_MSG)]"

definition exit2 :: "shell2 \<Rightarrow> round2" where
  "exit2 s = rbind (arg_at (args s) 1) (\<lambda>a. if a \<noteq> None then too_many s ''exit'' else ret (s, [], False))"

definition pwd2 :: "env \<Rightarrow> shell2 \<Rightarrow> round2" where
  "pwd2 env s = rbind (arg_at (args s) 1) (\<lambda>a.
     if a \<noteq> None then too_many s ''pwd''
     else let s' = (if getcwd_ok env (os_cwd s) then s\<lparr>cwd_buffer := os_cwd s\<rparr> else s)
       in stay s' [Write (cwd_buffer s'), Write [10]])"

definition cd2_path :: "env \<Rightarrow> shell2 \<Rightarrow> bytes option \<Rightarrow> bytes option run" where
  "cd2_path env s a =
    (case a of None \<Rightarrow> ret (home env)
     | Some p \<Rightarrow>
         if hd p = 126 then (case home env of None \<Rightarrow> fail NullDeref | Some h \<Rightarrow> ret (Some (take 4095 (h @ tl p))))
         else if hd p = 45 then ret (Some (lastPath s))
         else ret (Some p))"

definition cd2 :: "env \<Rightarrow> shell2 \<Rightarrow> round2" where
  "cd2 env s = rbind (arg_at (args s) 2) (\<lambda>third.
     if third \<noteq> None then too_many s ''cd''
     else rbind (arg_at (args s) 1) (\<lambda>a. rbind (cd2_path env s a) (\<lambda>path.
       case path of None \<Rightarrow> stay s [Write (FORMAT_MSG ''cd'' CHDIR_ERROR_MSG)]
       | Some p \<Rightarrow> (case chdir env (os_cwd s) p of
           None \<Rightarrow> stay s [Write (FORMAT_MSG ''cd'' CHDIR_ERROR_MSG)]
         | Some d \<Rightarrow> stay (s\<lparr>os_cwd := d, lastPath := take 4096 (cwd_buffer s)\<rparr>) []))))"

definition history2 :: "shell2 \<Rightarrow> round2" where
  "history2 s = rbind (arg_at (args s) 1) (\<lambda>a.
     if a \<noteq> None then too_many s ''history'' else rbind (print_history s) (stay s))"

definition external2 :: "shell2 \<Rightarrow> bool \<Rightarrow> int \<Rightarrow> round2" where
  "external2 s bg pid =
    (if pid < 0 then stay s [Write (FORMAT_MSG ''shell'' FORK_ERROR_MSG)]
     else let cmd = map (the \<circ> the) (takeWhile (\<lambda>x. x \<noteq> Some None) (args s))
       in if bg then stay s [Start cmd False,
            Write (str ''[Background PID '' @ digits (nat pid) @ str '']'' @ [10])]
          else stay s [Start cmd True])"

definition dispatch2 :: "env \<Rightarrow> int \<Rightarrow> bool \<Rightarrow> shell2 \<Rightarrow> round2" where
  "dispatch2 env pid bg s = rbind (arg_at (args s) 0) (\<lambda>a0.
     case a0 of None \<Rightarrow> fail NullDeref
     | Some c \<Rightarrow>
         if strcmp c (str ''exit'') = 0 then exit2 s
         else if strcmp c (str ''pwd'') = 0 then pwd2 env s
         else if strcmp c (str ''cd'') = 0 then cd2 env s
         else if strcmp c (str ''history'') = 0 then history2 s
         else if strcmp c (str ''help'') = 0 then stay s help_msgs
         else external2 s bg pid)"

section \<open>The main loop\<close>

definition run_command :: "env \<Rightarrow> int \<Rightarrow> bytes \<Rightarrow> shell2 \<Rightarrow> round2" where
  "run_command env pid input s = rbind (enqueue_history input s) (\<lambda>s.
     let s = s\<lparr>args := tokenize input (args s) MAX_ARGS\<rparr>
     in rbind (arg_at (args s) 0) (\<lambda>a0.
          if a0 = None then stay s []
          else rbind (is_background (args s) (count_args (args s))) (\<lambda>(bg, a).
            dispatch2 env pid bg (s\<lparr>args := a\<rparr>))))"

text \<open>The line without its newline, up to the first NUL. \<open>read\<close> gives at most
  \<open>sizeof(input) - 1\<close> bytes of what is there.\<close>

definition line_of :: "bytes \<Rightarrow> bytes" where
  "line_of d = cstr_of (if last d = 10 then butlast d else d)"

definition input_line :: "bytes \<Rightarrow> bytes" where
  "input_line d = line_of (take (INPUT_SIZE - 1) d)"

record event2 = event +
  reaped :: "int list"

definition shell2_round :: "env \<Rightarrow> event2 \<Rightarrow> shell2 \<Rightarrow> round2" where
  "shell2_round env ev s =
    (let s = (if getcwd_ok env (os_cwd s) then s\<lparr>cwd_buffer := os_cwd s\<rparr> else s);
         acts = reap_background2 (reaped ev) @ [Write (cwd_buffer s), Write (str ''$ '')]
     in rbind (case read_of ev of
          Data d \<Rightarrow>
            (if d = [] \<or> input_line d = [] then stay s []
             else rbind (recall s (input_line d)) (\<lambda>c.
               case c of None \<Rightarrow> stay s [] | Some input \<Rightarrow> run_command env (fork_of ev) input s))
        | _ \<Rightarrow> stay s [])
        (\<lambda>(s', more, cont). ret (s', acts @ more, cont)))"

text \<open>After \<open>exit\<close> the history is freed.\<close>

fun free_cells :: "cell list \<Rightarrow> unit run" where
  "free_cells [] = ret ()"
| "free_cells (c # cs) = rbind (free_cell c) (\<lambda>u. free_cells cs)"

fun shell2_main :: "env \<Rightarrow> event2 list \<Rightarrow> shell2 \<Rightarrow> round2" where
  "shell2_main env [] s = stay s []"
| "shell2_main env (ev # evs) s =
    rbind (shell2_round env ev s) (\<lambda>(s', acts, cont).
      if cont then rbind (shell2_main env evs s') (\<lambda>(s'', more, c). ret (s'', acts @ more, c))
      else rbind (free_cells (take (hist_size s') (input_hist s'))) (\<lambda>u.
        ret (s', acts @ [Write ([10] @ str ''Exiting shell...'' @ [10])], False)))"

end
