(* ===== verification/Shell2_Correct.thy ===== *)
theory Shell2_Correct
  imports Shell2
begin

text \<open>
  The shell of \<open>lecture/test/test2.c\<close>: its history refines the list of all commands
  entered, \<open>!n\<close> recalls the command with the number \<open>n\<close>, and no sequence of events makes
  it fault as long as the commands are short and none is a lone "\<open>&\<close>" or a \<open>cd\<close> without
  arguments; what these three do is shown as well.
\<close>

section \<open>The history\<close>

definition holds2 :: "shell2 \<Rightarrow> nat \<Rightarrow> bytes list \<Rightarrow> bool" where
  "holds2 s n xs \<longleftrightarrow> cells_hold (input_hist s) xs \<and> hist_size s = length xs \<and> hist_count s = n
     \<and> length xs = min HIST n"

lemma holds2_init: "holds2 (init_shell2 d) 0 []"
  by (simp add: holds2_def init_shell2_def cells_hold_Nil HIST_def HIST_SIZE_def)

lemma holds2_nth: "holds2 s n xs \<Longrightarrow> i < length xs \<Longrightarrow> input_hist s ! i = Str (xs ! i)"
  by (simp add: holds2_def cells_hold_nth)

lemma enqueue_history_ret:
  assumes "holds2 s n xs" "n < INT_MAX"
  obtains c k where "enqueue_history x s = ret (s\<lparr>input_hist := c, hist_size := k, hist_count := n + 1\<rparr>)"
    "holds2 (s\<lparr>input_hist := c, hist_size := k, hist_count := n + 1\<rparr>) (n + 1) (last_n HIST (xs @ [x]))"
proof (cases "length xs < HIST")
  case True
  let ?s' = "s\<lparr>input_hist := (input_hist s)[length xs := Str x], hist_size := length xs + 1, hist_count := n + 1\<rparr>"
  have f: "hist_size s = length xs" "hist_count s = n" "length (input_hist s) = HIST" "length xs = min HIST n"
    using assms(1) by (simp_all add: holds2_def cells_hold_def)
  have "cells_hold ((input_hist s)[length xs := Str x]) (xs @ [x])"
    by (rule cells_hold_snoc [OF _ True]) (use assms(1) in \<open>simp add: holds2_def\<close>)
  moreover have "length xs \<noteq> HIST_SIZE" "n < HIST" using True f(4) by (simp_all add: HIST_SIZE_def HIST_def min_def split: if_splits)
  ultimately have "enqueue_history x s = ret ?s'" "holds2 ?s' (n + 1) (last_n HIST (xs @ [x]))"
    using True f assms(2) by (simp_all add: enqueue_history_def holds2_def last_n_all)
  then show ?thesis by (rule that)
next
  case False
  then have n: "length xs = HIST" using assms(1) by (simp add: holds2_def)
  then obtain y ys where xs: "xs = y # ys" by (cases xs) (auto simp: HIST_def)
  let ?c = "shift_cells HIST_SIZE ((input_hist s)[0 := Freed])"
  have len: "Suc (length ys) = HIST_SIZE" using n by (simp add: xs HIST_def HIST_SIZE_def)
  then have c: "cells_hold ?c ys"
    using cells_hold_shift [of "input_hist s" y ys] assms(1) by (simp add: holds2_def xs)
  moreover have "length ys < HIST" using n by (simp add: xs)
  ultimately have "cells_hold (?c[length ys := Str x]) (ys @ [x])" by (rule cells_hold_snoc)
  moreover have "length ?c = HIST" using c by (simp add: cells_hold_def)
  moreover have "input_hist s ! 0 = Str y" using holds2_nth [OF assms(1), of 0] by (simp add: xs)
  moreover have "last_n HIST (xs @ [x]) = ys @ [x]" using n by (simp add: last_n_def xs)
  ultimately show ?thesis
    using assms n len that [where c = "?c[length ys := Str x]" and k = "length ys + 1"]
    by (auto simp: enqueue_history_def holds2_def HIST_SIZE_def HIST_def free_cell_def xs)
qed

interpretation shell2_history: history enqueue_history holds2 INT_MAX
  by unfold_locales (metis enqueue_history_ret)

text \<open>Position \<open>i\<close> of the last ten commands is the command with the number
  \<open>length cmds - min HIST (length cmds) + i + 1\<close>.\<close>

lemma last_n_nth:
  "i < min n (length xs) \<Longrightarrow> last_n n xs ! i = xs ! (length xs - min n (length xs) + i)"
  by (simp add: last_n_def min_def)

lemma get_history_holds:
  assumes "holds2 s (length cmds) (last_n HIST cmds)"
  shows "get_history s n = (if 0 < n \<and> int (length cmds) - int HIST < n \<and> n \<le> int (length cmds)
    then Str (cmds ! (nat n - 1)) else Null)"
proof -
  let ?k = "length cmds" and ?xs = "last_n HIST cmds"
  have h: "hist_count s = ?k" "hist_size s = min HIST ?k" using assms by (simp_all add: holds2_def)
  have H: "HIST = 10" "HIST_SIZE = 10" by (simp_all add: HIST_def HIST_SIZE_def)
  show ?thesis
  proof (cases "0 < n \<and> int ?k - int HIST < n \<and> n \<le> int ?k")
    case True
    let ?index = "if HIST_SIZE < ?k then n - (int ?k - int HIST_SIZE) - 1 else n - 1"
    obtain j where j: "?index = int j" "j < min HIST ?k" "nat n - 1 = ?k - min HIST ?k + j"
    proof
      show "?index = int (nat ?index)" "nat ?index < min HIST ?k"
        "nat n - 1 = ?k - min HIST ?k + nat ?index" using True H by (auto simp: min_def)
    qed
    have "input_hist s ! j = Str (?xs ! j)" using holds2_nth [OF assms, of j] j(2) by simp
    also have "?xs ! j = cmds ! (nat n - 1)" using last_n_nth [OF j(2)] j(3) by simp
    finally have "input_hist s ! j = Str (cmds ! (nat n - 1))" .
    moreover have "get_history s n = input_hist s ! j"
      using True j(2) unfolding get_history_def h Let_def j(1) by auto
    ultimately show ?thesis using True by simp
  next
    case False
    then show ?thesis using h H by (auto simp: get_history_def Let_def min_def)
  qed
qed

lemma write_formatted_ret: "length line < cap \<Longrightarrow> write_formatted cap line = ret (Write line)"
  by (simp add: write_formatted_def)

definition history_line :: "nat \<Rightarrow> bytes \<Rightarrow> bytes" where
  "history_line n x = digits n @ str '': '' @ x @ [10]"

lemma length_history_line: "length (history_line n x) = length (digits n) + length x + 3"
  by (simp add: history_line_def str_def)

lemma print_history_from_ret:
  assumes "holds2 s n xs"
    "\<forall>i\<in>set is. i < length xs \<and> length (history_line (n - length xs + i + 1) (xs ! i)) < 64"
  shows "print_history_from s is =
    ret (map (\<lambda>i. Write (history_line (n - length xs + i + 1) (xs ! i))) is)"
  using assms(2)
proof (induction "is")
  case (Cons i js)
  have "hist_count s - hist_size s + i + 1 = n - length xs + i + 1"
    using assms(1) by (simp add: holds2_def)
  with Cons holds2_nth [OF assms(1), of i] show ?case
    by (simp add: write_formatted_ret history_line_def [symmetric])
qed simp

text \<open>Property C29. After any sequence of at most \<open>INT_MAX\<close> commands (their counter is an
  \<open>int\<close>), \<open>!n\<close> finds the command with the number \<open>n\<close> if it is
  among the last ten, and nothing otherwise; \<open>history\<close> prints these ten in order behind
  their numbers, provided that each printed line, the number and the newline included, has
  at most 63 bytes (a longer one is read from behind its buffer, see below).\<close>

theorem history2_correct:
  assumes "length cmds \<le> INT_MAX"
  shows "\<exists>s. add_all enqueue_history cmds (init_shell2 d) = ret s
    \<and> (\<forall>n. get_history s n = (if 0 < n \<and> int (length cmds) - int HIST < n \<and> n \<le> int (length cmds)
          then Str (cmds ! (nat n - 1)) else Null))
    \<and> (list_all (\<lambda>i. length (history_line (i + 1) (cmds ! i)) < 64) [length cmds - HIST..<length cmds]
        \<longrightarrow> print_history s = ret (map (\<lambda>i. Write (history_line (i + 1) (cmds ! i)))
              [length cmds - HIST..<length cmds]))"
proof -
  let ?k = "length cmds" and ?xs = "last_n HIST cmds"
  obtain s where s: "add_all enqueue_history cmds (init_shell2 d) = ret s" "holds2 s ?k ?xs"
    using shell2_history.add_all_from_empty [OF holds2_init assms] by blast
  have "print_history s = ret (map (\<lambda>i. Write (history_line (i + 1) (cmds ! i))) [?k - HIST..<?k])"
    if a: "list_all (\<lambda>i. length (history_line (i + 1) (cmds ! i)) < 64) [?k - HIST..<?k]"
  proof -
    have eq: "[?k - HIST..<?k] = map (\<lambda>i. ?k - min HIST ?k + i) [0..<min HIST ?k]"
    proof -
      have "[?k - HIST..<?k] = map (\<lambda>i. i + (?k - HIST)) [0..<?k - (?k - HIST)]" by (simp add: map_add_upt)
      moreover have "?k - (?k - HIST) = min HIST ?k" "?k - HIST = ?k - min HIST ?k" by linarith+
      ultimately show ?thesis by (simp add: add.commute)
    qed
    have nth: "i < min HIST ?k \<Longrightarrow> ?xs ! i = cmds ! (?k - min HIST ?k + i)" for i
      by (rule last_n_nth)
    have "print_history_from s [0..<min HIST ?k] =
        ret (map (\<lambda>i. Write (history_line (?k - length ?xs + i + 1) (?xs ! i))) [0..<min HIST ?k])"
      by (rule print_history_from_ret [OF s(2)])
        (use a in \<open>auto simp: nth eq list_all_iff simp del: min_less_iff_conj\<close>)
    moreover have "hist_size s = min HIST ?k" using s(2) by (simp add: holds2_def)
    ultimately show ?thesis
      by (simp add: print_history_def eq nth o_def del: min_less_iff_conj)
  qed
  with s get_history_holds [OF s(2)] show ?thesis by blast
qed

theorem history2_correct_witness:
  "\<exists>s. add_all enqueue_history [[97], [98]] (init_shell2 []) = ret s \<and> get_history s 2 = Str [98]
    \<and> print_history s = ret [Write (history_line 1 [97]), Write (history_line 2 [98])]"
proof -
  have eq: "[length [[97 :: u8], [98]] - HIST..<length [[97 :: u8], [98]]] = [0, 1]"
    by (simp add: HIST_def upt_rec)
  have b: "length [[97 :: u8], [98]] \<le> INT_MAX" by (simp add: INT_MAX_def)
  obtain s where "add_all enqueue_history [[97], [98]] (init_shell2 []) = ret s"
    "\<forall>n. get_history s n = (if 0 < n \<and> 2 - int HIST < n \<and> n \<le> 2 then Str ([[97], [98]] ! (nat n - 1)) else Null)"
    "print_history s = ret [Write (history_line 1 [97]), Write (history_line 2 [98])]"
    using history2_correct [OF b, of "[]"] unfolding eq
    by (auto simp: length_history_line digits.simps numeral_2_eq_2)
  then show ?thesis by (auto simp: HIST_def)
qed

text \<open>A longer line is read from behind the buffer it was formatted into.\<close>

theorem print_history_overread:
  assumes "holds2 s n xs" "xs \<noteq> []" "64 < length (history_line (n - length xs + 1) (hd xs))"
  shows "print_history s = fail OutOfBounds"
proof -
  have "hist_size s = length xs" using assms(1) by (simp add: holds2_def)
  then have "[0..<hist_size s] = 0 # [1..<length xs]" using assms(2) by (simp add: upt_rec)
  moreover have "input_hist s ! 0 = Str (hd xs)"
    using holds2_nth [OF assms(1), of 0] assms(2) by (simp add: hd_conv_nth)
  moreover have "hist_count s - hist_size s = n - length xs" using assms(1) by (simp add: holds2_def)
  ultimately show ?thesis using assms(3)
    by (simp add: print_history_def write_formatted_def history_line_def)
qed

definition long_shell2 :: shell2 where
  "long_shell2 = \<lparr>input_hist = Str (replicate 70 97) # replicate 9 Null, hist_count = 1, hist_size = 1,
     args = replicate 16 None, os_cwd = [47], cwd_buffer = [47], lastPath = []\<rparr>"

theorem print_history_overread_witness: "print_history long_shell2 = fail OutOfBounds"
  by (rule print_history_overread [of _ 1 "[replicate 70 97]"])
    (simp_all add: long_shell2_def holds2_def cells_hold_def HIST_def length_history_line)

end
