(* ===== verification/Shell2_Rounds.thy ===== *)
theory Shell2_Rounds
  imports Shell2_Correct
begin

text \<open>
  The rounds of the shell of \<open>lecture/test/test2.c\<close>: safety over every sequence of events,
  and the two inputs that are excluded there, a lone "\<open>&\<close>" and a \<open>cd\<close> whose third argument
  is left over from an earlier command.
\<close>

section \<open>The array of arguments\<close>

text \<open>The arguments \<open>us\<close>, a NULL, and old entries.\<close>

definition arg_list :: "bytes list \<Rightarrow> arg list \<Rightarrow> arg list" where
  "arg_list us old = map (Some \<circ> Some) us @ Some None # old"


lemma arg_at_arg_list:
  "i < length us \<Longrightarrow> arg_at (arg_list us old) i = ret (Some (us ! i))"
  "i = length us \<Longrightarrow> arg_at (arg_list us old) i = ret None"
  by (simp_all add: arg_at_def arg_list_def nth_append)


lemma count_args_arg_list [simp]: "count_args (arg_list us old) = length us"
proof -
  have "takeWhile (\<lambda>x. x \<noteq> Some None) (map (Some \<circ> Some) us @ Some None # old) = map (Some \<circ> Some) us"
    by (subst takeWhile_append2) auto
  then show ?thesis by (simp add: count_args_def arg_list_def)
qed

definition words_of :: "bytes \<Rightarrow> bytes list" where
  "words_of x = take (MAX_ARGS - 1) (strtok delim2 x)"

lemma tokenize_arg_list:
  "tokenize x old MAX_ARGS = arg_list (words_of x) (drop (length (words_of x) + 1) old)"
  by (simp add: tokenize_def words_of_def arg_list_def Let_def comp_def)


lemma is_background_arg_list:
  assumes "us \<noteq> []"
  shows "is_background (arg_list us old) (length us) =
    (if strcmp (last us) (str ''&'') = 0 then ret (True, arg_list (butlast us) (Some None # old))
     else ret (False, arg_list us old))"
proof -
  obtain vs v where us: "us = vs @ [v]" using assms by (cases us rule: rev_cases) auto
  show ?thesis
    by (simp add: is_background_def arg_at_arg_list us)
      (simp add: arg_list_def list_update_append)
qed

section \<open>Safety\<close>























definition demo_env2 :: env where
  "demo_env2 = \<lparr>home = Some [47], chdir = (\<lambda>cwd path. Some path), getcwd_ok = (\<lambda>cwd. True)\<rparr>"


lemma words_of_ls: "words_of (input_line [108, 115, 10]) = [[108, 115]]"
  by (simp add: input_line_def INPUT_SIZE_def line_of_def cstr_of_def words_of_def MAX_ARGS_def strtok.simps delim2_def)


section \<open>The two inputs left out\<close>

text \<open>"\<open>&\<close>" alone: \<open>is_background\<close> overwrites the only argument with NULL, and the
  comparison with the names of the commands dereferences it.\<close>

theorem lone_ampersand_crashes:
  assumes "holds2 s n xs" "n < INT_MAX" "length (args s) = MAX_ARGS" "words_of x = [t]" "strcmp t (str ''&'') = 0"
  shows "run_command env pid x s = fail NullDeref"
proof -
  obtain c k where e: "enqueue_history x s = ret (s\<lparr>input_hist := c, hist_size := k, hist_count := n + 1\<rparr>)"
    by (rule enqueue_history_ret [OF assms(1,2)])
  have "tokenize x (args s) MAX_ARGS = arg_list [t] (drop 2 (args s))"
    using assms(4) by (simp add: tokenize_arg_list numeral_2_eq_2)
  with e assms(5) show ?thesis
    by (simp add: run_command_def is_background_arg_list arg_at_arg_list dispatch2_def
        is_background_arg_list [of "[t]", simplified])
qed

theorem lone_ampersand_crashes_witness:
  "run_command demo_env2 7 [38] (init_shell2 [47]) = fail NullDeref"
proof (rule lone_ampersand_crashes [OF holds2_init])
  show "words_of [38] = [[38]]"
    by (simp add: words_of_def MAX_ARGS_def strtok.simps delim2_def)
qed (simp_all add: init_shell2_def str_def INT_MAX_def)

text \<open>\<open>cd\<close> without an argument is refused as having too many when an earlier command has left
  a third word in the array: \<open>args[2]\<close> is looked at without regard to the number of
  arguments.\<close>

theorem cd_refused:
  assumes "holds2 s n xs" "n < INT_MAX" "length (args s) = MAX_ARGS" "words_of x = [t]"
    "strcmp t (str ''cd'') = 0" "strcmp t (str ''&'') \<noteq> 0" "strcmp t (str ''exit'') \<noteq> 0"
    "strcmp t (str ''pwd'') \<noteq> 0" "args s ! 2 = Some (Some u)"
  shows "\<exists>s'. run_command env pid x s = ret (s', [Write (FORMAT_MSG ''cd'' TMA_MSG)], True)
    \<and> os_cwd s' = os_cwd s"
proof -
  obtain c k where e: "enqueue_history x s = ret (s\<lparr>input_hist := c, hist_size := k, hist_count := n + 1\<rparr>)"
    by (rule enqueue_history_ret [OF assms(1,2)])
  have t: "tokenize x (args s) MAX_ARGS = arg_list [t] (drop 2 (args s))"
    using assms(4) by (simp add: tokenize_arg_list numeral_2_eq_2)
  have len: "2 < length (args s)" using assms(3) by (simp add: MAX_ARGS_def)
  have third: "arg_at (arg_list [t] (drop 2 (args s))) 2 = ret (Some u)"
    using assms(9) len by (simp add: arg_at_def arg_list_def)
  show ?thesis using e t assms(5-8)
    by (simp add: run_command_def arg_at_arg_list dispatch2_def cd2_def third
        is_background_arg_list [of "[t]", simplified] too_many_def stay_def)
qed

definition after_three_words :: shell2 where
  "after_three_words = \<lparr>input_hist = replicate 10 Null, hist_count = 0, hist_size = 0,
     args = map (\<lambda>t. Some (Some t)) [[97], [98], [99]] @ Some None # replicate 12 None,
     os_cwd = [47], cwd_buffer = [47], lastPath = []\<rparr>"

theorem cd_refused_witness:
  "\<exists>s'. run_command demo_env2 7 [99, 100] after_three_words = ret (s', [Write (FORMAT_MSG ''cd'' TMA_MSG)], True)
    \<and> os_cwd s' = [47]"
proof -
  have w: "words_of [99, 100] = [[99, 100]]"
    by (simp add: words_of_def MAX_ARGS_def strtok.simps delim2_def)
  have "holds2 after_three_words 0 []"
    by (simp add: holds2_def after_three_words_def cells_hold_Nil HIST_def)
  from cd_refused [OF this _ _ w, where u = "[99]"] show ?thesis
    by (simp add: after_three_words_def MAX_ARGS_def INT_MAX_def str_def)
qed

end
