(* ===== verification/Sigtest.thy ===== *)
theory Sigtest
  imports Shell2
begin

text \<open>
  The small shell of \<open>lecture/test/sigtest.c\<close>: it has no state; a round reaps children,
  prompts, reads a line, splits it at blanks and starts the command. It ends when \<open>read\<close>
  returns nothing.
\<close>

section \<open>The program\<close>

definition SIG_MAX_ARGS :: nat where "SIG_MAX_ARGS = 100"
definition SIG_MAX_INPUT :: nat where "SIG_MAX_INPUT = 1024"

definition help_on_sigint :: "action list" where
  "help_on_sigint = [Write [10], Write (FORMAT_MSG ''help'' HELP_HELP_MSG), Write (FORMAT_MSG ''cd'' CD_HELP_MSG),
     Write (FORMAT_MSG ''exit'' EXIT_HELP_MSG), Write (FORMAT_MSG ''pwd'' PWD_HELP_MSG),
     Write (FORMAT_MSG ''history'' HISTORY_HELP_MSG)]"

definition reap_children :: "int list \<Rightarrow> action list" where
  "reap_children pids = map (\<lambda>pid. Write (str ''[Reaped background PID '' @ digits (nat pid) @ str '']'' @ [10]))
     (takeWhile (\<lambda>pid. 0 < pid) pids)"

definition space :: "u8 \<Rightarrow> bool" where
  "space b \<longleftrightarrow> b = 32"

definition split_words :: "bytes \<Rightarrow> bytes list" where
  "split_words line = take (SIG_MAX_ARGS - 1) (strtok space line)"

definition split_background :: "bytes list \<Rightarrow> bytes list \<times> bool" where
  "split_background ws =
    (if ws \<noteq> [] \<and> strcmp (last ws) (str ''&'') = 0 then (butlast ws, True) else (ws, False))"

definition start_command :: "bytes list \<times> bool \<Rightarrow> int \<Rightarrow> action list" where
  "start_command cmd pid =
    (case cmd of (ws, bg) \<Rightarrow>
      if pid < 0 then [Write (str ''fork failed'' @ [10])]
      else if bg then [Start ws False, Write (str ''[Background PID '' @ digits (nat pid) @ str '']'' @ [10])]
      else [Start ws True])"

text \<open>A round: the actions, and whether the loop goes on. \<open>read\<close> is asked for
  \<open>MAX_INPUT - 1\<close> bytes and gives no more of what is there.\<close>

definition sig_round :: "event2 \<Rightarrow> action list \<times> bool" where
  "sig_round ev =
    (let acts = reap_children (reaped ev) @ [Write (str ''Shell> '')]
     in case read_of ev of
          Data d \<Rightarrow>
            let input = take (SIG_MAX_INPUT - 1) d
            in if input = [] then (acts, False)
               else if line_of input = [] then (acts, True)
               else (acts @ start_command (split_background (split_words (line_of input))) (fork_of ev), True)
        | _ \<Rightarrow> (acts, False))"

fun sig_main :: "event2 list \<Rightarrow> action list" where
  "sig_main [] = []"
| "sig_main (ev # evs) =
    (case sig_round ev of (acts, cont) \<Rightarrow>
      acts @ (if cont then sig_main evs else [Write ([10] @ str ''Exiting shell...'' @ [10])]))"

section \<open>What is started\<close>

fun started :: "action list \<Rightarrow> (bytes list \<times> bool) list" where
  "started [] = []"
| "started (Start ws wait # acts) = (ws, wait) # started acts"
| "started (Write x # acts) = started acts"

lemma started_append [simp]: "started (xs @ ys) = started xs @ started ys"
  by (induction xs rule: started.induct) auto

lemma started_reap [simp]: "started (reap_children pids) = []"
proof -
  have "started (map (\<lambda>p. Write (f p)) ps) = []" for f :: "int \<Rightarrow> bytes" and ps by (induction ps) auto
  then show ?thesis by (simp add: reap_children_def)
qed

text \<open>A word a user can type: not empty, without blanks, newlines and NULs.\<close>

definition word :: "bytes \<Rightarrow> bool" where
  "word w \<longleftrightarrow> w \<noteq> [] \<and> list_all (\<lambda>b. b \<noteq> 32 \<and> b \<noteq> 10 \<and> b \<noteq> 0) w"

definition typed :: "bytes list \<Rightarrow> bytes" where
  "typed ws = join 32 ws @ [10]"

lemma join_bytes: "\<forall>w\<in>set ws. word w \<Longrightarrow> \<forall>b\<in>set (join 32 ws). b \<noteq> 0"
  by (induction "32 :: u8" ws rule: join.induct) (auto simp: word_def list_all_iff)

lemma join_neq_Nil: "ws \<noteq> [] \<Longrightarrow> \<forall>w\<in>set ws. word w \<Longrightarrow> join 32 ws \<noteq> []"
  by (cases "(32 :: u8, ws)" rule: join.cases) (auto simp: word_def)

lemma line_of_typed: "\<forall>w\<in>set ws. word w \<Longrightarrow> line_of (typed ws) = join 32 ws"
  using join_bytes [of ws] by (simp add: line_of_def typed_def cstr_of_def takeWhile_eq_all_conv)

lemma split_words_join:
  assumes "\<forall>w\<in>set ws. word w" "length ws < SIG_MAX_ARGS"
  shows "split_words (join 32 ws) = ws"
proof -
  have "strtok space (join 32 ws) = ws"
    by (rule strtok_join) (use assms(1) in \<open>auto simp: space_def word_def list_all_iff\<close>)
  with assms(2) show ?thesis by (simp add: split_words_def)
qed

text \<open>What the reads get of the bytes that are typed: 1023 at a time.\<close>

function read_pieces :: "bytes \<Rightarrow> bytes list" where
  "read_pieces d = (if length d < SIG_MAX_INPUT then [d]
     else take (SIG_MAX_INPUT - 1) d # read_pieces (drop (SIG_MAX_INPUT - 1) d))"
  by auto
termination by (relation "measure length") (auto simp: SIG_MAX_INPUT_def)

declare read_pieces.simps [simp del]

lemma read_pieces_short: "length d < SIG_MAX_INPUT \<Longrightarrow> read_pieces d = [d]"
  by (subst read_pieces.simps) simp

lemma read_pieces_two:
  assumes "length a = SIG_MAX_INPUT - 1" "b \<noteq> []" "length b < SIG_MAX_INPUT"
  shows "read_pieces (a @ b) = [a, b]"
proof -
  have "\<not> length (a @ b) < SIG_MAX_INPUT" using assms(1,2) by (cases b) (auto simp: SIG_MAX_INPUT_def)
  moreover have "take (SIG_MAX_INPUT - 1) (a @ b) = a" "drop (SIG_MAX_INPUT - 1) (a @ b) = b"
    unfolding assms(1) [symmetric] by simp_all
  ultimately show ?thesis using read_pieces_short [OF assms(3)] by (subst read_pieces.simps) (simp only: if_False)
qed

definition read_event :: "bytes \<Rightarrow> event2" where
  "read_event d = \<lparr>read_of = Data d, fork_of = 1, reaped = []\<rparr>"

definition type_line :: "bytes list \<Rightarrow> event2 list" where
  "type_line ws = map read_event (read_pieces (typed ws))"

lemma sig_round_words:
  assumes "\<forall>w\<in>set ws. word w" "ws \<noteq> []" "length ws < SIG_MAX_ARGS" "length (join 32 ws) < SIG_MAX_INPUT - 1"
  shows "sig_round (read_event (typed ws)) = ([Write (str ''Shell> '')] @ start_command (split_background ws) 1, True)"
proof -
  have "line_of (typed ws) = join 32 ws" "join 32 ws \<noteq> []" "split_words (join 32 ws) = ws"
    using assms by (simp_all add: line_of_typed join_neq_Nil split_words_join)
  moreover have "typed ws \<noteq> []" "take (SIG_MAX_INPUT - 1) (typed ws) = typed ws"
    using assms(4) by (simp_all add: typed_def)
  ultimately show ?thesis by (simp only: sig_round_def read_event_def Let_def reap_children_def event.simps
    event2.simps read_result.simps if_False list.map takeWhile.simps append_Nil)
qed

lemma started_command: "started (start_command (split_background ws) 1) =
    (if ws \<noteq> [] \<and> strcmp (last ws) (str ''&'') = 0 then [(butlast ws, False)] else [(ws, True)])"
  by (simp add: start_command_def split_background_def)

text \<open>Property C31. Commands typed one after the other, each of one to 99 words and at most 1022
  bytes, are started one after the other with exactly these words, in the background when the
  last word was "\<open>&\<close>"; the end of the input ends the shell. The bound on the length is
  that of the read, whose 1023 bytes include the newline.\<close>

theorem sigtest_starts_commands:
  assumes "\<forall>ws\<in>set cmds. ws \<noteq> [] \<and> length ws < SIG_MAX_ARGS \<and> length (join 32 ws) \<le> 1022
    \<and> (\<forall>w\<in>set ws. word w)"
  shows "started (sig_main (concat (map type_line cmds) @ [read_event []]))
    = map (\<lambda>ws. if strcmp (last ws) (str ''&'') = 0 then (butlast ws, False) else (ws, True)) cmds"
  using assms
proof (induction cmds)
  case Nil
  then show ?case by (simp add: sig_round_def Let_def read_event_def)
next
  case (Cons ws cmds)
  then have ws: "\<forall>w\<in>set ws. word w" "ws \<noteq> []" "length ws < SIG_MAX_ARGS"
    "length (join 32 ws) < SIG_MAX_INPUT - 1" by (auto simp: SIG_MAX_INPUT_def)
  have "length (typed ws) < SIG_MAX_INPUT" using ws(4) by (simp add: typed_def)
  then have "type_line ws = [read_event (typed ws)]" by (simp add: type_line_def read_pieces_short)
  with Cons ws(2) sig_round_words [OF ws] show ?case by (simp add: started_command)
qed

theorem sigtest_starts_commands_witness:
  "started (sig_main (concat (map type_line [[[108, 115]], [[97], [38]]]) @ [read_event []])) =
    [([[108, 115]], True), ([[97]], False)]"
  by (subst sigtest_starts_commands) (simp_all add: word_def SIG_MAX_ARGS_def str_def)

text \<open>A longer command is cut: a word of 1023 to 2045 bytes is started as two commands.\<close>

theorem long_command_cut:
  assumes "word w" "1023 < length w" "length w \<le> 2045" "strcmp (drop 1023 w) (str ''&'') \<noteq> 0"
  shows "started (sig_main (type_line [w] @ [read_event []])) = [([take 1023 w], True), ([drop 1023 w], True)]"
proof -
  let ?a = "take 1023 w" and ?b = "drop 1023 w"
  have ab: "word ?a" "word ?b" "?a \<noteq> []" "length ?a = 1023"
    using assms by (auto simp: word_def list_all_iff dest: in_set_takeD in_set_dropD)
  have split: "type_line [w] = [read_event ?a, read_event (typed [?b])]"
  proof -
    have "typed [w] = ?a @ typed [?b]" by (simp add: typed_def)
    moreover have "read_pieces (?a @ typed [?b]) = [?a, typed [?b]]"
      by (rule read_pieces_two) (use assms(2,3) in \<open>simp_all add: typed_def SIG_MAX_INPUT_def\<close>)
    ultimately show ?thesis by (simp add: type_line_def)
  qed
  have "last ?a \<noteq> 10" "0 \<notin> set ?a"
    using ab(1,3) last_in_set [OF ab(3)] by (auto simp: word_def list_all_iff)
  then have l: "line_of ?a = ?a" by (auto simp: line_of_def cstr_of_def takeWhile_eq_all_conv)
  have s: "split_words ?a = [?a]" using split_words_join [of "[?a]"] ab(1) by (simp add: SIG_MAX_ARGS_def)
  have "length (str ''&'') = 1" by (simp add: str_def)
  moreover have "cstring (str ''&'')" "cstring ?a" using \<open>0 \<notin> set ?a\<close> by (simp_all add: str_def cstring_def)
  ultimately have amp: "strcmp ?a (str ''&'') \<noteq> 0" using strcmp_eq_0 ab(4) by fastforce
  have first: "started (fst (sig_round (read_event ?a))) = [([?a], True)]" "snd (sig_round (read_event ?a))"
    using ab(3,4) l s amp by (simp_all add: sig_round_def read_event_def Let_def SIG_MAX_INPUT_def
      start_command_def split_background_def)
  have second: "sig_round (read_event (typed [?b])) = ([Write (str ''Shell> '')] @ start_command (split_background [?b]) 1, True)"
    by (rule sig_round_words) (use ab(2) assms(3) in \<open>simp_all add: SIG_MAX_ARGS_def SIG_MAX_INPUT_def\<close>)
  have third: "sig_round (read_event []) = ([Write (str ''Shell> '')], False)"
    by (simp add: sig_round_def read_event_def Let_def reap_children_def)
  show ?thesis using first second third assms(4)
    by (simp add: split started_command split_def)
qed

theorem long_command_cut_witness:
  "started (sig_main (type_line [replicate 2000 97] @ [read_event []])) =
    [([replicate 1023 97], True), ([replicate 977 97], True)]"
proof -
  have "cstring (replicate 977 97)" by (simp add: cstring_def)
  moreover have "cstring (str ''&'')" "length (str ''&'') = 1" by (simp_all add: str_def)
  ultimately have "strcmp (replicate 977 97) (str ''&'') \<noteq> 0"
    using strcmp_eq_0 [of "replicate 977 97" "str ''&''"] by (metis length_replicate numeral_eq_one_iff num.distinct(3))
  moreover have "word (replicate 2000 97)" by (simp add: word_def list_all_iff)
  ultimately show ?thesis using long_command_cut [of "replicate 2000 97"] by simp
qed

end
