(* ===== verification/Sorted_List.thy ===== *)
theory Sorted_List
  imports Node_Store
begin

text \<open>
  The sorted linked list of \<open>lab/lab6.c\<close> (its first program, lines 25 to 83) and its
  variant with a running sum in \<open>lab/Lab6/example_2.c\<close>.

  The global \<open>head\<close> and the nodes are a record; the second program extends it with
  \<open>info.sum\<close>. \<open>list_of s vs\<close> abstracts the nodes to the list of their data. The lemmas
  show that an insertion keeps the list sorted and adds one element, on every input but
  one: inserting a value equal to the head's dereferences \<open>NULL\<close>, because the search
  stops before it has set \<open>prev\<close>.
\<close>

section \<open>State and operations\<close>

record node =
  data :: u64
  nxt :: nat

record sorted_list =
  heap :: "node store"
  head :: nat

text \<open>The search loop of \<open>insert_sorted\<close>: the pair of \<open>prev\<close> and \<open>cur\<close> it stops with.\<close>

partial_function (option) seek :: "node store \<Rightarrow> u64 \<Rightarrow> nat \<Rightarrow> nat \<Rightarrow> (nat \<times> nat) run" where
  "seek h d prev cur = (if cur = 0 then ret (prev, cur)
     else rbind (deref h cur) (\<lambda>n. if data n < d then seek h d cur (nxt n)
       else ret (prev, cur)))"

definition insert_sorted :: "u64 \<Rightarrow> 'a sorted_list_scheme \<Rightarrow> 'a sorted_list_scheme run" where
  "insert_sorted d s =
     (let (p, h) = malloc \<lparr>data = d, nxt = 0\<rparr> (heap s);
          push = rbind (assign h p (\<lambda>n. n\<lparr>nxt := head s\<rparr>))
                   (\<lambda>h. ret (s\<lparr>heap := h, head := p\<rparr>))
      in if p = 0 then exit_with 1
         else if head s = 0 then push
         else rbind (deref h (head s)) (\<lambda>n. if d < data n then push
           else rbind (seek h d 0 (head s)) (\<lambda>(prev, cur).
             rbind (assign h prev (\<lambda>n. n\<lparr>nxt := p\<rparr>)) (\<lambda>h.
             rbind (assign h p (\<lambda>n. n\<lparr>nxt := cur\<rparr>)) (\<lambda>h.
             ret (s\<lparr>heap := h\<rparr>))))))"

text \<open>
  The loop of \<open>index_of\<close>; \<open>out\<close> is what it has printed so far, a pair of index and
  data per line.
\<close>

partial_function (option) index_loop ::
  "node store \<Rightarrow> u64 \<Rightarrow> nat \<Rightarrow> cint \<Rightarrow> (cint \<times> u64) list \<Rightarrow> (cint \<times> (cint \<times> u64) list) run" where
  "index_loop h d cur index out = (if cur = 0 then ret (-1, out)
     else rbind (deref h cur) (\<lambda>n. if data n = d then ret (index, out)
       else index_loop h d (nxt n) (index + 1) (out @ [(index, data n)])))"

definition index_of :: "u64 \<Rightarrow> 'a sorted_list_scheme \<Rightarrow> (cint \<times> (cint \<times> u64) list) run" where
  "index_of d s = index_loop (heap s) d (head s) 0 []"

section \<open>The list with a running sum\<close>

record summed_list = sorted_list +
  info_sum :: u64

partial_function (option) sum_loop :: "node store \<Rightarrow> nat \<Rightarrow> u64 \<Rightarrow> u64 run" where
  "sum_loop h p s = (if p = 0 then ret s
     else rbind (deref h p) (\<lambda>n. sum_loop h (nxt n) (s + data n)))"

definition sum_list' :: "'a summed_list_scheme \<Rightarrow> u64 run" where
  "sum_list' s = sum_loop (heap s) (head s) 0"

definition insert_summed :: "u64 \<Rightarrow> 'a summed_list_scheme \<Rightarrow> 'a summed_list_scheme run" where
  "insert_summed d s = rbind (insert_sorted d s) (\<lambda>s. ret (s\<lparr>info_sum := info_sum s + d\<rparr>))"

section \<open>One step of each loop\<close>

lemma seek_step [run_simps]:
  "seek h d prev 0 = ret (prev, 0)"
  "cells h cur = Some n \<Longrightarrow> cur \<noteq> 0 \<Longrightarrow> seek h d prev cur =
     (if data n < d then seek h d cur (nxt n) else ret (prev, cur))"
  by (subst seek.simps; simp)+

lemma index_loop_step [run_simps]:
  "index_loop h d 0 i out = ret (-1, out)"
  "cells h cur = Some n \<Longrightarrow> cur \<noteq> 0 \<Longrightarrow> index_loop h d cur i out =
     (if data n = d then ret (i, out) else index_loop h d (nxt n) (i + 1) (out @ [(i, data n)]))"
  by (subst index_loop.simps; simp)+

lemma sum_loop_step [run_simps]:
  "sum_loop h 0 s = ret s"
  "cells h p = Some n \<Longrightarrow> p \<noteq> 0 \<Longrightarrow> sum_loop h p s = sum_loop h (nxt n) (s + data n)"
  by (subst sum_loop.simps; simp)+

section \<open>The abstraction to a list of data\<close>

definition list_of :: "'a sorted_list_scheme \<Rightarrow> u64 list \<Rightarrow> bool" where
  "list_of s vs \<longleftrightarrow> store_ok (heap s)
     \<and> (\<exists>ns. chain nxt (cells (heap s)) (head s) ns 0 \<and> vs = map (data \<circ> snd) ns)"

lemma list_ofI:
  "store_ok (heap s) \<Longrightarrow> chain nxt (cells (heap s)) (head s) ns 0 \<Longrightarrow> list_of s (map (data \<circ> snd) ns)"
  by (auto simp: list_of_def)

text \<open>The search stops in front of the first node that is not smaller.\<close>

lemma seek_chain:
  "chain nxt (cells h) cur ns 0 \<Longrightarrow> seek h d prev cur =
     ret (last (prev # map fst (takeWhile (\<lambda>m. data (snd m) < d) ns)),
          (case dropWhile (\<lambda>m. data (snd m) < d) ns of [] \<Rightarrow> 0 | (a, n) # _ \<Rightarrow> a))"
proof (induction ns arbitrary: prev cur)
  case Nil
  then show ?case by (subst seek.simps) simp
next
  case (Cons m ns)
  obtain a n where m: "m = (a, n)" by (cases m)
  show ?case
  proof (cases "data n < d")
    case True
    have "seek h d prev cur = seek h d a (nxt n)"
      using Cons.prems m True by (subst seek.simps) auto
    with Cons m True show ?thesis by (auto simp: last_map)
  next
    case False
    with Cons.prems m show ?thesis by (subst seek.simps) auto
  qed
qed

lemma index_loop_chain:
  "chain nxt (cells h) p ns 0 \<Longrightarrow> index_loop h d p i out = ret
     (case memchr d (map (data \<circ> snd) ns) of None \<Rightarrow> -1 | Some k \<Rightarrow> i + of_nat k,
      out @ map (\<lambda>k. (i + of_nat k, data (snd (ns ! k))))
        [0..<(case memchr d (map (data \<circ> snd) ns) of None \<Rightarrow> length ns | Some k \<Rightarrow> k)])"
proof (induction ns arbitrary: p i out)
  case Nil
  then show ?case by (subst index_loop.simps) simp
next
  case (Cons m ns)
  obtain a n where m: "m = (a, n)" by (cases m)
  have upt: "map f [0..<Suc k] = f 0 # map (\<lambda>i. f (Suc i)) [0..<k]" for k and f :: "nat \<Rightarrow> 'b"
    by (simp add: map_upt_Suc del: upt_Suc)
  show ?case
  proof (cases "data n = d")
    case True
    with Cons.prems m show ?thesis by (subst index_loop.simps) auto
  next
    case False
    have "index_loop h d p i out = index_loop h d (nxt n) (i + 1) (out @ [(i, data n)])"
      using Cons.prems m False by (subst index_loop.simps) auto
    also have "\<dots> = ret
     (case memchr d (map (data \<circ> snd) ns) of None \<Rightarrow> -1 | Some k \<Rightarrow> (i + 1) + of_nat k,
      (out @ [(i, data n)]) @ map (\<lambda>k. ((i + 1) + of_nat k, data (snd (ns ! k))))
        [0..<(case memchr d (map (data \<circ> snd) ns) of None \<Rightarrow> length ns | Some k \<Rightarrow> k)])"
      using Cons.prems m by (intro Cons.IH) simp
    finally show ?thesis
      using m False by (auto split: option.split simp: upt add.assoc comp_def simp del: upt_Suc)
  qed
qed

lemma sum_loop_chain:
  "chain nxt (cells h) p ns 0 \<Longrightarrow> sum_loop h p s = ret (s + sum_list (map (data \<circ> snd) ns))"
proof (induction ns arbitrary: p s)
  case Nil
  then show ?case by (subst sum_loop.simps) simp
next
  case (Cons m ns)
  obtain a n where m: "m = (a, n)" by (cases m)
  have "sum_loop h p s = sum_loop h (nxt n) (s + data n)"
    using Cons.prems m by (subst sum_loop.simps) auto
  with Cons m show ?case by (simp add: add.assoc)
qed

lemma insort_takeWhile:
  "insort (d::u64) vs = takeWhile (\<lambda>v. v < d) vs @ d # dropWhile (\<lambda>v. v < d) vs"
  by (induction vs) (auto simp: not_le)

section \<open>Correctness of an insertion\<close>

text \<open>The two shapes of a successful insertion, on chains of nodes.\<close>

lemma push_front_chain:
  assumes ok: "store_ok h" and c: "chain nxt (cells h) p ns 0" and room: "top h < cap h"
    and m: "malloc \<lparr>data = d, nxt = 0\<rparr> h = (q, h')"
  shows "\<exists>h''. assign h' q (\<lambda>n. n\<lparr>nxt := p\<rparr>) = ret h'' \<and> store_ok h''
    \<and> chain nxt (cells h'') q ((q, \<lparr>data = d, nxt = p\<rparr>) # ns) 0 \<and> cap h'' = cap h \<and> top h'' = Suc (top h)"
proof -
  from m room have q: "q = Suc (top h)"
    and h': "h' = h\<lparr>cells := (cells h)(q \<mapsto> \<lparr>data = d, nxt = 0\<rparr>), top := q\<rparr>"
    by (auto simp: malloc_def)
  have fresh: "q \<notin> fst ` set ns" using chain_below_top [OF ok c] q by simp
  have "store_ok h'" by (rule store_ok_malloc [OF ok m])
  then have "store_ok (h'\<lparr>cells := (cells h')(q \<mapsto> \<lparr>data = d, nxt = p\<rparr>)\<rparr>)"
    by (rule store_ok_upd) (simp add: h')
  moreover have "assign h' q (\<lambda>n. n\<lparr>nxt := p\<rparr>)
      = ret (h'\<lparr>cells := (cells h')(q \<mapsto> \<lparr>data = d, nxt = p\<rparr>)\<rparr>)"
    using q by (simp add: h')
  moreover have "chain nxt ((cells h')(q \<mapsto> \<lparr>data = d, nxt = p\<rparr>)) q
      ((q, \<lparr>data = d, nxt = p\<rparr>) # ns) 0"
    using q fresh c chain_malloc [OF ok c m] by (simp add: image_iff)
  ultimately show ?thesis using q h' by auto
qed

lemma splice_chain:
  assumes ok: "store_ok h" and c: "chain nxt (cells h) p (ns @ [(a, n)] @ ms) 0"
    and room: "top h < cap h" and m: "malloc \<lparr>data = d, nxt = 0\<rparr> h = (q, h')"
    and r: "r = (case ms of [] \<Rightarrow> 0 | (b, _) # _ \<Rightarrow> b)"
  shows "\<exists>h1 h''. assign h' a (\<lambda>n. n\<lparr>nxt := q\<rparr>) = ret h1
    \<and> assign h1 q (\<lambda>n. n\<lparr>nxt := r\<rparr>) = ret h'' \<and> store_ok h''
    \<and> chain nxt (cells h'') p (ns @ [(a, n\<lparr>nxt := q\<rparr>), (q, \<lparr>data = d, nxt = r\<rparr>)] @ ms) 0
    \<and> cap h'' = cap h \<and> top h'' = Suc (top h)"
proof -
  from m room have q: "q = Suc (top h)"
    and h': "h' = h\<lparr>cells := (cells h)(q \<mapsto> \<lparr>data = d, nxt = 0\<rparr>), top := q\<rparr>"
    by (auto simp: malloc_def)
  from chain_distinct [OF c] have d: "a \<notin> fst ` set ns" "a \<notin> fst ` set ms" by auto
  have fresh: "q \<notin> fst ` set ns" "q \<noteq> a" "q \<notin> fst ` set ms"
    using chain_below_top [OF ok c] q by auto
  from chain_malloc [OF ok c m]
  have c': "chain nxt (cells h') p ns a" "cells h' a = Some n" "a \<noteq> 0" "chain nxt (cells h') (nxt n) ms 0"
    by auto
  have r': "nxt n = r" using c'(4) r by (cases ms) auto
  define h1 where "h1 = h'\<lparr>cells := (cells h')(a \<mapsto> n\<lparr>nxt := q\<rparr>)\<rparr>"
  define h2 where "h2 = h1\<lparr>cells := (cells h1)(q \<mapsto> \<lparr>data = d, nxt = r\<rparr>)\<rparr>"
  have q1: "cells h1 q = Some \<lparr>data = d, nxt = 0\<rparr>" using fresh by (simp add: h1_def h')
  have "store_ok h2" unfolding h2_def h1_def
    using store_ok_malloc [OF ok m] c'(2) fresh q1
    by (intro store_ok_upd [where n = "\<lparr>data = d, nxt = 0\<rparr>"] store_ok_upd [where n = n])
       (auto simp: h')
  moreover have "assign h' a (\<lambda>n. n\<lparr>nxt := q\<rparr>) = ret h1"
    using c' by (simp add: h1_def)
  moreover have "assign h1 q (\<lambda>n. n\<lparr>nxt := r\<rparr>) = ret h2"
    using q1 q by (simp add: h2_def)
  moreover have "chain nxt (cells h2) p (ns @ [(a, n\<lparr>nxt := q\<rparr>), (q, \<lparr>data = d, nxt = r\<rparr>)] @ ms) 0"
    using c' d fresh q r' by (auto simp: h2_def h1_def image_iff)
  moreover have "cap h2 = cap h" "top h2 = Suc (top h)"
    by (simp_all add: h2_def h1_def h' q)
  ultimately show ?thesis by blast
qed

lemma insert_sorted_chain:
  assumes ok: "store_ok (heap s)" and c: "chain nxt (cells (heap s)) (head s) ns 0"
    and room: "top (heap s) < cap (heap s)"
    and hd: "ns = [] \<or> data (snd (List.hd ns)) \<noteq> d"
  shows "\<exists>s' ns'. insert_sorted d s = ret s' \<and> store_ok (heap s')
    \<and> chain nxt (cells (heap s')) (head s') ns' 0
    \<and> map (data \<circ> snd) ns' = insort d (map (data \<circ> snd) ns)
    \<and> cap (heap s') = cap (heap s) \<and> top (heap s') = Suc (top (heap s))
    \<and> sorted_list.more s' = sorted_list.more s"
proof -
  obtain q h' where m: "malloc \<lparr>data = d, nxt = 0\<rparr> (heap s) = (q, h')" by fastforce
  with room have q: "q \<noteq> 0" by (auto simp: malloc_def)
  from push_front_chain [OF ok c room m] obtain h1
    where h1: "assign h' q (\<lambda>n. n\<lparr>nxt := head s\<rparr>) = ret h1" "store_ok h1"
      "chain nxt (cells h1) q ((q, \<lparr>data = d, nxt = head s\<rparr>) # ns) 0"
      "cap h1 = cap (heap s)" "top h1 = Suc (top (heap s))" by blast
  show ?thesis
  proof (cases ns)
    case Nil
    with c have "head s = 0" by simp
    with m q h1 have "insert_sorted d s = ret (s\<lparr>heap := h1, head := q\<rparr>)"
      by (simp add: insert_sorted_def)
    with h1 Nil show ?thesis
      by (intro exI [of _ "s\<lparr>heap := h1, head := q\<rparr>"]
          exI [of _ "(q, \<lparr>data = d, nxt = head s\<rparr>) # ns"]) simp
  next
    case (Cons m0 ms0)
    then obtain a0 n0 where ns: "ns = (a0, n0) # ms0" by (cases m0) auto
    with c have a0: "head s = a0" "a0 \<noteq> 0" "cells (heap s) a0 = Some n0" by auto
    from chain_malloc [OF ok c m] ns have a0': "cells h' a0 = Some n0" by simp
    show ?thesis
    proof (cases "d < data n0")
      case True
      with m q a0 a0' h1 have "insert_sorted d s = ret (s\<lparr>heap := h1, head := q\<rparr>)"
        by (simp add: insert_sorted_def)
      with h1 ns True show ?thesis
        by (intro exI [of _ "s\<lparr>heap := h1, head := q\<rparr>"]
            exI [of _ "(q, \<lparr>data = d, nxt = head s\<rparr>) # ns"]) auto
    next
      case False
      with hd ns have lt: "data n0 < d" by auto
      let ?lt = "\<lambda>m::nat \<times> node. data (snd m) < d"
      obtain pre a n where pre: "takeWhile ?lt ns = pre @ [(a, n)]"
        using lt ns by (cases "takeWhile ?lt ns" rule: rev_cases) auto
      define ms where "ms = dropWhile ?lt ns"
      define r where "r = (case ms of [] \<Rightarrow> 0 | (b, _) # _ \<Rightarrow> b)"
      have split: "ns = pre @ [(a, n)] @ ms"
        using pre takeWhile_dropWhile_id [of ?lt ns] by (simp add: ms_def)
      from c split have c2: "chain nxt (cells (heap s)) (head s) (pre @ [(a, n)] @ ms) 0"
        by simp
      from splice_chain [OF ok c2 room m r_def] obtain h2 h3 where h3: "assign h' a (\<lambda>n. n\<lparr>nxt := q\<rparr>) = ret h2"
        "assign h2 q (\<lambda>n. n\<lparr>nxt := r\<rparr>) = ret h3" "store_ok h3"
        "chain nxt (cells h3) (head s)
           (pre @ [(a, n\<lparr>nxt := q\<rparr>), (q, \<lparr>data = d, nxt = r\<rparr>)] @ ms) 0"
        "cap h3 = cap (heap s)" "top h3 = Suc (top (heap s))" by blast
      have "seek h' d 0 (head s) = ret (a, r)"
        using seek_chain [OF chain_malloc [OF ok c m], of d 0] pre
        by (simp add: r_def ms_def)
      with m q a0 a0' h3 False have "insert_sorted d s = ret (s\<lparr>heap := h3\<rparr>)"
        by (simp add: insert_sorted_def)
      moreover have "map (data \<circ> snd) (pre @ [(a, n\<lparr>nxt := q\<rparr>), (q, \<lparr>data = d, nxt = r\<rparr>)] @ ms)
          = insort d (map (data \<circ> snd) ns)"
      proof -
        have "takeWhile (\<lambda>v. v < d) (map (data \<circ> snd) ns) = map (data \<circ> snd) (pre @ [(a, n)])"
          "dropWhile (\<lambda>v. v < d) (map (data \<circ> snd) ns) = map (data \<circ> snd) ms"
          using pre by (simp_all add: ms_def takeWhile_map dropWhile_map comp_def)
        then show ?thesis by (simp add: insort_takeWhile)
      qed
      ultimately show ?thesis using h3
        by (intro exI [of _ "s\<lparr>heap := h3\<rparr>"]
            exI [of _ "pre @ [(a, n\<lparr>nxt := q\<rparr>), (q, \<lparr>data = d, nxt = r\<rparr>)] @ ms"]) simp
    qed
  qed
qed

lemma list_of_insert:
  assumes "list_of s vs" "top (heap s) < cap (heap s)" "vs = [] \<or> hd vs \<noteq> d"
  obtains s' where "insert_sorted d s = ret s'" "list_of s' (insort d vs)"
    "cap (heap s') = cap (heap s)" "top (heap s') = Suc (top (heap s))"
    "sorted_list.more s' = sorted_list.more s"
proof -
  from assms(1) obtain ns where ns: "store_ok (heap s)" "chain nxt (cells (heap s)) (head s) ns 0"
    "vs = map (data \<circ> snd) ns" by (auto simp: list_of_def)
  with assms(3) have "ns = [] \<or> data (snd (hd ns)) \<noteq> d" by (cases ns) auto
  from insert_sorted_chain [OF ns(1,2) assms(2) this] show ?thesis
    using ns(3) that list_ofI by metis
qed

section \<open>The programs' main functions\<close>

fun insert_all :: "u64 list \<Rightarrow> 'a summed_list_scheme \<Rightarrow> 'a summed_list_scheme run" where
  "insert_all [] s = ret s"
| "insert_all (d # ds) s = rbind (insert_summed d s) (insert_all ds)"

fun insert_seq :: "u64 list \<Rightarrow> 'a sorted_list_scheme \<Rightarrow> 'a sorted_list_scheme run" where
  "insert_seq [] s = ret s"
| "insert_seq (d # ds) s = rbind (insert_sorted d s) (insert_seq ds)"

text \<open>
  \<open>TEST\<close> and \<open>ASSERT\<close> leave through \<open>exit(1)\<close>. The argument is the number of nodes
  \<open>malloc\<close> can hand out.
\<close>

definition check :: "bool \<Rightarrow> unit run" where
  "check b = (if b then ret () else exit_with 1)"

definition main_example1 :: "nat \<Rightarrow> int run" where
  "main_example1 n =
     rbind (insert_seq [1, 2, 5, 3] \<lparr>heap = empty_store n, head = 0\<rparr>) (\<lambda>s.
     rbind (index_of 3 s) (\<lambda>(i, out).
     rbind (check (i = 2)) (\<lambda>_.
     rbind (insert_seq [0, 4] s) (\<lambda>s.
     rbind (index_of 4 s) (\<lambda>(i, out).
     rbind (check (i = 4)) (\<lambda>_. ret 0))))))"

definition init_summed :: "nat \<Rightarrow> summed_list" where
  "init_summed n = \<lparr>heap = empty_store n, head = 0, info_sum = 0\<rparr>"

definition main_example2 :: "nat \<Rightarrow> int run" where
  "main_example2 n =
     rbind (insert_all [1, 3, 5, 2] (init_summed n)) (\<lambda>s.
     rbind (index_of 2 s) (\<lambda>(i, out).
     rbind (check (i = 1)) (\<lambda>_.
     rbind (sum_list' s) (\<lambda>sm.
     rbind (check (info_sum s = sm)) (\<lambda>_. ret 0)))))"

lemma list_of_init: "list_of (init_summed n) []"
  by (simp add: list_of_def init_summed_def)

lemma index_of_list:
  "list_of s vs \<Longrightarrow> index_of d s = ret
     (case memchr d vs of None \<Rightarrow> -1 | Some k \<Rightarrow> of_nat k,
      map (\<lambda>k. (of_nat k, vs ! k)) [0..<(case memchr d vs of None \<Rightarrow> length vs | Some k \<Rightarrow> k)])"
proof -
  assume "list_of s vs"
  then obtain ns where ns: "chain nxt (cells (heap s)) (head s) ns 0" "vs = map (data \<circ> snd) ns"
    by (auto simp: list_of_def)
  have "k < length ns" if "memchr d vs = Some k" for k
    using memchr_less [OF that] ns(2) by simp
  with index_loop_chain [OF ns(1), of d 0 "[]"] ns(2) show ?thesis
    by (auto simp: index_of_def split: option.split intro!: map_cong)
qed

lemma sum_list'_list: "list_of s vs \<Longrightarrow> sum_list' s = ret (sum_list vs)"
  using sum_loop_chain by (fastforce simp: list_of_def sum_list'_def)

lemma mset_insort [simp]: "set (insort d vs) = insert d (set vs)" "length (insort d vs) = Suc (length vs)"
  by (simp_all add: set_insort_key)

text \<open>The sum in \<open>info\<close> follows the list through any sequence of insertions.\<close>

lemma insert_all_list:
  assumes "list_of s vs" "info_sum s = sum_list vs" "distinct (ds @ vs)" "sorted vs"
    "top (heap s) + length ds \<le> cap (heap s)"
  shows "\<exists>s'. insert_all ds s = ret s' \<and> list_of s' (sort (ds @ vs))
    \<and> info_sum s' = sum_list (sort (ds @ vs))"
  using assms
proof (induction ds arbitrary: s vs)
  case Nil
  then show ?case by (simp add: sorted_sort_id)
next
  case (Cons d ds)
  have hd: "vs = [] \<or> hd vs \<noteq> d" using Cons.prems by (cases vs) auto
  have room: "top (heap s) < cap (heap s)" using Cons.prems by simp
  obtain s1 where s1: "insert_sorted d s = ret s1" "list_of s1 (insort d vs)"
    "cap (heap s1) = cap (heap s)" "top (heap s1) = Suc (top (heap s))"
    "sorted_list.more s1 = sorted_list.more s"
    by (rule list_of_insert [OF Cons.prems(1) room hd])
  define s2 where "s2 = s1\<lparr>info_sum := info_sum s + d\<rparr>"
  have "info_sum s1 = info_sum s" using s1(5) by (cases s; cases s1) simp
  then have ins: "insert_summed d s = ret s2" by (simp add: insert_summed_def s1 s2_def)
  have perm: "sum_list (insort d vs) = d + sum_list vs"
    by (induction vs) (auto simp: ac_simps)
  have "\<exists>s'. insert_all ds s2 = ret s' \<and> list_of s' (sort (ds @ insort d vs))
    \<and> info_sum s' = sum_list (sort (ds @ insort d vs))"
    using Cons.prems s1 perm
    by (intro Cons.IH) (auto simp: s2_def list_of_def sorted_insort distinct_insort)
  moreover have "sort (ds @ insort d vs) = sort ((d # ds) @ vs)"
    by (rule properties_for_sort [symmetric]) (simp_all add: sorted_insort)
  ultimately show ?case by (simp add: ins)
qed

section \<open>Properties\<close>

text \<open>
  Property C32. An insertion into a list whose head does not already hold the value adds
  exactly that value, at the position that keeps a sorted list sorted, as long as
  \<open>malloc\<close> succeeds. The result is the library's \<open>insort\<close>.
\<close>

theorem insert_sorted_correct:
  assumes "list_of s vs" "top (heap s) < cap (heap s)" "vs = [] \<or> hd vs \<noteq> d"
  shows "\<exists>s'. insert_sorted d s = ret s' \<and> list_of s' (insort d vs)"
  by (rule list_of_insert [OF assms]) blast

theorem insert_sorted_correct_witness:
  "\<exists>s'. insert_sorted 5 (init_summed 3) = ret s' \<and> list_of s' [5]"
  using insert_sorted_correct [OF list_of_init, of 3 5] by (simp add: init_summed_def empty_store_def)

text \<open>
  Inserting a value equal to the first element of the list dereferences
  \<open>NULL\<close>: neither the test for the front nor the loop applies, and \<open>prev\<close> is still \<open>NULL\<close>
  when its \<open>next\<close> field is written.
\<close>

theorem insert_sorted_head_faults:
  assumes l: "list_of s vs" and room: "top (heap s) < cap (heap s)" and vs: "vs \<noteq> []" "hd vs = d"
  shows "insert_sorted d s = fail NullDeref"
proof -
  from l obtain ms where ok: "store_ok (heap s)"
    and ms: "chain nxt (cells (heap s)) (head s) ms 0" "vs = map (data \<circ> snd) ms"
    by (auto simp: list_of_def)
  then obtain a n ns where ns: "chain nxt (cells (heap s)) (head s) ((a, n) # ns) 0" "data n = d"
    using vs by (cases ms) auto
  obtain q h' where m: "malloc \<lparr>data = d, nxt = 0\<rparr> (heap s) = (q, h')" by fastforce
  with room have q: "q \<noteq> 0" by (auto simp: malloc_def)
  from chain_malloc [OF ok ns(1) m] have c: "head s \<noteq> 0" "cells h' (head s) = Some n" by auto
  then have "seek h' d 0 (head s) = ret (0, head s)" using ns(2) by (simp add: seek_step)
  then show ?thesis using c ns(2) q m by (simp add: insert_sorted_def)
qed

theorem insert_sorted_head_faults_witness:
  "\<exists>s. insert_sorted 7 (init_summed 2) = ret s \<and> insert_sorted 7 s = fail NullDeref"
proof -
  have r0: "top (heap (init_summed 2)) < cap (heap (init_summed 2))"
    by (simp add: init_summed_def empty_store_def)
  obtain s where s: "insert_sorted 7 (init_summed 2) = ret s" "list_of s [7]"
    "cap (heap s) = 2" "top (heap s) = 1"
    using list_of_insert [OF list_of_init r0, of 7]
    by (auto simp: init_summed_def empty_store_def)
  from insert_sorted_head_faults [OF s(2), of 7] s show ?thesis by simp
qed

text \<open>
  \<open>index_of\<close> returns the index of the first node that holds the value, or
  \<open>-1\<close>, and prints the nodes before it with their indices.
\<close>

theorem index_of_correct:
  assumes "list_of s vs"
  shows "index_of d s = ret
     (case memchr d vs of None \<Rightarrow> -1 | Some k \<Rightarrow> of_nat k,
      map (\<lambda>k. (of_nat k, vs ! k)) [0..<(case memchr d vs of None \<Rightarrow> length vs | Some k \<Rightarrow> k)])"
  by (rule index_of_list [OF assms])

theorem index_of_correct_witness: "index_of 3 (init_summed 2) = ret (-1, [])"
  using index_of_correct [OF list_of_init, of 3] by simp

text \<open>
  Starting from the empty list, inserting distinct values returns as long as
  \<open>malloc\<close> has room, leaves the sorted list of these values, and \<open>info.sum\<close> is what
  \<open>sum_list\<close> computes by walking the nodes (both modulo \<open>2 ^ 64\<close>).
\<close>

theorem insert_all_sum:
  assumes "distinct ds" "length ds \<le> n"
  shows "\<exists>s. insert_all ds (init_summed n) = ret s \<and> list_of s (sort ds)
    \<and> sum_list' s = ret (info_sum s)"
proof -
  have "\<exists>s. insert_all ds (init_summed n) = ret s \<and> list_of s (sort (ds @ []))
    \<and> info_sum s = sum_list (sort (ds @ []))"
    using assms by (intro insert_all_list list_of_init) (simp_all add: init_summed_def empty_store_def)
  then show ?thesis using sum_list'_list by fastforce
qed

theorem insert_all_sum_witness:
  "\<exists>s. insert_all [3, 1, 2] (init_summed 3) = ret s \<and> list_of s (sort [3, 1, 2])
    \<and> sum_list' s = ret (info_sum s)"
  by (rule insert_all_sum) simp_all

text \<open>
  Both test programs of the lab run to completion and return 0: every
  \<open>TEST\<close> and \<open>ASSERT\<close> in their \<open>main\<close> holds, with six (four) nodes of memory.
\<close>

theorem mains_succeed: "main_example1 6 = ret 0 \<and> main_example2 4 = ret 0"
  by (simp add: main_example1_def main_example2_def init_summed_def empty_store_def
      insert_sorted_def insert_summed_def malloc_def check_def index_of_def sum_list'_def
      run_simps)

end
