(* ===== verification/Lab5.thy ===== *)
theory Lab5
  imports Fit_Policy
begin

text \<open>
  \<open>lab/lab5.c\<close>: the three search functions over a linked free list whose blocks carry an
  id, each shown to compute the policy of its name (\<open>Fit_Policy\<close>), and \<open>main\<close>.
\<close>

section \<open>The program of lab 5\<close>

record block =
  bsize :: u64
  bnext :: nat
  bid :: cint

definition initialize_block :: "block store \<Rightarrow> nat \<Rightarrow> u64 \<Rightarrow> nat \<Rightarrow> cint \<Rightarrow> block store run" where
  "initialize_block h p sz nx i = assign h p (\<lambda>_. \<lparr>bsize = sz, bnext = nx, bid = i\<rparr>)"

partial_function (option) lab5_find_first_fit :: "block store \<Rightarrow> nat \<Rightarrow> u64 \<Rightarrow> cint run" where
  "lab5_find_first_fit h p sz = (if p = 0 then ret (- 1)
     else rbind (deref h p) (\<lambda>b. if sz \<le> bsize b then ret (bid b)
       else lab5_find_first_fit h (bnext b) sz))"

partial_function (option) lab5_find_best_loop :: "block store \<Rightarrow> nat \<Rightarrow> u64 \<Rightarrow> cint \<Rightarrow> u64 \<Rightarrow> cint run" where
  "lab5_find_best_loop h p sz best_fit_id best_fit_size = (if p = 0 then ret best_fit_id
     else rbind (deref h p) (\<lambda>b. if sz \<le> bsize b \<and> bsize b < best_fit_size
       then lab5_find_best_loop h (bnext b) sz (bid b) (bsize b)
       else lab5_find_best_loop h (bnext b) sz best_fit_id best_fit_size))"

definition lab5_find_best_fit :: "block store \<Rightarrow> nat \<Rightarrow> u64 \<Rightarrow> cint run" where
  "lab5_find_best_fit h p sz = lab5_find_best_loop h p sz (- 1) (- 1)"

partial_function (option) lab5_find_worst_loop :: "block store \<Rightarrow> nat \<Rightarrow> u64 \<Rightarrow> cint \<Rightarrow> u64 \<Rightarrow> cint run" where
  "lab5_find_worst_loop h p sz worst_fit_id worst_fit_size = (if p = 0 then ret worst_fit_id
     else rbind (deref h p) (\<lambda>b. if sz \<le> bsize b \<and> worst_fit_size < bsize b
       then lab5_find_worst_loop h (bnext b) sz (bid b) (bsize b)
       else lab5_find_worst_loop h (bnext b) sz worst_fit_id worst_fit_size))"

definition lab5_find_worst_fit :: "block store \<Rightarrow> nat \<Rightarrow> u64 \<Rightarrow> cint run" where
  "lab5_find_worst_fit h p sz = lab5_find_worst_loop h p sz (- 1) 0"

text \<open>The nodes of a chain as pairs of an id and a size.\<close>

definition ids :: "(nat \<times> block) list \<Rightarrow> (cint \<times> u64) list" where
  "ids ns = map (\<lambda>(p, b). (bid b, bsize b)) ns"

definition or_minus_one :: "cint option \<Rightarrow> cint" where
  "or_minus_one r = (case r of None \<Rightarrow> - 1 | Some i \<Rightarrow> i)"

lemma ids_simps [simp]: "ids [] = []" "ids ((p, b) # ns) = (bid b, bsize b) # ids ns"
  by (simp_all add: ids_def)

lemma lab5_find_first_fit_step [run_simps]:
  "lab5_find_first_fit h 0 n = ret (- 1)"
  "cells h p = Some b \<Longrightarrow> p \<noteq> 0 \<Longrightarrow> lab5_find_first_fit h p n =
     (if n \<le> bsize b then ret (bid b) else lab5_find_first_fit h (bnext b) n)"
  by (subst lab5_find_first_fit.simps; simp)+

lemma lab5_find_best_loop_step [run_simps]:
  "lab5_find_best_loop h 0 n i bs = ret i"
  "cells h p = Some b \<Longrightarrow> p \<noteq> 0 \<Longrightarrow> lab5_find_best_loop h p n i bs =
     (if n \<le> bsize b \<and> bsize b < bs then lab5_find_best_loop h (bnext b) n (bid b) (bsize b)
      else lab5_find_best_loop h (bnext b) n i bs)"
  by (subst lab5_find_best_loop.simps; simp)+

lemma lab5_find_worst_loop_step [run_simps]:
  "lab5_find_worst_loop h 0 n i ws = ret i"
  "cells h p = Some b \<Longrightarrow> p \<noteq> 0 \<Longrightarrow> lab5_find_worst_loop h p n i ws =
     (if n \<le> bsize b \<and> ws < bsize b then lab5_find_worst_loop h (bnext b) n (bid b) (bsize b)
      else lab5_find_worst_loop h (bnext b) n i ws)"
  by (subst lab5_find_worst_loop.simps; simp)+

lemma lab5_find_first_fit_chain:
  "chain bnext (cells h) p ns 0 \<Longrightarrow> lab5_find_first_fit h p n = ret (or_minus_one (first_pick (ids ns) n))"
proof (induction ns arbitrary: p)
  case (Cons m ns)
  from Cons.prems show ?case
    by (cases rule: chain_cases) (simp_all add: lab5_find_first_fit_step or_minus_one_def [of "Some _"] Cons.IH)
qed (simp add: lab5_find_first_fit_step or_minus_one_def)

lemma lab5_find_best_loop_chain:
  "chain bnext (cells h) p ns 0 \<Longrightarrow>
     lab5_find_best_loop h p n (or_minus_one b) bs = ret (or_minus_one (best_loop b bs (ids ns) n))"
proof (induction ns arbitrary: p b bs)
  case (Cons m ns)
  from Cons.prems show ?case
  proof (cases rule: chain_cases)
    case (2 nd ms)
    with Cons.IH [of "bnext nd" "Some (bid nd)" "bsize nd"] Cons.IH [of "bnext nd" b bs]
    show ?thesis by (simp add: lab5_find_best_loop_step or_minus_one_def [of "Some _"])
  qed simp
qed (simp add: lab5_find_best_loop_step)

lemma lab5_find_worst_loop_chain:
  "chain bnext (cells h) p ns 0 \<Longrightarrow>
     lab5_find_worst_loop h p n (or_minus_one w) ws = ret (or_minus_one (worst_loop w ws (ids ns) n))"
proof (induction ns arbitrary: p w ws)
  case (Cons m ns)
  from Cons.prems show ?case
  proof (cases rule: chain_cases)
    case (2 nd ms)
    with Cons.IH [of "bnext nd" "Some (bid nd)" "bsize nd"] Cons.IH [of "bnext nd" w ws]
    show ?thesis by (simp add: lab5_find_worst_loop_step or_minus_one_def [of "Some _"])
  qed simp
qed (simp add: lab5_find_worst_loop_step)

text \<open>
  \<open>main\<close>: five blocks, allocated and linked, and the three ids that are printed. The
  argument is the number of nodes \<open>malloc\<close> can hand out; writing through a \<open>NULL\<close> that
  \<open>malloc\<close> returned is a fault, since \<open>main\<close> does not test for it.
\<close>

definition uninit_block :: block where
  "uninit_block = \<lparr>bsize = 0, bnext = 0, bid = 0\<rparr>"

definition main_lab5 :: "nat \<Rightarrow> (cint \<times> cint \<times> cint) run" where
  "main_lab5 n =
     (let (b1, h) = malloc uninit_block (empty_store n);
          (b2, h) = malloc uninit_block h;
          (b3, h) = malloc uninit_block h;
          (b4, h) = malloc uninit_block h;
          (b5, h) = malloc uninit_block h
      in rbind (initialize_block h b1 6 b2 1) (\<lambda>h.
         rbind (initialize_block h b2 12 b3 2) (\<lambda>h.
         rbind (initialize_block h b3 24 b4 3) (\<lambda>h.
         rbind (initialize_block h b4 8 b5 4) (\<lambda>h.
         rbind (initialize_block h b5 4 0 5) (\<lambda>h.
         rbind (lab5_find_first_fit h b1 7) (\<lambda>first_fit_id.
         rbind (lab5_find_best_fit h b1 7) (\<lambda>best_fit_id.
         rbind (lab5_find_worst_fit h b1 7) (\<lambda>worst_fit_id.
         rbind (release h b1) (\<lambda>h.
         rbind (release h b2) (\<lambda>h.
         rbind (release h b3) (\<lambda>h.
         rbind (release h b4) (\<lambda>h.
         rbind (release h b5) (\<lambda>h.
         ret (first_fit_id, best_fit_id, worst_fit_id)))))))))))))))"

text \<open>
  On every linked list of blocks the three search functions return: first fit
  the id of the first block that is large enough, best fit the id of a smallest such block,
  worst fit the id of a largest, and \<open>-1\<close> when the list holds none.
\<close>

theorem lab5_fits_correct:
  assumes c: "chain bnext (cells h) p ns 0" and n: "0 < n"
    and max: "\<forall>(q, b) \<in> set ns. bsize b \<noteq> - 1"
  shows "lab5_find_first_fit h p n = ret (or_minus_one (first_pick (ids ns) n))
    \<and> (\<exists>r. lab5_find_best_fit h p n = ret (or_minus_one r)
        \<and> (case r of None \<Rightarrow> \<forall>(i, s) \<in> set (ids ns). s < n
           | Some i \<Rightarrow> \<exists>s. (i, s) \<in> set (ids ns) \<and> n \<le> s
               \<and> (\<forall>(j, t) \<in> set (ids ns). n \<le> t \<longrightarrow> s \<le> t)))
    \<and> (\<exists>r. lab5_find_worst_fit h p n = ret (or_minus_one r)
        \<and> (case r of None \<Rightarrow> \<forall>(i, s) \<in> set (ids ns). s < n
           | Some i \<Rightarrow> \<exists>s. (i, s) \<in> set (ids ns) \<and> n \<le> s
               \<and> (\<forall>(j, t) \<in> set (ids ns). n \<le> t \<longrightarrow> t \<le> s)))"
proof (intro conjI)
  have max': "s \<noteq> - 1" if "(i, s) \<in> set (ids ns)" for i s
    using that max by (auto simp: ids_def)
  show "lab5_find_first_fit h p n = ret (or_minus_one (first_pick (ids ns) n))"
    by (rule lab5_find_first_fit_chain [OF c])
  have bn: "best_pick (ids ns) n = None \<longleftrightarrow> (\<forall>(i, s) \<in> set (ids ns). s < n)"
    by (rule best_fit.pick_None_iff [OF n]) (erule max')
  have b: "lab5_find_best_fit h p n = ret (or_minus_one (best_pick (ids ns) n))"
    using lab5_find_best_loop_chain [OF c, of n None "- 1"]
    by (simp add: lab5_find_best_fit_def best_pick_def or_minus_one_def)
  show "\<exists>r. lab5_find_best_fit h p n = ret (or_minus_one r)
        \<and> (case r of None \<Rightarrow> \<forall>(i, s) \<in> set (ids ns). s < n
           | Some i \<Rightarrow> \<exists>s. (i, s) \<in> set (ids ns) \<and> n \<le> s
               \<and> (\<forall>(j, t) \<in> set (ids ns). n \<le> t \<longrightarrow> s \<le> t))"
    using bn best_pick_min [of "ids ns" n]
    by (intro exI [of _ "best_pick (ids ns) n"] conjI b) (simp split: option.split)
  have wn: "worst_pick (ids ns) n = None \<longleftrightarrow> (\<forall>(i, s) \<in> set (ids ns). s < n)"
    by (rule worst_fit.pick_None_iff [OF n]) (erule max')
  have w: "lab5_find_worst_fit h p n = ret (or_minus_one (worst_pick (ids ns) n))"
    using lab5_find_worst_loop_chain [OF c, of n None 0]
    by (simp add: lab5_find_worst_fit_def worst_pick_def or_minus_one_def)
  show "\<exists>r. lab5_find_worst_fit h p n = ret (or_minus_one r)
        \<and> (case r of None \<Rightarrow> \<forall>(i, s) \<in> set (ids ns). s < n
           | Some i \<Rightarrow> \<exists>s. (i, s) \<in> set (ids ns) \<and> n \<le> s
               \<and> (\<forall>(j, t) \<in> set (ids ns). n \<le> t \<longrightarrow> t \<le> s))"
    using wn worst_pick_max [of "ids ns" n]
    by (intro exI [of _ "worst_pick (ids ns) n"] conjI w) (simp split: option.split)
qed

definition lab5_store :: "block store" where
  "lab5_store = \<lparr>cells = [1 \<mapsto> \<lparr>bsize = 6, bnext = 2, bid = 1\<rparr>, 2 \<mapsto> \<lparr>bsize = 12, bnext = 3, bid = 2\<rparr>,
     3 \<mapsto> \<lparr>bsize = 8, bnext = 0, bid = 4\<rparr>], top = 3, cap = 5\<rparr>"

theorem lab5_fits_correct_witness:
  "lab5_find_first_fit lab5_store 1 7 = ret (or_minus_one (first_pick [(1, 6), (2, 12), (4, 8)] 7))"
  using lab5_fits_correct [of lab5_store 1
      "[(1, \<lparr>bsize = 6, bnext = 2, bid = 1\<rparr>), (2, \<lparr>bsize = 12, bnext = 3, bid = 2\<rparr>),
        (3, \<lparr>bsize = 8, bnext = 0, bid = 4\<rparr>)]" 7]
  by (simp add: lab5_store_def)

text \<open>The program prints 2, 4 and 3, whenever \<open>malloc\<close> can hand out its five blocks.\<close>

lemmas lab5_eval = main_lab5_def initialize_block_def lab5_find_best_fit_def
  lab5_find_worst_fit_def malloc_def empty_store_def uninit_block_def run_simps

lemma main_lab5_prints: "main_lab5 5 = ret (2, 4, 3)"
  by (simp add: lab5_eval)

lemma main_lab5_unchecked_malloc: "main_lab5 4 = fail NullDeref"
  by (simp add: lab5_eval)

end
