(* ===== verification/Alloc_Tests.thy ===== *)
theory Alloc_Tests
  imports Alloc C_Strings
begin

text \<open>
  The test program of the allocator, \<open>lecture/test2/main2.c\<close>, over the model of \<open>alloc.c\<close>: the four
  tests, which are run under each policy, and \<open>main\<close>. Pointers that the tests keep are lists.
  \<open>main3.c\<close> is the same program without the titles.
\<close>

section \<open>Counting\<close>

datatype report = Title string | Failed nat | Score nat nat

record tester =
  heap :: alloc_state
  SUCCESS_CASES :: nat
  TOTAL_SCORE :: nat
  reports :: "report list"

definition print_test_result :: "tester \<Rightarrow> tester" where
  "print_test_result t = t\<lparr>reports := reports t @ [Score (TOTAL_SCORE t) (SUCCESS_CASES t)]\<rparr>"

definition TEST :: "nat \<Rightarrow> bool \<Rightarrow> nat \<Rightarrow> tester \<Rightarrow> tester" where
  "TEST line f pts t = print_test_result
     (if f then t\<lparr>SUCCESS_CASES := SUCCESS_CASES t + 1, TOTAL_SCORE := TOTAL_SCORE t + pts\<rparr>
      else t\<lparr>reports := reports t @ [Failed line]\<rparr>)"

definition title :: "string \<Rightarrow> tester \<Rightarrow> tester" where
  "title name t = t\<lparr>reports := reports t @ [Title name]\<rparr>"

text \<open>The calls of the allocator, and loops over \<open>i\<close> that keep what is stored in \<open>p[i]\<close>.\<close>

definition t_alloc :: "cint \<Rightarrow> tester \<Rightarrow> (u64 \<times> tester) run" where
  "t_alloc n t = rbind (alloc n (heap t)) (\<lambda>(p, s). ret (p, t\<lparr>heap := s\<rparr>))"

definition t_dealloc :: "u64 \<Rightarrow> tester \<Rightarrow> tester run" where
  "t_dealloc p t = rbind (dealloc p (heap t)) (\<lambda>s. ret (t\<lparr>heap := s\<rparr>))"

definition t_free_size :: "tester \<Rightarrow> u64 run" where
  "t_free_size t = rbind (allocinfo (heap t)) (\<lambda>info. ret (free_size info))"

fun gather :: "(nat \<Rightarrow> tester \<Rightarrow> (u64 \<times> tester) run) \<Rightarrow> nat list \<Rightarrow> tester \<Rightarrow> (u64 list \<times> tester) run" where
  "gather f [] t = ret ([], t)"
| "gather f (i # is) t = rbind (f i t) (\<lambda>(p, t). rbind (gather f is t) (\<lambda>(ps, t). ret (p # ps, t)))"

fun t_dealloc_all :: "u64 list \<Rightarrow> tester \<Rightarrow> tester run" where
  "t_dealloc_all [] t = ret t"
| "t_dealloc_all (p # ps) t = rbind (t_dealloc p t) (t_dealloc_all ps)"

text \<open>The two \<open>int32_t\<close> at \<open>ptr\<close>.\<close>

definition store_ints :: "u64 \<Rightarrow> tester \<Rightarrow> tester" where
  "store_ints ptr t = t\<lparr>heap := (heap t)\<lparr>mem := store_le 4 (store_le 4 (mem (heap t)) ptr 0) (ptr + 4) 1\<rparr>\<rparr>"

definition int_at :: "tester \<Rightarrow> u64 \<Rightarrow> u64" where
  "int_at t p = load_le 4 (mem (heap t)) p"

definition HEADER_SIZE :: u64 where "HEADER_SIZE = 16"

text \<open>The size in the header of the block at \<open>ptr\<close>.\<close>

definition block_size :: "tester \<Rightarrow> u64 \<Rightarrow> u64" where
  "block_size t ptr = size_at (mem (heap t)) (ptr - HEADER_SIZE)"

section \<open>The tests\<close>

definition free_size_test :: "nat \<Rightarrow> nat \<Rightarrow> tester \<Rightarrow> tester run" where
  "free_size_test line i t = rbind (t_free_size t) (\<lambda>n.
     ret (TEST line (n = INCREMENT - HEADER_SIZE - (8 + HEADER_SIZE) * of_nat (i + 1)) 1 t))"

definition space_step :: "nat \<Rightarrow> tester \<Rightarrow> (u64 \<times> tester) run" where
  "space_step i t = rbind (t_alloc 8 t) (\<lambda>(ptr, t).
     if ptr = 0 then ret (ptr, t)
     else let t = store_ints ptr t
       in if i < 4 then rbind (free_size_test 50 i (TEST 47 (block_size t ptr = 8 + HEADER_SIZE) 1 t)) (\<lambda>t. ret (ptr, t))
          else if i = 9 then rbind (free_size_test 57 i (TEST 55 (block_size t ptr = 40) 1 t)) (\<lambda>t. ret (ptr, t))
          else ret (ptr, t))"

definition content_tests :: "nat \<Rightarrow> nat \<Rightarrow> u64 \<Rightarrow> tester \<Rightarrow> tester" where
  "content_tests line0 line1 ptr t = (let t = TEST line0 (int_at t ptr = 0) 1 t in TEST line1 (int_at t (ptr + 4) = 1) 1 t)"

definition test_correct_space_allocation :: "tester \<Rightarrow> tester run" where
  "test_correct_space_allocation t =
    rbind (gather space_step [0..<11] (title ''test_correct_space_allocation'' t)) (\<lambda>(p, t).
      let t = fold (\<lambda>i. if i < 10 then TEST 67 (p ! i \<noteq> 0) 1 else TEST 69 (p ! i = 0) 5) [5..<11] t
      in rbind (t_free_size t) (\<lambda>n.
        let t = TEST 73 (n = 0) 5 t;
            t = fold (\<lambda>i. if p ! i \<noteq> 0 then content_tests 77 78 (p ! i) else (\<lambda>t. t)) [5..<11] t
        in rbind (t_dealloc_all (filter (\<lambda>q. q \<noteq> 0) p) t) (\<lambda>t.
           rbind (t_free_size t) (\<lambda>n. ret (TEST 89 (n = 240) 5 t)))))"

definition grow_step :: "nat \<Rightarrow> tester \<Rightarrow> (u64 \<times> tester) run" where
  "grow_step i t = rbind (t_alloc 8 t) (\<lambda>(ptr, t).
     if ptr = 0 then fail NullDeref
     else let t = store_ints ptr t
       in if 30 \<le> i \<and> i < 40
          then let t = (if i < 39 then TEST 104 (block_size t ptr = 8 + HEADER_SIZE) 1 t
                        else if i = 39 then TEST 107 (block_size t ptr = 40) 1 t else t)
            in rbind (free_size_test 110 (i mod 10) t) (\<lambda>t. ret (ptr, t))
          else ret (ptr, t))"

definition test_grow :: "tester \<Rightarrow> tester run" where
  "test_grow t = rbind (gather grow_step [0..<40] (title ''test_grow'' t)) (\<lambda>(p, t).
     let t = fold (\<lambda>i t. content_tests 120 121 (p ! i) (TEST 118 (p ! i \<noteq> 0) 1 t)) [35..<40] t
     in rbind (t_dealloc_all p t) (\<lambda>t. rbind (t_free_size t) (\<lambda>n. ret (TEST 129 (n = 1008) 5 t))))"

text \<open>\<open>sbrk(0)\<close> is the break.\<close>

definition sbrk_case :: "nat \<Rightarrow> u64 \<Rightarrow> u64 \<Rightarrow> tester \<Rightarrow> tester" where
  "sbrk_case line ptr expect t = TEST line (ptr \<noteq> 0 \<and> fst (sbrk 0 (heap t)) = expect) 2 t"

definition test_sbrk :: "tester \<Rightarrow> tester run" where
  "test_sbrk t = (let t = title ''test_sbrk'' t; base = fst (sbrk 0 (heap t))
    in rbind (t_alloc 1 t) (\<lambda>(ptr, t).
       rbind (t_alloc 1 (sbrk_case 136 ptr (base + INCREMENT) t)) (\<lambda>(ptr, t).
       rbind (t_alloc 256 (sbrk_case 138 ptr (base + INCREMENT) t)) (\<lambda>(ptr, t).
       rbind (t_alloc 256 (sbrk_case 140 ptr (base + INCREMENT * 2) t)) (\<lambda>(_, t).
       rbind (t_alloc 1 (sbrk_case 142 ptr (base + INCREMENT * 3) t)) (\<lambda>(_, t).
         ret (sbrk_case 144 ptr (base + INCREMENT * 3) t)))))))"

text \<open>The test whether \<open>alloc(n)\<close> returns the block \<open>q\<close>.\<close>

definition reuse_case :: "nat \<Rightarrow> cint \<Rightarrow> u64 \<Rightarrow> tester \<Rightarrow> tester run" where
  "reuse_case line n q t = rbind (t_alloc n t) (\<lambda>(ptr, t). ret (TEST line (ptr = q) 10 t))"

definition test_first_fit_algorithm :: "tester \<Rightarrow> tester run" where
  "test_first_fit_algorithm t =
    rbind (gather (\<lambda>i. t_alloc 4) [0..<11] (title ''test_first_fit_algorithm'' t)) (\<lambda>(p, t).
      let t = fold (\<lambda>i. TEST 155 (p ! (i + 1) - p ! i = 20) 1) [0..<10] t
      in rbind (t_dealloc_all [p ! 1, p ! 3, p ! 5] t) (\<lambda>t.
         rbind (reuse_case 162 3 (p ! 5) t) (\<lambda>t.
         rbind (reuse_case 163 3 (p ! 3) t) (\<lambda>t. reuse_case 164 3 (p ! 1) t))))"

definition test_best_fit_algorithm :: "tester \<Rightarrow> tester run" where
  "test_best_fit_algorithm t =
    rbind (gather (\<lambda>i. t_alloc (of_nat (i + 1))) [0..<11] (title ''test_best_fit_algorithm'' t)) (\<lambda>(p, t).
      let t = fold (\<lambda>i. TEST 191 (p ! (i + 1) - p ! i = HEADER_SIZE + of_nat i + 1) 1) [0..<10] t
      in rbind (t_dealloc_all [p ! 1, p ! 3, p ! 5, p ! 7] t) (\<lambda>t.
         rbind (reuse_case 199 7 (p ! 7) t) (\<lambda>t.
         rbind (reuse_case 200 5 (p ! 5) t) (\<lambda>t. reuse_case 201 3 (p ! 3) t))))"

definition test_worst_fit_algorithm :: "tester \<Rightarrow> tester run" where
  "test_worst_fit_algorithm t =
    rbind (gather (\<lambda>i. t_alloc (of_nat (i + 1))) [0..<11] (title ''test_worst_fit_algorithm'' t)) (\<lambda>(p, t).
      let t = fold (\<lambda>i. TEST 228 (p ! (i + 1) - p ! i = HEADER_SIZE + of_nat i + 1) 1) [0..<10] t
      in rbind (t_dealloc_all [p ! 1, p ! 3, p ! 5, p ! 7] t) (\<lambda>t.
         rbind (reuse_case 236 3 (p ! 7) t) (\<lambda>t.
         rbind (reuse_case 237 3 (p ! 5) t) (\<lambda>t. reuse_case 238 3 (p ! 3) t))))"

section \<open>The program\<close>

definition t_allocopt :: "algs \<Rightarrow> cint \<Rightarrow> tester \<Rightarrow> tester" where
  "t_allocopt g n t = t\<lparr>heap := allocopt g n (heap t)\<rparr>"

definition test_first_fit :: "int \<Rightarrow> tester \<Rightarrow> tester run" where
  "test_first_fit i t =
    (if i = 0 then test_correct_space_allocation (t_allocopt FIRST_FIT 256 t)
     else if i = 1 then test_first_fit_algorithm (t_allocopt FIRST_FIT 256 t)
     else if i = 2 then test_grow (t_allocopt FIRST_FIT 1024 t)
     else if i = 3 then test_sbrk (t_allocopt FIRST_FIT 768 t) else ret t)"

definition test_best_fit :: "int \<Rightarrow> tester \<Rightarrow> tester run" where
  "test_best_fit i t =
    (if i = 0 then test_correct_space_allocation (t_allocopt BEST_FIT 256 t)
     else if i = 1 then test_best_fit_algorithm (t_allocopt BEST_FIT 256 t)
     else if i = 2 then test_grow (t_allocopt BEST_FIT 1024 t)
     else if i = 3 then test_sbrk (t_allocopt BEST_FIT 768 t) else ret t)"

definition test_worst_fit :: "int \<Rightarrow> tester \<Rightarrow> tester run" where
  "test_worst_fit i t =
    (if i = 0 then test_correct_space_allocation (t_allocopt WORST_FIT 256 t)
     else if i = 1 then test_worst_fit_algorithm (t_allocopt WORST_FIT 256 t)
     else if i = 2 then test_grow (t_allocopt WORST_FIT 1024 t)
     else if i = 3 then test_sbrk (t_allocopt WORST_FIT 768 t) else ret t)"

fun all_tests :: "int list \<Rightarrow> tester \<Rightarrow> tester run" where
  "all_tests [] t = ret t"
| "all_tests (i # is) t = rbind (test_first_fit i t) (\<lambda>t. rbind (test_best_fit i t) (\<lambda>t.
     rbind (test_worst_fit i t) (all_tests is)))"

text \<open>\<open>b\<close> is the break at the start and \<open>bmax\<close> its bound.\<close>

definition main_tests :: "u64 \<Rightarrow> u64 \<Rightarrow> bytes list \<Rightarrow> tester run" where
  "main_tests b bmax argv = (let t = \<lparr>heap = init_state b bmax, SUCCESS_CASES = 0, TOTAL_SCORE = 0, reports = []\<rparr>
    in if length argv \<noteq> 3 then all_tests [0, 1, 2, 3] t
       else let caseIndex = atoi (argv ! 1); testIndex = atoi (argv ! 2)
         in if caseIndex = 0 then test_first_fit testIndex t
            else if caseIndex = 1 then test_best_fit testIndex t
            else if caseIndex = 2 then test_worst_fit testIndex t else ret t)"

end
