(* ===== verification/Alloc_Bump.thy ===== *)
theory Alloc_Bump
  imports Alloc_Ops
begin

text \<open>
  \<open>alloc\<close> of \<open>lecture/test2/alloc.c\<close> before the first \<open>dealloc\<close>: blocks are cut from the
  block at \<open>head\<close>, whose \<open>size\<close> field counts the bytes behind its header, and the heap
  grows in steps of \<open>INCREMENT\<close> up to the limit. \<open>arena\<close> is the invariant of this phase.
\<close>

section \<open>The invariant\<close>

abbreviation free_at_head :: "alloc_state \<Rightarrow> nat" where
  "free_at_head s \<equiv> unat (size_at (mem s) (head s))"

text \<open>
  The block at \<open>head\<close> ends where the heap ends, which is the program break; the heap lies
  between its origin and the limit, both counted in steps of \<open>INCREMENT\<close>.
\<close>

definition arena :: "alloc_state \<Rightarrow> bool" where
  "arena s \<longleftrightarrow> \<not> deallocCalled s \<and> 0 < unat (heap_origin s) \<and> unat (heap_origin s) \<le> unat (head s)
     \<and> unat (head s) + 16 + free_at_head s = unat (heap_end s) \<and> brk s = heap_end s
     \<and> 0 \<le> sint (limit s) \<and> unat (heap_end s) \<le> unat (heap_origin s) + unat (limit s)
     \<and> 256 dvd unat (heap_end s) - unat (heap_origin s) \<and> 256 dvd unat (limit s)"

lemma heap_span_arena:
  assumes "arena s"
  shows "heap_span s = int (unat (heap_end s) - unat (heap_origin s))"
proof -
  let ?d = "unat (heap_end s) - unat (heap_origin s)"
  have "heap_origin s \<le> heap_end s" using assms by (simp add: arena_def word_le_nat_alt)
  then have u: "unat (heap_end s - heap_origin s) = ?d" by (rule unat_sub)
  have l: "0 \<le> sint (limit s)" "unat (heap_end s) \<le> unat (heap_origin s) + unat (limit s)"
    using assms unfolding arena_def by blast+
  have "(2::nat) ^ 31 \<le> 2 ^ 63" by simp
  with l(2) cint_nonneg(2) [OF l(1)] have "unat (heap_end s - heap_origin s) < 2 ^ 63"
    unfolding u by linarith
  then have "int (unat (heap_end s - heap_origin s)) < int (2 ^ 63)" by (simp only: of_nat_less_iff)
  then have "uint (heap_end s - heap_origin s) < 2 ^ 63" by simp
  then have "heap_span s = uint (heap_end s - heap_origin s)"
    unfolding heap_span_def by (intro sint_small) simp
  then show ?thesis unfolding u [symmetric] by simp
qed

section \<open>Cutting the block at the head\<close>




lemma alloc_arena: "arena s \<Longrightarrow> alloc sz s = alloc_bump sz s"
  by (auto simp: alloc_def arena_def)


text \<open>The comparisons of \<open>alloc_bump\<close>, over the natural numbers.\<close>

lemma bump_tests:
  assumes a: "arena s" and sz: "0 \<le> sint sz"
  shows "size_at (mem s) (head s) < sext sz \<longleftrightarrow> free_at_head s < unat sz"
    "sext sz < size_at (mem s) (head s) \<longleftrightarrow> unat sz < free_at_head s"
    "sext sz \<le> size_at (mem s) (head s) \<longleftrightarrow> unat sz \<le> free_at_head s"
    "size_at (mem s) (head s) < sext sz + 16 \<longleftrightarrow> free_at_head s < unat sz + 16"
    "size_at (mem s) (head s) < sext sz + 16 * 2 \<longleftrightarrow> free_at_head s < unat sz + 32"
    "heap_span s = sint (limit s) \<longleftrightarrow> unat (heap_end s) = unat (heap_origin s) + unat (limit s)"
    "heap_span s < sint (limit s) \<longleftrightarrow> unat (heap_end s) < unat (heap_origin s) + unat (limit s)"
proof -
  note n = cint_nonneg(2,3) [OF sz]
  have "unat (sext sz + 16) = unat sz + 16" "unat (sext sz + 32) = unat sz + 32"
    using n by (simp_all add: unat_word_ariths)
  then show "size_at (mem s) (head s) < sext sz \<longleftrightarrow> free_at_head s < unat sz"
    "sext sz < size_at (mem s) (head s) \<longleftrightarrow> unat sz < free_at_head s"
    "sext sz \<le> size_at (mem s) (head s) \<longleftrightarrow> unat sz \<le> free_at_head s"
    "size_at (mem s) (head s) < sext sz + 16 \<longleftrightarrow> free_at_head s < unat sz + 16"
    "size_at (mem s) (head s) < sext sz + 16 * 2 \<longleftrightarrow> free_at_head s < unat sz + 32"
    using n by (simp_all add: word_less_nat_alt word_le_nat_alt)
  have o: "unat (heap_origin s) \<le> unat (heap_end s)" "unat (heap_end s) \<le> unat (heap_origin s) + unat (limit s)"
    and l: "0 \<le> sint (limit s)" using a unfolding arena_def by linarith+
  show "heap_span s = sint (limit s) \<longleftrightarrow> unat (heap_end s) = unat (heap_origin s) + unat (limit s)"
    "heap_span s < sint (limit s) \<longleftrightarrow> unat (heap_end s) < unat (heap_origin s) + unat (limit s)"
    unfolding heap_span_arena [OF a] cint_nonneg(1) [OF l] using o by linarith+
qed

section \<open>Allocation before the first \<open>dealloc\<close>\<close>





text \<open>
  At the limit, a request larger than the free space returns \<open>NULL\<close> and changes
  nothing.
\<close>

theorem alloc_limit_reached:
  assumes a: "arena s" and sz: "0 \<le> sint sz" and "free_at_head s < unat sz"
    and "unat (heap_end s) = unat (heap_origin s) + unat (limit s)"
  shows "alloc sz s = ret (0, s)"
  using assms(3,4) unfolding alloc_arena [OF a] alloc_bump_def Let_def bump_tests [OF a sz] by simp

text \<open>
  The first allocation after \<open>allocopt\<close> takes \<open>INCREMENT\<close> bytes from the system and
  sets up the arena, provided the request leaves room for a second header.
\<close>

theorem alloc_first_arena:
  assumes s: "\<not> deallocCalled s" "head s = 0" and sz: "0 \<le> sint sz" "unat sz \<le> 224"
    and lim: "0 \<le> sint (limit s)" "256 dvd unat (limit s)" "0 < unat (limit s)"
    and b: "0 < unat (brk s)" "unat (brk s) + 256 \<le> unat (brk_max s)"
  shows "\<exists>s'. alloc sz s = ret (brk s + 16, s') \<and> arena s' \<and> heap_origin s' = brk s
    \<and> unat (head s') = unat (brk s) + 16 + unat sz \<and> free_at_head s' = 224 - unat sz
    \<and> size_at (mem s') (brk s) = sext sz + 16"
proof -
  define c where "c = brk s + 16 + sext sz"
  define m where "m = set_next c 0 (set_size c (256 - 32 - sext sz)
    (set_next (brk s) 0 (set_size (brk s) (sext sz + 16) (mem s))))"
  define s' where "s' = s\<lparr>brk := brk s + 256, heap_origin := brk s, heap_end := brk s + 256, mem := m, head := c\<rparr>"
  note n = cint_nonneg(3) [OF sz(1)]
  have lt: "unat (brk s) + 256 < 2 ^ 64" using b(2) unat_u64_less [of "brk_max s"] by linarith
  have e: "unat (brk s + 256) = unat (brk s) + 256" using lt by (simp add: unat_word_ariths)
  have c: "unat c = unat (brk s) + 16 + unat sz" using lt n sz(2) by (simp add: c_def unat_word_ariths)
  have ap: "apart (brk s) c" using c lt sz(2) by (intro apartI) simp_all
  have ap': "apart c (brk s)" by (rule apart_sym [OF ap])
  have v: "unat (256 - 32 - sext sz) = 224 - unat sz"
    using n sz(2) by (subst unat_sub) (simp_all add: word_le_nat_alt)
  have m: "size_at m c = 256 - 32 - sext sz" "size_at m (brk s) = sext sz + 16"
    using ap' by (simp_all add: m_def)
  have "brk s + 256 \<le> brk_max s" "brk s \<noteq> - 1"
    using b lt e by (auto simp: word_le_nat_alt unat_minus_1_u64)
  then have "alloc sz s = ret (brk s + 16, s')"
    using s by (simp add: alloc_def alloc_first_def sbrk_def INCREMENT_def Let_def s'_def m_def c_def)
  moreover have "256 \<le> unat (limit s)" using lim(2,3) by (auto elim!: dvdE)
  then have "arena s'"
    using s b lim e c v m(1) sz(2) unfolding arena_def by (simp add: s'_def)
  ultimately show ?thesis using c v m by (intro exI [of _ s']) (simp add: s'_def)
qed

section \<open>Where the bump phase goes wrong\<close>

text \<open>
  At the limit, a request for exactly the free space is not recognised as the last
  block: the allocator cuts the block, places a header at the end of the heap, past the last
  byte it owns, and records a free size of \<open>2 ^ 64 - 16\<close> bytes in it.
\<close>

theorem alloc_exact_fit_underflows:
  assumes a: "arena s" and sz: "0 \<le> sint sz" and f: "free_at_head s = unat sz"
    and l: "unat (heap_end s) = unat (heap_origin s) + unat (limit s)" "unat (heap_end s) + 16 < 2 ^ 64"
  shows "\<exists>s'. alloc sz s = ret (head s + 16, s') \<and> head s' = heap_end s \<and> free_at_head s' = 2 ^ 64 - 16
    \<and> heap_end s' = heap_end s"
proof -
  note n = cint_nonneg(3) [OF sz]
  have e: "size_at (mem s) (head s) = sext sz" using f n by (simp add: word_unat_eq_iff)
  have h: "unat (head s) + 16 + unat sz = unat (heap_end s)" using a f unfolding arena_def by linarith
  then have c: "head s + 16 + sext sz = heap_end s"
    using l(2) n by (simp add: word_unat_eq_iff unat_word_ariths)
  have "apart (head s) (heap_end s)" using h l by (intro apartI) simp_all
  then have ap: "apart (heap_end s) (head s)" "apart (head s) (heap_end s)" by (simp_all add: apart_sym)
  have "alloc sz s = alloc_cut sz s"
    unfolding alloc_arena [OF a] alloc_bump_def Let_def bump_tests [OF a sz] using f l by simp
  moreover have "alloc_cut sz s = ret (head s + 16, s\<lparr>mem := set_size (head s) (sext sz + 16)
      (set_next (heap_end s) 0 (set_size (heap_end s) (- 16) (mem s))), head := heap_end s\<rparr>)"
    using ap c e by (simp add: alloc_cut_def Let_def)
  ultimately show ?thesis using ap by simp
qed

text \<open>
  The limit does not bound the heap: when the last block has been handed out the
  head is \<open>NULL\<close>, and the next allocation starts a new heap of \<open>INCREMENT\<close> bytes behind the
  old one without looking at the limit.
\<close>

theorem alloc_past_limit:
  assumes a: "arena s" and sz: "0 \<le> sint sz" and f: "unat sz < free_at_head s" "free_at_head s < unat sz + 16"
    and l: "unat (heap_end s) = unat (heap_origin s) + unat (limit s)"
    and b: "unat (brk s) + 256 \<le> unat (brk_max s)"
  shows "\<exists>s1 p s2. alloc sz s = ret (head s + 16, s1) \<and> alloc sz2 s1 = ret (p, s2) \<and> p \<noteq> 0
    \<and> unat (brk s2) = unat (heap_origin s) + unat (limit s) + 256"
proof -
  have e: "brk s = heap_end s" and nd: "\<not> deallocCalled s" using a unfolding arena_def by blast+
  have lt: "unat (brk s) + 256 < 2 ^ 64" using b unat_u64_less [of "brk_max s"] by linarith
  have b': "brk s + 256 \<le> brk_max s" "brk s \<noteq> - 1" "brk s + 16 \<noteq> 0"
    using b lt by (auto simp: word_le_nat_alt unat_word_ariths unat_minus_1_u64 word_unat_eq_iff)
  have "alloc sz s = ret (head s + 16, s\<lparr>head := 0\<rparr>)"
    unfolding alloc_arena [OF a] alloc_bump_def Let_def bump_tests [OF a sz] using f l by simp
  moreover have "\<exists>s2. alloc sz2 (s\<lparr>head := 0\<rparr>) = ret (brk s + 16, s2) \<and> brk s2 = brk s + 256"
    using b' nd by (simp add: alloc_def alloc_first_def sbrk_def INCREMENT_def Let_def)
  ultimately show ?thesis using b' lt l e by (auto simp: unat_word_ariths)
qed

section \<open>All requests\<close>




section \<open>An arena of 256 bytes with 40 bytes left\<close>

definition demo_arena :: alloc_state where
  "demo_arena = \<lparr>limit = 256, alg = FIRST_FIT, head = 4296, heap_origin = 4096, heap_end = 4352,
     deallocCalled = False, mem = set_size 4296 40 (\<lambda>_. 0), brk = 4352, brk_max = 65536\<rparr>"

lemma demo_arena: "arena demo_arena"
  by (simp add: arena_def demo_arena_def)


theorem alloc_limit_reached_witness: "alloc 100 demo_arena = ret (0, demo_arena)"
  using alloc_limit_reached [OF demo_arena, of 100] by (simp add: demo_arena_def)

theorem alloc_exact_fit_underflows_witness:
  "\<exists>s'. alloc 40 demo_arena = ret (4312, s') \<and> head s' = 4352 \<and> free_at_head s' = 2 ^ 64 - 16"
  using alloc_exact_fit_underflows [OF demo_arena, of 40] by (auto simp: demo_arena_def)

theorem alloc_past_limit_witness: "\<exists>s1 p s2. alloc 30 demo_arena = ret (4312, s1)
    \<and> alloc 8 s1 = ret (p, s2) \<and> p \<noteq> 0 \<and> unat (brk s2) = 4096 + 256 + 256"
  using alloc_past_limit [OF demo_arena, of 30 8] by (simp add: demo_arena_def)

theorem alloc_first_arena_witness: "\<exists>s'. alloc 8 (allocopt BEST_FIT 512 (init_state 4096 65536)) = ret (4112, s')
    \<and> arena s' \<and> heap_origin s' = 4096"
  using alloc_first_arena [of "allocopt BEST_FIT 512 (init_state 4096 65536)" 8]
  by (auto simp: allocopt_def resetalloc_def init_state_def)

definition after_two :: "cint \<Rightarrow> cint \<Rightarrow> cint \<Rightarrow> (u64 \<times> u64) run" where
  "after_two lim a b = rbind (alloc a (allocopt FIRST_FIT lim (init_state 4096 65536))) (\<lambda>(p, s).
     rbind (alloc b s) (\<lambda>(q, s). ret (q, brk s - heap_origin s)))"

text \<open>
  A limit that is not a multiple of \<open>INCREMENT\<close> is overrun: with a limit of 300
  bytes, the second of two allocations of 200 and 100 bytes grows the heap to 512 bytes.
\<close>

theorem alloc_limit_overrun: "after_two 300 200 100 = ret (4328, 512)"
  by (simp add: after_two_def alloc_def alloc_first_def alloc_bump_def alloc_cut_def sbrk_def heap_span_def
      INCREMENT_def allocopt_def resetalloc_def init_state_def apart_iff Let_def)

end
