(* ===== verification/Alloc_Tests_Heap.thy ===== *)
theory Alloc_Tests_Heap
  imports Alloc_Tests Alloc_Bump
begin

text \<open>
  What the tests of \<open>lecture/test2/main2.c\<close> do to a heap of one increment: blocks cut one behind the
  other, the last one, blocks released, and the count of the successes.
\<close>

section \<open>Addresses behind a base\<close>

definition bytes_of :: "u64 \<Rightarrow> nat \<Rightarrow> nat \<Rightarrow> u64 set" where
  "bytes_of b i j = (\<lambda>k. b + of_nat k) ` {i..<j}"

lemma in_bytes_of: "k < 2 ^ 32 \<Longrightarrow> j \<le> 2 ^ 32 \<Longrightarrow> b + of_nat k \<in> bytes_of b i j \<longleftrightarrow> i \<le> k \<and> k < j"
  by (auto simp: bytes_of_def word_offset_eq)

lemma bytes_of_mono: "i' \<le> i \<Longrightarrow> j \<le> j' \<Longrightarrow> bytes_of b i j \<subseteq> bytes_of b i' j'"
  by (auto simp: bytes_of_def)

lemma header_bytes_of: "header_bytes (b + of_nat k) = bytes_of b k (k + 16)"
proof -
  have "(+) k ` {..<16} = {k..<k + 16}" using image_add_atLeastLessThan [of k 0 16] by (simp add: lessThan_atLeast0 add.commute)
  then have "{k..<k + 16} = (+) k ` {..<16}" by simp
  then show ?thesis unfolding bytes_of_def header_bytes_def by (simp only: image_image) (simp add: add.assoc)
qed

lemma apart_offsets:
  assumes "i + 16 \<le> j \<or> j + 16 \<le> i" "i + 16 \<le> 2 ^ 32" "j + 16 \<le> 2 ^ 32"
  shows "apart (b + of_nat i) (b + of_nat j)"
proof -
  have "b + of_nat k \<notin> bytes_of b j (j + 16)" if "i \<le> k" "k < i + 16" for k
    using that assms by (subst in_bytes_of) linarith+
  then show ?thesis unfolding apart_def header_bytes_of by (auto simp: bytes_of_def [of b i])
qed

lemma header_in: "i \<le> k \<Longrightarrow> k + 16 \<le> j \<Longrightarrow> header_bytes (b + of_nat k) \<subseteq> bytes_of b i j"
  unfolding header_bytes_of by (rule bytes_of_mono) simp_all

text \<open>A write outside the header at offset \<open>k\<close>.\<close>

lemma fields_outside:
  assumes "same_outside (bytes_of b i j) m m'" "k + 16 \<le> i \<or> j \<le> k" "k + 16 \<le> 2 ^ 32" "j \<le> 2 ^ 32"
  shows "size_at m' (b + of_nat k) = size_at m (b + of_nat k)" "next_at m' (b + of_nat k) = next_at m (b + of_nat k)"
proof -
  have "m' q = m q" if "q \<in> header_bytes (b + of_nat k)" for q
  proof -
    from that obtain l where l: "q = b + of_nat l" "k \<le> l" "l < k + 16" unfolding header_bytes_of bytes_of_def by auto
    then have "q \<notin> bytes_of b i j" using assms(2-4) by (simp only: l(1)) (subst in_bytes_of, linarith+)
    with assms(1) show ?thesis by (simp add: same_outside_def)
  qed
  then show "size_at m' (b + of_nat k) = size_at m (b + of_nat k)" "next_at m' (b + of_nat k) = next_at m (b + of_nat k)"
    by (rule size_at_cong, simp only:, rule next_at_cong, simp only:)
qed

definition holds_ints :: "mem \<Rightarrow> u64 \<Rightarrow> bool" where
  "holds_ints m p \<longleftrightarrow> load_le 4 m p = 0 \<and> load_le 4 m (p + 4) = 1"

definition with_ints :: "u64 \<Rightarrow> mem \<Rightarrow> mem" where
  "with_ints p m = store_le 4 (store_le 4 m p 0) (p + 4) 1"

lemma with_ints_other: "q \<notin> bytes_of p 0 8 \<Longrightarrow> with_ints p m q = m q"
proof -
  assume q: "q \<notin> bytes_of p 0 8"
  have "q \<noteq> p + of_nat i" if "i < 8" for i using q that by (auto simp: bytes_of_def)
  from this [of "4 + i" for i] this show ?thesis
    unfolding with_ints_def by (subst store_le_other, simp add: add.assoc, subst store_le_other) auto
qed

lemma holds_with_ints: "holds_ints (with_ints p m) p"
proof -
  have "load_le 4 (store_le 4 (store_le 4 m p 0) (p + 4) 1) p = load_le 4 (store_le 4 m p 0) p"
  proof (intro load_le_cong store_le_other)
    fix i j :: nat assume "i < 4" "j < 4"
    then have "(of_nat i :: u64) \<noteq> of_nat (4 + j)" by (subst word_offset_eq) simp_all
    then have "p + of_nat i \<noteq> p + of_nat (4 + j)" by (simp only: add_left_cancel not_False_eq_True)
    then show "p + of_nat i \<noteq> p + 4 + of_nat j" by (simp add: add.assoc)
  qed
  then show ?thesis by (simp add: holds_ints_def with_ints_def load_store_le)
qed

lemma holds_ints_cong:
  assumes "\<And>i. i < 8 \<Longrightarrow> m' (p + of_nat i) = m (p + of_nat i)"
  shows "holds_ints m' p = holds_ints m p"
proof -
  have "load_le 4 m' p = load_le 4 m p" using assms by (intro load_le_cong) simp
  moreover have "load_le 4 m' (p + 4) = load_le 4 m (p + 4)"
    using assms [of "4 + i" for i] by (intro load_le_cong) (simp add: add.assoc)
  ultimately show ?thesis by (simp add: holds_ints_def)
qed

text \<open>The fields that only the first allocation and \<open>allocopt\<close> change.\<close>

definition same_rest :: "alloc_state \<Rightarrow> alloc_state \<Rightarrow> bool" where
  "same_rest s s' \<longleftrightarrow> limit s' = limit s \<and> alg s' = alg s \<and> heap_origin s' = heap_origin s \<and> heap_end s' = heap_end s
     \<and> brk s' = brk s \<and> brk_max s' = brk_max s"

lemma same_rest_refl [simp]: "same_rest s s"
  by (simp add: same_rest_def)

lemma same_rest_trans: "same_rest s s' \<Longrightarrow> same_rest s' s'' \<Longrightarrow> same_rest s s''"
  by (simp add: same_rest_def)

lemma same_restI:
  "s' = s\<lparr>mem := m, head := h\<rparr> \<Longrightarrow> same_rest s s'"
  "s' = s\<lparr>deallocCalled := d, mem := m, head := h\<rparr> \<Longrightarrow> same_rest s s'"
  by (simp_all add: same_rest_def)

section \<open>Cutting blocks from a heap of one increment\<close>

lemma offset_less:
  assumes "i < 2 ^ 32" "j < 2 ^ 32"
  shows "(of_nat i :: u64) < of_nat j \<longleftrightarrow> i < j" "(of_nat i :: u64) \<le> of_nat j \<longleftrightarrow> i \<le> j"
  using assms by (simp_all add: word_less_nat_alt word_le_nat_alt unat_of_nat)

lemma offset_diff: "j \<le> i \<Longrightarrow> (of_nat i :: u64) - of_nat j = of_nat (i - j)"
  by simp

lemma cint_of_nat:
  assumes "n < 2 ^ 31"
  shows "sint (of_nat n :: cint) = int n" "sext (of_nat n) = of_nat n"
proof -
  have "uint (of_nat n :: cint) = int n" using assms by (simp add: uint_nat unat_of_nat)
  then show s: "sint (of_nat n :: cint) = int n" using assms by (subst sint_small) simp_all
  then have "unat (sext (of_nat n)) = n"
    using cint_nonneg(3) [of "of_nat n"] assms by (simp add: unat_of_nat)
  then have "of_nat (unat (sext (of_nat n))) = (of_nat n :: u64)" by (simp only:)
  then show "sext (of_nat n) = of_nat n" by simp
qed

text \<open>\<open>seg s b lim e\<close>: the heap is one increment at \<open>b\<close>, and blocks have been cut up to offset \<open>e\<close>.\<close>

definition seg :: "alloc_state \<Rightarrow> u64 \<Rightarrow> nat \<Rightarrow> nat \<Rightarrow> bool" where
  "seg s b lim e \<longleftrightarrow> \<not> deallocCalled s \<and> heap_origin s = b \<and> heap_end s = b + 256 \<and> brk s = b + 256
     \<and> sint (limit s) = int lim \<and> head s = b + of_nat e \<and> e < 240
     \<and> size_at (mem s) (b + of_nat e) = of_nat (240 - e) \<and> next_at (mem s) (b + of_nat e) = 0"

definition room_behind :: "u64 \<Rightarrow> bool" where
  "room_behind b \<longleftrightarrow> b \<noteq> 0 \<and> unat b + 2048 < 2 ^ 64"

lemma offset_nonzero: "room_behind b \<Longrightarrow> k \<le> 2048 \<Longrightarrow> b + of_nat k \<noteq> 0"
proof -
  assume "room_behind b" "k \<le> 2048"
  then have "unat (b + of_nat k) = unat b + k" "unat b \<noteq> 0"
    by (simp_all add: room_behind_def unat_word_ariths unat_of_nat unat_eq_0)
  then show "b + of_nat k \<noteq> 0" by (auto simp: unat_eq_0)
qed

lemma cut_step:
  assumes s: "seg s b lim e" and n: "n + 16 + e < 240" "lim = 256 \<or> 256 < lim \<and> n + 32 + e \<le> 240" and b: "room_behind b"
  shows "\<exists>s'. alloc (of_nat n) s = ret (b + of_nat (e + 16), s') \<and> seg s' b lim (e + 16 + n)
    \<and> size_at (mem s') (b + of_nat e) = of_nat (n + 16)
    \<and> same_outside (bytes_of b e (e + n + 32)) (mem s) (mem s') \<and> same_rest s s'"
proof -
  have n31: "n < 2 ^ 31" and e32: "e < 2 ^ 32" and f32: "240 - e < 2 ^ 32" and n32: "n < 2 ^ 32" "n + 16 < 2 ^ 32" "n + 32 < 2 ^ 32"
    using n by simp_all
  note c = cint_of_nat [OF n31]
  have hd0: "b + of_nat e \<noteq> 0" using offset_nonzero [OF b] n by simp
  have span: "heap_span s = 256" using s by (simp add: heap_span_def seg_def)
  have lim: "256 < sint (limit s) \<or> sint (limit s) = 256" using s n by (auto simp: seg_def)
  let ?f = "of_nat (240 - e) :: u64"
  have cmp: "\<not> ?f < of_nat n" "\<not> ?f < of_nat n + 16" "256 < sint (limit s) \<Longrightarrow> \<not> ?f < of_nat n + 16 * 2"
    using offset_less(1) [OF f32 n32(1)] offset_less(1) [OF f32 n32(2)] offset_less(1) [OF f32 n32(3)] n s
    by (auto simp: seg_def)
  have bump: "alloc (of_nat n) s = alloc_cut (of_nat n) s"
    using s lim cmp span hd0 by (auto simp: alloc_def alloc_bump_def Let_def seg_def c)
  define d where "d = b + of_nat (e + 16 + n)"
  define v where "v = (of_nat (240 - (e + 16 + n)) :: u64)"
  have d: "head s + 16 + sext (of_nat n) = d" using s c by (simp add: d_def seg_def ac_simps)
  have v: "?f - of_nat n - 16 = v"
  proof -
    have "?f - of_nat (n + 16) = of_nat (240 - e - (n + 16))" using n by (intro offset_diff) simp
    moreover have "240 - e - (n + 16) = 240 - (e + 16 + n)" by simp
    ultimately show ?thesis unfolding v_def by (simp only: of_nat_add of_nat_numeral diff_diff_eq)
  qed
  have v0: "v \<noteq> 0"
  proof -
    have "v \<noteq> of_nat 0" unfolding v_def using n by (subst word_offset_eq) simp_all
    then show ?thesis by simp
  qed
  have ap: "apart (b + of_nat e) d" unfolding d_def using n by (intro apart_offsets) simp_all
  define m' where "m' = set_size (b + of_nat e) (of_nat n + 16) (set_next d 0 (set_size d v (mem s)))"
  have fields: "size_at m' d = v" "next_at m' d = 0" "size_at m' (b + of_nat e) = of_nat (n + 16)"
    using ap by (simp_all add: m'_def)
  have hs: "head s = b + of_nat e" "size_at (mem s) (b + of_nat e) = ?f" using s by (simp_all add: seg_def)
  have "alloc_cut (of_nat n) s = ret (b + of_nat e + 16, s\<lparr>mem := m', head := d\<rparr>)"
    using v0 fields(1) unfolding alloc_cut_def Let_def d unfolding hs c v m'_def by simp
  moreover have "same_outside (bytes_of b e (e + n + 32)) (mem s) m'"
    unfolding m'_def d_def
    by (intro same_outside_size same_outside_next same_outside_refl header_in) simp_all
  moreover have "seg (s\<lparr>mem := m', head := d\<rparr>) b lim (e + 16 + n)"
    using s n fields by (simp add: seg_def d_def v_def)
  ultimately show ?thesis using bump fields(3)
    by (intro exI [of _ "s\<lparr>mem := m', head := d\<rparr>"]) (simp add: add.assoc same_rest_def)
qed

text \<open>The first allocation.\<close>

definition fresh :: "alloc_state \<Rightarrow> u64 \<Rightarrow> nat \<Rightarrow> bool" where
  "fresh s b lim \<longleftrightarrow> \<not> deallocCalled s \<and> head s = 0 \<and> brk s = b \<and> room_behind b
     \<and> unat b + 2048 \<le> unat (brk_max s) \<and> sint (limit s) = int lim"

lemma first_step:
  assumes s: "fresh s b lim" and n: "n \<le> 200"
  shows "\<exists>s'. alloc (of_nat n) s = ret (b + of_nat 16, s') \<and> seg s' b lim (16 + n)
    \<and> size_at (mem s') (b + of_nat 0) = of_nat (n + 16)
    \<and> same_outside (bytes_of b 0 (n + 32)) (mem s) (mem s')
    \<and> brk_max s' = brk_max s \<and> alg s' = alg s \<and> limit s' = limit s"
proof -
  have c: "sext (of_nat n) = of_nat n" using n by (intro cint_of_nat) simp
  have "unat (b + 256) = unat b + 256"
    using s unat_u64_less [of "brk_max s"] by (simp add: fresh_def unat_word_ariths)
  then have le: "b + 256 \<le> brk_max s" using s by (simp add: fresh_def word_le_nat_alt)
  have "b \<noteq> - 1"
  proof
    assume "b = - 1"
    then have "unat b = unat (- 1 :: u64)" by simp
    then show False using s by (simp add: fresh_def room_behind_def unat_minus_1_u64)
  qed
  then have sb: "sbrk INCREMENT s = (b, s\<lparr>brk := b + 256\<rparr>)" using le s by (simp add: sbrk_def INCREMENT_def fresh_def)
  define d where "d = b + of_nat (16 + n)"
  define v where "v = (of_nat (240 - (16 + n)) :: u64)"
  have d: "b + 16 + of_nat n = d" by (simp add: d_def ac_simps)
  have v: "INCREMENT - 32 - of_nat n = v"
    using offset_diff [of n 224] n by (simp add: v_def INCREMENT_def)
  have ap: "apart (b + of_nat 0) d" unfolding d_def using n by (intro apart_offsets) simp_all
  define m' where "m' = set_next d 0 (set_size d v (set_next b 0 (set_size b (of_nat n + 16) (mem s))))"
  have fields: "size_at m' d = v" "next_at m' d = 0" "size_at m' b = of_nat (n + 16)"
    using ap apart_sym [OF ap] by (simp_all add: m'_def)
  have "alloc (of_nat n) s = ret (b + 16, s\<lparr>brk := b + 256, heap_origin := b, heap_end := b + 256, mem := m', head := d\<rparr>)"
    using s \<open>b \<noteq> - 1\<close> by (simp add: alloc_def alloc_first_def sb Let_def c d v m'_def fresh_def)
  moreover have "same_outside (bytes_of b 0 (n + 32)) (mem s) m'"
    unfolding m'_def d_def using header_in [of 0 0 "n + 32" b]
    by (intro same_outside_size same_outside_next same_outside_refl header_in) simp_all
  moreover have "seg (s\<lparr>brk := b + 256, heap_origin := b, heap_end := b + 256, mem := m', head := d\<rparr>) b lim (16 + n)"
    using s n fields by (simp add: seg_def fresh_def d_def v_def)
  ultimately show ?thesis using fields(3)
    by (intro exI [of _ "s\<lparr>brk := b + 256, heap_origin := b, heap_end := b + 256, mem := m', head := d\<rparr>"]) simp
qed

text \<open>The last block of a heap: at the limit a request for exactly the free space takes the whole
  rest, and the head points behind the heap; a smaller rest is handed out as it is; below the
  limit the block gets the rest and the next allocation starts a new heap.\<close>

lemma seg_span: "seg s b lim e \<Longrightarrow> heap_span s = 256"
  by (simp add: heap_span_def seg_def)

lemma last_exact:
  assumes s: "seg s b 256 216" and b: "room_behind b"
  shows "\<exists>s'. alloc 8 s = ret (b + 232, s') \<and> same_rest s s' \<and> head s' = b + 256 \<and> \<not> deallocCalled s'
    \<and> size_at (mem s') (b + 216) = 40 \<and> same_outside (bytes_of b 216 256) (mem s) (mem s')"
proof -
  have "b + 216 \<noteq> 0" using offset_nonzero [OF b, of 216] by simp
  define m' where "m' = set_size (b + 216) 40 (set_size (b + 216) 24 (set_next (b + 240) 0 (set_size (b + 240) 0 (mem s))))"
  have "alloc 8 s = ret (b + 232, s\<lparr>mem := m', head := b + 256\<rparr>)"
    using s \<open>b + 216 \<noteq> 0\<close> seg_span [OF s]
    by (simp add: alloc_def alloc_bump_def alloc_cut_def Let_def seg_def m'_def add.assoc apart_iff)
  moreover have "size_at m' (b + 216) = 40" by (simp add: m'_def)
  moreover have "same_outside (bytes_of b 216 256) (mem s) m'"
    unfolding m'_def using header_in [of 216 216 256 b] header_in [of 216 240 256 b]
    by (intro same_outside_size same_outside_next same_outside_refl) simp_all
  ultimately show ?thesis using s
    by (intro exI [of _ "s\<lparr>mem := m', head := b + 256\<rparr>"]) (simp add: same_rest_def seg_def)
qed

lemma last_small:
  assumes s: "seg s b 256 215" and b: "room_behind b"
  shows "alloc 11 s = ret (b + 231, s\<lparr>head := 0\<rparr>)"
proof -
  have "b + 215 \<noteq> 0" using offset_nonzero [OF b, of 215] by simp
  then show ?thesis using s seg_span [OF s]
    by (simp add: alloc_def alloc_bump_def Let_def seg_def add.assoc)
qed

lemma last_below_limit:
  assumes s: "seg s b lim 216" "256 < lim" and b: "room_behind b"
  shows "alloc 8 s = ret (b + 232, s\<lparr>mem := set_size (b + 216) 40 (mem s), head := 0\<rparr>)"
proof -
  have "b + 216 \<noteq> 0" using offset_nonzero [OF b, of 216] by simp
  then show ?thesis using s seg_span [OF s(1)]
    by (simp add: alloc_def alloc_bump_def Let_def seg_def add.assoc)
qed

lemma alloc_behind_heap:
  assumes "\<not> deallocCalled s" "head s = b + 256" "heap_end s = b + 256" "heap_origin s = b" "sint (limit s) = 256"
    and "size_at (mem s) (b + 256) = 0" "room_behind b"
  shows "alloc 8 s = ret (0, s)"
proof -
  have "b + 256 \<noteq> 0" using offset_nonzero [OF assms(7), of 256] by simp
  then show ?thesis using assms(1-6) by (simp add: alloc_def alloc_bump_def heap_span_def Let_def)
qed

section \<open>Releasing blocks\<close>

lemma dealloc_exact:
  assumes b: "blks (mem s) (head s) xs" and p: "a \<noteq> 0" "a + 16 \<noteq> 0"
    and ap: "\<forall>x \<in> fst ` set xs. apart a x" and n: "size_at (mem s) a = n"
  obtains s' where "dealloc (a + 16) s = ret s'" "blks (mem s') (head s') (coalesce ((a, n) # xs))"
    "same_outside (header_area ((a, n) # xs)) (mem s) (mem s')"
    "same_rest s s'" "deallocCalled s'"
proof -
  let ?s = "s\<lparr>deallocCalled := True, mem := set_next a (head s) (mem s), head := a\<rparr>"
  have d: "dealloc (a + 16) s = coalesce_unsorted ?s" using p by (simp add: dealloc_def Let_def)
  have bl: "blks (mem ?s) (head ?s) ((a, n) # xs)" using blks_push [OF b p(1) ap] n by simp
  from coalesce_unsorted_blks [OF bl] obtain s' where s': "coalesce_unsorted ?s = ret s'"
    "blks (mem s') (head s') (coalesce ((a, n) # xs))"
    "same_outside (header_area ((a, n) # xs)) (mem ?s) (mem s')" "s' = ?s\<lparr>mem := mem s', head := head s'\<rparr>" by metis
  have "same_outside (header_area ((a, n) # xs)) (mem s) (mem ?s)"
    by (simp add: same_outside_next header_area_def)
  with s'(3) have "same_outside (header_area ((a, n) # xs)) (mem s) (mem s')" by (auto intro: same_outside_trans)
  moreover have "same_rest ?s s'" "deallocCalled s'" using s'(4) by (rule same_restI) (subst s'(4), simp)
  then have "same_rest s s'" "deallocCalled s'" by (simp_all add: same_rest_def)
  ultimately show thesis using s' d by (intro that [of s']) simp_all
qed

text \<open>Any number of blocks, in any order: nothing is lost but the headers.\<close>

lemma header_area_Cons: "header_area (x # xs) = header_bytes (fst x) \<union> header_area xs"
  by (simp add: header_area_def)

lemma apart_outside: "same_outside S m m' \<Longrightarrow> header_bytes a \<inter> S = {} \<Longrightarrow> size_at m' a = size_at m a"
  by (rule size_at_cong) (auto simp: same_outside_def)

lemma header_area_apart: "\<forall>x \<in> fst ` set xs. apart a x \<Longrightarrow> header_bytes a \<inter> header_area xs = {}"
  by (auto simp: header_area_def apart_def)

lemma dealloc_blocks:
  assumes "blks (mem (heap t)) (head (heap t)) xs"
    and "sorted_wrt apart (map fst bs)" "\<forall>a \<in> fst ` set bs. \<forall>x \<in> fst ` set xs. apart a x"
    and "\<forall>(a, n) \<in> set bs. a \<noteq> 0 \<and> a + 16 \<noteq> 0 \<and> size_at (mem (heap t)) a = n"
  shows "\<exists>s' ys. t_dealloc_all (map (\<lambda>(a, n). a + 16) bs) t = ret (t\<lparr>heap := s'\<rparr>) \<and> blks (mem s') (head s') ys
    \<and> total ys = total xs + total bs \<and> fst ` set ys \<subseteq> fst ` set bs \<union> fst ` set xs
    \<and> same_rest (heap t) s'"
  using assms
proof (induction bs arbitrary: t xs)
  case Nil
  then show ?case by (intro exI [of _ "heap t"]) auto
next
  case (Cons x bs)
  obtain a n where x: "x = (a, n)" by (cases x)
  have a: "a \<noteq> 0" "a + 16 \<noteq> 0" "size_at (mem (heap t)) a = n" "\<forall>z \<in> fst ` set xs. apart a z"
    using Cons.prems(3,4) by (auto simp: x)
  from dealloc_exact [OF Cons.prems(1) a(1,2,4,3)] obtain s1 where s1: "dealloc (a + 16) (heap t) = ret s1"
    "blks (mem s1) (head s1) (coalesce ((a, n) # xs))" "same_outside (header_area ((a, n) # xs)) (mem (heap t)) (mem s1)"
    "same_rest (heap t) s1" by metis
  have "a \<notin> fst ` set xs" using a(4) apart_neq by blast
  then have "distinct (map fst ((a, n) # xs))" using blks_distinct [OF Cons.prems(1)] by simp
  from coalesce_preserves [OF this] have c: "total (coalesce ((a, n) # xs)) = n + total xs"
    "fst ` set (coalesce ((a, n) # xs)) \<subseteq> insert a (fst ` set xs)" by (simp_all add: merged_from_def)
  have sep: "\<forall>y \<in> fst ` set bs. apart a y" using Cons.prems(2) by (simp add: x)
  have ap: "\<forall>y \<in> fst ` set bs. \<forall>z \<in> fst ` set (coalesce ((a, n) # xs)). apart y z"
  proof (intro ballI)
    fix y z assume y: "y \<in> fst ` set bs" and "z \<in> fst ` set (coalesce ((a, n) # xs))"
    then consider "z = a" | "z \<in> fst ` set xs" using c(2) by blast
    then show "apart y z" using sep y Cons.prems(3) by cases (auto intro: apart_sym)
  qed
  have "size_at (mem s1) y = size_at (mem (heap t)) y" if "y \<in> fst ` set bs" for y
  proof (rule apart_outside [OF s1(3)])
    have "\<forall>z \<in> fst ` set ((a, n) # xs). apart y z" using that sep Cons.prems(3) by (auto intro: apart_sym)
    then show "header_bytes y \<inter> header_area ((a, n) # xs) = {}" by (rule header_area_apart)
  qed
  then have sz: "\<forall>(y, k) \<in> set bs. y \<noteq> 0 \<and> y + 16 \<noteq> 0 \<and> size_at (mem (heap (t\<lparr>heap := s1\<rparr>))) y = k"
    using Cons.prems(4) by force
  have "sorted_wrt apart (map fst bs)" "blks (mem (heap (t\<lparr>heap := s1\<rparr>))) (head (heap (t\<lparr>heap := s1\<rparr>))) (coalesce ((a, n) # xs))"
    using Cons.prems(2) s1(2) by (simp_all add: x)
  from Cons.IH [OF this(2,1) ap sz] obtain s' ys where s': "t_dealloc_all (map (\<lambda>(a, n). a + 16) bs) (t\<lparr>heap := s1\<rparr>) = ret (t\<lparr>heap := s'\<rparr>)"
    "blks (mem s') (head s') ys" "total ys = n + total xs + total bs"
    "fst ` set ys \<subseteq> fst ` set bs \<union> fst ` set (coalesce ((a, n) # xs))"
    "same_rest s1 s'" by (auto simp: c(1))
  have "t_dealloc_all (map (\<lambda>(a, n). a + 16) (x # bs)) t = ret (t\<lparr>heap := s'\<rparr>)"
    using s1(1) s'(1) by (simp add: x t_dealloc_def)
  moreover have "same_rest (heap t) s'" using s1(4) s'(5) by (rule same_rest_trans)
  ultimately show ?case using s'(2-4) c(2) by (intro exI [of _ s'] exI [of _ ys]) (auto simp: x)
qed

lemma free_size_blks:
  assumes "blks (mem (heap t)) (head (heap t)) ys"
  shows "t_free_size t = ret (if total ys = sext (limit (heap t)) then total ys - 16 else total ys)"
  using allocinfo_loop_blks [OF assms] by (simp add: t_free_size_def allocinfo_def Let_def)

section \<open>Counted successes\<close>

fun is_Failed :: "report \<Rightarrow> bool" where
  "is_Failed (Failed n) = True"
| "is_Failed r = False"

text \<open>\<open>gain k p t t'\<close>: from \<open>t\<close> to \<open>t'\<close>, \<open>k\<close> tests have succeeded with \<open>p\<close> points and none has failed.\<close>

definition gain :: "nat \<Rightarrow> nat \<Rightarrow> tester \<Rightarrow> tester \<Rightarrow> bool" where
  "gain k p t t' \<longleftrightarrow> SUCCESS_CASES t' = SUCCESS_CASES t + k \<and> TOTAL_SCORE t' = TOTAL_SCORE t + p
     \<and> filter is_Failed (reports t') = filter is_Failed (reports t)"

lemma gain_refl: "gain 0 0 t t"
  by (simp add: gain_def)

lemma gain_trans: "gain k p t t' \<Longrightarrow> gain k' p' t' t'' \<Longrightarrow> gain (k + k') (p + p') t t''"
  by (simp add: gain_def)

lemma gain_heap [simp]: "gain k p t (t'\<lparr>heap := s\<rparr>) = gain k p t t'" "gain k p (t\<lparr>heap := s\<rparr>) t' = gain k p t t'"
  by (simp_all add: gain_def)

lemma title_facts [simp]: "heap (title n t) = heap t" "gain k p (title n t) t' = gain k p t t'"
  by (simp_all add: title_def gain_def)

lemma TEST_facts: "heap (TEST l f p t) = heap t" "f \<Longrightarrow> gain (Suc 0) p t (TEST l f p t)"
  by (simp_all add: TEST_def print_test_result_def gain_def)

lemma fold_TEST:
  assumes "\<And>i. i \<in> set is \<Longrightarrow> f i"
  shows "gain (length is) (length is * p) t (fold (\<lambda>i. TEST l (f i) p) is t)"
  using assms
proof (induction "is" arbitrary: t)
  case (Cons i "is")
  have "gain (Suc 0) p t (TEST l (f i) p t)" using Cons.prems by (intro TEST_facts) simp
  from gain_trans [OF this Cons.IH] Cons.prems show ?case by simp
qed (simp add: gain_refl)

lemma fold_TEST_heap: "heap (fold (\<lambda>i. TEST l (f i) p) is t) = heap t"
  by (induction "is" arbitrary: t) (simp_all add: TEST_facts)

section \<open>Blocks of eight bytes\<close>

text \<open>Where block \<open>i\<close> begins and how large it is when only blocks of eight bytes are allocated.\<close>

definition offset :: "nat \<Rightarrow> nat" where
  "offset i = 256 * (i div 10) + 24 * (i mod 10)"

definition extent :: "nat \<Rightarrow> nat" where
  "extent i = (if i mod 10 = 9 then 40 else 24)"

definition blocks_ok :: "mem \<Rightarrow> u64 \<Rightarrow> nat \<Rightarrow> bool" where
  "blocks_ok m b n \<longleftrightarrow> (\<forall>i<n. size_at m (b + of_nat (offset i)) = of_nat (extent i) \<and> holds_ints m (b + of_nat (offset i + 16)))"

definition grown :: "alloc_state \<Rightarrow> u64 \<Rightarrow> nat \<Rightarrow> nat \<Rightarrow> bool" where
  "grown s b lim i \<longleftrightarrow> blocks_ok (mem s) b i \<and> unat b + 4096 \<le> unat (brk_max s) \<and> b \<noteq> 0 \<and> \<not> deallocCalled s
     \<and> sint (limit s) = int lim
     \<and> (if i mod 10 = 0 then head s = 0 \<and> brk s = b + of_nat (offset i)
        else seg s (b + of_nat (256 * (i div 10))) lim (24 * (i mod 10)))"

lemma offset_less_Suc: "j < i \<Longrightarrow> offset j + extent j \<le> offset i"
proof -
  have step: "offset i + extent i \<le> offset (Suc i)" for i
    by (cases "i mod 10 = 9") (simp_all add: offset_def extent_def mod_Suc div_Suc)
  show "j < i \<Longrightarrow> offset j + extent j \<le> offset i"
  proof (induction i)
    case (Suc i)
    then show ?case using step [of i] by (cases "j = i") (auto intro: le_trans)
  qed simp
qed

lemma offset_bound: "i < 40 \<Longrightarrow> offset i + extent i \<le> 1024" "24 \<le> extent i"
proof -
  have "i < 40 \<Longrightarrow> offset i + extent i \<le> offset 40" by (rule offset_less_Suc)
  then show "i < 40 \<Longrightarrow> offset i + extent i \<le> 1024" by (simp add: offset_def)
  show "24 \<le> extent i" by (simp add: extent_def)
qed

lemma bytes_of_shift: "bytes_of (b + of_nat d) i j = bytes_of b (d + i) (d + j)"
proof -
  have "{d + i..<d + j} = (+) d ` {i..<j}" by (simp add: add.commute)
  then show ?thesis unfolding bytes_of_def by (simp only: image_image) (simp add: add.assoc)
qed

lemma with_ints_outside: "i \<le> k \<Longrightarrow> k + 8 \<le> j \<Longrightarrow> same_outside (bytes_of b i j) m (with_ints (b + of_nat k) m)"
proof -
  assume "i \<le> k" "k + 8 \<le> j"
  then have "bytes_of (b + of_nat k) 0 8 \<subseteq> bytes_of b i j" unfolding bytes_of_shift by (intro bytes_of_mono) simp_all
  then show ?thesis using with_ints_other by (auto simp: same_outside_def)
qed

lemma ints_outside:
  assumes "same_outside (bytes_of b i j) m m'" "k + 8 \<le> i" "j \<le> 2 ^ 32"
  shows "holds_ints m' (b + of_nat k) = holds_ints m (b + of_nat k)"
proof (rule holds_ints_cong)
  fix l :: nat assume l: "l < 8"
  have "b + of_nat (k + l) \<notin> bytes_of b i j"
  proof
    assume "b + of_nat (k + l) \<in> bytes_of b i j"
    then obtain n where n: "(of_nat (k + l) :: u64) = of_nat n" "i \<le> n" "n < j" unfolding bytes_of_def by auto
    have "k + l = n" using n(1) by (subst (asm) word_offset_eq) (use n(2,3) l assms(2,3) in linarith)+
    with n(2) l assms(2) show False by linarith
  qed
  then show "m' (b + of_nat k + of_nat l) = m (b + of_nat k + of_nat l)"
    using assms(1) by (simp add: same_outside_def add.assoc)
qed

lemma blocks_outside:
  assumes "blocks_ok m b i" "same_outside (bytes_of b (offset i) j) m m'" "i \<le> 40" "j \<le> 2 ^ 32"
  shows "blocks_ok m' b i"
  unfolding blocks_ok_def
proof (intro allI impI)
  fix k assume k: "k < i"
  have o: "offset k + 24 \<le> offset i" using offset_less_Suc [OF k] offset_bound(2) [of k] by linarith
  have "offset k + 16 \<le> 2 ^ 32" using offset_bound [of k] k assms(3) by simp
  from fields_outside(1) [OF assms(2) _ this assms(4)] ints_outside [OF assms(2) _ assms(4), of "offset k + 16"] o
  show "size_at m' (b + of_nat (offset k)) = of_nat (extent k) \<and> holds_ints m' (b + of_nat (offset k + 16))"
    using assms(1) k by (simp add: blocks_ok_def)
qed

lemma grow_room: "grown s b lim i \<Longrightarrow> d \<le> 2048 \<Longrightarrow> room_behind (b + of_nat d)
  \<and> unat (b + of_nat d) + 2048 \<le> unat (brk_max s)"
proof -
  assume s: "grown s b lim i" and d: "d \<le> 2048"
  then have u: "unat b + 4096 \<le> unat (brk_max s)" "b \<noteq> 0" by (simp_all add: grown_def)
  have "unat (b + of_nat d) = unat b + d"
    using u(1) d unat_u64_less [of "brk_max s"] by (simp add: unat_word_ariths unat_of_nat)
  moreover from this u(2) have "b + of_nat d \<noteq> 0" using unat_eq_0 [of b] unat_eq_0 [of "b + of_nat d"] by linarith
  ultimately show "room_behind (b + of_nat d) \<and> unat (b + of_nat d) + 2048 \<le> unat (brk_max s)"
    using u(1) d unat_u64_less [of "brk_max s"] by (simp add: room_behind_def)
qed

text \<open>\<open>grew s s1 c k lim\<close>: from \<open>s\<close> to \<open>s1\<close>, block \<open>k\<close> of the heap at \<open>c\<close> has been allocated.\<close>

definition grew :: "alloc_state \<Rightarrow> alloc_state \<Rightarrow> u64 \<Rightarrow> nat \<Rightarrow> nat \<Rightarrow> bool" where
  "grew s s1 c k lim \<longleftrightarrow> size_at (mem s1) (c + of_nat (24 * k)) = of_nat (if k = 9 then 40 else 24)
    \<and> same_outside (bytes_of c (24 * k) (24 * k + 40)) (mem s) (mem s1)
    \<and> brk_max s1 = brk_max s \<and> limit s1 = limit s \<and> brk s1 = c + 256 \<and> heap_origin s1 = c \<and> \<not> deallocCalled s1
    \<and> (if k = 9 then head s1 = 0 else seg s1 c lim (24 * k + 24))"

lemma grow_alloc:
  assumes s: "grown s b lim i" and i: "i < 40" "i mod 10 \<noteq> 9 \<or> 256 < lim" and lim: "256 \<le> lim"
    and c: "c = b + of_nat (256 * (i div 10))" and k: "k = i mod 10"
  shows "\<exists>s1. alloc 8 s = ret (c + of_nat (24 * k + 16), s1) \<and> grew s s1 c k lim"
proof -
  have o: "offset i = 256 * (i div 10) + 24 * k" "k < 10" by (simp_all add: offset_def k)
  have "256 * (i div 10) \<le> 2048" using i(1) by simp
  from grow_room [OF s this] have room: "room_behind c" "unat c + 2048 \<le> unat (brk_max s)" by (simp_all add: c)
  consider "k = 0" | "0 < k" "k < 9" | "k = 9" using o(2) by linarith
  then show ?thesis
  proof cases
    case 1
    then have "fresh s c lim" using s room by (simp add: grown_def fresh_def k o c)
    from first_step [OF this, of 8] obtain s' where "alloc 8 s = ret (c + 16, s')" "seg s' c lim 24" "size_at (mem s') c = 24"
      "same_outside (bytes_of c 0 40) (mem s) (mem s')" "brk_max s' = brk_max s \<and> limit s' = limit s" by auto
    then show ?thesis using 1 by (intro exI [of _ s']) (simp add: grew_def seg_def)
  next
    case 2
    then have sg: "seg s c lim (24 * k)" using s by (simp add: grown_def k c)
    have "8 + 16 + 24 * k < 240" "lim = 256 \<or> 256 < lim \<and> 8 + 32 + 24 * k \<le> 240" using 2 lim by auto
    from cut_step [OF sg this room(1)] obtain s' where "alloc 8 s = ret (c + of_nat (24 * k + 16), s')" "seg s' c lim (24 * k + 24)"
      "size_at (mem s') (c + of_nat (24 * k)) = 24" "same_outside (bytes_of c (24 * k) (24 * k + 40)) (mem s) (mem s')" "same_rest s s'"
      by (auto simp: add.commute add.left_commute)
    then show ?thesis using 2 by (intro exI [of _ s']) (simp add: grew_def seg_def same_rest_def)
  next
    case 3
    then have sg: "seg s c lim 216" using s by (simp add: grown_def k [symmetric] c)
    have "256 < lim" using i(2) 3 by (simp add: k)
    from last_below_limit [OF sg this room(1)] show ?thesis
      using 3 sg header_in [of 216 216 256 c]
      by (intro exI [of _ "s\<lparr>mem := set_size (c + 216) 40 (mem s), head := 0\<rparr>"])
        (simp add: grew_def seg_def same_outside_size)
  qed
qed

text \<open>The allocation of block \<open>i\<close> with the two integers stored in it.\<close>

lemma grow_one:
  assumes s: "grown s b lim i" and i: "i < 40" "i mod 10 \<noteq> 9 \<or> 256 < lim" and lim: "256 \<le> lim"
    and c: "c = b + of_nat (256 * (i div 10))" and k: "k = i mod 10" and p: "p = b + of_nat (offset i + 16)"
  shows "\<exists>s1 s2. alloc 8 s = ret (p, s1) \<and> p \<noteq> 0 \<and> p - 16 = b + of_nat (offset i)
    \<and> s2 = s1\<lparr>mem := with_ints p (mem s1)\<rparr> \<and> grown s2 b lim (Suc i) \<and> grew s s2 c k lim"
proof -
  have o: "offset i = 256 * (i div 10) + 24 * k" "k < 10" by (simp_all add: offset_def k)
  have pc: "p = c + of_nat (24 * k + 16)" "b + of_nat (offset i) = c + of_nat (24 * k)" by (simp_all add: p c o add.assoc)
  from grow_alloc [OF s i lim c k] obtain s1 where s1: "alloc 8 s = ret (p, s1)" "grew s s1 c k lim" unfolding pc by blast
  define s2 where "s2 = s1\<lparr>mem := with_ints p (mem s1)\<rparr>"
  have w: "same_outside (bytes_of c (24 * k + 16) (24 * k + 24)) (mem s1) (mem s2)"
    unfolding s2_def pc using with_ints_outside [of "24 * k + 16" "24 * k + 16" "24 * k + 24" c "mem s1"] by simp
  have out: "same_outside (bytes_of c (24 * k) (24 * k + 40)) (mem s) (mem s2)"
  proof (rule same_outside_trans)
    show "same_outside (bytes_of c (24 * k) (24 * k + 40)) (mem s) (mem s1)" using s1(2) by (simp add: grew_def)
    show "bytes_of c (24 * k + 16) (24 * k + 24) \<subseteq> bytes_of c (24 * k) (24 * k + 40)" by (rule bytes_of_mono) simp_all
  qed (rule w)
  have hdr: "size_at (mem s2) (c + of_nat (24 * k)) = size_at (mem s1) (c + of_nat (24 * k))"
    "size_at (mem s2) (c + of_nat (24 * k + 24)) = size_at (mem s1) (c + of_nat (24 * k + 24))"
    "next_at (mem s2) (c + of_nat (24 * k + 24)) = next_at (mem s1) (c + of_nat (24 * k + 24))"
    using o(2) by (intro fields_outside [OF w]; simp)+
  have sg: "seg s2 c lim (24 * k + 24)" if "seg s1 c lim (24 * k + 24)" using that hdr(2,3) by (simp add: seg_def s2_def)
  have g: "grew s s2 c k lim" using s1(2) out hdr(1) sg by (simp add: grew_def s2_def)
  have bc: "bytes_of c (24 * k) (24 * k + 40) = bytes_of b (offset i) (offset i + 40)"
    unfolding c bytes_of_shift by (simp add: o add.assoc)
  have "offset i + 40 \<le> 2 ^ 32" using offset_bound [of i] i(1) by simp
  with blocks_outside [OF _ out [unfolded bc]] s i(1) have "blocks_ok (mem s2) b i" by (simp add: grown_def)
  moreover have "size_at (mem s2) (b + of_nat (offset i)) = of_nat (extent i)"
    using g unfolding pc by (simp add: grew_def extent_def k)
  moreover have "holds_ints (mem s2) p" by (simp add: s2_def holds_with_ints)
  ultimately have "blocks_ok (mem s2) b (Suc i)" by (auto simp: blocks_ok_def less_Suc_eq p)
  moreover have "if Suc i mod 10 = 0 then head s2 = 0 \<and> brk s2 = b + of_nat (offset (Suc i))
      else seg s2 (b + of_nat (256 * (Suc i div 10))) lim (24 * (Suc i mod 10))"
    using g by (cases "k = 9") (simp_all add: k mod_Suc div_Suc grew_def c offset_def algebra_simps)
  ultimately have "grown s2 b lim (Suc i)" using s g by (simp add: grown_def grew_def)
  moreover have "p \<noteq> 0"
  proof -
    have "offset i + 16 \<le> 2048" using offset_bound(1) [OF i(1)] offset_bound(2) [of i] by linarith
    from grow_room [OF s this] show ?thesis by (simp add: p room_behind_def)
  qed
  moreover have "p - 16 = b + of_nat (offset i)" by (simp add: p)
  ultimately show ?thesis using s1(1) g s2_def by blast
qed

lemma limit_unat:
  assumes "sint (l :: cint) = int n"
  shows "unat (sext l) = n" "sext l = of_nat n"
proof -
  have "0 \<le> sint l" using assms by simp
  note c = cint_nonneg [OF this]
  have "int (unat l) = int n" using c(1) assms by (simp only:)
  then show u: "unat (sext l) = n" using c(3) by (simp only: of_nat_eq_iff)
  then have "of_nat (unat (sext l)) = (of_nat n :: u64)" by (simp only:)
  then show "sext l = of_nat n" by simp
qed

lemma seg_blks: "seg s c lim e \<Longrightarrow> room_behind c \<Longrightarrow> blks (mem s) (head s) [(c + of_nat e, of_nat (240 - e))]"
  using offset_nonzero [of c e] by (simp add: seg_def blks_Cons)

section \<open>The allocations of \<open>test_correct_space_allocation\<close>\<close>

lemma store_ints_heap: "store_ints p (t\<lparr>heap := s\<rparr>) = t\<lparr>heap := s\<lparr>mem := with_ints p (mem s)\<rparr>\<rparr>"
  by (simp add: store_ints_def with_ints_def)

text \<open>What \<open>free_size_test\<close> compares with.\<close>

lemma free_size_expected: "i < 10 \<Longrightarrow> INCREMENT - HEADER_SIZE - (8 + HEADER_SIZE) * of_nat (i + 1) = of_nat (240 - 24 * (i + 1))"
proof -
  assume i: "i < 10"
  have "(240 :: u64) - of_nat (24 * (i + 1)) = of_nat (240 - 24 * (i + 1))"
    using offset_diff [of "24 * (i + 1)" 240] i by simp
  then show ?thesis by (simp add: INCREMENT_def HEADER_SIZE_def del: of_nat_diff)
qed

lemma free_size_seg:
  assumes "seg (heap t) c lim (24 * i + 24)" "room_behind c" "i < 9" "256 \<le> lim"
  shows "\<exists>t'. free_size_test l i t = ret t' \<and> heap t' = heap t \<and> gain 1 1 t t'"
proof -
  have ne: "of_nat (240 - (24 * i + 24)) \<noteq> sext (limit (heap t))"
  proof -
    have "sint (limit (heap t)) = int lim" using assms(1) by (simp add: seg_def)
    then have "unat (sext (limit (heap t))) = lim" by (rule limit_unat)
    moreover have "unat (of_nat (240 - (24 * i + 24)) :: u64) < 256" by (simp add: unat_of_nat)
    ultimately show ?thesis using assms(4) by auto
  qed
  from free_size_blks [OF seg_blks [OF assms(1,2)]] ne
  have "t_free_size t = ret (of_nat (240 - (24 * i + 24)))" by simp
  moreover have "(of_nat (240 - (24 * i + 24)) :: u64) = INCREMENT - HEADER_SIZE - (8 + HEADER_SIZE) * of_nat (i + 1)"
    using free_size_expected [of i] assms(3) by simp
  ultimately have "free_size_test l i t = ret (TEST l True 1 t)" by (simp only: free_size_test_def rbind_ret simp_thms)
  then show ?thesis by (auto simp: TEST_facts)
qed

lemma space_step_ok:
  assumes s: "grown (heap t) b 256 i" and i: "i < 9"
  shows "\<exists>t'. space_step i t = ret (b + of_nat (offset i + 16), t') \<and> grown (heap t') b 256 (Suc i)
    \<and> gain (if i < 4 then 2 else 0) (if i < 4 then 2 else 0) t t'
    \<and> grew (heap t) (heap t') b i 256"
proof -
  define p where "p = b + of_nat (offset i + 16)"
  have ik: "i < 40" "i mod 10 \<noteq> 9 \<or> (256 :: nat) < 256" "b = b + of_nat (256 * (i div 10))" "i = i mod 10" using i by simp_all
  from grow_one [OF s ik(1,2) order_refl ik(3,4) p_def] obtain s1 s2 where
    s1: "alloc 8 (heap t) = ret (p, s1)" "p \<noteq> 0" "p - 16 = b + of_nat (offset i)"
      "s2 = s1\<lparr>mem := with_ints p (mem s1)\<rparr>" "grown s2 b 256 (Suc i)" "grew (heap t) s2 b i 256" by blast
  let ?t = "t\<lparr>heap := s2\<rparr>"
  have a: "t_alloc 8 t = ret (p, t\<lparr>heap := s1\<rparr>)" using s1(1) by (simp add: t_alloc_def)
  have st: "store_ints p (t\<lparr>heap := s1\<rparr>) = ?t" by (simp only: store_ints_heap s1(4))
  show ?thesis unfolding p_def [symmetric]
  proof (cases "i < 4")
    case False
    then have "space_step i t = ret (p, ?t)" using s1(2) i unfolding space_step_def a by (simp add: st)
    with s1 False show "\<exists>t'. space_step i t = ret (p, t') \<and> grown (heap t') b 256 (Suc i)
      \<and> gain (if i < 4 then 2 else 0) (if i < 4 then 2 else 0) t t' \<and> grew (heap t) (heap t') b i 256" by (auto simp: gain_refl)
  next
    case True
    have "block_size ?t p = 8 + HEADER_SIZE"
      using s1(6) i unfolding block_size_def HEADER_SIZE_def s1(3) by (simp add: grew_def offset_def)
    define u where "u = TEST 47 True 1 ?t"
    have u: "heap u = s2" "gain 1 1 t u" using TEST_facts(2) [OF TrueI, of 1 ?t 47] by (simp_all add: u_def TEST_facts)
    have "seg (heap u) b 256 (24 * i + 24)" using s1(6) i by (simp add: u grew_def)
    moreover have "room_behind b" using grow_room [OF s, of 0] by simp
    ultimately obtain t' where t': "free_size_test 50 i u = ret t'" "heap t' = s2" "gain 1 1 u t'"
      using free_size_seg [of u b 256 i 50] i u(1) by auto
    have "space_step i t = ret (p, t')"
      using s1(2) True t'(1) \<open>block_size ?t p = _\<close> unfolding space_step_def a by (simp add: st u_def)
    with s1 t'(2) gain_trans [OF u(2) t'(3)] True show "\<exists>t'. space_step i t = ret (p, t') \<and> grown (heap t') b 256 (Suc i)
      \<and> gain (if i < 4 then 2 else 0) (if i < 4 then 2 else 0) t t' \<and> grew (heap t) (heap t') b i 256" by (auto simp: numeral_2_eq_2)
  qed
qed

lemma gather_append:
  "gather f (xs @ ys) t = rbind (gather f xs t) (\<lambda>(ps, t). rbind (gather f ys t) (\<lambda>(qs, t). ret (ps @ qs, t)))"
proof (induction xs arbitrary: t)
  case Nil
  have "rbind m (\<lambda>(qs, t). ret (qs, t)) = m" for m :: "(u64 list \<times> tester) run"
    using rbind_ret_right [of m] by (simp add: case_prod_unfold)
  then show ?case by simp
qed (simp add: rbind_assoc case_prod_unfold)

lemma dealloc_all_append: "t_dealloc_all (ps @ qs) t = rbind (t_dealloc_all ps t) (t_dealloc_all qs)"
proof (induction ps arbitrary: t)
  case (Cons p ps)
  then have "t_dealloc_all (ps @ qs) = (\<lambda>t. rbind (t_dealloc_all ps t) (t_dealloc_all qs))" by (rule ext)
  then show ?case by (simp add: rbind_assoc)
qed simp

text \<open>The word behind the heap.\<close>

definition same_behind :: "u64 \<Rightarrow> tester \<Rightarrow> tester \<Rightarrow> bool" where
  "same_behind b t t' \<longleftrightarrow> size_at (mem (heap t')) (b + 256) = size_at (mem (heap t)) (b + 256)
     \<and> next_at (mem (heap t')) (b + 256) = next_at (mem (heap t)) (b + 256)"

lemma behind_outside:
  "same_outside (bytes_of b i 256) (mem (heap t)) (mem (heap t')) \<Longrightarrow> same_behind b t t'"
  using fields_outside [of b i 256 "mem (heap t)" "mem (heap t')" 256] by (simp add: same_behind_def)

lemma space_loop:
  assumes s: "grown (heap t) b 256 0"
  shows "k \<le> 9 \<Longrightarrow> \<exists>t'. gather space_step [0..<k] t = ret (map (\<lambda>i. b + of_nat (offset i + 16)) [0..<k], t')
    \<and> grown (heap t') b 256 k \<and> gain (2 * min k 4) (2 * min k 4) t t' \<and> same_behind b t t'
    \<and> brk_max (heap t') = brk_max (heap t) \<and> limit (heap t') = limit (heap t)"
proof (induction k)
  case 0
  then show ?case using s by (simp add: gain_refl same_behind_def)
next
  case (Suc k)
  then obtain t1 where t1: "gather space_step [0..<k] t = ret (map (\<lambda>i. b + of_nat (offset i + 16)) [0..<k], t1)"
    "grown (heap t1) b 256 k" "gain (2 * min k 4) (2 * min k 4) t t1" "same_behind b t t1"
    "brk_max (heap t1) = brk_max (heap t)" "limit (heap t1) = limit (heap t)" by auto
  have k: "k < 9" using Suc.prems by simp
  from space_step_ok [OF t1(2) k] obtain t2 where t2: "space_step k t1 = ret (b + of_nat (offset k + 16), t2)"
    "grown (heap t2) b 256 (Suc k)" "gain (if k < 4 then 2 else 0) (if k < 4 then 2 else 0) t1 t2"
    "grew (heap t1) (heap t2) b k 256" by blast
  have "same_outside (bytes_of b (24 * k) (24 * k + 40)) (mem (heap t1)) (mem (heap t2))" using t2(4) by (simp add: grew_def)
  then have "same_outside (bytes_of b 0 256) (mem (heap t1)) (mem (heap t2))"
    using bytes_of_mono [of 0 "24 * k" "24 * k + 40" 256 b] k by (auto simp: same_outside_def)
  then have "same_behind b t t2" using behind_outside t1(4) by (fastforce simp: same_behind_def)
  moreover have "gain (2 * min (Suc k) 4) (2 * min (Suc k) 4) t t2"
    using gain_trans [OF t1(3) t2(3)] by (cases "k < 4") (simp_all add: min_absorb1 min_absorb2)
  ultimately show ?case using t1(1,5,6) t2(1,2,4) by (simp add: gather_append grew_def)
qed

text \<open>The tenth block takes the whole rest, and the eleventh request is refused.\<close>

lemma space_last:
  assumes s: "grown (heap t) b 256 9" and z: "size_at (mem (heap t)) (b + 256) = 0" "next_at (mem (heap t)) (b + 256) = 0"
  shows "\<exists>t'. gather space_step [9, 10] t = ret ([b + 232, 0], t') \<and> gain 2 2 t t'
    \<and> blocks_ok (mem (heap t')) b 10 \<and> head (heap t') = b + 256 \<and> same_behind b t t' \<and> same_rest (heap t) (heap t')"
proof -
  have sg: "seg (heap t) b 256 216" using s by (simp add: grown_def)
  have rb: "room_behind b" using grow_room [OF s, of 0] by simp
  from last_exact [OF sg rb] obtain s1 where s1: "alloc 8 (heap t) = ret (b + 232, s1)" "same_rest (heap t) s1"
    "head s1 = b + 256" "\<not> deallocCalled s1" "size_at (mem s1) (b + 216) = 40"
    "same_outside (bytes_of b 216 256) (mem (heap t)) (mem s1)" by blast
  define s2 where "s2 = s1\<lparr>mem := with_ints (b + of_nat 232) (mem s1)\<rparr>"
  define u where "u = t\<lparr>heap := s2\<rparr>"
  have w: "same_outside (bytes_of b 232 240) (mem s1) (mem s2)" unfolding s2_def using with_ints_outside [of 232 232 240] by simp
  then have w': "same_outside (bytes_of b 216 256) (mem (heap t)) (mem s2)"
    using s1(6) bytes_of_mono [of 216 232 240 256 b] by (auto simp: same_outside_def)
  have beh: "same_behind b t u" using w' by (intro behind_outside [of _ 216]) (simp add: u_def)
  have nz: "b + 232 \<noteq> 0" "b + 256 \<noteq> 0" using offset_nonzero [OF rb, of 232] offset_nonzero [OF rb, of 256] by simp_all
  have sz: "size_at (mem s2) (b + 216) = 40" using fields_outside(1) [OF w, of 216] s1(5) by simp
  have "blocks_ok (mem s2) b 9" using blocks_outside [of "mem (heap t)" b 9 256 "mem s2"] w' s by (simp add: grown_def offset_def)
  moreover have "holds_ints (mem s2) (b + 232)" by (simp add: s2_def holds_with_ints)
  ultimately have ok: "blocks_ok (mem s2) b 10"
    using sz less_Suc_eq [of _ 9] by (simp add: blocks_ok_def offset_def extent_def)
  have bl: "blks (mem (heap u)) (head (heap u)) [(b + 256, 0)]"
    using s1(3) nz(2) z beh by (simp add: blks_Cons u_def s2_def same_behind_def)
  have lim: "sext (limit s1) = 256" using sg s1(2) limit_unat(2) [of "limit s1" 256] by (simp add: seg_def same_rest_def)
  define v where "v = TEST 55 True 1 u"
  define v' where "v' = TEST 57 True 1 v"
  have hv: "heap v = s2" "heap v' = s2" by (simp_all add: v_def v'_def u_def TEST_facts)
  have "t_free_size v = ret 0" using free_size_blks [of v "[(b + 256, 0)]"] bl lim by (simp add: hv u_def s2_def)
  then have f: "free_size_test 57 9 v = ret v'" by (simp add: free_size_test_def v'_def INCREMENT_def HEADER_SIZE_def)
  have st: "store_ints (b + 232) (t\<lparr>heap := s1\<rparr>) = u" by (simp add: store_ints_heap u_def s2_def)
  have "block_size u (b + 232) = 40" using sz by (simp add: block_size_def HEADER_SIZE_def u_def add.commute [of b])
  then have 9: "space_step 9 t = ret (b + 232, v')"
    using s1(1) nz f unfolding space_step_def by (simp add: t_alloc_def st v_def)
  have "alloc 8 s2 = ret (0, s2)"
    using s1 sg z beh rb by (intro alloc_behind_heap) (simp_all add: s2_def u_def seg_def same_rest_def same_behind_def)
  then have "space_step 10 v' = ret (0, v')" by (simp add: space_step_def t_alloc_def hv)
  with 9 have "gather space_step [9, 10] t = ret ([b + 232, 0], v')" by simp
  moreover have "gain 2 2 t v'" by (simp add: v'_def v_def u_def gain_def TEST_def print_test_result_def)
  moreover have "same_behind b t v'" using beh by (simp add: same_behind_def hv u_def)
  moreover have "same_rest (heap t) (heap v')" using s1(2) by (simp add: same_rest_def hv s2_def)
  ultimately show ?thesis using ok s1(3) by (intro exI [of _ v']) (simp add: hv s2_def)
qed

section \<open>Releasing the ten blocks\<close>

text \<open>After \<open>k\<close> of them the free list holds one block, which grows, and the end of the heap.\<close>

definition row :: "u64 \<Rightarrow> nat \<Rightarrow> blk list" where
  "row b k = (if k = 0 then [] else [(b, of_nat (24 * k))]) @ [(b + 256, 0)]"

lemma coalesce_none: "merge_any xs xs = None \<Longrightarrow> coalesce xs = xs"
  by (subst coalesce.simps) simp

lemma coalesce_grow:
  fixes w :: u64
  assumes "w \<noteq> 0" "w \<noteq> 256" "w + 24 \<noteq> 0" "w + 24 \<noteq> 256"
  shows "coalesce [(b + w, 24), (b, w), (b + 256, 0)] = [(b, w + 24), (b + 256, 0)]"
proof -
  have e: "b + 256 \<noteq> b" "b \<noteq> b + 256" "b + w \<noteq> b" "b \<noteq> b + w" "b + w \<noteq> b + 256" "b + 256 \<noteq> b + w"
    "b + w + 24 \<noteq> b" "b + w + 24 \<noteq> b + 256" "b + (w + 24) \<noteq> b + 256"
    using assms by (simp_all add: add.assoc)
  have "merge_any [(b + w, 24), (b, w), (b + 256, 0)] [(b + w, 24), (b, w), (b + 256, 0)] = Some [(b, w + 24), (b + 256, 0)]"
    using assms by (simp add: adjacent_def absorb_def e)
  moreover have "coalesce [(b, w + 24), (b + 256, 0)] = [(b, w + 24), (b + 256, 0)]"
    using assms by (intro coalesce_none) (simp add: adjacent_def e)
  ultimately show ?thesis by (subst coalesce.simps) simp
qed

lemma coalesce_row:
  assumes k: "k < 9"
  shows "coalesce ((b + of_nat (24 * k), 24) # row b k) = row b (Suc k)"
proof (cases "k = 0")
  case True
  then show ?thesis by (simp add: row_def coalesce_none adjacent_def)
next
  case False
  define w where "w = (of_nat (24 * k) :: u64)"
  have "w \<noteq> 0" "w \<noteq> 256" "w + 24 \<noteq> 0" "w + 24 \<noteq> 256"
  proof -
    have "of_nat (24 * k) \<noteq> (of_nat 0 :: u64)" "of_nat (24 * k) \<noteq> (of_nat 256 :: u64)"
      "of_nat (24 * k + 24) \<noteq> (of_nat 0 :: u64)" "of_nat (24 * k + 24) \<noteq> (of_nat 256 :: u64)"
      using k False by (subst word_offset_eq; simp; presburger)+
    then show "w \<noteq> 0" "w \<noteq> 256" "w + 24 \<noteq> 0" "w + 24 \<noteq> 256" by (simp_all add: w_def)
  qed
  then have "coalesce [(b + w, 24), (b, w), (b + 256, 0)] = [(b, w + 24), (b + 256, 0)]" by (rule coalesce_grow)
  then show ?thesis using False by (simp add: row_def w_def add.commute)
qed

lemma offset_block: "i < 10 \<Longrightarrow> offset i = 24 * i" "i < 9 \<Longrightarrow> extent i = 24"
  by (simp_all add: offset_def extent_def)

lemma row_apart: "k < 10 \<Longrightarrow> \<forall>x \<in> fst ` set (row b k). apart (b + of_nat (24 * k)) x"
  using apart_offsets [of "24 * k" 256 b] apart_offsets [of "24 * k" 0 b] by (auto simp: row_def)

lemma dealloc_row:
  assumes b: "room_behind b" and h: "head (heap t) = b + 256" "size_at (mem (heap t)) (b + 256) = 0" "next_at (mem (heap t)) (b + 256) = 0"
    and sz: "blocks_ok (mem (heap t)) b 10"
  shows "k \<le> 9 \<Longrightarrow> \<exists>s'. t_dealloc_all (map (\<lambda>i. b + of_nat (offset i + 16)) [0..<k]) t = ret (t\<lparr>heap := s'\<rparr>)
    \<and> blks (mem s') (head s') (row b k) \<and> same_rest (heap t) s'
    \<and> (\<forall>i. k \<le> i \<and> i < 10 \<longrightarrow> size_at (mem s') (b + of_nat (offset i)) = of_nat (extent i))"
proof (induction k)
  case 0
  have "b + 256 \<noteq> 0" using offset_nonzero [OF b, of 256] by simp
  then show ?case using h sz by (intro exI [of _ "heap t"]) (simp add: row_def blks_Cons blocks_ok_def)
next
  case (Suc k)
  then obtain s' where s': "t_dealloc_all (map (\<lambda>i. b + of_nat (offset i + 16)) [0..<k]) t = ret (t\<lparr>heap := s'\<rparr>)"
    "blks (mem s') (head s') (row b k)" "same_rest (heap t) s'"
    "\<forall>i. k \<le> i \<and> i < 10 \<longrightarrow> size_at (mem s') (b + of_nat (offset i)) = of_nat (extent i)" by auto
  have k: "k < 9" using Suc.prems by simp
  let ?a = "b + of_nat (24 * k)"
  have nz: "?a \<noteq> 0" "?a + 16 \<noteq> 0"
    using offset_nonzero [OF b, of "24 * k"] offset_nonzero [OF b, of "24 * k + 16"] k by (simp_all add: add.assoc)
  have ap: "\<forall>x \<in> fst ` set (row b k). apart ?a x" using k by (intro row_apart) simp
  have n: "size_at (mem s') ?a = 24" using s'(4) k by (auto simp: offset_block dest!: spec [of _ k])
  from dealloc_exact [OF s'(2) nz ap n] obtain s2 where s2: "dealloc (?a + 16) s' = ret s2"
    "blks (mem s2) (head s2) (row b (Suc k))" "same_outside (header_area ((?a, 24) # row b k)) (mem s') (mem s2)" "same_rest s' s2"
    unfolding coalesce_row [OF k] by metis
  have keep: "size_at (mem s2) (b + of_nat (offset i)) = of_nat (extent i)" if i: "Suc k \<le> i" "i < 10" for i
  proof -
    have "\<forall>x \<in> fst ` set ((?a, 24) # row b k). apart (b + of_nat (offset i)) x"
      using apart_offsets [of "24 * i" "24 * k" b] apart_offsets [of "24 * i" 256 b] apart_offsets [of "24 * i" 0 b] i
      by (auto simp: row_def offset_block)
    from apart_outside [OF s2(3) header_area_apart [OF this]] show ?thesis using s'(4) i by simp
  qed
  have "t_dealloc_all (map (\<lambda>i. b + of_nat (offset i + 16)) [0..<Suc k]) t = ret (t\<lparr>heap := s2\<rparr>)"
    using s'(1) s2(1) k by (simp add: dealloc_all_append t_dealloc_def offset_block add.assoc)
  then show ?case using s2(2) same_rest_trans [OF s'(3) s2(4)] keep by blast
qed

text \<open>The tenth: it is merged with the block in front of it and with the end of the heap, whose
  header stays as it is.\<close>

lemma coal_loop_step: "coal_outer m hp hp 0 = ret (True, m', hp') \<Longrightarrow> coal_loop m hp = coal_loop m' hp'"
  "coal_outer m hp hp 0 = ret (False, m', hp') \<Longrightarrow> coal_loop m hp = ret (m', hp')"
  by (subst coal_loop.simps; simp)+

lemma dealloc_last:
  assumes b: "room_behind b" and s: "blks (mem s) (head s) (row b 9)" and n: "size_at (mem s) (b + 216) = 40"
  shows "\<exists>s'. dealloc (b + 232) s = ret s' \<and> blks (mem s') (head s') [(b, 256)] \<and> same_rest s s'
    \<and> size_at (mem s') (b + 256) = 0 \<and> next_at (mem s') (b + 256) = 0"
proof -
  have nz: "b \<noteq> 0" "b + 216 \<noteq> 0" "b + 256 \<noteq> 0"
    using offset_nonzero [OF b, of 0] offset_nonzero [OF b, of 216] offset_nonzero [OF b, of 256] by simp_all
  have h: "head s = b" "size_at (mem s) b = 216" "next_at (mem s) b = b + 256" "size_at (mem s) (b + 256) = 0"
    "next_at (mem s) (b + 256) = 0" using s by (simp_all add: row_def blks_Cons)
  have p: "b + 232 - 16 = b + 216" by simp
  define m where "m = set_next (b + 216) b (mem s)"
  define m1 where "m1 = set_size b 256 m"
  define m2 where "m2 = set_next b 0 (set_size b 256 m1)"
  note f = h n nz apart_iff adjacent_def
  have "coal_outer m (b + 216) (b + 216) 0 = ret (True, m1, b)"
    by (simp add: run_simps m_def m1_def f)
  then have "coal_loop m (b + 216) = coal_loop m1 b" by (rule coal_loop_step)
  also have "coal_outer m1 b b 0 = ret (True, m2, b)"
    by (simp add: run_simps m_def m1_def m2_def f)
  then have "coal_loop m1 b = coal_loop m2 b" by (rule coal_loop_step)
  also have "coal_outer m2 b b 0 = ret (False, m2, b)"
    by (simp add: run_simps m_def m1_def m2_def f)
  then have "coal_loop m2 b = ret (m2, b)" by (rule coal_loop_step)
  finally have "dealloc (b + 232) s = ret (s\<lparr>deallocCalled := True, mem := m2, head := b\<rparr>)"
    using nz h offset_nonzero [OF b, of 232] unfolding dealloc_def Let_def p by (simp add: coalesce_unsorted_def m_def)
  moreover have "blks m2 b [(b, 256)]" "size_at m2 (b + 256) = 0" "next_at m2 (b + 256) = 0"
    by (simp_all add: blks_Cons m_def m1_def m2_def f)
  ultimately show ?thesis by (intro exI [of _ "s\<lparr>deallocCalled := True, mem := m2, head := b\<rparr>"]) (simp add: same_rest_def)
qed

section \<open>The test of the allocated space\<close>

text \<open>\<open>ready s b\<close>: \<open>allocopt\<close> brings the break back to \<open>b\<close>.\<close>

definition ready :: "alloc_state \<Rightarrow> u64 \<Rightarrow> bool" where
  "ready s b \<longleftrightarrow> brk (resetalloc s) = b \<and> head (resetalloc s) = 0 \<and> \<not> deallocCalled (resetalloc s)
     \<and> b \<noteq> 0 \<and> unat b + 4096 \<le> unat (brk_max s)"

lemma mem_allocopt [simp]: "mem (allocopt g n s) = mem s" "brk_max (allocopt g n s) = brk_max s"
  by (simp_all add: allocopt_def resetalloc_def sbrk_def Let_def)

lemma grown_start:
  assumes "ready s b" "n < 2 ^ 31"
  shows "grown (allocopt g (of_nat n) s) b n 0"
  using assms cint_of_nat(1) [of n] mem_allocopt [of g "of_nat n" s]
  by (simp add: grown_def ready_def blocks_ok_def offset_def allocopt_def Let_def resetalloc_def sbrk_def split: if_splits)

lemma ready_again:
  assumes "heap_origin s = b" "b \<noteq> 0" "brk s = b + of_nat d" "0 < d" "d \<le> 2048" "unat b + 4096 \<le> unat (brk_max s)"
  shows "ready s b"
proof -
  have "sint (of_nat d :: u64) = int d" using assms(5) by (subst sint_small) (simp_all add: uint_nat unat_of_nat)
  then have "0 < sint (brk s - heap_origin s)" using assms by simp
  moreover have "b \<le> brk_max s" using assms(6) by (simp add: word_le_nat_alt)
  ultimately show ?thesis using assms by (simp add: ready_def resetalloc_def sbrk_def Let_def)
qed

lemma content_tests_ok: "holds_ints (mem (heap t)) p \<Longrightarrow> content_tests l0 l1 p t = TEST l1 True 1 (TEST l0 True 1 t)"
  by (simp add: content_tests_def holds_ints_def int_at_def TEST_facts)

end
