(* ===== verification/Alloc_Tests_Grow.thy ===== *)
theory Alloc_Tests_Grow
  imports Alloc_Tests_Heap
begin

text \<open>
  \<open>test_correct_space_allocation\<close>, \<open>test_grow\<close> and \<open>test_sbrk\<close> of \<open>lecture/test2/main2.c\<close> succeed from
  every state that \<open>allocopt\<close> leaves: how many successes and points they give and where the break ends.
\<close>

section \<open>The test of the allocated space\<close>

lemma gain_TEST: "gain k p t t' \<Longrightarrow> gain (Suc k) (p + q) t (TEST l True q t')"
  by (simp add: gain_def TEST_def print_test_result_def)

lemma content_tests_facts [simp]: "heap (content_tests l0 l1 p t) = heap t"
  by (simp add: content_tests_def Let_def TEST_facts)

lemma gain_fold:
  "length is = k \<Longrightarrow> k * p = q \<Longrightarrow> (\<And>i. i \<in> set is \<Longrightarrow> f i) \<Longrightarrow> gain k q t (fold (\<lambda>i. TEST l (f i) p) is t)"
  using fold_TEST [of "is" f p t l] by simp

text \<open>Folding tests of the contents.\<close>

lemma fold_content:
  assumes "\<And>i. i \<in> set is \<Longrightarrow> holds_ints (mem (heap t)) (f i)"
  shows "gain (2 * length is) (2 * length is) t (fold (\<lambda>i. content_tests l0 l1 (f i)) is t)
    \<and> heap (fold (\<lambda>i. content_tests l0 l1 (f i)) is t) = heap t"
  using assms
proof (induction "is" arbitrary: t)
  case (Cons i "is")
  have "gain 2 2 t (content_tests l0 l1 (f i) t)"
    using Cons.prems by (simp add: content_tests_ok gain_def TEST_def print_test_result_def)
  from gain_trans [OF this] Cons.IH [of "content_tests l0 l1 (f i) t"] Cons.prems show ?case
    by (simp add: numeral_2_eq_2)
qed (simp add: gain_refl)

lemma fold_cong_on: "(\<And>x. x \<in> set xs \<Longrightarrow> f x = g x) \<Longrightarrow> fold f xs = fold g xs"
  by (rule ext, rule fold_cong) auto

text \<open>The tests between the allocations and the calls of \<open>dealloc\<close>: eighteen points less two tests.\<close>

lemma space_checks:
  assumes rb: "room_behind b" and p10: "p ! 10 = 0" and pi: "\<And>i. i < 10 \<Longrightarrow> p ! i = b + of_nat (offset i + 16)"
    and ok: "blocks_ok (mem (heap t)) b 10" and h: "head (heap t) = b + 256"
    and z: "size_at (mem (heap t)) (b + 256) = 0" "next_at (mem (heap t)) (b + 256) = 0" and lim: "sext (limit (heap t)) = 256"
    and u1: "u1 = fold (\<lambda>i. if i < 10 then TEST 67 (p ! i \<noteq> 0) 1 else TEST 69 (p ! i = 0) 5) [5..<11] t"
    and u3: "u3 = fold (\<lambda>i. if p ! i \<noteq> 0 then content_tests 77 78 (p ! i) else (\<lambda>t. t)) [5..<11] (TEST 73 True 5 u1)"
  shows "t_free_size u1 = ret 0" "gain 17 25 t u3" "heap u3 = heap t"
proof -
  have pnz: "p ! i \<noteq> 0" if "i < 10" for i
    using offset_nonzero [OF rb, of "offset i + 16"] that pi [OF that] by (simp add: offset_block)
  have l11: "[5..<11] = [5..<10] @ [10 :: nat]" by (simp add: upt_rec)
  have "fold (\<lambda>i. if i < 10 then TEST 67 (p ! i \<noteq> 0) 1 else TEST 69 (p ! i = 0) 5) [5..<10] = fold (\<lambda>i. TEST 67 (p ! i \<noteq> 0) 1) [5..<10]"
    by (rule fold_cong_on) auto
  then have "u1 = TEST 69 True 5 (fold (\<lambda>i. TEST 67 (p ! i \<noteq> 0) 1) [5..<10] t)" unfolding u1 l11 by (simp add: p10)
  moreover have "gain 5 5 t (fold (\<lambda>i. TEST 67 (p ! i \<noteq> 0) 1) [5..<10] t)" using pnz by (intro gain_fold) auto
  ultimately have g1: "gain 6 10 t u1" "heap u1 = heap t"
    using gain_TEST [of 5 5 t _ 5 69] by (simp_all add: TEST_facts fold_TEST_heap)
  have "b + 256 \<noteq> 0" using offset_nonzero [OF rb, of 256] by simp
  then have "blks (mem (heap u1)) (head (heap u1)) [(b + 256, 0)]" using z h g1(2) by (simp add: blks_Cons)
  from free_size_blks [OF this] show "t_free_size u1 = ret 0" using lim g1(2) by simp
  define u2 where "u2 = TEST 73 True 5 u1"
  have g2: "gain 7 15 t u2" "heap u2 = heap t" using gain_TEST [OF g1(1), of 5 73] g1(2) by (simp_all add: u2_def TEST_facts)
  have "fold (\<lambda>i. if p ! i \<noteq> 0 then content_tests 77 78 (p ! i) else (\<lambda>t. t)) [5..<10] = fold (\<lambda>i. content_tests 77 78 (p ! i)) [5..<10]"
    by (rule fold_cong_on, subst if_P [OF pnz]) auto
  then have "u3 = fold (\<lambda>i. content_tests 77 78 (p ! i)) [5..<10] u2"
    unfolding u3 u2_def l11 fold_append comp_apply by (simp only: fold_simps p10 simp_thms if_False)
  moreover have "holds_ints (mem (heap u2)) (p ! i)" if "i \<in> set [5..<10]" for i
    using ok pi [of i] g2(2) that unfolding blocks_ok_def by auto
  ultimately have c3: "gain (2 * length [5..<10 :: nat]) (2 * length [5..<10 :: nat]) u2 u3 \<and> heap u3 = heap u2"
    using fold_content [of "[5..<10]" u2 "\<lambda>i. p ! i" 77 78] by (simp only:)
  then show "gain 17 25 t u3" "heap u3 = heap t" using gain_trans [OF g2(1) conjunct1 [OF c3]] g2(2) by simp_all
qed

lemma dealloc_ten:
  assumes rb: "room_behind b" and h: "head (heap t) = b + 256" "size_at (mem (heap t)) (b + 256) = 0" "next_at (mem (heap t)) (b + 256) = 0"
    and ok: "blocks_ok (mem (heap t)) b 10"
  shows "\<exists>s'. t_dealloc_all (map (\<lambda>i. b + of_nat (offset i + 16)) [0..<10]) t = ret (t\<lparr>heap := s'\<rparr>)
    \<and> blks (mem s') (head s') [(b, 256)] \<and> same_rest (heap t) s' \<and> size_at (mem s') (b + 256) = 0 \<and> next_at (mem s') (b + 256) = 0"
proof -
  from dealloc_row [OF rb h ok order_refl] obtain s4 where s4:
    "t_dealloc_all (map (\<lambda>i. b + of_nat (offset i + 16)) [0..<9]) t = ret (t\<lparr>heap := s4\<rparr>)"
    "blks (mem s4) (head s4) (row b 9)" "same_rest (heap t) s4"
    "\<forall>i. 9 \<le> i \<and> i < 10 \<longrightarrow> size_at (mem s4) (b + of_nat (offset i)) = of_nat (extent i)" by blast
  have "size_at (mem s4) (b + 216) = 40" using s4(4) by (auto simp: offset_def extent_def dest!: spec [of _ 9])
  from dealloc_last [OF rb s4(2) this] obtain s5 where s5: "dealloc (b + 232) s4 = ret s5" "blks (mem s5) (head s5) [(b, 256)]"
    "same_rest s4 s5" "size_at (mem s5) (b + 256) = 0" "next_at (mem s5) (b + 256) = 0" by blast
  have "map (\<lambda>i. b + of_nat (offset i + 16)) [0..<10] = map (\<lambda>i. b + of_nat (offset i + 16)) [0..<9] @ [b + 232]"
    by (simp add: upt_rec [of 9 10] offset_def upt_rec)
  then have "t_dealloc_all (map (\<lambda>i. b + of_nat (offset i + 16)) [0..<10]) t = ret (t\<lparr>heap := s5\<rparr>)"
    using s4(1) s5(1) by (simp only: dealloc_all_append rbind_ret) (simp add: t_dealloc_def)
  then show ?thesis using s5 same_rest_trans [OF s4(3) s5(3)] by blast
qed

lemma space_allocation_passes:
  assumes s: "grown (heap t) b 256 0" and z: "size_at (mem (heap t)) (b + 256) = 0" "next_at (mem (heap t)) (b + 256) = 0"
  shows "\<exists>t'. test_correct_space_allocation t = ret t' \<and> gain 28 40 t t' \<and> ready (heap t') b
    \<and> size_at (mem (heap t')) (b + 256) = 0 \<and> next_at (mem (heap t')) (b + 256) = 0 \<and> brk_max (heap t') = brk_max (heap t)"
proof -
  let ?n = "''test_correct_space_allocation''"
  have rb: "room_behind b" using grow_room [OF s, of 0] by simp
  have "grown (heap (title ?n t)) b 256 0" using s by simp
  from space_loop [OF this order_refl] obtain t1 where t1: "gather space_step [0..<9] (title ?n t) = ret (map (\<lambda>i. b + of_nat (offset i + 16)) [0..<9], t1)"
    "grown (heap t1) b 256 9" "gain 8 8 t t1" "same_behind b t t1" "brk_max (heap t1) = brk_max (heap t)"
    "limit (heap t1) = limit (heap t)" by (auto simp: same_behind_def)
  have z1: "size_at (mem (heap t1)) (b + 256) = 0" "next_at (mem (heap t1)) (b + 256) = 0" using z t1(4) by (simp_all add: same_behind_def)
  from space_last [OF t1(2) z1] obtain t2 where t2: "gather space_step [9, 10] t1 = ret ([b + 232, 0], t2)" "gain 2 2 t1 t2"
    "blocks_ok (mem (heap t2)) b 10" "head (heap t2) = b + 256" "same_behind b t1 t2" "same_rest (heap t1) (heap t2)" by blast
  define p where "p = map (\<lambda>i. b + of_nat (offset i + 16)) [0..<10] @ [0]"
  have "[0..<11] = [0..<9] @ [9, 10]" by (simp add: upt_rec)
  moreover have "map (\<lambda>i. b + of_nat (offset i + 16)) [0..<9] @ [b + 232, 0] = p"
    by (simp add: p_def upt_rec [of 9 10] offset_def upt_rec)
  ultimately have all: "gather space_step [0..<11] (title ?n t) = ret (p, t2)"
    using t1(1) t2(1) by (simp only: gather_append rbind_ret prod.case)
  have p: "p ! 10 = 0" "p ! i = b + of_nat (offset i + 16)" if "i < 10" for i using that by (simp_all add: p_def nth_append)
  have z2: "size_at (mem (heap t2)) (b + 256) = 0" "next_at (mem (heap t2)) (b + 256) = 0"
    using z1 t2(5) by (simp_all add: same_behind_def)
  have rest: "limit (heap t2) = limit (heap t)" "brk_max (heap t2) = brk_max (heap t)" "heap_origin (heap t2) = b" "brk (heap t2) = b + 256"
    "unat b + 4096 \<le> unat (brk_max (heap t))" "b \<noteq> 0"
    using t2(6) t1(2,5,6) s by (auto simp: same_rest_def grown_def seg_def)
  have lim: "sext (limit (heap t2)) = 256" using limit_unat(2) [of "limit (heap t)" 256] s rest(1) by (simp add: grown_def)
  define u1 where "u1 = fold (\<lambda>i. if i < 10 then TEST 67 (p ! i \<noteq> 0) 1 else TEST 69 (p ! i = 0) 5) [5..<11] t2"
  define u3 where "u3 = fold (\<lambda>i. if p ! i \<noteq> 0 then content_tests 77 78 (p ! i) else (\<lambda>t. t)) [5..<11] (TEST 73 True 5 u1)"
  note u = space_checks [OF rb p(1) p(2) t2(3,4) z2 lim u1_def u3_def, of 0]
  have "\<forall>q \<in> set (map (\<lambda>i. b + of_nat (offset i + 16)) [0..<10]). q \<noteq> 0"
  proof
    fix q assume "q \<in> set (map (\<lambda>i. b + of_nat (offset i + 16)) [0..<10])"
    then obtain i where i: "i < 10" "q = b + of_nat (offset i + 16)" by auto
    then show "q \<noteq> 0" unfolding i(2) using offset_nonzero [OF rb, of "offset i + 16"] by (simp add: offset_block)
  qed
  from filter_True [OF this] have "filter (\<lambda>q. q \<noteq> 0) p = map (\<lambda>i. b + of_nat (offset i + 16)) [0..<10]"
    by (simp only: p_def filter_append) simp
  with dealloc_ten [OF rb, of u3] u(3) t2(3,4) z2 obtain s5 where s5: "t_dealloc_all (filter (\<lambda>q. q \<noteq> 0) p) u3 = ret (u3\<lparr>heap := s5\<rparr>)"
    "blks (mem s5) (head s5) [(b, 256)]" "same_rest (heap t2) s5" "size_at (mem s5) (b + 256) = 0" "next_at (mem s5) (b + 256) = 0"
    by auto
  have "sext (limit s5) = 256" using lim s5(3) by (simp add: same_rest_def)
  then have "t_free_size (u3\<lparr>heap := s5\<rparr>) = ret 240" using free_size_blks [of "u3\<lparr>heap := s5\<rparr>" "[(b, 256)]"] s5(2) by simp
  with s5(1) u(1) have "test_correct_space_allocation t = ret (TEST 89 True 5 (u3\<lparr>heap := s5\<rparr>))"
    by (simp only: test_correct_space_allocation_def all Let_def rbind_ret prod.case simp_thms
        u1_def [symmetric] u3_def [symmetric])
  moreover have "ready s5 b" using rest s5(3) by (intro ready_again [of _ _ 256]) (simp_all add: same_rest_def)
  moreover have "gain 18 30 t2 (TEST 89 True 5 (u3\<lparr>heap := s5\<rparr>))" using gain_TEST [of 17 25 t2 "u3\<lparr>heap := s5\<rparr>" 5 89] u(2) by simp
  from gain_trans [OF t1(3) gain_trans [OF t2(2) this]] have "gain 28 40 t (TEST 89 True 5 (u3\<lparr>heap := s5\<rparr>))" by simp
  ultimately show ?thesis using s5(3-5) rest(2) by (simp add: TEST_facts same_rest_def)
qed

section \<open>The growing heap\<close>

lemma free_size_test_last:
  assumes "head (heap t) = 0" "sint (limit (heap t)) = 1024"
  shows "free_size_test l 9 t = ret (TEST l True 1 t)"
proof -
  have "t_free_size t = ret 0" using free_size_blks [of t "[]"] assms limit_unat(2) [of "limit (heap t)" 1024] by simp
  then show ?thesis by (simp add: free_size_test_def INCREMENT_def HEADER_SIZE_def)
qed

lemma grow_step_ok:
  assumes s: "grown (heap t) b 1024 i" and i: "i < 40"
  shows "\<exists>t'. grow_step i t = ret (b + of_nat (offset i + 16), t') \<and> grown (heap t') b 1024 (Suc i)
    \<and> gain (if 30 \<le> i then 2 else 0) (if 30 \<le> i then 2 else 0) t t'
    \<and> brk_max (heap t') = brk_max (heap t) \<and> heap_origin (heap t') = b + of_nat (256 * (i div 10))"
proof -
  define p where "p = b + of_nat (offset i + 16)"
  define c where "c = b + of_nat (256 * (i div 10))"
  define k where "k = i mod 10"
  from grow_one [OF s i _ _ c_def k_def p_def] obtain s1 s2 where
    s1: "alloc 8 (heap t) = ret (p, s1)" "p \<noteq> 0" "p - 16 = b + of_nat (offset i)"
      "s2 = s1\<lparr>mem := with_ints p (mem s1)\<rparr>" "grown s2 b 1024 (Suc i)" "grew (heap t) s2 c k 1024" by auto
  have g: "brk_max s2 = brk_max (heap t)" "heap_origin s2 = c" using s1(6) by (simp_all add: grew_def)
  let ?t = "t\<lparr>heap := s2\<rparr>"
  have a: "t_alloc 8 t = ret (p, t\<lparr>heap := s1\<rparr>)" using s1(1) by (simp add: t_alloc_def)
  have st: "store_ints p (t\<lparr>heap := s1\<rparr>) = ?t" by (simp only: store_ints_heap s1(4))
  show ?thesis unfolding p_def [symmetric] c_def [symmetric]
  proof (cases "30 \<le> i")
    case False
    then have "grow_step i t = ret (p, ?t)" using s1(2) unfolding grow_step_def a by (simp add: st)
    with s1 g False show "\<exists>t'. grow_step i t = ret (p, t') \<and> grown (heap t') b 1024 (Suc i)
      \<and> gain (if 30 \<le> i then 2 else 0) (if 30 \<le> i then 2 else 0) t t' \<and> brk_max (heap t') = brk_max (heap t)
      \<and> heap_origin (heap t') = c" by (auto simp: gain_refl)
  next
    case True
    have o: "b + of_nat (offset i) = c + of_nat (24 * k)" by (simp add: offset_def c_def k_def add.assoc)
    have bs: "block_size ?t p = of_nat (if k = 9 then 40 else 24)"
      using s1(6) unfolding block_size_def HEADER_SIZE_def s1(3) o by (simp add: grew_def)
    define u where "u = TEST (if i < 39 then 104 else 107) True 1 ?t"
    have u: "heap u = s2" "gain 1 1 t u" using TEST_facts(2) [OF TrueI, of 1 ?t] by (simp_all add: u_def TEST_facts)
    have "\<exists>t'. free_size_test 110 k u = ret t' \<and> heap t' = s2 \<and> gain 1 1 u t'"
    proof (cases "k = 9")
      case True
      then have "head s2 = 0" "sint (limit s2) = 1024" using s1(5,6) by (simp_all add: grew_def grown_def)
      with free_size_test_last [of u 110] True u(1) show ?thesis by (simp add: TEST_facts)
    next
      case False
      have "256 * (i div 10) \<le> 2048" using i by simp
      from grow_room [OF s this] have "room_behind c" by (simp add: c_def)
      moreover have "seg (heap u) c 1024 (24 * k + 24)" using s1(6) False by (simp add: u grew_def)
      moreover have "k < 9" using False by (simp add: k_def)
      ultimately show ?thesis using free_size_seg [of u c 1024 k 110] u(1) by auto
    qed
    then obtain t' where t': "free_size_test 110 k u = ret t'" "heap t' = s2" "gain 1 1 u t'" by blast
    have "i < 39 \<Longrightarrow> k \<noteq> 9" "\<not> i < 39 \<Longrightarrow> i = 39 \<and> k = 9" using True i unfolding k_def by presburger+
    then have "(if i < 39 then TEST 104 (block_size ?t p = 8 + HEADER_SIZE) 1 ?t
      else if i = 39 then TEST 107 (block_size ?t p = 40) 1 ?t else ?t) = u"
      unfolding bs u_def HEADER_SIZE_def by auto
    then have "grow_step i t = ret (p, t')"
      using s1(2) True i t'(1) unfolding grow_step_def a k_def by (simp add: st)
    with s1 g t'(2) gain_trans [OF u(2) t'(3)] True show "\<exists>t'. grow_step i t = ret (p, t') \<and> grown (heap t') b 1024 (Suc i)
      \<and> gain (if 30 \<le> i then 2 else 0) (if 30 \<le> i then 2 else 0) t t' \<and> brk_max (heap t') = brk_max (heap t)
      \<and> heap_origin (heap t') = c" by (auto simp: numeral_2_eq_2)
  qed
qed

lemma grow_loop:
  assumes s: "grown (heap t) b 1024 0"
  shows "k \<le> 40 \<Longrightarrow> \<exists>t'. gather grow_step [0..<k] t = ret (map (\<lambda>i. b + of_nat (offset i + 16)) [0..<k], t')
    \<and> grown (heap t') b 1024 k \<and> gain (2 * (k - 30)) (2 * (k - 30)) t t' \<and> brk_max (heap t') = brk_max (heap t)
    \<and> (0 < k \<longrightarrow> heap_origin (heap t') = b + of_nat (256 * ((k - 1) div 10)))"
proof (induction k)
  case 0
  then show ?case using s by (simp add: gain_refl)
next
  case (Suc k)
  then obtain t1 where t1: "gather grow_step [0..<k] t = ret (map (\<lambda>i. b + of_nat (offset i + 16)) [0..<k], t1)"
    "grown (heap t1) b 1024 k" "gain (2 * (k - 30)) (2 * (k - 30)) t t1" "brk_max (heap t1) = brk_max (heap t)" by auto
  have k: "k < 40" using Suc.prems by simp
  from grow_step_ok [OF t1(2) k] obtain t2 where t2: "grow_step k t1 = ret (b + of_nat (offset k + 16), t2)"
    "grown (heap t2) b 1024 (Suc k)" "gain (if 30 \<le> k then 2 else 0) (if 30 \<le> k then 2 else 0) t1 t2"
    "brk_max (heap t2) = brk_max (heap t1)" "heap_origin (heap t2) = b + of_nat (256 * (k div 10))" by blast
  have "gain (2 * (Suc k - 30)) (2 * (Suc k - 30)) t t2"
  proof -
    have "2 * (Suc k - 30) = 2 * (k - 30) + (if 30 \<le> k then 2 else 0)" by simp arith
    then show ?thesis using gain_trans [OF t1(3) t2(3)] by (simp only:)
  qed
  then show ?case using t1(1,4) t2(1,2,4,5) by (simp add: gather_append)
qed

text \<open>Releasing all of them.\<close>

lemma total_blocks: "total (map (\<lambda>i. (b + of_nat (offset i), of_nat (extent i))) [0..<40]) = 1024"
  by (simp add: upt_rec offset_def extent_def)

lemma dealloc_forty:
  assumes s: "grown (heap t) b 1024 40"
  shows "\<exists>s' ys. t_dealloc_all (map (\<lambda>i. b + of_nat (offset i + 16)) [0..<40]) t = ret (t\<lparr>heap := s'\<rparr>)
    \<and> blks (mem s') (head s') ys \<and> total ys = 1024 \<and> same_rest (heap t) s'"
proof -
  define bs where "bs = map (\<lambda>i. (b + of_nat (offset i), of_nat (extent i) :: u64)) [0..<40]"
  have h: "blks (mem (heap t)) (head (heap t)) []" using s by (simp add: grown_def)
  have ap: "sorted_wrt apart (map fst bs)"
    unfolding sorted_wrt_iff_nth_less bs_def
  proof (intro allI impI)
    fix i j assume ij: "i < j" "j < length (map fst (map (\<lambda>i. (b + of_nat (offset i), of_nat (extent i) :: u64)) [0..<40]))"
    then have j: "j < 40" by simp
    have "apart (b + of_nat (offset i)) (b + of_nat (offset j))"
      using offset_less_Suc [OF ij(1)] offset_bound [of i] offset_bound [of j] ij(1) j by (intro apart_offsets) auto
    then show "apart (map fst (map (\<lambda>i. (b + of_nat (offset i), of_nat (extent i) :: u64)) [0..<40]) ! i)
      (map fst (map (\<lambda>i. (b + of_nat (offset i), of_nat (extent i) :: u64)) [0..<40]) ! j)" using ij(1) j by simp
  qed
  have sz: "\<forall>(a, n) \<in> set bs. a \<noteq> 0 \<and> a + 16 \<noteq> 0 \<and> size_at (mem (heap t)) a = n"
  proof -
    have "b + of_nat (offset i) \<noteq> 0 \<and> b + of_nat (offset i) + 16 \<noteq> 0 \<and> size_at (mem (heap t)) (b + of_nat (offset i)) = of_nat (extent i)"
      if i: "i < 40" for i
    proof -
      have o: "offset i + 16 \<le> 2048" "offset i \<le> 2048" using offset_bound(1) [OF i] offset_bound(2) [of i] by linarith+
      have rb: "room_behind b" using grow_room [OF s, of 0] by simp
      from offset_nonzero [OF rb o(1)] offset_nonzero [OF rb o(2)] show ?thesis
        using s i by (simp add: grown_def blocks_ok_def add.assoc)
    qed
    then show ?thesis unfolding bs_def by auto
  qed
  from dealloc_blocks [OF h ap _ sz] have "\<exists>s' ys. t_dealloc_all (map (\<lambda>(a, n). a + 16) bs) t = ret (t\<lparr>heap := s'\<rparr>)
    \<and> blks (mem s') (head s') ys \<and> total ys = total bs \<and> same_rest (heap t) s'" by auto
  moreover have "map (\<lambda>(a, n). a + 16) bs = map (\<lambda>i. b + of_nat (offset i + 16)) [0..<40]" by (simp add: bs_def add.assoc)
  moreover have "total bs = 1024" unfolding bs_def by (rule total_blocks)
  ultimately show ?thesis by auto
qed

lemma fold_grow_checks:
  assumes "\<And>i. i \<in> set is \<Longrightarrow> f i \<noteq> 0 \<and> holds_ints (mem (heap t)) (f i)"
  shows "gain (3 * length is) (3 * length is) t (fold (\<lambda>i t. content_tests l0 l1 (f i) (TEST l (f i \<noteq> 0) 1 t)) is t)
    \<and> heap (fold (\<lambda>i t. content_tests l0 l1 (f i) (TEST l (f i \<noteq> 0) 1 t)) is t) = heap t"
  using assms
proof (induction "is" arbitrary: t)
  case (Cons i "is")
  let ?t = "content_tests l0 l1 (f i) (TEST l (f i \<noteq> 0) 1 t)"
  have "gain 3 3 t ?t" using Cons.prems by (simp add: content_tests_ok TEST_facts) (simp add: gain_def TEST_def print_test_result_def)
  from gain_trans [OF this] Cons.IH [of ?t] Cons.prems show ?case by (simp add: TEST_facts numeral_3_eq_3)
qed (simp add: gain_refl)

lemma grow_passes:
  assumes s: "grown (heap t) b 1024 0" "unat b + 4864 \<le> unat (brk_max (heap t))"
  shows "\<exists>t'. test_grow t = ret t' \<and> gain 36 40 t t' \<and> ready (heap t') (b + 768) \<and> brk_max (heap t') = brk_max (heap t)"
proof -
  have "grown (heap (title ''test_grow'' t)) b 1024 0" using s by simp
  from grow_loop [OF this order_refl] obtain t1 where t1: "gather grow_step [0..<40] (title ''test_grow'' t)
      = ret (map (\<lambda>i. b + of_nat (offset i + 16)) [0..<40], t1)" "grown (heap t1) b 1024 40" "gain 20 20 t t1"
    "brk_max (heap t1) = brk_max (heap t)" "heap_origin (heap t1) = b + 768" by auto
  define p where "p = map (\<lambda>i. b + of_nat (offset i + 16)) [0..<40]"
  define u where "u = fold (\<lambda>i t. content_tests 120 121 (p ! i) (TEST 118 (p ! i \<noteq> 0) 1 t)) [35..<40] t1"
  have rb: "room_behind b" using grow_room [OF t1(2), of 0] by simp
  have "p ! i \<noteq> 0 \<and> holds_ints (mem (heap t1)) (p ! i)" if i: "i \<in> set [35..<40]" for i
  proof -
    have i40: "i < 40" using i by auto
    then have p: "p ! i = b + of_nat (offset i + 16)" by (simp add: p_def)
    have "offset i + 16 \<le> 2048" using offset_bound(1) [OF i40] offset_bound(2) [of i] by linarith
    from offset_nonzero [OF rb this] t1(2) i40 show ?thesis unfolding p by (simp add: grown_def blocks_ok_def)
  qed
  then have c: "gain (3 * length [35..<40 :: nat]) (3 * length [35..<40 :: nat]) t1 u \<and> heap u = heap t1"
    unfolding u_def by (rule fold_grow_checks)
  then have "grown (heap u) b 1024 40" using t1(2) by simp
  from dealloc_forty [OF this] obtain s' ys where s': "t_dealloc_all p u = ret (u\<lparr>heap := s'\<rparr>)" "blks (mem s') (head s') ys"
    "total ys = 1024" "same_rest (heap t1) s'" using c unfolding p_def by auto
  have "sext (limit (heap t1)) = 1024" using limit_unat(2) [of "limit (heap t1)" 1024] t1(2) by (simp add: grown_def)
  then have "t_free_size (u\<lparr>heap := s'\<rparr>) = ret 1008" using free_size_blks [of "u\<lparr>heap := s'\<rparr>" ys] s'(2-4) by (simp add: same_rest_def)
  with s'(1) have "test_grow t = ret (TEST 129 True 5 (u\<lparr>heap := s'\<rparr>))"
    by (simp only: test_grow_def t1(1) p_def [symmetric] Let_def rbind_ret prod.case simp_thms u_def [symmetric])
  moreover have "gain 36 40 t (TEST 129 True 5 (u\<lparr>heap := s'\<rparr>))"
    using gain_TEST [OF gain_trans [OF t1(3) conjunct1 [OF c]], of 5 129] gain_TEST [of 35 35 t "u\<lparr>heap := s'\<rparr>" 5 129]
      gain_trans [OF t1(3) conjunct1 [OF c]] by simp
  moreover have "ready s' (b + 768)"
  proof (rule ready_again [of _ _ 256])
    have u: "unat (b + 768) = unat b + 768" using s(2) unat_u64_less [of "brk_max (heap t)"] by (simp add: unat_word_ariths)
    show "b + 768 \<noteq> 0" using offset_nonzero [OF rb, of 768] by simp
    show "unat (b + 768) + 4096 \<le> unat (brk_max s')" using u s(2) t1(4) s'(4) by (simp add: same_rest_def)
    show "heap_origin s' = b + 768" using t1(5) s'(4) by (simp add: same_rest_def)
    show "brk s' = b + 768 + of_nat 256" using t1(2) s'(4) by (simp add: same_rest_def grown_def offset_def add.assoc)
  qed simp_all
  ultimately show ?thesis using t1(4) s'(4) by (simp add: TEST_facts same_rest_def)
qed

section \<open>The test of the break\<close>

text \<open>\<open>stretch s b e j\<close>: the heap is \<open>j\<close> increments at \<open>b\<close>, and blocks have been cut up to offset \<open>e\<close>.\<close>

definition stretch :: "alloc_state \<Rightarrow> u64 \<Rightarrow> nat \<Rightarrow> nat \<Rightarrow> bool" where
  "stretch s b e j \<longleftrightarrow> \<not> deallocCalled s \<and> heap_origin s = b \<and> heap_end s = b + of_nat (256 * j)
     \<and> brk s = b + of_nat (256 * j) \<and> sint (limit s) = 768 \<and> head s = b + of_nat e
     \<and> e + 16 < 256 * j \<and> j \<le> 3 \<and> size_at (mem s) (b + of_nat e) = of_nat (256 * j - 16 - e)"

lemma sint_offset: "k \<le> 2048 \<Longrightarrow> sint (of_nat k :: u64) = int k"
  by (subst sint_small) (simp_all add: uint_nat unat_of_nat)

lemma stretch_span: "stretch s b e j \<Longrightarrow> heap_span s = int (256 * j)"
  using sint_offset [of "256 * j"] unfolding heap_span_def stretch_def by (simp only: add_diff_cancel_left') simp

text \<open>The cut of a block that leaves a rest.\<close>

lemma stretch_cut:
  assumes s: "stretch s b e j" and n: "e + 32 + n < 256 * j"
  shows "\<exists>s'. alloc_cut (of_nat n) s = ret (b + of_nat (e + 16), s') \<and> stretch s' b (e + 16 + n) j \<and> brk_max s' = brk_max s"
proof -
  have j: "j \<le> 3" using s by (simp add: stretch_def)
  have c: "sext (of_nat n) = of_nat n" using n j by (intro cint_of_nat) simp
  define d where "d = b + of_nat (e + 16 + n)"
  define v where "v = (of_nat (256 * j - 16 - (e + 16 + n)) :: u64)"
  have d: "head s + 16 + sext (of_nat n) = d" using s c by (simp add: d_def stretch_def ac_simps)
  have v: "of_nat (256 * j - 16 - e) - of_nat n - 16 = v"
  proof -
    have "(of_nat (256 * j - 16 - e) :: u64) - of_nat (n + 16) = of_nat (256 * j - 16 - e - (n + 16))" using n by (intro offset_diff) simp
    moreover have "256 * j - 16 - e - (n + 16) = 256 * j - 16 - (e + 16 + n)" by simp
    ultimately show ?thesis unfolding v_def by (simp only: of_nat_add of_nat_numeral diff_diff_eq)
  qed
  have v0: "v \<noteq> 0"
  proof -
    have "v \<noteq> of_nat 0" unfolding v_def using n j by (subst word_offset_eq) simp_all
    then show ?thesis by simp
  qed
  have ap: "apart (b + of_nat e) d" unfolding d_def using n j by (intro apart_offsets) simp_all
  define m' where "m' = set_size (b + of_nat e) (of_nat n + 16) (set_next d 0 (set_size d v (mem s)))"
  have fields: "size_at m' d = v" using ap by (simp add: m'_def)
  have hs: "head s = b + of_nat e" "size_at (mem s) (b + of_nat e) = of_nat (256 * j - 16 - e)" using s by (simp_all add: stretch_def)
  have "alloc_cut (of_nat n) s = ret (b + of_nat e + 16, s\<lparr>mem := m', head := d\<rparr>)"
    using v0 fields unfolding alloc_cut_def Let_def d unfolding hs c v m'_def by simp
  moreover have "stretch (s\<lparr>mem := m', head := d\<rparr>) b (e + 16 + n) j"
    using s n fields by (simp add: stretch_def d_def v_def)
  ultimately show ?thesis by (intro exI [of _ "s\<lparr>mem := m', head := d\<rparr>"]) (simp add: add.assoc)
qed

text \<open>A request larger than the rest moves the break.\<close>

lemma stretch_grow:
  assumes s: "stretch s b e j" and n: "256 * j < 272 + e" "e + 32 < 256 * j" "j < 3"
    and b: "b \<noteq> 0" "unat b + 4096 \<le> unat (brk_max s)" and eq: "k = e + 16" "e' = e + 272" "j' = Suc j"
  shows "\<exists>s'. alloc 256 s = ret (b + of_nat k, s') \<and> stretch s' b e' j' \<and> brk_max s' = brk_max s"
proof -
  have rb: "room_behind b" using b unat_u64_less [of "brk_max s"] by (simp add: room_behind_def)
  have nz: "b + of_nat e \<noteq> 0" using offset_nonzero [OF rb, of e] n by simp
  have "(of_nat (256 * j - 16 - e) :: u64) < of_nat 256" using n by (subst offset_less) simp_all
  then have lt: "size_at (mem s) (head s) < 256" using s by (simp add: stretch_def)
  have u: "unat (b + of_nat (256 * Suc j)) = unat b + 256 * Suc j" "unat (b + of_nat (256 * j)) = unat b + 256 * j"
    using b(2) n unat_u64_less [of "brk_max s"] by (simp_all add: unat_word_ariths unat_of_nat)
  have sb: "sbrk INCREMENT s = (brk s, s\<lparr>brk := b + of_nat (256 * Suc j)\<rparr>)"
  proof -
    have "brk s + 256 = b + of_nat (256 * Suc j)" using s by (simp add: stretch_def)
    moreover have "b + of_nat (256 * Suc j) \<le> brk_max s" using u(1) b(2) n(3) by (simp add: word_le_nat_alt del: of_nat_mult of_nat_Suc)
    ultimately show ?thesis unfolding sbrk_def INCREMENT_def by (simp only: if_True)
  qed
  have m1: "brk s \<noteq> - 1"
  proof
    assume "brk s = - 1"
    then have "unat (brk s) = unat (- 1 :: u64)" by simp
    then show False using s u(2) b(2) n(3) unat_u64_less [of "brk_max s"] by (simp add: stretch_def unat_minus_1_u64)
  qed
  let ?s = "s\<lparr>brk := b + of_nat (256 * Suc j), heap_end := b + of_nat (256 * Suc j),
    mem := set_size (head s) (size_at (mem s) (head s) + INCREMENT) (mem s)\<rparr>"
  have "alloc 256 s = alloc_cut 256 ?s"
  proof -
    have "head s \<noteq> 0" "\<not> deallocCalled s" "sint (limit s) = 768" using s nz by (simp_all add: stretch_def)
    moreover have "heap_span s < 768" using stretch_span [OF s] n(3) by simp
    moreover have "\<not> 256 < size_at (mem s) (head s)" "\<not> 256 \<le> size_at (mem s) (head s)"
      using lt less_imp_le [OF lt] by (simp_all only: not_less not_le)
    ultimately show ?thesis using lt m1 by (simp add: alloc_def alloc_bump_def Let_def sb)
  qed
  moreover have "256 * Suc j - 16 - e = (256 * j - 16 - e) + 256" using n by simp
  then have "(of_nat (256 * Suc j - 16 - e) :: u64) = of_nat (256 * j - 16 - e) + 256" by (simp only: of_nat_add of_nat_numeral)
  then have "stretch ?s b e (Suc j)" using s n unfolding stretch_def by (simp only:) (simp add: INCREMENT_def)
  from stretch_cut [OF this, of 256] n have "\<exists>s'. alloc_cut 256 ?s = ret (b + of_nat (e + 16), s') \<and> stretch s' b (e + 272) (Suc j) \<and> brk_max s' = brk_max ?s"
    by (simp add: add.assoc)
  ultimately show ?thesis unfolding eq by simp
qed

lemma seg_stretch: "seg s b 768 e \<Longrightarrow> stretch s b e 1"
  by (simp add: seg_def stretch_def)

lemma sbrk_case_ok:
  assumes "p \<noteq> 0" "brk (heap t) = x" "x \<le> brk_max (heap t)"
  shows "sbrk_case l p x t = TEST l True 2 t"
  using assms by (simp add: sbrk_case_def sbrk_def)

lemma sbrk_passes:
  assumes s: "grown (heap t) b 768 0"
  shows "\<exists>t'. test_sbrk t = ret t' \<and> gain 5 10 t t' \<and> ready (heap t') b \<and> brk_max (heap t') = brk_max (heap t)"
proof -
  have b: "b \<noteq> 0" "unat b + 4096 \<le> unat (brk_max (heap t))" "brk (heap t) = b" using s by (simp_all add: grown_def offset_def)
  have rb: "room_behind b" using grow_room [OF s, of 0] by simp
  have "fresh (heap t) b 768" using s rb by (simp add: grown_def fresh_def offset_def)
  from first_step [OF this, of 1] obtain s1 where s1: "alloc 1 (heap t) = ret (b + of_nat 16, s1)" "seg s1 b 768 17"
    "brk_max s1 = brk_max (heap t)" by auto
  have "1 + 16 + 17 < (240 :: nat)" "(768 :: nat) = 256 \<or> 256 < (768 :: nat) \<and> 1 + 32 + 17 \<le> (240 :: nat)" by simp_all
  from cut_step [OF s1(2) this rb] obtain s2 where s2: "alloc 1 s1 = ret (b + of_nat 33, s2)" "seg s2 b 768 34"
    "same_rest s1 s2" by auto
  have m2: "brk_max s2 = brk_max (heap t)" using s2(3) s1(3) by (simp add: same_rest_def)
  have bm: "unat b + 4096 \<le> unat (brk_max s2)" using b(2) by (simp only: m2)
  have st: "stretch s2 b 34 1" using s2(2) by (rule seg_stretch)
  have c: "256 * 1 < 272 + (34 :: nat)" "34 + 32 < 256 * (1 :: nat)" "1 < (3 :: nat)" "50 = 34 + (16 :: nat)" "306 = 34 + (272 :: nat)" "2 = Suc 1"
    "256 * 2 < 272 + (306 :: nat)" "306 + 32 < 256 * (2 :: nat)" "2 < (3 :: nat)" "322 = 306 + (16 :: nat)" "578 = 306 + (272 :: nat)" "3 = Suc 2"
    "578 + 32 + 1 < 256 * (3 :: nat)" by simp_all
  from stretch_grow [OF st c(1-3) b(1) bm c(4-6)] obtain s3 where s3: "alloc 256 s2 = ret (b + of_nat 50, s3)" "stretch s3 b 306 2"
    "brk_max s3 = brk_max s2" by blast
  have bm3: "unat b + 4096 \<le> unat (brk_max s3)" using bm by (simp only: s3(3))
  from stretch_grow [OF s3(2) c(7-9) b(1) bm3 c(10-12)] obtain s4 where s4: "alloc 256 s3 = ret (b + of_nat 322, s4)" "stretch s4 b 578 3"
    "brk_max s4 = brk_max s3" by blast
  have "b + of_nat 578 \<noteq> 0" using rb by (rule offset_nonzero) simp
  then have "alloc 1 s4 = alloc_cut (of_nat 1) s4"
    using s4(2) stretch_span [OF s4(2)] by (simp add: alloc_def alloc_bump_def Let_def stretch_def)
  with stretch_cut [OF s4(2) c(13)] obtain s5 where s5: "alloc 1 s4 = ret (b + of_nat (578 + 16), s5)" "stretch s5 b (578 + 16 + 1) 3"
    "brk_max s5 = brk_max s4" by metis
  have mx: "brk_max s1 = brk_max (heap t)" "brk_max s2 = brk_max (heap t)" "brk_max s3 = brk_max (heap t)"
    "brk_max s4 = brk_max (heap t)" "brk_max s5 = brk_max (heap t)" by (simp_all only: s1(3) m2 s3(3) s4(3) s5(3))
  have nz: "b + of_nat 16 \<noteq> 0" "b + of_nat 33 \<noteq> 0" "b + of_nat 50 \<noteq> 0" by (intro offset_nonzero [OF rb], simp)+
  have brk: "brk s1 = b + 256" "brk s2 = b + 256" "brk s3 = b + 512" "brk s4 = b + 768" "brk s5 = b + 768"
    using s1(2) s2(2) s3(2) s4(2) s5(2) by (simp_all add: seg_def stretch_def)
  have le: "b \<le> brk_max (heap t)" "b + 256 \<le> brk_max (heap t)" "b + 512 \<le> brk_max (heap t)" "b + 768 \<le> brk_max (heap t)"
    using b(2) unat_u64_less [of "brk_max (heap t)"] by (simp_all add: word_le_nat_alt unat_word_ariths)
  have base: "fst (sbrk 0 (heap t)) = b" using b le by (simp add: sbrk_def)
  define t5 where "t5 = TEST 144 True 2 (TEST 142 True 2 (TEST 140 True 2 (TEST 138 True 2 (TEST 136 True 2 (title ''test_sbrk'' t)))))"
  have hp: "TEST l f q (t\<lparr>heap := s\<rparr>) = (TEST l f q t)\<lparr>heap := s\<rparr>" for l f q t s by (simp add: TEST_def print_test_result_def)
  have "test_sbrk t = ret (t5\<lparr>heap := s5\<rparr>)"
    using nz brk le s1(1) s2(1) s3(1) s4(1) s5(1) mx
    by (simp add: test_sbrk_def t_alloc_def base INCREMENT_def sbrk_case_ok TEST_facts hp t5_def)
  moreover have "gain 5 10 t t5" by (simp add: t5_def gain_def TEST_def print_test_result_def title_def)
  moreover have "ready s5 b" using s5(2) mx(5) b by (intro ready_again [of _ _ 768]) (simp_all add: stretch_def)
  ultimately show ?thesis using mx(5) by auto
qed

end
