(* ===== verification/Alloc_Tests_Pass.thy ===== *)
theory Alloc_Tests_Pass
  imports Alloc_Tests_Grow
begin

text \<open>
  The tests of the three policies and the whole test program of \<open>lecture/test2/main2.c\<close>: all its 246
  tests succeed.
\<close>

section \<open>The tests of the policies\<close>

text \<open>The offset of block \<open>i\<close> when block \<open>j\<close> has \<open>sz j\<close> bytes.\<close>

fun pos :: "(nat \<Rightarrow> nat) \<Rightarrow> nat \<Rightarrow> nat" where
  "pos sz 0 = 0"
| "pos sz (Suc i) = pos sz i + 16 + sz i"

lemma pos_mono: "i \<le> j \<Longrightarrow> pos sz i \<le> pos sz j"
  by (induction j) (auto simp: le_Suc_eq)

lemma cuts:
  assumes s: "fresh (heap t) b 256" and z: "sz 0 \<le> 200"
  shows "pos sz k < 240 \<Longrightarrow> \<exists>s'. gather (\<lambda>i. t_alloc (of_nat (sz i))) [0..<k] t = ret (map (\<lambda>i. b + of_nat (pos sz i + 16)) [0..<k], t\<lparr>heap := s'\<rparr>)
    \<and> (if k = 0 then s' = heap t else seg s' b 256 (pos sz k))
    \<and> (\<forall>i<k. size_at (mem s') (b + of_nat (pos sz i)) = of_nat (sz i + 16)) \<and> brk_max s' = brk_max (heap t) \<and> alg s' = alg (heap t)"
proof (induction k)
  case (Suc k)
  then have fit: "sz k + 16 + pos sz k < 240" by simp
  with Suc obtain s1 where s1: "gather (\<lambda>i. t_alloc (of_nat (sz i))) [0..<k] t = ret (map (\<lambda>i. b + of_nat (pos sz i + 16)) [0..<k], t\<lparr>heap := s1\<rparr>)"
    "if k = 0 then s1 = heap t else seg s1 b 256 (pos sz k)"
    "\<forall>i<k. size_at (mem s1) (b + of_nat (pos sz i)) = of_nat (sz i + 16)" "brk_max s1 = brk_max (heap t)" "alg s1 = alg (heap t)" by auto
  have "\<exists>s2. alloc (of_nat (sz k)) s1 = ret (b + of_nat (pos sz k + 16), s2) \<and> seg s2 b 256 (pos sz (Suc k))
    \<and> size_at (mem s2) (b + of_nat (pos sz k)) = of_nat (sz k + 16)
    \<and> same_outside (bytes_of b (pos sz k) (pos sz k + sz k + 32)) (mem s1) (mem s2) \<and> brk_max s2 = brk_max s1 \<and> alg s2 = alg s1"
  proof (cases "k = 0")
    case True
    then have "fresh s1 b 256" using s s1(2) by simp
    from first_step [OF this z] True show ?thesis by auto
  next
    case False
    then have sg: "seg s1 b 256 (pos sz k)" using s1(2) by simp
    have "(256 :: nat) = 256 \<or> 256 < (256 :: nat) \<and> sz k + 32 + pos sz k \<le> 240" "room_behind b" using s by (simp_all add: fresh_def)
    from cut_step [OF sg fit this] show ?thesis by (auto simp: same_rest_def)
  qed
  then obtain s2 where s2: "alloc (of_nat (sz k)) s1 = ret (b + of_nat (pos sz k + 16), s2)" "seg s2 b 256 (pos sz (Suc k))"
    "size_at (mem s2) (b + of_nat (pos sz k)) = of_nat (sz k + 16)"
    "same_outside (bytes_of b (pos sz k) (pos sz k + sz k + 32)) (mem s1) (mem s2)" "brk_max s2 = brk_max s1" "alg s2 = alg s1" by blast
  have keep: "size_at (mem s2) (b + of_nat (pos sz i)) = of_nat (sz i + 16)" if i: "i < k" for i
  proof -
    have "pos sz i + 16 \<le> pos sz k" using pos_mono [of "Suc i" k sz] i by simp
    with fields_outside(1) [OF s2(4), of "pos sz i"] fit s1(3) i show ?thesis by auto
  qed
  have "gather (\<lambda>i. t_alloc (of_nat (sz i))) [0..<Suc k] t = ret (map (\<lambda>i. b + of_nat (pos sz i + 16)) [0..<Suc k], t\<lparr>heap := s2\<rparr>)"
    using s1(1) s2(1) by (simp add: gather_append t_alloc_def)
  then show ?case using s1(4,5) s2(2,3,5,6) keep by (intro exI [of _ s2]) (simp add: less_Suc_eq del: pos.simps)
qed simp

text \<open>Blocks by their offsets.\<close>

definition blocks_at :: "u64 \<Rightarrow> (nat \<times> nat) list \<Rightarrow> blk list" where
  "blocks_at b xs = map (\<lambda>(k, n). (b + of_nat k, of_nat n)) xs"

definition gap :: "nat \<times> nat \<Rightarrow> nat \<times> nat \<Rightarrow> bool" where
  "gap x y \<longleftrightarrow> fst x + snd x < fst y \<or> fst y + snd y < fst x"

definition spaced :: "(nat \<times> nat) list \<Rightarrow> bool" where
  "spaced xs \<longleftrightarrow> sorted_wrt gap xs \<and> (\<forall>x \<in> set xs. 16 \<le> snd x \<and> fst x + snd x \<le> 256)"

lemma not_adjacent_offsets:
  assumes "k + n \<noteq> k'" "k + n < 2 ^ 32" "k' < 2 ^ 32"
  shows "\<not> adjacent (b + of_nat k, of_nat n) (b + of_nat k', w)"
proof -
  have "(of_nat (k + n) :: u64) \<noteq> of_nat k'" using assms by (subst word_offset_eq) simp_all
  then show ?thesis by (simp add: adjacent_def add.assoc)
qed

lemma merge_with_none: "\<forall>y \<in> set ys. \<not> adjacent x y \<and> \<not> adjacent y x \<Longrightarrow> merge_with x ys all = None"
  by (induction ys) simp_all

lemma merge_any_none: "\<forall>x \<in> set xs. \<forall>y \<in> set all. \<not> adjacent x y \<and> \<not> adjacent y x \<Longrightarrow> merge_any xs all = None"
  by (induction xs) (simp_all add: merge_with_none)

lemma coalesce_spaced:
  assumes "spaced xs"
  shows "coalesce (blocks_at b xs) = blocks_at b xs"
proof (intro coalesce_none merge_any_none ballI)
  have gap: "x = y \<or> gap x y \<or> gap y x" if "x \<in> set xs" "y \<in> set xs" for x y
    using assms that unfolding spaced_def by (induction xs) auto
  have "\<not> adjacent x y" if xy: "x \<in> set (blocks_at b xs)" "y \<in> set (blocks_at b xs)" for x y
  proof -
    obtain k n k' n' where x: "x = (b + of_nat k, of_nat n)" "(k, n) \<in> set xs" and y: "y = (b + of_nat k', of_nat n')" "(k', n') \<in> set xs"
      using xy by (auto simp: blocks_at_def)
    have "k + n \<le> 256" "k' + n' \<le> 256" "16 \<le> n" "16 \<le> n'" using assms x(2) y(2) by (auto simp: spaced_def)
    moreover have "k + n \<noteq> k'" using gap [OF x(2) y(2)] calculation(3,4) by (auto simp: gap_def)
    ultimately show ?thesis unfolding x y by (intro not_adjacent_offsets) simp_all
  qed
  then show "x \<in> set (blocks_at b xs) \<Longrightarrow> y \<in> set (blocks_at b xs) \<Longrightarrow> \<not> adjacent x y \<and> \<not> adjacent y x" for x y by blast
qed

lemma apart_spaced:
  assumes "spaced (x # xs)" "y \<in> set xs"
  shows "apart (b + of_nat (fst x)) (b + of_nat (fst y))"
proof -
  have "gap x y" "16 \<le> snd x" "16 \<le> snd y" "fst x + snd x \<le> 256" "fst y + snd y \<le> 256" using assms by (auto simp: spaced_def)
  then show ?thesis by (intro apart_offsets) (auto simp: gap_def)
qed

lemma release_spaced:
  assumes rb: "room_behind b"
  shows "blks (mem (heap t)) (head (heap t)) (blocks_at b xs) \<Longrightarrow> spaced (rev bs @ xs)
    \<Longrightarrow> \<forall>(k, n) \<in> set bs. size_at (mem (heap t)) (b + of_nat k) = of_nat n
    \<Longrightarrow> \<exists>s'. t_dealloc_all (map (\<lambda>(k, n). b + of_nat (k + 16)) bs) t = ret (t\<lparr>heap := s'\<rparr>)
      \<and> blks (mem s') (head s') (blocks_at b (rev bs @ xs)) \<and> same_rest (heap t) s' \<and> (bs \<noteq> [] \<longrightarrow> deallocCalled s')"
proof (induction bs arbitrary: t xs)
  case Nil
  then show ?case by (intro exI [of _ "heap t"]) simp
next
  case (Cons x bs)
  obtain k n where x: "x = (k, n)" by (cases x)
  have sp: "spaced ((k, n) # xs)" "spaced (rev bs @ (k, n) # xs)" using Cons.prems(2) by (auto simp: spaced_def sorted_wrt_append x)
  then have kn: "k + n \<le> 256" "16 \<le> n" by (auto simp: spaced_def)
  have nz: "b + of_nat k \<noteq> 0" "b + of_nat k + 16 \<noteq> 0"
    using offset_nonzero [OF rb, of k] offset_nonzero [OF rb, of "k + 16"] kn by (simp_all add: add.assoc)
  have ap: "\<forall>y \<in> fst ` set (blocks_at b xs). apart (b + of_nat k) y"
    using apart_spaced [OF sp(1), of _ b] by (fastforce simp: blocks_at_def)
  have sz: "size_at (mem (heap t)) (b + of_nat k) = of_nat n" using Cons.prems(3) by (simp add: x)
  have cl: "coalesce ((b + of_nat k, of_nat n) # blocks_at b xs) = blocks_at b ((k, n) # xs)"
    using coalesce_spaced [OF sp(1), of b] by (simp add: blocks_at_def)
  from dealloc_exact [OF Cons.prems(1) nz ap sz] obtain s1 where s1: "dealloc (b + of_nat (k + 16)) (heap t) = ret s1"
    "blks (mem s1) (head s1) (blocks_at b ((k, n) # xs))" "same_outside (header_area (blocks_at b ((k, n) # xs))) (mem (heap t)) (mem s1)"
    "same_rest (heap t) s1" "deallocCalled s1" unfolding cl by (auto simp: blocks_at_def add.assoc)
  have "size_at (mem s1) (b + of_nat k') = of_nat n'" if y: "(k', n') \<in> set bs" for k' n'
  proof -
    have "16 \<le> n' \<and> k' + n' \<le> 256" using sp(2) y by (force simp: spaced_def)
    then have "spaced ((k', n') # (k, n) # xs)" using sp(2) y by (auto simp: spaced_def sorted_wrt_append)
    then have "\<forall>z \<in> fst ` set (blocks_at b ((k, n) # xs)). apart (b + of_nat k') z"
      using apart_spaced [of "(k', n')" "(k, n) # xs" _ b] by (fastforce simp: blocks_at_def)
    from apart_outside [OF s1(3) header_area_apart [OF this]] show ?thesis using Cons.prems(3) y by auto
  qed
  then have "\<forall>(k, n) \<in> set bs. size_at (mem (heap (t\<lparr>heap := s1\<rparr>))) (b + of_nat k) = of_nat n" by auto
  from Cons.IH [of "t\<lparr>heap := s1\<rparr>", OF _ sp(2) this] s1(2) obtain s' where s': "t_dealloc_all (map (\<lambda>(k, n). b + of_nat (k + 16)) bs) (t\<lparr>heap := s1\<rparr>) = ret (t\<lparr>heap := s'\<rparr>)"
    "blks (mem s') (head s') (blocks_at b (rev bs @ (k, n) # xs))" "same_rest s1 s'" "bs \<noteq> [] \<longrightarrow> deallocCalled s'" by auto
  have "bs = [] \<Longrightarrow> s' = s1" using s'(1) by (auto simp: ret_def dest!: arg_cong [of _ _ heap])
  then have "deallocCalled s'" using s'(4) s1(5) by blast
  moreover have "t_dealloc_all (map (\<lambda>(k, n). b + of_nat (k + 16)) (x # bs)) t = ret (t\<lparr>heap := s'\<rparr>)"
    using s1(1) s'(1) by (simp add: t_dealloc_def x)
  ultimately show ?case using s'(2) same_rest_trans [OF s1(4) s'(3)] by (intro exI [of _ s']) (simp add: x)
qed

text \<open>A block that the policy picks.\<close>

lemma reuse_step:
  assumes d: "deallocCalled (heap t)" and b: "blks (mem (heap t)) (head (heap t)) (us @ (a, st) # vs)"
    and pk: "policy (alg (heap t)) (us @ (a, st) # vs) n = Some a" and n: "n = sext sz + 16" "n \<le> st"
    and c: "a + n \<noteq> 0" "\<forall>x \<in> fst ` set (us @ (a, st) # vs). apart (a + n) x" and q: "q = a + 16"
  shows "\<exists>s'. reuse_case l sz q t = ret (TEST l True 10 (t\<lparr>heap := s'\<rparr>)) \<and> blks (mem s') (head s') (us @ (a + n, st - n) # vs)
    \<and> same_rest (heap t) s' \<and> deallocCalled s'"
proof -
  from alloc_reuse_split [OF b pk [unfolded n(1)] n(1) n(2) c] n(1) obtain s' where s': "alloc_reuse sz (heap t) = ret (a + 16, s')"
    "blks (mem s') (head s') (us @ (a + n, st - n) # vs)" "s' = heap t\<lparr>mem := mem s', head := head s'\<rparr>" by auto
  have "same_rest (heap t) s'" using s'(3) by (rule same_restI)
  moreover have "deallocCalled s'" using d by (subst s'(3)) simp
  moreover have "reuse_case l sz q t = ret (TEST l True 10 (t\<lparr>heap := s'\<rparr>))"
    using s'(1) d by (simp add: reuse_case_def t_alloc_def alloc_def q)
  ultimately show ?thesis using s'(2) by blast
qed

lemma pos_step: "pos sz (numeral k) = pos sz (pred_numeral k) + 16 + sz (pred_numeral k)"
  by (simp add: numeral_eq_Suc)

lemma distances:
  assumes "\<And>i. i < 10 \<Longrightarrow> p ! i = b + of_nat (pos sz i + 16) \<and> p ! Suc i = b + of_nat (pos sz (Suc i) + 16)"
    and "\<And>i. i < 10 \<Longrightarrow> f i = (of_nat (16 + sz i) :: u64)"
  shows "gain 10 10 t (fold (\<lambda>i. TEST l (p ! (i + 1) - p ! i = f i) 1) [0..<10] t)"
proof (rule gain_fold)
  fix i :: nat assume "i \<in> set [0..<10]"
  then have "i < 10" by simp
  with assms [of i] show "p ! (i + 1) - p ! i = f i" by (simp add: algebra_simps)
qed simp_all

lemma start_fresh: "grown s b lim 0 \<Longrightarrow> fresh s b lim"
  using grow_room [of s b lim 0 0] by (simp add: grown_def fresh_def offset_def)

text \<open>Three blocks are taken from the free list.\<close>

lemma ready_rest:
  assumes "same_rest s s'" "heap_origin s = b" "brk s = b + 256" "b \<noteq> 0" "unat b + 4096 \<le> unat (brk_max s)"
  shows "ready s' b"
  using assms by (intro ready_again [of _ _ 256]) (simp_all add: same_rest_def)

text \<open>Allocations from the free list, as replacements of one block by its rest.\<close>

definition rest_of :: "u64 \<Rightarrow> u64 \<Rightarrow> blk list \<Rightarrow> blk list" where
  "rest_of a n xs = map (\<lambda>(c, k). if c = a then (a + n, k - n) else (c, k)) xs"

definition picks :: "algs \<Rightarrow> blk list \<Rightarrow> cint \<Rightarrow> u64 \<Rightarrow> bool" where
  "picks g xs sz a \<longleftrightarrow> policy g xs (sext sz + 16) = Some a \<and> a + (sext sz + 16) \<noteq> 0
     \<and> (\<forall>x \<in> fst ` set xs. apart (a + (sext sz + 16)) x)"

lemma rest_of_split: "a \<notin> fst ` set us \<Longrightarrow> a \<notin> fst ` set vs \<Longrightarrow> rest_of a n (us @ (a, k) # vs) = us @ (a + n, k - n) # vs"
proof -
  assume "a \<notin> fst ` set us" "a \<notin> fst ` set vs"
  moreover have "map (\<lambda>(c, k). if c = a then (a + n, k - n) else (c, k)) xs = xs" if "a \<notin> fst ` set xs" for xs
    using that by (induction xs) auto
  ultimately show ?thesis by (simp add: rest_of_def)
qed

lemma reuse_picks:
  assumes d: "deallocCalled (heap t)" and b: "blks (mem (heap t)) (head (heap t)) xs" and pk: "picks (alg (heap t)) xs sz a"
  shows "\<exists>s'. reuse_case l sz (a + 16) t = ret (TEST l True 10 (t\<lparr>heap := s'\<rparr>))
    \<and> blks (mem s') (head s') (rest_of a (sext sz + 16) xs) \<and> same_rest (heap t) s' \<and> deallocCalled s'"
proof -
  have p: "policy (alg (heap t)) xs (sext sz + 16) = Some a" using pk by (simp add: picks_def)
  from fit.pick_split [OF p blks_distinct [OF b]] obtain us st vs where
    xs: "xs = us @ (a, st) # vs" "sext sz + 16 \<le> st" "a \<notin> fst ` set us" "a \<notin> fst ` set vs" .
  from reuse_step [OF d b [unfolded xs(1)] p [unfolded xs(1)] refl xs(2) _ _ refl, of l] pk
  show ?thesis unfolding picks_def xs(1) rest_of_split [OF xs(3,4)] by blast
qed

lemma three_picks:
  assumes d: "deallocCalled (heap t)" and b: "blks (mem (heap t)) (head (heap t)) xs" and g: "alg (heap t) = g"
    and p: "picks g xs n1 a1" "picks g (rest_of a1 (sext n1 + 16) xs) n2 a2"
      "picks g (rest_of a2 (sext n2 + 16) (rest_of a1 (sext n1 + 16) xs)) n3 a3"
  shows "\<exists>t'. rbind (reuse_case l1 n1 (a1 + 16) t) (\<lambda>t. rbind (reuse_case l2 n2 (a2 + 16) t) (\<lambda>t. reuse_case l3 n3 (a3 + 16) t)) = ret t'
    \<and> gain 3 30 t t' \<and> same_rest (heap t) (heap t')"
proof -
  from reuse_picks [OF d b p(1) [folded g], of l1] obtain s1 where s1: "reuse_case l1 n1 (a1 + 16) t = ret (TEST l1 True 10 (t\<lparr>heap := s1\<rparr>))"
    "blks (mem s1) (head s1) (rest_of a1 (sext n1 + 16) xs)" "same_rest (heap t) s1" "deallocCalled s1" by blast
  define t1 where "t1 = TEST l1 True 10 (t\<lparr>heap := s1\<rparr>)"
  have h1: "heap t1 = s1" by (simp add: t1_def TEST_facts)
  have d1: "deallocCalled (heap t1)" "blks (mem (heap t1)) (head (heap t1)) (rest_of a1 (sext n1 + 16) xs)"
    "picks (alg (heap t1)) (rest_of a1 (sext n1 + 16) xs) n2 a2" using s1(2-4) p(2) g by (simp_all only: h1 same_rest_def)
  from reuse_picks [OF d1, of l2] obtain s2 where s2: "reuse_case l2 n2 (a2 + 16) t1 = ret (TEST l2 True 10 (t1\<lparr>heap := s2\<rparr>))"
    "blks (mem s2) (head s2) (rest_of a2 (sext n2 + 16) (rest_of a1 (sext n1 + 16) xs))" "same_rest (heap t1) s2" "deallocCalled s2" by blast
  define t2 where "t2 = TEST l2 True 10 (t1\<lparr>heap := s2\<rparr>)"
  have h2: "heap t2 = s2" by (simp add: t2_def TEST_facts)
  have r2: "same_rest (heap t) s2" using s1(3) s2(3) unfolding h1 by (rule same_rest_trans)
  have d2: "deallocCalled (heap t2)" "blks (mem (heap t2)) (head (heap t2)) (rest_of a2 (sext n2 + 16) (rest_of a1 (sext n1 + 16) xs))"
    "picks (alg (heap t2)) (rest_of a2 (sext n2 + 16) (rest_of a1 (sext n1 + 16) xs)) n3 a3"
    using s2(2,4) r2 p(3) g by (simp_all only: h2 same_rest_def)
  from reuse_picks [OF d2, of l3] obtain s3 where s3: "reuse_case l3 n3 (a3 + 16) t2 = ret (TEST l3 True 10 (t2\<lparr>heap := s3\<rparr>))"
    "same_rest (heap t2) s3" by blast
  have r3: "same_rest (heap t) s3" using r2 s3(2) unfolding h2 by (rule same_rest_trans)
  have "rbind (reuse_case l1 n1 (a1 + 16) t) (\<lambda>t. rbind (reuse_case l2 n2 (a2 + 16) t) (\<lambda>t. reuse_case l3 n3 (a3 + 16) t))
    = ret (TEST l3 True 10 (t2\<lparr>heap := s3\<rparr>))" using s1(1) s2(1) s3(1) by (simp add: t1_def t2_def)
  moreover have "gain 3 30 t (TEST l3 True 10 (t2\<lparr>heap := s3\<rparr>))" by (simp add: t2_def t1_def gain_def TEST_def print_test_result_def)
  ultimately show ?thesis using r3 by (intro exI [of _ "TEST l3 True 10 (t2\<lparr>heap := s3\<rparr>)"]) (simp add: TEST_facts)
qed

lemma small_rest: "\<not> (19 :: u64) \<le> 1" "\<not> (21 :: u64) \<le> 1"
  by (simp_all add: word_le_nat_alt)

lemma first_fit_algorithm_passes:
  assumes s: "grown (heap t) b 256 0" and g: "alg (heap t) = FIRST_FIT"
  shows "\<exists>t'. test_first_fit_algorithm t = ret t' \<and> gain 13 40 t t' \<and> ready (heap t') b \<and> brk_max (heap t') = brk_max (heap t)"
proof -
  let ?n = "''test_first_fit_algorithm''" and ?sz = "\<lambda>_ :: nat. 4 :: nat"
  have rb: "room_behind b" using grow_room [OF s, of 0] by simp
  have pos: "pos ?sz i = 20 * i" for i by (induction i) simp_all
  have fr: "fresh (heap (title ?n t)) b 256" using start_fresh [OF s] by simp
  have lt: "?sz 0 \<le> 200" "pos ?sz 11 < 240" unfolding pos by simp_all
  from cuts [OF fr lt, unfolded pos] obtain s1 where s1: "gather (\<lambda>i. t_alloc (of_nat 4)) [0..<11] (title ?n t) = ret (map (\<lambda>i. b + of_nat (20 * i + 16)) [0..<11], (title ?n t)\<lparr>heap := s1\<rparr>)"
    "if (11 :: nat) = 0 then s1 = heap (title ?n t) else seg s1 b 256 (20 * 11)"
    "\<forall>i<11. size_at (mem s1) (b + of_nat (20 * i)) = of_nat (4 + 16)" "brk_max s1 = brk_max (heap (title ?n t))" "alg s1 = alg (heap (title ?n t))"
    by blast
  have s1': "gather (\<lambda>i. t_alloc 4) [0..<11] (title ?n t) = ret (map (\<lambda>i. b + of_nat (20 * i + 16)) [0..<11], (title ?n t)\<lparr>heap := s1\<rparr>)"
    using s1(1) by (simp only: of_nat_numeral)
  have sg: "seg s1 b 256 220" using s1(2) by simp
  define p where "p = map (\<lambda>i. b + of_nat (20 * i + 16)) [0..<11]"
  have p: "p ! i = b + of_nat (20 * i + 16)" if "i < 11" for i using that by (simp add: p_def)
  define u where "u = fold (\<lambda>i. TEST 155 (p ! (i + 1) - p ! i = 20) 1) [0..<10] ((title ?n t)\<lparr>heap := s1\<rparr>)"
  have "gain 10 10 ((title ?n t)\<lparr>heap := s1\<rparr>) u" unfolding u_def
    by (rule distances [of p b ?sz]) (simp_all add: p pos)
  then have u: "gain 10 10 t u" by (simp only: gain_heap title_facts)
  have hu: "heap u = s1" by (simp only: u_def fold_TEST_heap) simp
  have bl: "blks (mem (heap u)) (head (heap u)) (blocks_at b [(220, 20)])"
    using seg_blks [OF sg rb] hu by (simp add: blocks_at_def)
  have sz: "\<forall>(k, n) \<in> set [(20, 20), (60, 20), (100, 20)]. size_at (mem (heap u)) (b + of_nat k) = of_nat n"
    using s1(3) [rule_format, of 1] s1(3) [rule_format, of 3] s1(3) [rule_format, of 5] hu by simp
  have "spaced (rev [(20, 20), (60, 20), (100, 20)] @ [(220, 20)])" by (simp add: spaced_def gap_def)
  from release_spaced [OF rb bl this sz] obtain s2 where s2: "t_dealloc_all [p ! 1, p ! 3, p ! 5] u = ret (u\<lparr>heap := s2\<rparr>)"
    "blks (mem s2) (head s2) [(b + 100, 20), (b + 60, 20), (b + 20, 20), (b + 220, 20)]" "same_rest s1 s2" "deallocCalled s2"
    using p hu by (auto simp: blocks_at_def)
  have q: "p ! 5 = b + 100 + 16" "p ! 3 = b + 60 + 16" "p ! 1 = b + 20 + 16" using p by (simp_all add: add.assoc)
  have nz: "b + 119 \<noteq> 0" "b + 79 \<noteq> 0" "b + 39 \<noteq> 0"
    using offset_nonzero [OF rb, of 119] offset_nonzero [OF rb, of 79] offset_nonzero [OF rb, of 39] by simp_all
  define t2 where "t2 = u\<lparr>heap := s2\<rparr>"
  have d: "deallocCalled (heap t2)" "alg (heap t2) = FIRST_FIT" "blks (mem (heap t2)) (head (heap t2)) [(b + 100, 20), (b + 60, 20), (b + 20, 20), (b + 220, 20)]"
    using s2(2-4) s1(5) g by (simp_all add: t2_def same_rest_def)
  have "\<exists>t'. rbind (reuse_case 162 3 (b + 100 + 16) t2) (\<lambda>t. rbind (reuse_case 163 3 (b + 60 + 16) t) (\<lambda>t. reuse_case 164 3 (b + 20 + 16) t)) = ret t'
    \<and> gain 3 30 t2 t' \<and> same_rest (heap t2) (heap t')"
    using nz by (intro three_picks [OF d(1,3,2)]) (simp_all add: picks_def rest_of_def policy_def apart_iff add.assoc small_rest)
  then obtain t' where t': "rbind (reuse_case 162 3 (b + 100 + 16) t2) (\<lambda>t. rbind (reuse_case 163 3 (b + 60 + 16) t) (\<lambda>t. reuse_case 164 3 (b + 20 + 16) t)) = ret t'"
    "gain 3 30 t2 t'" "same_rest (heap t2) (heap t')" by blast
  have r: "same_rest s1 (heap t')" using s2(3) t'(3) by (auto simp: t2_def same_rest_def)
  have "heap_origin s1 = b" "brk s1 = b + 256" "b \<noteq> 0" "unat b + 4096 \<le> unat (brk_max s1)"
    using sg s s1(4) by (simp_all add: seg_def grown_def)
  with r have "ready (heap t') b" by (rule ready_rest)
  moreover have "test_first_fit_algorithm t = ret t'"
    using s2(1) t'(1) by (simp only: test_first_fit_algorithm_def s1' p_def [symmetric] rbind_ret prod.case Let_def u_def [symmetric] q t2_def)
  moreover have "gain 13 40 t t'" using gain_trans [OF u, of 3 30 t'] t'(2) by (simp add: t2_def)
  ultimately show ?thesis using r s1(4) by (auto simp: same_rest_def)
qed
text \<open>Best and worst fit start with the same blocks: block \<open>i\<close> has \<open>i + 1\<close> bytes.\<close>

lemma uneven:
  assumes s: "grown (heap t) b 256 0"
  shows "\<exists>p s1 u s2. gather (\<lambda>i. t_alloc (of_nat (i + 1))) [0..<11] t = ret (p, t\<lparr>heap := s1\<rparr>)
    \<and> u = fold (\<lambda>i. TEST l (p ! (i + 1) - p ! i = HEADER_SIZE + of_nat i + 1) 1) [0..<10] (t\<lparr>heap := s1\<rparr>) \<and> gain 10 10 t u
    \<and> p ! 3 = b + 54 + 16 \<and> p ! 5 = b + 95 + 16 \<and> p ! 7 = b + 140 + 16 \<and> t_dealloc_all [p ! 1, p ! 3, p ! 5, p ! 7] u = ret (u\<lparr>heap := s2\<rparr>)
    \<and> blks (mem s2) (head s2) [(b + 140, 24), (b + 95, 22), (b + 54, 20), (b + 17, 18)] \<and> deallocCalled s2
    \<and> alg s2 = alg (heap t) \<and> heap_origin s2 = b \<and> brk s2 = b + 256 \<and> brk_max s2 = brk_max (heap t)"
proof -
  let ?sz = "\<lambda>i :: nat. i + 1"
  have rb: "room_behind b" using grow_room [OF s, of 0] by simp
  have pos: "pos ?sz 1 = 17" "pos ?sz 3 = 54" "pos ?sz 5 = 95" "pos ?sz 7 = 140" "pos ?sz 10 = 215" by (simp_all add: pos_step)
  have lt: "?sz 0 \<le> 200" "pos ?sz 10 < 240" unfolding pos by simp_all
  from cuts [OF start_fresh [OF s] lt] obtain s0 where s0:
    "gather (\<lambda>i. t_alloc (of_nat (i + 1))) [0..<10] t = ret (map (\<lambda>i. b + of_nat (pos ?sz i + 16)) [0..<10], t\<lparr>heap := s0\<rparr>)"
    "if (10 :: nat) = 0 then s0 = heap t else seg s0 b 256 (pos ?sz 10)"
    "\<forall>i<10. size_at (mem s0) (b + of_nat (pos ?sz i)) = of_nat (i + 1 + 16)" "brk_max s0 = brk_max (heap t)" "alg s0 = alg (heap t)" by blast
  have sg: "seg s0 b 256 215" using s0(2) unfolding pos by simp
  define s1 where "s1 = s0\<lparr>head := 0\<rparr>"
  define p where "p = map (\<lambda>i. b + of_nat (pos ?sz i + 16)) [0..<10] @ [b + 231]"
  have "of_nat (10 + 1) = (11 :: cint)" by simp
  then have "gather (\<lambda>i. t_alloc (of_nat (i + 1))) [10] (t\<lparr>heap := s0\<rparr>) = ret ([b + 231], t\<lparr>heap := s1\<rparr>)"
    using last_small [OF sg rb] by (simp add: t_alloc_def s1_def)
  moreover have "[0..<11] = [0..<10] @ [10 :: nat]" by (simp add: upt_rec)
  ultimately have all: "gather (\<lambda>i. t_alloc (of_nat (i + 1))) [0..<11] t = ret (p, t\<lparr>heap := s1\<rparr>)"
    using s0(1) by (simp only: gather_append rbind_ret prod.case p_def)
  have pi: "p ! i = b + of_nat (pos ?sz i + 16)" if "i < 11" for i
  proof (cases "i < 10")
    case False
    with that have i: "i = 10" by simp
    have "p ! 10 = b + 231" by (simp add: p_def nth_append)
    then show ?thesis unfolding i pos by simp
  qed (simp add: p_def nth_append)
  define u where "u = fold (\<lambda>i. TEST l (p ! (i + 1) - p ! i = HEADER_SIZE + of_nat i + 1) 1) [0..<10] (t\<lparr>heap := s1\<rparr>)"
  have "gain 10 10 (t\<lparr>heap := s1\<rparr>) u" unfolding u_def
    by (rule distances [of p b ?sz]) (simp_all only: pi, simp_all add: HEADER_SIZE_def ac_simps)
  then have u: "gain 10 10 t u" by (simp only: gain_heap)
  have hu: "heap u = s1" by (simp only: u_def fold_TEST_heap) simp
  have bl: "blks (mem (heap u)) (head (heap u)) (blocks_at b [])" by (simp add: hu s1_def blocks_at_def)
  let ?bs = "[(17, 18), (54, 20), (95, 22), (140, 24)] :: (nat \<times> nat) list"
  have sz: "\<forall>(k, n) \<in> set ?bs. size_at (mem (heap u)) (b + of_nat k) = of_nat n"
    using s0(3) [rule_format, of 1] s0(3) [rule_format, of 3] s0(3) [rule_format, of 5] s0(3) [rule_format, of 7]
    unfolding pos by (simp add: hu s1_def)
  have "spaced (rev ?bs @ [])" by (simp add: spaced_def gap_def)
  from release_spaced [OF rb bl this sz] obtain s2 where s2: "t_dealloc_all [p ! 1, p ! 3, p ! 5, p ! 7] u = ret (u\<lparr>heap := s2\<rparr>)"
    "blks (mem s2) (head s2) [(b + 140, 24), (b + 95, 22), (b + 54, 20), (b + 17, 18)]" "same_rest s1 s2" "deallocCalled s2"
    using pi [of 1] pi [of 3] pi [of 5] pi [of 7] hu unfolding pos by (auto simp: blocks_at_def)
  have "p ! 3 = b + 54 + 16" "p ! 5 = b + 95 + 16" "p ! 7 = b + 140 + 16" using pi [of 3] pi [of 5] pi [of 7] unfolding pos by (simp_all add: add.assoc)
  moreover have "alg s2 = alg (heap t)" "heap_origin s2 = b" "brk s2 = b + 256" "brk_max s2 = brk_max (heap t)"
    using s2(3) sg s0(4,5) by (simp_all add: same_rest_def s1_def seg_def)
  ultimately show ?thesis using all u u_def s2(1,2,4) by blast
qed

lemma uneven_passes:
  assumes s: "grown (heap t) b 256 0" and g: "alg (heap t) = g"
    and xs: "xs = [(b + 140, 24), (b + 95, 22), (b + 54, 20), (b + 17, 18)]"
    and pk: "picks g xs n1 (b + 140)" "picks g (rest_of (b + 140) (sext n1 + 16) xs) n2 (b + 95)"
      "picks g (rest_of (b + 95) (sext n2 + 16) (rest_of (b + 140) (sext n1 + 16) xs)) n3 (b + 54)"
  shows "\<exists>t'. rbind (gather (\<lambda>i. t_alloc (of_nat (i + 1))) [0..<11] (title nm t)) (\<lambda>(p, t).
      let t = fold (\<lambda>i. TEST l (p ! (i + 1) - p ! i = HEADER_SIZE + of_nat i + 1) 1) [0..<10] t
      in rbind (t_dealloc_all [p ! 1, p ! 3, p ! 5, p ! 7] t) (\<lambda>t. rbind (reuse_case l1 n1 (p ! 7) t) (\<lambda>t.
         rbind (reuse_case l2 n2 (p ! 5) t) (\<lambda>t. reuse_case l3 n3 (p ! 3) t)))) = ret t'
    \<and> gain 13 40 t t' \<and> ready (heap t') b \<and> brk_max (heap t') = brk_max (heap t)"
proof -
  have "grown (heap (title nm t)) b 256 0" using s by simp
  from uneven [OF this, of l] obtain p s1 u s2 where u: "gather (\<lambda>i. t_alloc (of_nat (i + 1))) [0..<11] (title nm t) = ret (p, (title nm t)\<lparr>heap := s1\<rparr>)"
    "u = fold (\<lambda>i. TEST l (p ! (i + 1) - p ! i = HEADER_SIZE + of_nat i + 1) 1) [0..<10] ((title nm t)\<lparr>heap := s1\<rparr>)" "gain 10 10 (title nm t) u"
    "p ! 3 = b + 54 + 16" "p ! 5 = b + 95 + 16" "p ! 7 = b + 140 + 16" "t_dealloc_all [p ! 1, p ! 3, p ! 5, p ! 7] u = ret (u\<lparr>heap := s2\<rparr>)"
    "blks (mem s2) (head s2) xs" "deallocCalled s2" "alg s2 = alg (heap (title nm t))" "heap_origin s2 = b" "brk s2 = b + 256"
    "brk_max s2 = brk_max (heap (title nm t))" unfolding xs by blast
  define t2 where "t2 = u\<lparr>heap := s2\<rparr>"
  have d: "deallocCalled (heap t2)" "alg (heap t2) = g" "blks (mem (heap t2)) (head (heap t2)) xs"
    using u(8-10) g by (simp_all add: t2_def)
  from three_picks [OF d(1,3,2) pk, of l1 l2 l3] obtain t' where t':
    "rbind (reuse_case l1 n1 (p ! 7) t2) (\<lambda>t. rbind (reuse_case l2 n2 (p ! 5) t) (\<lambda>t. reuse_case l3 n3 (p ! 3) t)) = ret t'"
    "gain 3 30 t2 t'" "same_rest (heap t2) (heap t')" unfolding u(4-6) by blast
  have r: "same_rest s2 (heap t')" using t'(3) by (simp add: t2_def)
  have "b \<noteq> 0" "unat b + 4096 \<le> unat (brk_max s2)" using s u(13) by (simp_all add: grown_def)
  with r u(11,12) have "ready (heap t') b" by (intro ready_rest)
  moreover have "gain 13 40 t t'" using gain_trans [OF u(3), of 3 30 t'] t'(2) by (simp add: t2_def)
  moreover have "brk_max (heap t') = brk_max (heap t)" using r u(13) by (simp add: same_rest_def)
  ultimately show ?thesis
    using u(7) t'(1) by (simp only: u(1) rbind_ret prod.case Let_def u(2) [symmetric] t2_def) blast
qed

lemma best_fit_algorithm_passes:
  assumes s: "grown (heap t) b 256 0" and g: "alg (heap t) = BEST_FIT"
  shows "\<exists>t'. test_best_fit_algorithm t = ret t' \<and> gain 13 40 t t' \<and> ready (heap t') b \<and> brk_max (heap t') = brk_max (heap t)"
proof -
  have "room_behind b" using grow_room [OF s, of 0] by simp
  from offset_nonzero [OF this, of 163] offset_nonzero [OF this, of 116] offset_nonzero [OF this, of 73] show ?thesis
    unfolding test_best_fit_algorithm_def
    by (intro uneven_passes [OF s g refl])
      (simp_all add: picks_def rest_of_def policy_def best_pick_def apart_iff add.assoc small_rest)
qed

lemma worst_fit_algorithm_passes:
  assumes s: "grown (heap t) b 256 0" and g: "alg (heap t) = WORST_FIT"
  shows "\<exists>t'. test_worst_fit_algorithm t = ret t' \<and> gain 13 40 t t' \<and> ready (heap t') b \<and> brk_max (heap t') = brk_max (heap t)"
proof -
  have "room_behind b" using grow_room [OF s, of 0] by simp
  from offset_nonzero [OF this, of 159] offset_nonzero [OF this, of 114] offset_nonzero [OF this, of 73] show ?thesis
    unfolding test_worst_fit_algorithm_def
    by (intro uneven_passes [OF s g refl])
      (simp_all add: picks_def rest_of_def policy_def worst_pick_def apart_iff add.assoc small_rest)
qed

section \<open>The program\<close>

lemma alg_allocopt [simp]: "alg (allocopt g n s) = g"
  by (simp add: allocopt_def Let_def)

lemma allocopt_heap [simp]: "heap (t_allocopt g n t) = allocopt g n (heap t)" "gain k p (t_allocopt g n t) t' = gain k p t t'"
  by (simp_all add: t_allocopt_def)

text \<open>One test under one policy: what it moves the break by, how many successes and points it gives.\<close>

definition test_under :: "nat \<Rightarrow> nat \<Rightarrow> nat \<Rightarrow> (tester \<Rightarrow> tester run) \<Rightarrow> bool" where
  "test_under d k p f \<longleftrightarrow> (\<forall>t b. ready (heap t) b \<and> unat b + 4096 + d \<le> unat (brk_max (heap t)) \<longrightarrow>
     (\<exists>t'. f t = ret t' \<and> gain k p t t' \<and> ready (heap t') (b + of_nat d) \<and> brk_max (heap t') = brk_max (heap t)))"

lemma test_underI:
  assumes "\<And>(t :: tester) b. grown (heap t) b n 0 \<Longrightarrow> alg (heap t) = g \<Longrightarrow> unat b + 4096 + d \<le> unat (brk_max (heap t))
      \<Longrightarrow> \<exists>t'. f t = ret t' \<and> gain k p t t' \<and> ready (heap t') (b + of_nat d) \<and> brk_max (heap t') = brk_max (heap t)"
    and n: "n < 2 ^ 31" and f': "\<And>t. f' t = f (t_allocopt g (of_nat n) t)"
  shows "test_under d k p f'"
  unfolding test_under_def f'
proof (intro allI impI)
  fix t :: tester and b assume r: "ready (heap t) b \<and> unat b + 4096 + d \<le> unat (brk_max (heap t))"
  let ?t = "t_allocopt g (of_nat n) t"
  have "grown (heap ?t) b n 0" "alg (heap ?t) = g" "unat b + 4096 + d \<le> unat (brk_max (heap ?t))"
    using grown_start [of "heap t" b n g] r n by simp_all
  from assms(1) [OF this] show "\<exists>t'. f ?t = ret t' \<and> gain k p t t' \<and> ready (heap t') (b + of_nat d) \<and> brk_max (heap t') = brk_max (heap t)"
    by simp
qed

lemma second_tests:
  "test_under 0 13 40 (test_first_fit 1)" "test_under 0 13 40 (test_best_fit 1)" "test_under 0 13 40 (test_worst_fit 1)"
  by (rule test_underI [where n = 256 and g = FIRST_FIT and f = test_first_fit_algorithm],
      simp add: first_fit_algorithm_passes, simp, simp add: test_first_fit_def,
      rule test_underI [where n = 256 and g = BEST_FIT and f = test_best_fit_algorithm],
      simp add: best_fit_algorithm_passes, simp, simp add: test_best_fit_def,
      rule test_underI [where n = 256 and g = WORST_FIT and f = test_worst_fit_algorithm],
      simp add: worst_fit_algorithm_passes, simp, simp add: test_worst_fit_def)

lemma grow_under: "f' = (\<lambda>t. test_grow (t_allocopt g 1024 t)) \<Longrightarrow> test_under 768 36 40 f'"
  by (rule test_underI [where n = 1024 and g = g and f = test_grow]) (simp_all add: grow_passes)

lemma sbrk_under: "f' = (\<lambda>t. test_sbrk (t_allocopt g 768 t)) \<Longrightarrow> test_under 0 5 10 f'"
  by (rule test_underI [where n = 768 and g = g and f = test_sbrk]) (simp_all add: sbrk_passes)

lemma later_tests:
  "test_under 768 36 40 (test_first_fit 2)" "test_under 768 36 40 (test_best_fit 2)" "test_under 768 36 40 (test_worst_fit 2)"
  "test_under 0 5 10 (test_first_fit 3)" "test_under 0 5 10 (test_best_fit 3)" "test_under 0 5 10 (test_worst_fit 3)"
  by (rule grow_under sbrk_under, rule ext, simp add: test_first_fit_def test_best_fit_def test_worst_fit_def)+

text \<open>One round of the program: the test under the three policies.\<close>

lemma test_under_round:
  assumes f: "test_under d k p (test_first_fit i)" "test_under d k p (test_best_fit i)" "test_under d k p (test_worst_fit i)"
    and r: "ready (heap t) b" "unat b + 4096 + 3 * d \<le> unat (brk_max (heap t))" "3 * d < 2 ^ 32"
  shows "\<exists>t'. all_tests (i # is) t = all_tests is t' \<and> gain (3 * k) (3 * p) t t' \<and> ready (heap t') (b + of_nat (3 * d))
    \<and> brk_max (heap t') = brk_max (heap t)"
proof -
  have u: "unat (b + of_nat j) = unat b + j" if "j \<le> 3 * d" for j
    using r(2,3) that unat_u64_less [of "brk_max (heap t)"] by (simp add: unat_word_ariths unat_of_nat)
  from f(1) r obtain t1 where t1: "test_first_fit i t = ret t1" "gain k p t t1" "ready (heap t1) (b + of_nat d)"
    "brk_max (heap t1) = brk_max (heap t)" unfolding test_under_def by force
  have "unat (b + of_nat d) + 4096 + d \<le> unat (brk_max (heap t1))" using u [of d] r(2) t1(4) by simp
  with f(2) t1(3) obtain t2 where t2: "test_best_fit i t1 = ret t2" "gain k p t1 t2" "ready (heap t2) (b + of_nat d + of_nat d)"
    "brk_max (heap t2) = brk_max (heap t1)" unfolding test_under_def by blast
  have "unat (b + of_nat d + of_nat d) + 4096 + d \<le> unat (brk_max (heap t2))" using u [of "d + d"] r(2) t1(4) t2(4) by (simp add: add.assoc)
  with f(3) t2(3) obtain t3 where t3: "test_worst_fit i t2 = ret t3" "gain k p t2 t3" "ready (heap t3) (b + of_nat d + of_nat d + of_nat d)"
    "brk_max (heap t3) = brk_max (heap t2)" unfolding test_under_def by blast
  have "b + of_nat d + of_nat d + of_nat d = b + of_nat (3 * d)" by (simp add: algebra_simps)
  with t3(3) have "ready (heap t3) (b + of_nat (3 * d))" by (simp only:)
  moreover have "gain (3 * k) (3 * p) t t3" using gain_trans [OF t1(2) gain_trans [OF t2(2) t3(2)]] by (simp add: numeral_3_eq_3 add.assoc)
  ultimately show ?thesis using t1(1,4) t2(1,4) t3(1,4) by (intro exI [of _ t3]) simp
qed

text \<open>The first round also needs, and keeps, zeroes behind the first increment.\<close>

lemma space_under:
  assumes r: "ready (heap t) b" and z: "size_at (mem (heap t)) (b + 256) = 0" "next_at (mem (heap t)) (b + 256) = 0"
  shows "\<exists>t'. test_correct_space_allocation (t_allocopt g 256 t) = ret t' \<and> gain 28 40 t t' \<and> ready (heap t') b
    \<and> size_at (mem (heap t')) (b + 256) = 0 \<and> next_at (mem (heap t')) (b + 256) = 0 \<and> brk_max (heap t') = brk_max (heap t)"
  using space_allocation_passes [of "t_allocopt g 256 t" b] grown_start [OF r, of 256 g] z by simp

lemma first_round:
  assumes r: "ready (heap t) b" and z: "size_at (mem (heap t)) (b + 256) = 0" "next_at (mem (heap t)) (b + 256) = 0"
  shows "\<exists>t'. all_tests (0 # is) t = all_tests is t' \<and> gain 84 120 t t' \<and> ready (heap t') b \<and> brk_max (heap t') = brk_max (heap t)"
proof -
  from space_under [OF r z, of FIRST_FIT] obtain t1 where t1: "test_first_fit 0 t = ret t1" "gain 28 40 t t1" "ready (heap t1) b"
    "size_at (mem (heap t1)) (b + 256) = 0" "next_at (mem (heap t1)) (b + 256) = 0" "brk_max (heap t1) = brk_max (heap t)"
    by (auto simp: test_first_fit_def)
  from space_under [OF t1(3-5), of BEST_FIT] obtain t2 where t2: "test_best_fit 0 t1 = ret t2" "gain 28 40 t1 t2" "ready (heap t2) b"
    "size_at (mem (heap t2)) (b + 256) = 0" "next_at (mem (heap t2)) (b + 256) = 0" "brk_max (heap t2) = brk_max (heap t1)"
    by (auto simp: test_best_fit_def)
  from space_under [OF t2(3-5), of WORST_FIT] obtain t3 where t3: "test_worst_fit 0 t2 = ret t3" "gain 28 40 t2 t3" "ready (heap t3) b"
    "brk_max (heap t3) = brk_max (heap t2)" by (auto simp: test_worst_fit_def)
  have "gain 84 120 t t3" using gain_trans [OF t1(2) gain_trans [OF t2(2) t3(2)]] by simp
  then show ?thesis using t1(1,6) t2(1,6) t3(1,3,4) by (intro exI [of _ t3]) simp
qed

text \<open>The rounds one after the other.\<close>

lemma main_tests_score:
  assumes "b \<noteq> 0" "unat b + 6400 \<le> unat bmax" "length argv \<noteq> 3"
  shows "\<exists>t. main_tests b bmax argv = ret t \<and> SUCCESS_CASES t = 246 \<and> TOTAL_SCORE t = 390 \<and> (\<forall>n. Failed n \<notin> set (reports t))"
proof -
  define t where "t = \<lparr>heap = init_state b bmax, SUCCESS_CASES = 0, TOTAL_SCORE = 0, reports = []\<rparr>"
  have r: "ready (heap t) b" "brk_max (heap t) = bmax" "size_at (mem (heap t)) (b + 256) = 0" "next_at (mem (heap t)) (b + 256) = 0"
    using assms by (simp_all add: t_def ready_def init_state_def resetalloc_def size_at_def next_at_def)
  from first_round [OF r(1,3,4), of "[1, 2, 3]"] obtain t1 where t1: "all_tests [0, 1, 2, 3] t = all_tests [1, 2, 3] t1" "gain 84 120 t t1"
    "ready (heap t1) b" "brk_max (heap t1) = bmax" using r(2) by auto
  have "unat b + 4096 + 3 * 0 \<le> unat (brk_max (heap t1))" using assms(2) t1(4) by simp
  from test_under_round [OF second_tests t1(3) this, of "[2, 3]"] obtain t2 where t2: "all_tests [1, 2, 3] t1 = all_tests [2, 3] t2"
    "gain 39 120 t1 t2" "ready (heap t2) b" "brk_max (heap t2) = bmax" using t1(4) by auto
  have "unat b + 4096 + 3 * 768 \<le> unat (brk_max (heap t2))" using assms(2) t2(4) by simp
  from test_under_round [OF later_tests(1-3) t2(3) this, of "[3]"] obtain t3 where t3: "all_tests [2, 3] t2 = all_tests [3] t3"
    "gain 108 120 t2 t3" "ready (heap t3) (b + of_nat (3 * 768))" "brk_max (heap t3) = bmax" using t2(4) by auto
  have "unat (b + of_nat (3 * 768)) + 4096 + 3 * 0 \<le> unat (brk_max (heap t3))"
    using assms(2) t3(4) unat_u64_less [of bmax] by (simp add: unat_word_ariths)
  from test_under_round [OF later_tests(4-6) t3(3) this, of "[]"] obtain t4 where t4: "all_tests [3] t3 = ret t4" "gain 15 30 t3 t4"
    by auto
  have "main_tests b bmax argv = ret t4" using assms(3) t1(1) t2(1) t3(1) t4(1) by (simp only: main_tests_def t_def [symmetric] Let_def simp_thms if_True)
  moreover have "gain 246 390 t t4" using gain_trans [OF t1(2) gain_trans [OF t2(2) gain_trans [OF t3(2) t4(2)]]] by simp
  then have "SUCCESS_CASES t4 = 246" "TOTAL_SCORE t4 = 390" "filter is_Failed (reports t4) = []" by (simp_all add: gain_def t_def)
  moreover from this(3) have "Failed n \<notin> set (reports t4)" for n by (auto simp: filter_empty_conv)
  ultimately show ?thesis by blast
qed

text \<open>
  Property C16. The test program passes: without two arguments it returns with 246 successful tests, the
  number the program announces, 390 points and no failed test, whatever the break is at the start.
\<close>

theorem main_tests_pass:
  assumes "b \<noteq> 0" "unat b + 6400 \<le> unat bmax" "length argv \<noteq> 3"
  shows "\<exists>t. main_tests b bmax argv = ret t \<and> SUCCESS_CASES t = 246 \<and> TOTAL_SCORE t = 390 \<and> (\<forall>n. Failed n \<notin> set (reports t))"
  by (rule main_tests_score [OF assms])

theorem main_tests_pass_witness: "\<exists>t. main_tests 4096 65536 [] = ret t \<and> SUCCESS_CASES t = 246 \<and> TOTAL_SCORE t = 390
    \<and> (\<forall>n. Failed n \<notin> set (reports t))"
  by (rule main_tests_pass) simp_all

end
