(* ===== verification/Alloc_Tests3.thy ===== *)
theory Alloc_Tests3
  imports Alloc_Tests_Pass
begin

text \<open>
  \<open>lecture/test2/main3.c\<close>, the test program of the allocator without the titles, and its equivalence
  with \<open>main2.c\<close>: both give the same score on every break and for all arguments.
\<close>

section \<open>The tests without titles\<close>

definition free_size_test3 :: "nat \<Rightarrow> nat \<Rightarrow> tester \<Rightarrow> tester run" where
  "free_size_test3 line i t = rbind (t_free_size t) (\<lambda>n.
     ret (TEST line (n = INCREMENT - HEADER_SIZE - (8 + HEADER_SIZE) * of_nat (i + 1)) 1 t))"

definition space_step3 :: "nat \<Rightarrow> tester \<Rightarrow> (u64 \<times> tester) run" where
  "space_step3 i t = rbind (t_alloc 8 t) (\<lambda>(ptr, t).
     if ptr = 0 then ret (ptr, t)
     else let t = store_ints ptr t
       in if i < 4 then rbind (free_size_test3 49 i (TEST 46 (block_size t ptr = 8 + HEADER_SIZE) 1 t)) (\<lambda>t. ret (ptr, t))
          else if i = 9 then rbind (free_size_test3 56 i (TEST 54 (block_size t ptr = 40) 1 t)) (\<lambda>t. ret (ptr, t))
          else ret (ptr, t))"

definition content_tests3 :: "nat \<Rightarrow> nat \<Rightarrow> u64 \<Rightarrow> tester \<Rightarrow> tester" where
  "content_tests3 line0 line1 ptr t = (let t = TEST line0 (int_at t ptr = 0) 1 t in TEST line1 (int_at t (ptr + 4) = 1) 1 t)"

definition test_correct_space_allocation3 :: "tester \<Rightarrow> tester run" where
  "test_correct_space_allocation3 t =
    rbind (gather space_step3 [0..<11] t) (\<lambda>(p, t).
      let t = fold (\<lambda>i. if i < 10 then TEST 66 (p ! i \<noteq> 0) 1 else TEST 68 (p ! i = 0) 5) [5..<11] t
      in rbind (t_free_size t) (\<lambda>n.
        let t = TEST 72 (n = 0) 5 t;
            t = fold (\<lambda>i. if p ! i \<noteq> 0 then content_tests3 76 77 (p ! i) else (\<lambda>t. t)) [5..<11] t
        in rbind (t_dealloc_all (filter (\<lambda>q. q \<noteq> 0) p) t) (\<lambda>t.
           rbind (t_free_size t) (\<lambda>n. ret (TEST 88 (n = 240) 5 t)))))"

definition grow_step3 :: "nat \<Rightarrow> tester \<Rightarrow> (u64 \<times> tester) run" where
  "grow_step3 i t = rbind (t_alloc 8 t) (\<lambda>(ptr, t).
     if ptr = 0 then fail NullDeref
     else let t = store_ints ptr t
       in if 30 \<le> i \<and> i < 40
          then let t = (if i < 39 then TEST 102 (block_size t ptr = 8 + HEADER_SIZE) 1 t
                        else if i = 39 then TEST 105 (block_size t ptr = 40) 1 t else t)
            in rbind (free_size_test3 108 (i mod 10) t) (\<lambda>t. ret (ptr, t))
          else ret (ptr, t))"

definition test_grow3 :: "tester \<Rightarrow> tester run" where
  "test_grow3 t = rbind (gather grow_step3 [0..<40] t) (\<lambda>(p, t).
     let t = fold (\<lambda>i t. content_tests3 118 119 (p ! i) (TEST 116 (p ! i \<noteq> 0) 1 t)) [35..<40] t
     in rbind (t_dealloc_all p t) (\<lambda>t. rbind (t_free_size t) (\<lambda>n. ret (TEST 127 (n = 1008) 5 t))))"

definition sbrk_case3 :: "nat \<Rightarrow> u64 \<Rightarrow> u64 \<Rightarrow> tester \<Rightarrow> tester" where
  "sbrk_case3 line ptr expect t = TEST line (ptr \<noteq> 0 \<and> fst (sbrk 0 (heap t)) = expect) 2 t"

definition test_sbrk3 :: "tester \<Rightarrow> tester run" where
  "test_sbrk3 t = (let base = fst (sbrk 0 (heap t))
    in rbind (t_alloc 1 t) (\<lambda>(ptr, t).
       rbind (t_alloc 1 (sbrk_case3 133 ptr (base + INCREMENT) t)) (\<lambda>(ptr, t).
       rbind (t_alloc 256 (sbrk_case3 135 ptr (base + INCREMENT) t)) (\<lambda>(ptr, t).
       rbind (t_alloc 256 (sbrk_case3 137 ptr (base + INCREMENT * 2) t)) (\<lambda>(_, t).
       rbind (t_alloc 1 (sbrk_case3 139 ptr (base + INCREMENT * 3) t)) (\<lambda>(_, t).
         ret (sbrk_case3 141 ptr (base + INCREMENT * 3) t)))))))"

definition reuse_case3 :: "nat \<Rightarrow> cint \<Rightarrow> u64 \<Rightarrow> tester \<Rightarrow> tester run" where
  "reuse_case3 line n q t = rbind (t_alloc n t) (\<lambda>(ptr, t). ret (TEST line (ptr = q) 10 t))"

definition test_first_fit_algorithm3 :: "tester \<Rightarrow> tester run" where
  "test_first_fit_algorithm3 t =
    rbind (gather (\<lambda>i. t_alloc 4) [0..<11] t) (\<lambda>(p, t).
      let t = fold (\<lambda>i. TEST 151 (p ! (i + 1) - p ! i = 20) 1) [0..<10] t
      in rbind (t_dealloc_all [p ! 1, p ! 3, p ! 5] t) (\<lambda>t.
         rbind (reuse_case3 158 3 (p ! 5) t) (\<lambda>t.
         rbind (reuse_case3 159 3 (p ! 3) t) (\<lambda>t. reuse_case3 160 3 (p ! 1) t))))"

definition test_best_fit_algorithm3 :: "tester \<Rightarrow> tester run" where
  "test_best_fit_algorithm3 t =
    rbind (gather (\<lambda>i. t_alloc (of_nat (i + 1))) [0..<11] t) (\<lambda>(p, t).
      let t = fold (\<lambda>i. TEST 186 (p ! (i + 1) - p ! i = HEADER_SIZE + of_nat i + 1) 1) [0..<10] t
      in rbind (t_dealloc_all [p ! 1, p ! 3, p ! 5, p ! 7] t) (\<lambda>t.
         rbind (reuse_case3 194 7 (p ! 7) t) (\<lambda>t.
         rbind (reuse_case3 195 5 (p ! 5) t) (\<lambda>t. reuse_case3 196 3 (p ! 3) t))))"

definition test_worst_fit_algorithm3 :: "tester \<Rightarrow> tester run" where
  "test_worst_fit_algorithm3 t =
    rbind (gather (\<lambda>i. t_alloc (of_nat (i + 1))) [0..<11] t) (\<lambda>(p, t).
      let t = fold (\<lambda>i. TEST 222 (p ! (i + 1) - p ! i = HEADER_SIZE + of_nat i + 1) 1) [0..<10] t
      in rbind (t_dealloc_all [p ! 1, p ! 3, p ! 5, p ! 7] t) (\<lambda>t.
         rbind (reuse_case3 230 3 (p ! 7) t) (\<lambda>t.
         rbind (reuse_case3 231 3 (p ! 5) t) (\<lambda>t. reuse_case3 232 3 (p ! 3) t))))"

section \<open>The program without titles\<close>

definition test_first_fit3 :: "int \<Rightarrow> tester \<Rightarrow> tester run" where
  "test_first_fit3 i t =
    (if i = 0 then test_correct_space_allocation3 (t_allocopt FIRST_FIT 256 t)
     else if i = 1 then test_first_fit_algorithm3 (t_allocopt FIRST_FIT 256 t)
     else if i = 2 then test_grow3 (t_allocopt FIRST_FIT 1024 t)
     else if i = 3 then test_sbrk3 (t_allocopt FIRST_FIT 768 t) else ret t)"

definition test_best_fit3 :: "int \<Rightarrow> tester \<Rightarrow> tester run" where
  "test_best_fit3 i t =
    (if i = 0 then test_correct_space_allocation3 (t_allocopt BEST_FIT 256 t)
     else if i = 1 then test_best_fit_algorithm3 (t_allocopt BEST_FIT 256 t)
     else if i = 2 then test_grow3 (t_allocopt BEST_FIT 1024 t)
     else if i = 3 then test_sbrk3 (t_allocopt BEST_FIT 768 t) else ret t)"

definition test_worst_fit3 :: "int \<Rightarrow> tester \<Rightarrow> tester run" where
  "test_worst_fit3 i t =
    (if i = 0 then test_correct_space_allocation3 (t_allocopt WORST_FIT 256 t)
     else if i = 1 then test_worst_fit_algorithm3 (t_allocopt WORST_FIT 256 t)
     else if i = 2 then test_grow3 (t_allocopt WORST_FIT 1024 t)
     else if i = 3 then test_sbrk3 (t_allocopt WORST_FIT 768 t) else ret t)"

fun all_tests3 :: "int list \<Rightarrow> tester \<Rightarrow> tester run" where
  "all_tests3 [] t = ret t"
| "all_tests3 (i # is) t = rbind (test_first_fit3 i t) (\<lambda>t. rbind (test_best_fit3 i t) (\<lambda>t.
     rbind (test_worst_fit3 i t) (all_tests3 is)))"

definition main_tests3 :: "u64 \<Rightarrow> u64 \<Rightarrow> bytes list \<Rightarrow> tester run" where
  "main_tests3 b bmax argv = (let t = \<lparr>heap = init_state b bmax, SUCCESS_CASES = 0, TOTAL_SCORE = 0, reports = []\<rparr>
    in if length argv \<noteq> 3 then all_tests3 [0, 1, 2, 3] t
       else let caseIndex = atoi (argv ! 1); testIndex = atoi (argv ! 2)
         in if caseIndex = 0 then test_first_fit3 testIndex t
            else if caseIndex = 1 then test_best_fit3 testIndex t
            else if caseIndex = 2 then test_worst_fit3 testIndex t else ret t)"

section \<open>Equivalence\<close>

text \<open>Two testers that differ in their reports only, and results that agree up to a relation.\<close>

definition same_score :: "tester \<Rightarrow> tester \<Rightarrow> bool" where
  "same_score t u \<longleftrightarrow> heap t = heap u \<and> SUCCESS_CASES t = SUCCESS_CASES u \<and> TOTAL_SCORE t = TOTAL_SCORE u"

definition alike :: "('a \<Rightarrow> 'b \<Rightarrow> bool) \<Rightarrow> 'a run \<Rightarrow> 'b run \<Rightarrow> bool" where
  "alike R = rel_option (rel_outcome R)"

abbreviation alike_ptr :: "('a \<times> tester) run \<Rightarrow> ('a \<times> tester) run \<Rightarrow> bool" where
  "alike_ptr \<equiv> alike (rel_prod (=) same_score)"

named_theorems alike_intros \<open>rules that relate two runs of the test programs\<close>

lemma alike_ret [alike_intros]: "R x y \<Longrightarrow> alike R (ret x) (ret y)"
  by (simp add: alike_def ret_def)

lemma alike_fail [alike_intros]: "alike R (fail e) (fail e)"
  by (simp add: alike_def fail_def)

lemma alike_bind:
  assumes "alike R m n" "\<And>x y. R x y \<Longrightarrow> alike S (f x) (g y)"
  shows "alike S (rbind m f) (rbind n g)"
  using assms unfolding alike_def rbind_def
  by (cases m; cases n) (auto split: outcome.split)

lemma alike_bind_ptr [alike_intros]:
  assumes "alike_ptr m n" "\<And>p t u. same_score t u \<Longrightarrow> alike S (f (p, t)) (g (p, u))"
  shows "alike S (rbind m f) (rbind n g)"
  using assms by (auto intro!: alike_bind [of "rel_prod (=) same_score"])

lemma alike_bind_score [alike_intros]:
  assumes "alike same_score m n" "\<And>t u. same_score t u \<Longrightarrow> alike S (f t) (g u)"
  shows "alike S (rbind m f) (rbind n g)"
  using assms by (rule alike_bind)

lemma alike_refl: "(\<And>x. R x x) \<Longrightarrow> alike R m m"
  by (simp add: alike_def option.rel_refl outcome.rel_refl)

lemma alike_free_size [alike_intros]:
  assumes "same_score t u" "\<And>n. alike S (f n) (g n)"
  shows "alike S (rbind (t_free_size t) f) (rbind (t_free_size u) g)"
proof (rule alike_bind [where R = "(=)"])
  show "alike (=) (t_free_size t) (t_free_size u)"
    using assms(1) by (simp add: same_score_def t_free_size_def alike_refl)
qed (use assms(2) in blast)

lemma same_TEST [alike_intros]: "same_score t u \<Longrightarrow> same_score (TEST l f p t) (TEST l' f p u)"
  by (simp add: same_score_def TEST_def print_test_result_def)

lemma same_title: "same_score t u \<Longrightarrow> same_score (title n t) u"
  by (simp add: same_score_def title_def)

lemma same_store_ints [alike_intros]: "same_score t u \<Longrightarrow> same_score (store_ints p t) (store_ints p u)"
  by (simp add: same_score_def store_ints_def)

lemma same_t_allocopt [alike_intros]: "same_score t u \<Longrightarrow> same_score (t_allocopt g n t) (t_allocopt g n u)"
  by (simp add: same_score_def t_allocopt_def)

lemma same_reads:
  "same_score t u \<Longrightarrow> int_at u = int_at t" "same_score t u \<Longrightarrow> block_size u = block_size t"
  "same_score t u \<Longrightarrow> sbrk 0 (heap u) = sbrk 0 (heap t)"
  by (simp_all add: same_score_def int_at_def block_size_def fun_eq_iff)

lemma same_TEST_size [alike_intros]:
  "same_score t u \<Longrightarrow> same_score (TEST l (block_size t p = n) k t) (TEST l' (block_size u p = n) k u)"
  by (simp add: same_reads same_TEST)

lemma same_TEST_int [alike_intros]:
  "same_score t u \<Longrightarrow> same_score (TEST l (int_at t p = n) k t) (TEST l' (int_at u p = n) k u)"
  by (simp add: same_reads same_TEST)

lemma same_fold [alike_intros]:
  "(\<And>i t u. same_score t u \<Longrightarrow> same_score (f i t) (g i u)) \<Longrightarrow> same_score t u \<Longrightarrow> same_score (fold f is t) (fold g is u)"
  by (induction "is" arbitrary: t u) simp_all

lemma alike_t_alloc [alike_intros]: "same_score t u \<Longrightarrow> alike_ptr (t_alloc n t) (t_alloc n u)"
  unfolding t_alloc_def
  by (rule alike_bind [where R = "(=)"]) (auto simp: same_score_def intro!: alike_ret alike_refl)

lemma alike_t_dealloc [alike_intros]: "same_score t u \<Longrightarrow> alike same_score (t_dealloc p t) (t_dealloc p u)"
  unfolding t_dealloc_def
  by (rule alike_bind [where R = "(=)"]) (auto simp: same_score_def intro!: alike_ret alike_refl)

lemma alike_t_dealloc_all [alike_intros]:
  "same_score t u \<Longrightarrow> alike same_score (t_dealloc_all ps t) (t_dealloc_all ps u)"
  by (induction ps arbitrary: t u) (auto intro!: alike_ret alike_bind_score alike_t_dealloc)

lemma alike_gather [alike_intros]:
  assumes "\<And>i t u. same_score t u \<Longrightarrow> alike_ptr (f i t) (g i u)" "same_score t u"
  shows "alike_ptr (gather f is t) (gather g is u)"
  using assms(2) by (induction "is" arbitrary: t u) (auto intro!: alike_ret alike_bind_ptr assms(1))

lemma alike_free_size_test [alike_intros]:
  "same_score t u \<Longrightarrow> alike same_score (free_size_test l i t) (free_size_test3 l' i u)"
  unfolding free_size_test_def free_size_test3_def by (intro alike_intros)

lemma same_content_tests [alike_intros]:
  "same_score t u \<Longrightarrow> same_score (content_tests l0 l1 p t) (content_tests3 k0 k1 p u)"
  unfolding content_tests_def content_tests3_def Let_def by (intro alike_intros)

lemma same_sbrk_case [alike_intros]: "same_score t u \<Longrightarrow> same_score (sbrk_case l p e t) (sbrk_case3 l' p e u)"
  unfolding sbrk_case_def sbrk_case3_def by (auto simp: same_reads intro!: alike_intros)

lemma alike_reuse_case [alike_intros]: "same_score t u \<Longrightarrow> alike same_score (reuse_case l n q t) (reuse_case3 l' n q u)"
  unfolding reuse_case_def reuse_case3_def by (auto intro!: alike_intros)

lemma alike_space_step: "same_score t u \<Longrightarrow> alike_ptr (space_step i t) (space_step3 i u)"
  unfolding space_step_def space_step3_def Let_def by (auto intro!: alike_intros)

lemma alike_grow_step: "same_score t u \<Longrightarrow> alike_ptr (grow_step i t) (grow_step3 i u)"
  unfolding grow_step_def grow_step3_def Let_def by (auto intro!: alike_intros)

text \<open>The six tests: \<open>main2.c\<close> prints a title first.\<close>

lemma alike_correct_space:
  "same_score t u \<Longrightarrow> alike same_score (test_correct_space_allocation t) (test_correct_space_allocation3 u)"
  unfolding test_correct_space_allocation_def test_correct_space_allocation3_def Let_def
  by (auto intro!: alike_intros alike_space_step same_title)

lemma alike_test_grow: "same_score t u \<Longrightarrow> alike same_score (test_grow t) (test_grow3 u)"
  unfolding test_grow_def test_grow3_def Let_def
  by (auto intro!: alike_intros alike_grow_step same_title)

lemma alike_test_sbrk: "same_score t u \<Longrightarrow> alike same_score (test_sbrk t) (test_sbrk3 u)"
proof -
  assume tu: "same_score t u"
  have "sbrk 0 (heap (title ''test_sbrk'' t)) = sbrk 0 (heap u)"
    by (rule same_reads(3) [OF same_title, symmetric]) (rule tu)
  then show ?thesis
    unfolding test_sbrk_def test_sbrk3_def Let_def using tu
    by (auto intro!: alike_intros same_title)
qed

lemma alike_first_fit_algorithm:
  "same_score t u \<Longrightarrow> alike same_score (test_first_fit_algorithm t) (test_first_fit_algorithm3 u)"
  unfolding test_first_fit_algorithm_def test_first_fit_algorithm3_def Let_def
  by (auto intro!: alike_intros same_title)

lemma alike_best_fit_algorithm:
  "same_score t u \<Longrightarrow> alike same_score (test_best_fit_algorithm t) (test_best_fit_algorithm3 u)"
  unfolding test_best_fit_algorithm_def test_best_fit_algorithm3_def Let_def
  by (auto intro!: alike_intros same_title)

lemma alike_worst_fit_algorithm:
  "same_score t u \<Longrightarrow> alike same_score (test_worst_fit_algorithm t) (test_worst_fit_algorithm3 u)"
  unfolding test_worst_fit_algorithm_def test_worst_fit_algorithm3_def Let_def
  by (auto intro!: alike_intros same_title)

lemmas alike_tests = alike_correct_space alike_test_grow alike_test_sbrk alike_first_fit_algorithm
  alike_best_fit_algorithm alike_worst_fit_algorithm

lemma alike_groups:
  assumes "same_score t u"
  shows "alike same_score (test_first_fit i t) (test_first_fit3 i u)"
    "alike same_score (test_best_fit i t) (test_best_fit3 i u)"
    "alike same_score (test_worst_fit i t) (test_worst_fit3 i u)"
  unfolding test_first_fit_def test_first_fit3_def test_best_fit_def test_best_fit3_def test_worst_fit_def test_worst_fit3_def
  using assms by (simp_all add: alike_ret alike_tests same_t_allocopt)

lemma alike_all_tests: "same_score t u \<Longrightarrow> alike same_score (all_tests is t) (all_tests3 is u)"
  by (induction "is" arbitrary: t u) (auto intro!: alike_ret alike_bind_score alike_groups)

text \<open>The two test programs of the allocator agree: from every program break, with every bound
  and for all arguments, \<open>main2.c\<close> and \<open>main3.c\<close> both fail to return, fault alike, or return with the same
  heap, the same number of successful tests and the same score; only the printed text differs.\<close>

theorem main3_agrees: "alike same_score (main_tests b bmax argv) (main_tests3 b bmax argv)"
proof -
  have "same_score t t" for t by (simp add: same_score_def)
  then show ?thesis
    unfolding main_tests_def main_tests3_def Let_def
    by (simp add: alike_ret alike_groups alike_all_tests del: all_tests.simps all_tests3.simps)
qed

text \<open>So \<open>main3.c\<close> passes as well.\<close>

corollary main3_tests_pass:
  assumes "b \<noteq> 0" "unat b + 6400 \<le> unat bmax" "length argv \<noteq> 3"
  shows "\<exists>u. main_tests3 b bmax argv = ret u \<and> SUCCESS_CASES u = 246 \<and> TOTAL_SCORE u = 390"
  using main_tests_score [OF assms] main3_agrees [of b bmax argv]
  by (auto simp: alike_def ret_def same_score_def option_rel_Some1 elim!: outcome.rel_cases)

corollary main3_tests_pass_witness:
  "\<exists>u. main_tests3 4096 65536 [] = ret u \<and> SUCCESS_CASES u = 246 \<and> TOTAL_SCORE u = 390"
  by (rule main3_tests_pass) simp_all

end
