(* ===== verification/Alloc_Demo.thy ===== *)
theory Alloc_Demo
  imports Alloc_Tests_Heap
begin

text \<open>
  \<open>lecture/test2/main.c\<close>: nine blocks are allocated and released again, and the program prints what
  \<open>allocinfo\<close> returns in between and at the end.
\<close>

fun alloc_all :: "nat \<Rightarrow> alloc_state \<Rightarrow> (u64 list \<times> alloc_state) run" where
  "alloc_all 0 s = ret ([], s)"
| "alloc_all (Suc n) s = rbind (alloc_all n s) (\<lambda>(ps, s). rbind (alloc 8 s) (\<lambda>(p, s). ret (ps @ [p], s)))"

fun dealloc_all :: "u64 list \<Rightarrow> alloc_state \<Rightarrow> alloc_state run" where
  "dealloc_all [] s = ret s"
| "dealloc_all (p # ps) s = rbind (dealloc p s) (dealloc_all ps)"

definition main_demo :: "u64 \<Rightarrow> u64 \<Rightarrow> (allocinfo_t \<times> allocinfo_t) run" where
  "main_demo b bmax = rbind (alloc_all 9 (allocopt WORST_FIT 256 (init_state b bmax))) (\<lambda>(p, s).
     rbind (allocinfo s) (\<lambda>before. rbind (dealloc_all p s) (\<lambda>s. rbind (allocinfo s) (\<lambda>after. ret (before, after)))))"

section \<open>The allocations\<close>

definition cut_to :: "alloc_state \<Rightarrow> u64 \<Rightarrow> nat \<Rightarrow> bool" where
  "cut_to s b k \<longleftrightarrow> seg s b 256 (24 * k) \<and> (\<forall>i<k. size_at (mem s) (b + of_nat (24 * i)) = 24)"

lemma cut_more:
  assumes s: "cut_to s b k" and k: "k < 9" and b: "room_behind b"
  shows "\<exists>s'. alloc 8 s = ret (b + of_nat (24 * k + 16), s') \<and> cut_to s' b (Suc k)"
proof -
  have "seg s b 256 (24 * k)" "8 + 16 + 24 * k < 240" using s k by (simp_all add: cut_to_def)
  from cut_step [OF this _ b] obtain s' where s': "alloc 8 s = ret (b + of_nat (24 * k + 16), s')"
    "seg s' b 256 (24 * k + 16 + 8)" "size_at (mem s') (b + of_nat (24 * k)) = of_nat (8 + 16)"
    "same_outside (bytes_of b (24 * k) (24 * k + 8 + 32)) (mem s) (mem s')" by fastforce
  have "size_at (mem s') (b + of_nat (24 * i)) = 24" if "i < Suc k" for i
  proof (cases "i = k")
    case True
    then show ?thesis using s'(3) by simp
  next
    case False
    then have "size_at (mem s') (b + of_nat (24 * i)) = size_at (mem s) (b + of_nat (24 * i))"
      using that k by (intro fields_outside(1) [OF s'(4)]) simp_all
    then show ?thesis using s that False by (simp add: cut_to_def)
  qed
  then have "cut_to s' b (Suc k)" using s'(2) by (simp add: cut_to_def add.commute)
  with s'(1) show ?thesis by blast
qed

lemma alloc_all_cut:
  assumes s: "fresh s b 256"
  shows "0 < k \<Longrightarrow> k \<le> 9 \<Longrightarrow> \<exists>s'. alloc_all k s = ret (map (\<lambda>i. b + of_nat (24 * i + 16)) [0..<k], s') \<and> cut_to s' b k"
proof (induction k)
  case (Suc k)
  show ?case
  proof (cases "k = 0")
    case True
    from first_step [OF s, of 8] obtain s' where "alloc 8 s = ret (b + 16, s')" "seg s' b 256 24" "size_at (mem s') b = 24" by auto
    then show ?thesis using True by (simp add: cut_to_def)
  next
    case False
    with Suc obtain s1 where s1: "alloc_all k s = ret (map (\<lambda>i. b + of_nat (24 * i + 16)) [0..<k], s1)" "cut_to s1 b k" by auto
    have "room_behind b" "k < 9" using s Suc.prems by (simp_all add: fresh_def)
    with cut_more [OF s1(2)] obtain s' where "alloc 8 s1 = ret (b + of_nat (24 * k + 16), s')" "cut_to s' b (Suc k)" by blast
    then show ?thesis using s1(1) by simp
  qed
qed simp

section \<open>The releases\<close>

text \<open>The free list after \<open>k\<close> of them: one block that grows, and the end of the heap, which is merged with
  the last one.\<close>

definition freed :: "u64 \<Rightarrow> nat \<Rightarrow> blk list" where
  "freed b k = (if k = 9 then [(b, 240)] else (if k = 0 then [] else [(b, of_nat (24 * k))]) @ [(b + 216, 24)])"

lemma coalesce_freed:
  assumes k: "k < 9"
  shows "coalesce ((b + of_nat (24 * k), 24) # freed b k) = freed b (Suc k)"
proof -
  consider "k = 0" | "0 < k" "k < 8" | "k = 8" using k by linarith
  then show ?thesis
  proof cases
    case 1
    then show ?thesis by (simp add: freed_def coalesce.simps adjacent_def)
  next
    case 2
    define w where "w = (of_nat (24 * k) :: u64)"
    have "of_nat (24 * k) \<noteq> (of_nat 0 :: u64)" "of_nat (24 * k) \<noteq> (of_nat 216 :: u64)"
      "of_nat (24 * k + 24) \<noteq> (of_nat 0 :: u64)" "of_nat (24 * k + 24) \<noteq> (of_nat 216 :: u64)"
      using 2 by (subst word_offset_eq; simp; presburger)+
    then have w: "w \<noteq> 0" "w \<noteq> 216" "w + 24 \<noteq> 0" "w + 24 \<noteq> 216" by (simp_all add: w_def)
    have e: "b + 216 \<noteq> b" "b \<noteq> b + 216" "b + w \<noteq> b" "b \<noteq> b + w" "b + w \<noteq> b + 216" "b + 216 \<noteq> b + w" "b + 240 \<noteq> b"
      "b + w + 24 \<noteq> b" "b + w + 24 \<noteq> b + 216" "b + (w + 24) \<noteq> b + 216"
      using w by (simp_all add: add.assoc)
    have x: "b + 240 \<noteq> b + w"
    proof -
      have "of_nat (24 * k) \<noteq> (of_nat 240 :: u64)" using 2 by (subst word_offset_eq; simp)
      then show ?thesis by (simp add: w_def)
    qed
    have "merge_any [(b + w, 24), (b, w), (b + 216, 24)] [(b + w, 24), (b, w), (b + 216, 24)] = Some [(b, w + 24), (b + 216, 24)]"
      using w by (simp add: adjacent_def absorb_def put_size_def drop_blk_def e x)
    moreover have "coalesce [(b, w + 24), (b + 216, 24)] = [(b, w + 24), (b + 216, 24)]"
      using w by (subst coalesce.simps) (simp add: adjacent_def e)
    ultimately have "coalesce [(b + w, 24), (b, w), (b + 216, 24)] = [(b, w + 24), (b + 216, 24)]"
      by (subst coalesce.simps) simp
    then show ?thesis using 2 by (simp add: freed_def w_def add.commute)
  next
    case 3
    have "merge_any [(b + 192, 24), (b, 192), (b + 216, 24)] [(b + 192, 24), (b, 192), (b + 216, 24)] = Some [(b, 216), (b + 216, 24)]"
      by (simp add: adjacent_def absorb_def put_size_def drop_blk_def)
    moreover have "merge_any [(b, 216), (b + 216, 24)] [(b, 216), (b + 216, 24)] = Some [(b, 240)]"
      by (simp add: adjacent_def absorb_def put_size_def drop_blk_def)
    moreover have "coalesce [(b, 240)] = [(b, 240)]" by (subst coalesce.simps) (simp add: adjacent_def)
    ultimately have "coalesce [(b + 192, 24), (b, 192), (b + 216, 24)] = [(b, 240)]"
      by (subst coalesce.simps, simp) (subst coalesce.simps, simp)
    then show ?thesis using 3 by (simp add: freed_def)
  qed
qed

lemma freed_apart: "k \<le> i \<Longrightarrow> i < 9 \<Longrightarrow> \<forall>x \<in> fst ` set (freed b k). apart (b + of_nat (24 * i)) x"
  using apart_offsets [of "24 * i" 216 b] apart_offsets [of "24 * i" 0 b] by (auto simp: freed_def)

lemma dealloc_all_freed:
  assumes b: "room_behind b" and s: "cut_to s b 9"
  shows "k \<le> 9 \<Longrightarrow> \<exists>s'. (\<forall>ps. dealloc_all (map (\<lambda>i. b + of_nat (24 * i + 16)) [0..<k] @ ps) s = dealloc_all ps s')
    \<and> blks (mem s') (head s') (freed b k) \<and> limit s' = limit s \<and> (\<forall>i. k \<le> i \<and> i < 9 \<longrightarrow> size_at (mem s') (b + of_nat (24 * i)) = 24)"
proof (induction k)
  case 0
  have "blks (mem s) (head s) [(b + of_nat 216, of_nat (240 - 216))]" using s by (intro seg_blks [of s b 256] b) (simp add: cut_to_def)
  then show ?case using s by (intro exI [of _ s]) (simp add: freed_def cut_to_def)
next
  case (Suc k)
  then obtain s1 where s1: "\<And>ps. dealloc_all (map (\<lambda>i. b + of_nat (24 * i + 16)) [0..<k] @ ps) s = dealloc_all ps s1"
    "blks (mem s1) (head s1) (freed b k)" "limit s1 = limit s" "\<And>i. k \<le> i \<and> i < 9 \<Longrightarrow> size_at (mem s1) (b + of_nat (24 * i)) = 24" by auto
  have k: "k < 9" using Suc.prems by simp
  let ?a = "b + of_nat (24 * k)"
  have nz: "?a \<noteq> 0" "?a + 16 \<noteq> 0"
    using offset_nonzero [OF b, of "24 * k"] offset_nonzero [OF b, of "24 * k + 16"] k by (simp_all add: add.assoc)
  from dealloc_exact [OF s1(2) nz freed_apart [OF order_refl k] s1(4) [OF conjI [OF order_refl k]]]
  obtain s2 where s2: "dealloc (?a + 16) s1 = ret s2" "blks (mem s2) (head s2) (freed b (Suc k))"
    "same_outside (header_area ((?a, 24) # freed b k)) (mem s1) (mem s2)" "same_rest s1 s2"
    unfolding coalesce_freed [OF k] by metis
  have keep: "size_at (mem s2) (b + of_nat (24 * i)) = 24" if i: "Suc k \<le> i" "i < 9" for i
  proof -
    have "apart (b + of_nat (24 * i)) ?a" using i by (intro apart_offsets) simp_all
    then have "\<forall>x \<in> fst ` set ((?a, 24) # freed b k). apart (b + of_nat (24 * i)) x" using freed_apart [of k i b] i by simp
    from apart_outside [OF s2(3) header_area_apart [OF this]] show ?thesis using s1(4) i by simp
  qed
  have "dealloc_all (map (\<lambda>i. b + of_nat (24 * i + 16)) [0..<Suc k] @ ps) s = dealloc_all ps s2" for ps
    using s1(1) [of "(?a + 16) # ps"] s2(1) by (simp add: add.assoc)
  then show ?case using s2(2,4) s1(3) keep by (intro exI [of _ s2]) (simp add: same_rest_def)
qed

text \<open>The program prints one free chunk of 24 bytes while the nine blocks are in use, and one of 240 bytes, all
  of the increment but a header, when they have been released, wherever the break is at the start.\<close>

theorem main_demo_prints:
  assumes "b \<noteq> 0" "unat b + 4096 \<le> unat bmax"
  shows "main_demo b bmax = ret
    (\<lparr>free_size = 24, free_chunks = 1, largest_free_chunk_size = 24, smallest_free_chunk_size = 24\<rparr>,
     \<lparr>free_size = 240, free_chunks = 1, largest_free_chunk_size = 240, smallest_free_chunk_size = 240\<rparr>)"
proof -
  have rb: "room_behind b" using assms unat_u64_less [of bmax] by (simp add: room_behind_def)
  have "fresh (allocopt WORST_FIT 256 (init_state b bmax)) b 256"
    using assms rb by (simp add: fresh_def allocopt_def init_state_def resetalloc_def Let_def)
  from alloc_all_cut [OF this, of 9] obtain s where
    s: "alloc_all 9 (allocopt WORST_FIT 256 (init_state b bmax)) = ret (map (\<lambda>i. b + of_nat (24 * i + 16)) [0..<9], s)" "cut_to s b 9"
    by auto
  have lim: "sext (limit s) = 256" using s(2) limit_unat(2) [of "limit s" 256] by (simp add: cut_to_def seg_def)
  have "blks (mem s) (head s) [(b + of_nat 216, of_nat (240 - 216))]" using s(2) by (intro seg_blks [of s b 256] rb) (simp add: cut_to_def)
  from allocinfo_correct [OF this] lim have before: "allocinfo s =
      ret \<lparr>free_size = 24, free_chunks = 1, largest_free_chunk_size = 24, smallest_free_chunk_size = 24\<rparr>" by simp
  from dealloc_all_freed [OF rb s(2), of 9] obtain s' where
    s': "\<And>ps. dealloc_all (map (\<lambda>i. b + of_nat (24 * i + 16)) [0..<9] @ ps) s = dealloc_all ps s'"
    "blks (mem s') (head s') (freed b 9)" "limit s' = limit s" by auto
  have "dealloc_all (map (\<lambda>i. b + of_nat (24 * i + 16)) [0..<9]) s = ret s'" using s'(1) [of "[]"] by (simp only: append_Nil2 dealloc_all.simps)
  moreover have "allocinfo s' = ret \<lparr>free_size = 240, free_chunks = 1, largest_free_chunk_size = 240, smallest_free_chunk_size = 240\<rparr>"
    using allocinfo_correct [OF s'(2)] s'(3) lim by (simp add: freed_def)
  ultimately show ?thesis unfolding main_demo_def s(1) rbind_ret prod.case before by (simp only: rbind_ret)
qed

theorem main_demo_prints_witness:
  "main_demo 4096 65536 = ret
    (\<lparr>free_size = 24, free_chunks = 1, largest_free_chunk_size = 24, smallest_free_chunk_size = 24\<rparr>,
     \<lparr>free_size = 240, free_chunks = 1, largest_free_chunk_size = 240, smallest_free_chunk_size = 240\<rparr>)"
  by (rule main_demo_prints) simp_all

end
