(* ===== verification/Lecture_Threads.thy ===== *)
theory Lecture_Threads
  imports Base
begin

text \<open>
  Two programs of the lectures on threads. \<open>lecture/deadlock.c\<close>: two threads take the same two mutexes,
  as a transition system over the remaining actions of each thread; because both take them in the same
  order no run gets stuck. \<open>lecture/thread.c\<close>: four threads count in a loop over shared variables without
  a lock; a step is one load or one store (in C such a data race is undefined; here memory is sequentially
  consistent), and what is printed depends on the order of the steps.
\<close>

section \<open>Two mutexes\<close>

datatype mutex = locka | lockb

datatype lock_action = Lock mutex | Unlock mutex | Print string

datatype tid = T1 | T2

text \<open>The order in which both threads take the mutexes.\<close>

instantiation mutex :: linorder
begin

definition less_mutex :: "mutex \<Rightarrow> mutex \<Rightarrow> bool" where
  "less_mutex m n \<longleftrightarrow> m = locka \<and> n = lockb"

definition less_eq_mutex :: "mutex \<Rightarrow> mutex \<Rightarrow> bool" where
  "less_eq_mutex m n \<longleftrightarrow> m = locka \<or> n = lockb"

instance
proof
  fix x y z :: mutex
  show "(x < y) = (x \<le> y \<and> \<not> y \<le> x)" by (cases x; cases y) (simp_all add: less_mutex_def less_eq_mutex_def)
  show "x \<le> x" by (cases x) (simp_all add: less_eq_mutex_def)
  show "x \<le> y \<Longrightarrow> y \<le> z \<Longrightarrow> x \<le> z" by (cases x; cases y; cases z) (simp_all add: less_eq_mutex_def)
  show "x \<le> y \<Longrightarrow> y \<le> x \<Longrightarrow> x = y" by (cases x; cases y) (simp_all add: less_eq_mutex_def)
  show "x \<le> y \<or> y \<le> x" by (cases x; cases y) (simp_all add: less_eq_mutex_def)
qed

end

definition funca :: "lock_action list" where
  "funca = [Lock locka, Print ''inside of thread a'', Lock lockb, Print ''inside of thread a lock b'',
    Unlock lockb, Unlock locka, Print ''exit a'']"

definition funcb :: "lock_action list" where
  "funcb = [Lock locka, Print ''inside of thread b'', Lock lockb, Print ''inside of thread b lock a'',
    Unlock lockb, Unlock locka, Print ''exit b'']"

text \<open>\<open>todo\<close> is what a thread still does, nothing before it is created; \<open>main_does\<close> is what \<open>main\<close> still
  does. An unlock is by the owner in both functions; of another thread's mutex it would be undefined.\<close>

datatype main_action = Create tid "lock_action list" | Join tid

record locks_demo =
  owner :: "mutex \<Rightarrow> tid option"
  todo :: "tid \<Rightarrow> lock_action list"
  main_does :: "main_action list"
  printed :: "string list"

definition main_deadlock :: locks_demo where
  "main_deadlock = \<lparr>owner = (\<lambda>_. None), todo = (\<lambda>_. []),
     main_does = [Create T1 funca, Create T2 funcb, Join T1, Join T2], printed = []\<rparr>"

definition thread_step :: "tid \<Rightarrow> locks_demo \<Rightarrow> locks_demo option" where
  "thread_step t s = (case todo s t of [] \<Rightarrow> None
   | Lock m # rest \<Rightarrow> if owner s m = None then Some (s\<lparr>owner := (owner s)(m := Some t), todo := (todo s)(t := rest)\<rparr>) else None
   | Unlock m # rest \<Rightarrow> Some (s\<lparr>owner := (owner s)(m := None), todo := (todo s)(t := rest)\<rparr>)
   | Print l # rest \<Rightarrow> Some (s\<lparr>todo := (todo s)(t := rest), printed := printed s @ [l]\<rparr>))"

definition main_thread_step :: "locks_demo \<Rightarrow> locks_demo option" where
  "main_thread_step s = (case main_does s of [] \<Rightarrow> None
   | Create t p # rest \<Rightarrow> Some (s\<lparr>todo := (todo s)(t := p), main_does := rest\<rparr>)
   | Join t # rest \<Rightarrow> if todo s t = [] then Some (s\<lparr>main_does := rest\<rparr>) else None)"

inductive demo_step :: "locks_demo \<Rightarrow> locks_demo \<Rightarrow> bool" where
  by_thread: "thread_step t s = Some s' \<Longrightarrow> demo_step s s'"
| by_main: "main_thread_step s = Some s' \<Longrightarrow> demo_step s s'"

inductive_cases demo_step_cases: "demo_step s s'"

inductive demo_run :: "nat \<Rightarrow> locks_demo \<Rightarrow> bool" where
  at_start: "demo_run 0 main_deadlock"
| more: "demo_run n s \<Longrightarrow> demo_step s s' \<Longrightarrow> demo_run (Suc n) s'"

text \<open>A program is disciplined if it takes only mutexes above those it holds, and gives them all back.\<close>

fun disciplined :: "mutex set \<Rightarrow> lock_action list \<Rightarrow> bool" where
  "disciplined H [] \<longleftrightarrow> H = {}"
| "disciplined H (Lock m # p) \<longleftrightarrow> (\<forall>h\<in>H. h < m) \<and> disciplined (insert m H) p"
| "disciplined H (Unlock m # p) \<longleftrightarrow> m \<in> H \<and> disciplined (H - {m}) p"
| "disciplined H (Print l # p) \<longleftrightarrow> disciplined H p"

definition holds :: "locks_demo \<Rightarrow> tid \<Rightarrow> mutex set" where
  "holds s t = {m. owner s m = Some t}"

fun prints :: "lock_action list \<Rightarrow> string list" where
  "prints [] = []"
| "prints (Print l # p) = l # prints p"
| "prints (Lock m # p) = prints p"
| "prints (Unlock m # p) = prints p"

fun still_created :: "main_action list \<Rightarrow> (tid \<times> lock_action list) list" where
  "still_created [] = []"
| "still_created (Create t p # ms) = (t, p) # still_created ms"
| "still_created (Join t # ms) = still_created ms"

definition good :: "locks_demo \<Rightarrow> bool" where
  "good s \<longleftrightarrow> (\<forall>t. disciplined (holds s t) (todo s t)) \<and>
     (\<forall>(t, p)\<in>set (still_created (main_does s)). todo s t = [] \<and> disciplined {} p) \<and>
     distinct (map fst (still_created (main_does s)))"

text \<open>What is left to do, and what will have been printed in the end.\<close>

definition left :: "locks_demo \<Rightarrow> nat" where
  "left s = length (main_does s) + length (todo s T1) + length (todo s T2)
     + length (concat (map snd (still_created (main_does s))))"

definition lines :: "locks_demo \<Rightarrow> string multiset" where
  "lines s = mset (printed s) + mset (prints (todo s T1)) + mset (prints (todo s T2))
     + mset (concat (map (prints \<circ> snd) (still_created (main_does s))))"

lemma good_start: "good main_deadlock"
  by (simp add: good_def main_deadlock_def holds_def funca_def funcb_def less_mutex_def)

lemma holds_lock: "owner s m = None \<Longrightarrow> holds (s\<lparr>owner := (owner s)(m := Some t), todo := f\<rparr>) u =
    (if u = t then insert m (holds s u) else holds s u)"
  by (auto simp: holds_def)

lemma holds_unlock: "m \<in> holds s t \<Longrightarrow> holds (s\<lparr>owner := (owner s)(m := None), todo := f\<rparr>) u =
    (if u = t then holds s u - {m} else holds s u)"
  by (auto simp: holds_def)

lemma holds_same [simp]: "holds (s\<lparr>todo := f\<rparr>) = holds s" "holds (s\<lparr>main_does := ms\<rparr>) = holds s"
    "holds (s\<lparr>printed := l\<rparr>) = holds s"
  by (simp_all add: holds_def fun_eq_iff)

lemma created_once: "good s \<Longrightarrow> todo s t \<noteq> [] \<Longrightarrow> (t, p) \<notin> set (still_created (main_does s))"
  by (auto simp: good_def)

lemma good_thread_step: "thread_step t s = Some s' \<Longrightarrow> good s \<Longrightarrow> good s'"
proof -
  assume st: "thread_step t s = Some s'" and g: "good s"
  then obtain a p where td: "todo s t = a # p" by (cases "todo s t") (auto simp: thread_step_def)
  have d: "disciplined (holds s t) (a # p)" using g unfolding td [symmetric] by (auto simp: good_def)
  have o: "disciplined (holds s u) (todo s u)" for u using g by (auto simp: good_def)
  have c: "(u, q) \<in> set (still_created (main_does s)) \<Longrightarrow> u \<noteq> t \<and> todo s u = [] \<and> disciplined {} q" for u q
    using g created_once [OF g, of t q] td by (auto simp: good_def)
  have n: "distinct (map fst (still_created (main_does s)))" using g by (simp add: good_def)
  show "good s'"
  proof (cases a)
    case (Lock m)
    with st td have m: "owner s m = None" and s': "s' = s\<lparr>owner := (owner s)(m := Some t), todo := (todo s)(t := p)\<rparr>"
      by (auto simp: thread_step_def split: if_splits)
    show ?thesis using d o c n unfolding s' good_def Lock holds_lock [OF m] by auto
  next
    case (Unlock m)
    with d have m: "m \<in> holds s t" by simp
    from Unlock st td have s': "s' = s\<lparr>owner := (owner s)(m := None), todo := (todo s)(t := p)\<rparr>"
      by (auto simp: thread_step_def)
    show ?thesis using d o c n unfolding s' good_def Unlock holds_unlock [OF m] by auto
  next
    case (Print l)
    with st td have s': "s' = s\<lparr>todo := (todo s)(t := p), printed := printed s @ [l]\<rparr>"
      by (auto simp: thread_step_def)
    show ?thesis using d o c n unfolding s' good_def Print by auto
  qed
qed

lemma good_main_step: "main_thread_step s = Some s' \<Longrightarrow> good s \<Longrightarrow> good s'"
proof -
  assume st: "main_thread_step s = Some s'" and g: "good s"
  then obtain a ms where md: "main_does s = a # ms" by (cases "main_does s") (auto simp: main_thread_step_def)
  show "good s'"
  proof (cases a)
    case (Create t p)
    with st md have s': "s' = s\<lparr>todo := (todo s)(t := p), main_does := ms\<rparr>" by (auto simp: main_thread_step_def)
    have "holds s t = {}" "disciplined {} p" using g md Create by (auto simp: good_def split: prod.splits dest: spec [of _ t])
    moreover have "(t, q) \<notin> set (still_created ms)" for q using g md Create by (force simp: good_def)
    ultimately show ?thesis using g md Create unfolding s' good_def by auto
  next
    case (Join t)
    with st md have s': "s' = s\<lparr>main_does := ms\<rparr>" by (auto simp: main_thread_step_def split: if_splits)
    with g md Join show ?thesis unfolding s' good_def by auto
  qed
qed

lemma good_run: "demo_run n s \<Longrightarrow> good s"
  by (induction rule: demo_run.induct) (auto intro: good_start good_thread_step good_main_step elim: demo_step_cases)

text \<open>Each step leaves one action less, and what will have been printed does not change.\<close>

lemma step_left: "demo_step s s' \<Longrightarrow> good s \<Longrightarrow> left s = Suc (left s') \<and> lines s' = lines s"
proof (cases rule: demo_step_cases, assumption)
  fix t assume st: "thread_step t s = Some s'"
  then obtain a p where td: "todo s t = a # p" by (cases "todo s t") (auto simp: thread_step_def)
  with st show ?thesis
    by (cases a; cases t) (auto simp: thread_step_def left_def lines_def split: if_splits)
next
  assume st: "main_thread_step s = Some s'" and g: "good s"
  then obtain a ms where md: "main_does s = a # ms" by (cases "main_does s") (auto simp: main_thread_step_def)
  show ?thesis
  proof (cases a)
    case (Create t p)
    with g md have "todo s t = []" by (auto simp: good_def)
    with st md Create show ?thesis
      by (cases t) (auto simp: main_thread_step_def left_def lines_def)
  next
    case (Join t)
    with st md show ?thesis by (auto simp: main_thread_step_def left_def lines_def split: if_splits)
  qed
qed

lemma run_left: "demo_run n s \<Longrightarrow> n + left s = 18 \<and> lines s = lines main_deadlock"
proof (induction rule: demo_run.induct)
  case at_start show ?case by (simp add: left_def main_deadlock_def funca_def funcb_def)
next
  case (more n s s')
  then show ?case using step_left [OF more(2) good_run [OF more(1)]] by simp
qed

text \<open>The thread that holds the highest mutex can go on.\<close>

lemma owner_goes_on:
  assumes "good s" "owner s m = Some t" "\<And>n. m < n \<Longrightarrow> owner s n = None"
  shows "thread_step t s \<noteq> None"
proof -
  have "m \<in> holds s t" "disciplined (holds s t) (todo s t)" using assms(1,2) by (auto simp: good_def holds_def)
  then show ?thesis using assms(3) by (cases "todo s t") (auto simp: thread_step_def split: lock_action.split)
qed

lemma goes_on:
  assumes g: "good s" and l: "left s \<noteq> 0"
  shows "\<exists>s'. demo_step s s'"
proof -
  have th: "\<exists>s'. demo_step s s'" if "thread_step t s \<noteq> None" for t using that by (auto intro: by_thread)
  consider t where "owner s lockb = Some t" | t where "owner s lockb = None" "owner s locka = Some t"
    | "owner s lockb = None" "owner s locka = None" by (cases "owner s lockb"; cases "owner s locka") auto
  then show ?thesis
  proof cases
    case (1 t) show ?thesis by (rule th, rule owner_goes_on [OF g 1]) (simp add: less_mutex_def)
  next
    case (2 t) show ?thesis by (rule th, rule owner_goes_on [OF g 2(2)]) (use 2(1) in \<open>auto simp: less_mutex_def\<close>)
  next
    case 3
    then have free: "owner s m = None" for m by (cases m) simp_all
    show ?thesis
    proof (cases "todo s T1 = [] \<and> todo s T2 = []")
      case True
      then have e: "todo s t = []" for t by (cases t) simp_all
      with l True have "main_thread_step s \<noteq> None"
        by (cases "main_does s") (auto simp: left_def main_thread_step_def e split: main_action.split)
      then show ?thesis by (auto intro: by_main)
    next
      case False
      then obtain t where "todo s t \<noteq> []" by blast
      then show ?thesis using free
        by (intro th [of t]) (auto simp: thread_step_def split: list.split lock_action.split)
    qed
  qed
qed

text \<open>In spite of its name \<open>deadlock.c\<close> cannot deadlock: a run that has made fewer than 18
  steps can go on, in whatever order the steps came; after 18 steps no step is left, \<open>main\<close> has
  joined both threads, both mutexes are free and each of the six lines has been printed once.\<close>

theorem deadlock_free:
  assumes "demo_run n s"
  shows "n \<le> 18 \<and> (n < 18 \<longrightarrow> (\<exists>s'. demo_step s s')) \<and>
    (n = 18 \<longrightarrow> main_does s = [] \<and> (\<forall>m. owner s m = None) \<and> mset (printed s) = mset (prints funca @ prints funcb))"
proof -
  have l: "n + left s = 18" "lines s = lines main_deadlock" using run_left [OF assms] by auto
  have g: "good s" by (rule good_run [OF assms])
  have "main_does s = [] \<and> (\<forall>m. owner s m = None) \<and> mset (printed s) = mset (prints funca @ prints funcb)" if "n = 18"
  proof -
    have z: "main_does s = []" "todo s T1 = []" "todo s T2 = []" using l(1) that by (auto simp: left_def)
    then have "holds s t = {}" for t using g by (cases t) (auto simp: good_def dest: spec [of _ t])
    then have "owner s m = None" for m by (cases "owner s m") (auto simp: holds_def)
    moreover have "mset (printed s) = mset (prints funca @ prints funcb)"
      using l(2) z by (simp add: lines_def main_deadlock_def)
    ultimately show ?thesis using z by blast
  qed
  with goes_on [OF g] l(1) show ?thesis by auto
qed

theorem deadlock_free_witness: "\<exists>s. demo_run 1 s \<and> (\<exists>s'. demo_step s s')"
proof -
  obtain s where "main_thread_step main_deadlock = Some s" by (simp add: main_thread_step_def main_deadlock_def)
  then have "demo_run (Suc 0) s" by (intro more [OF at_start] by_main)
  then show ?thesis using deadlock_free [of "Suc 0" s] by auto
qed

section \<open>Four threads without a lock\<close>

definition MAX_COUNT :: int where "MAX_COUNT = 10000"

text \<open>Where a thread stands in \<open>for (; i < MAX; i++) cnt++\<close>: before the test, before and after the load
  of \<open>cnt\<close>, before and after the load of \<open>i\<close>, or returned.\<close>

datatype phase = Test | Load_cnt | Store_cnt int | Load_i | Store_i int | Returned

record counting =
  cnt :: int
  ivar :: int
  phases :: "nat \<Rightarrow> phase"

definition init_counting :: counting where
  "init_counting = \<lparr>cnt = 0, ivar = 0, phases = (\<lambda>_. Test)\<rparr>"

definition printing_step :: "nat \<Rightarrow> counting \<Rightarrow> counting" where
  "printing_step t s = (case phases s t of
     Test \<Rightarrow> s\<lparr>phases := (phases s)(t := if ivar s < MAX_COUNT then Load_cnt else Returned)\<rparr>
   | Load_cnt \<Rightarrow> s\<lparr>phases := (phases s)(t := Store_cnt (cnt s))\<rparr>
   | Store_cnt c \<Rightarrow> s\<lparr>cnt := c + 1, phases := (phases s)(t := Load_i)\<rparr>
   | Load_i \<Rightarrow> s\<lparr>phases := (phases s)(t := Store_i (ivar s))\<rparr>
   | Store_i i \<Rightarrow> s\<lparr>ivar := i + 1, phases := (phases s)(t := Test)\<rparr>
   | Returned \<Rightarrow> s)"

text \<open>\<open>main\<close> prints \<open>cnt\<close> when all four threads have returned; the schedule says whose step is next.\<close>

definition main_thread_demo :: "nat list \<Rightarrow> int option" where
  "main_thread_demo sched = (let s = fold printing_step sched init_counting
    in if \<forall>t\<in>{0..<4}. phases s t = Returned then Some (cnt s) else None)"

lemma one_round:
  assumes "phases s t = Test" "ivar s < MAX_COUNT"
  shows "fold printing_step (replicate 5 t) s = s\<lparr>cnt := cnt s + 1, ivar := ivar s + 1\<rparr>"
  using assms by (simp add: eval_nat_numeral printing_step_def fun_upd_idem)

text \<open>A thread that is not interrupted counts the rest of the loop and returns.\<close>

lemma undisturbed:
  assumes "phases s t = Test" "ivar s + int n = MAX_COUNT"
  shows "fold printing_step (replicate (5 * n + 1) t) s
    = s\<lparr>cnt := cnt s + int n, ivar := MAX_COUNT, phases := (phases s)(t := Returned)\<rparr>"
  using assms
proof (induction n arbitrary: s)
  case 0
  then show ?case by (cases s) (simp add: printing_step_def fun_eq_iff)
next
  case (Suc n)
  have "replicate (5 * Suc n + 1) t = replicate 5 t @ replicate (5 * n + 1) t"
    by (simp only: replicate_add [symmetric]) simp
  then have "fold printing_step (replicate (5 * Suc n + 1) t) s
      = fold printing_step (replicate (5 * n + 1) t) (s\<lparr>cnt := cnt s + 1, ivar := ivar s + 1\<rparr>)"
    using one_round [of s t] Suc.prems by (simp only: fold_append comp_apply)
  also have "\<dots> = s\<lparr>cnt := cnt s + int (Suc n), ivar := MAX_COUNT, phases := (phases s)(t := Returned)\<rparr>"
    using Suc.IH [of "s\<lparr>cnt := cnt s + 1, ivar := ivar s + 1\<rparr>"] Suc.prems by (simp add: add.assoc fun_upd_def)
  finally show ?case .
qed

lemma finds_end: "phases s t = Test \<Longrightarrow> ivar s = MAX_COUNT \<Longrightarrow>
    printing_step t s = s\<lparr>phases := (phases s)(t := Returned)\<rparr>"
  by (simp add: printing_step_def)

text \<open>The program counts to 10000 if its threads run one after the other. But a thread can load \<open>cnt\<close>
  before the others count and store after them, and then 1 is printed; or it can load \<open>i\<close> before
  and store it after them, so that the loop starts again and 20000 is printed.\<close>

definition one_after_other :: "nat list" where
  "one_after_other = replicate 50001 0 @ [1, 2, 3]"

definition stale_count :: "nat list" where
  "stale_count = [0, 0] @ replicate 50001 1 @ [0, 0, 0, 0, 2, 3]"

definition stale_index :: "nat list" where
  "stale_index = [0, 0, 0, 0] @ replicate 50001 1 @ [0] @ replicate 49996 0 @ [2, 3]"

lemma count_all:
  assumes "phases s t = Test" "ivar s = 0"
  shows "fold printing_step (replicate 50001 t) s
    = s\<lparr>cnt := cnt s + 10000, ivar := MAX_COUNT, phases := (phases s)(t := Returned)\<rparr>"
  using undisturbed [of s t 10000] assms by (simp add: MAX_COUNT_def)

lemma count_again:
  assumes "phases s t = Test" "ivar s = 1"
  shows "fold printing_step (replicate 49996 t) s
    = s\<lparr>cnt := cnt s + 9999, ivar := MAX_COUNT, phases := (phases s)(t := Returned)\<rparr>"
  using undisturbed [of s t 9999] assms by (simp add: MAX_COUNT_def)

lemma four_threads: "(\<forall>t\<in>{0..<4}. P t) \<longleftrightarrow> P 0 \<and> P 1 \<and> P 2 \<and> P (3 :: nat)"
  by (simp add: eval_nat_numeral atLeastLessThanSuc) blast

text \<open>What \<open>thread.c\<close> prints depends on how its threads interleave: 10000 if they run one after
  the other, 1 if one thread stores a stale \<open>cnt\<close> after the others have counted, 20000 if it stores a
  stale \<open>i\<close>, which starts the loop again.\<close>

theorem thread_races:
  "main_thread_demo one_after_other = Some 10000 \<and> main_thread_demo stale_count = Some 1 \<and>
   main_thread_demo stale_index = Some 20000"
proof (intro conjI)
  note run = fold_append comp_apply fold_simps(2) fold_simps(1)
  show "main_thread_demo one_after_other = Some 10000"
    unfolding main_thread_demo_def one_after_other_def four_threads run
    by (subst count_all) (simp_all add: init_counting_def finds_end)
  let ?s1 = "\<lparr>cnt = 0, ivar = 0, phases = (\<lambda>_. Test)(0 := Store_cnt 0)\<rparr>"
  have "fold printing_step [0, 0] init_counting = ?s1"
    by (simp add: init_counting_def printing_step_def MAX_COUNT_def)
  then show "main_thread_demo stale_count = Some 1"
    unfolding main_thread_demo_def stale_count_def four_threads fold_append comp_apply
    by (simp only:) (subst count_all; simp add: printing_step_def Let_def)
  let ?s2 = "\<lparr>cnt = 1, ivar = 0, phases = (\<lambda>_. Test)(0 := Store_i 0)\<rparr>"
  have a: "fold printing_step [0, 0, 0, 0] init_counting = ?s2"
    by (simp add: init_counting_def printing_step_def MAX_COUNT_def)
  let ?s3 = "\<lparr>cnt = 10001, ivar = 1, phases = (\<lambda>_. Test)(1 := Returned)\<rparr>"
  have b: "fold printing_step [0] (fold printing_step (replicate 50001 1) ?s2) = ?s3"
    by (subst count_all) (simp_all add: printing_step_def fun_eq_iff)
  have "fold printing_step (replicate 49996 0) ?s3
      = ?s3\<lparr>cnt := 20000, ivar := MAX_COUNT, phases := (phases ?s3)(0 := Returned)\<rparr>"
    by (subst count_again) simp_all
  then show "main_thread_demo stale_index = Some 20000"
    unfolding main_thread_demo_def stale_index_def four_threads fold_append comp_apply a b
    by (simp add: finds_end Let_def)
qed

end
