(* ===== verification/Lab11.thy ===== *)
theory Lab11
  imports C_Strings
begin

text \<open>
  \<open>lab/lab11.c\<close>: three messages are checked against their signatures with OpenSSL and printed in a
  colour that says whether they can be trusted. OpenSSL is a parameter: the key in a PEM file, whether a
  context can be made, and what \<open>EVP_DigestVerifyFinal\<close> returns for a key, a message and a
  signature (the results of the two calls before it are not looked at by the program, and a key that
  could not be read is passed on as NULL, here \<open>None\<close>). The files are a parameter too.
\<close>

section \<open>The environment\<close>

record file_system =
  contents :: "string \<Rightarrow> bytes option"
  read_fails :: "string \<Rightarrow> bool"

record 'key openssl =
  PEM_key :: "bytes \<Rightarrow> 'key option"
  ctx_made :: "nat \<Rightarrow> bool"
  verify_final :: "'key option \<Rightarrow> bytes \<Rightarrow> bytes \<Rightarrow> int"

datatype colour = RED | GRN | CRESET

datatype shown = Verifying nat | Unknown_Authenticity nat | Do_Not_Trust nat | Authentic nat
  | Colour colour | Text bytes | Perror string

section \<open>The program\<close>

definition read_all_bytes :: "file_system \<Rightarrow> string \<Rightarrow> nat \<Rightarrow> bytes run" where
  "read_all_bytes fs filename buffer_size = (case contents fs filename of
     None \<Rightarrow> exit_with 1
   | Some bs \<Rightarrow> if buffer_size < length bs then exit_with 1
       else if read_fails fs filename then exit_with 1 else ret bs)"

text \<open>\<open>fgets\<close> into an array of \<open>n\<close> bytes, and the loop that reads and prints a file with it.\<close>

definition fgets_line :: "nat \<Rightarrow> bytes \<Rightarrow> bytes" where
  "fgets_line n s = (let t = take (n - 1) s; l = takeWhile (\<lambda>b. b \<noteq> 10) t
     in if length l < length t then l @ [10] else l)"

lemma first_line: "\<exists>u. t = (let l = takeWhile (\<lambda>b. b \<noteq> c) t in if length l < length t then l @ [c] else l) @ u"
proof (cases "dropWhile (\<lambda>b. b \<noteq> c) t")
  case Nil
  then have "takeWhile (\<lambda>b. b \<noteq> c) t = t" by (metis append_Nil2 takeWhile_dropWhile_id)
  then show ?thesis unfolding Let_def by (metis append_Nil2 less_irrefl)
next
  case (Cons d u)
  then have "d = c" by (metis (full_types) hd_dropWhile list.distinct(1) list.sel(1))
  with Cons have t: "t = takeWhile (\<lambda>b. b \<noteq> c) t @ c # u" by (metis takeWhile_dropWhile_id)
  then have "length (takeWhile (\<lambda>b. b \<noteq> c) t) < length t" by (metis length_append length_Cons less_add_Suc1 add_Suc_right)
  with t show ?thesis by (auto simp: Let_def)
qed

lemma fgets_line_prefix: "fgets_line n s = take (length (fgets_line n s)) s"
proof -
  obtain u where "take (n - 1) s = fgets_line n s @ u"
    using first_line [of "take (n - 1) s" 10] by (auto simp: fgets_line_def Let_def)
  then have "s = fgets_line n s @ u @ drop (n - 1) s" by (metis append.assoc append_take_drop_id)
  then show ?thesis by (metis append_eq_conv_conj)
qed

lemma fgets_line_Nil: "s \<noteq> [] \<Longrightarrow> 2 \<le> n \<Longrightarrow> fgets_line n s \<noteq> []"
  by (cases s; cases "n - 1") (auto simp: fgets_line_def Let_def)

function print_lines :: "nat \<Rightarrow> bytes \<Rightarrow> shown list" where
  "print_lines n s = (if s = [] \<or> n < 2 then []
     else Text (cstr_of (fgets_line n s)) # print_lines n (drop (length (fgets_line n s)) s))"
  by pat_completeness auto
termination
  by (relation "measure (length \<circ> snd)") (auto simp: fgets_line_Nil)

declare print_lines.simps [simp del]

definition print_file :: "file_system \<Rightarrow> string \<Rightarrow> colour \<Rightarrow> shown list run" where
  "print_file fs filename col = (case contents fs filename of
     None \<Rightarrow> exit_with 1
   | Some bs \<Rightarrow> ret (Colour col # print_lines 256 bs @ [Colour CRESET]))"

definition MAX_FILE_SIZE :: nat where "MAX_FILE_SIZE = 512"

definition verify :: "file_system \<Rightarrow> 'key openssl \<Rightarrow> nat \<Rightarrow> string \<Rightarrow> string \<Rightarrow> 'key option \<Rightarrow> int run" where
  "verify fs ssl i message_path sign_path pubkey =
    rbind (read_all_bytes fs message_path MAX_FILE_SIZE) (\<lambda>message.
    rbind (read_all_bytes fs sign_path MAX_FILE_SIZE) (\<lambda>signature.
      if \<not> ctx_made ssl i then exit_with 1
      else ret (verify_final ssl pubkey message signature)))"

definition message_files :: "string list" where
  "message_files = [''message1.txt'', ''message2.txt'', ''message3.txt'']"

definition signature_files :: "string list" where
  "signature_files = [''signature1.sig'', ''signature2.sig'', ''signature3.sig'']"

text \<open>What has been printed comes with the result of the rest of the program.\<close>

definition verdict :: "nat \<Rightarrow> int \<Rightarrow> shown \<times> colour" where
  "verdict i result = (if result < 0 then (Unknown_Authenticity (i + 1), CRESET)
     else if result = 0 then (Do_Not_Trust (i + 1), RED) else (Authentic (i + 1), GRN))"

fun verify_messages :: "file_system \<Rightarrow> 'key openssl \<Rightarrow> 'key option \<Rightarrow> nat list \<Rightarrow> shown list \<times> int run" where
  "verify_messages fs ssl pubkey [] = ([], ret 0)"
| "verify_messages fs ssl pubkey (i # is) =
    (case verify fs ssl i (message_files ! i) (signature_files ! i) pubkey of
       Some (Ret result) \<Rightarrow> (let (line, col) = verdict i result
         in case print_file fs (message_files ! i) col of
              Some (Ret text) \<Rightarrow> (let (rest, status) = verify_messages fs ssl pubkey is
                in (Verifying (i + 1) # line # text @ rest, status))
            | r \<Rightarrow> ([Verifying (i + 1), line], rbind r (\<lambda>_. ret 0)))
     | r \<Rightarrow> ([Verifying (i + 1)], r))"

text \<open>When the key file cannot be opened the program only prints an error and reads from NULL.\<close>

definition main_lab11 :: "file_system \<Rightarrow> 'key openssl \<Rightarrow> shown list \<times> int run" where
  "main_lab11 fs ssl = (case contents fs ''public_key.pem'' of
     None \<Rightarrow> ([Perror ''fopen''], fail NullDeref)
   | Some pem \<Rightarrow> verify_messages fs ssl (PEM_key ssl pem) [0, 1, 2])"

section \<open>Correctness\<close>

text \<open>A file without a NUL is printed as it is, whatever its lines are.\<close>

definition shown_text :: "shown list \<Rightarrow> bytes" where
  "shown_text ss = concat (map (\<lambda>s. case s of Text t \<Rightarrow> t | _ \<Rightarrow> []) ss)"

lemma print_lines_text: "cstring s \<Longrightarrow> 2 \<le> n \<Longrightarrow> shown_text (print_lines n s) = s"
proof (induction n s rule: print_lines.induct)
  case (1 n s)
  show ?case
  proof (cases "s = []")
    case True
    then show ?thesis by (simp add: print_lines.simps shown_text_def)
  next
    case False
    let ?l = "fgets_line n s"
    have s: "s = ?l @ drop (length ?l) s" using fgets_line_prefix [of n s] by (metis append_take_drop_id)
    then have c: "cstring ?l" "cstring (drop (length ?l) s)" using 1(2) unfolding cstring_def by (metis Un_iff set_append)+
    have "shown_text (print_lines n s) = cstr_of ?l @ shown_text (print_lines n (drop (length ?l) s))"
      using False 1(3) by (subst print_lines.simps) (simp add: shown_text_def)
    also have "cstr_of ?l = ?l" using c(1) by (auto simp: cstr_of_def cstring_def takeWhile_eq_all_conv)
    also have "shown_text (print_lines n (drop (length ?l) s)) = drop (length ?l) s"
      using 1(1) [of] False 1(3) c(2) by simp
    finally show ?thesis using s by simp
  qed
qed

lemma print_lines_only_text: "x \<in> set (print_lines n s) \<Longrightarrow> \<exists>t. x = Text t"
  by (induction n s rule: print_lines.induct) (subst (asm) (2) print_lines.simps, auto split: if_splits)

lemma verify_ret:
  "verify fs ssl i m g k = Some (Ret r) \<Longrightarrow> \<exists>message signature. contents fs m = Some message \<and> contents fs g = Some signature
    \<and> length message \<le> MAX_FILE_SIZE \<and> length signature \<le> MAX_FILE_SIZE \<and> r = verify_final ssl k message signature"
  by (auto simp: verify_def read_all_bytes_def ret_def exit_with_def rbind_def split: option.splits if_splits)

lemma authentic_verified:
  "Authentic j \<in> set (fst (verify_messages fs ssl k is)) \<Longrightarrow>
    \<exists>i\<in>set is. j = i + 1 \<and> (\<exists>message signature. contents fs (message_files ! i) = Some message
      \<and> contents fs (signature_files ! i) = Some signature \<and> 0 < verify_final ssl k message signature)"
proof (induction "is")
  case (Cons i "is")
  show ?case
  proof (cases "verify fs ssl i (message_files ! i) (signature_files ! i) k")
    case None
    with Cons.prems show ?thesis by simp
  next
    case (Some r)
    show ?thesis
    proof (cases r)
      case (Ret result)
      have v: "fst (verdict i result) = Authentic j \<Longrightarrow> ?thesis"
        using verify_ret [OF Some [unfolded Ret]] by (auto simp: verdict_def split: if_splits)
      show ?thesis
        using Cons v Some Ret
        by (auto simp: Let_def print_file_def ret_def exit_with_def case_prod_beta split: option.splits outcome.splits
          dest: print_lines_only_text)
    qed (use Cons.prems Some in simp_all)
  qed
qed simp

text \<open>A message is called authentic only if OpenSSL accepts its signature: whatever the files
  hold and however the program ends, the line for message \<open>j\<close> has been printed only if the key file, the
  message and the signature \<open>j\<close> exist and \<open>EVP_DigestVerifyFinal\<close> has returned a positive number for them.\<close>

theorem authentic_only_if_verified:
  assumes "Authentic j \<in> set (fst (main_lab11 fs ssl))"
  shows "\<exists>pem message signature. contents fs ''public_key.pem'' = Some pem \<and> 1 \<le> j \<and> j \<le> 3
    \<and> contents fs (message_files ! (j - 1)) = Some message \<and> contents fs (signature_files ! (j - 1)) = Some signature
    \<and> 0 < verify_final ssl (PEM_key ssl pem) message signature"
proof -
  obtain pem where p: "contents fs ''public_key.pem'' = Some pem"
    using assms by (cases "contents fs ''public_key.pem''") (simp_all add: main_lab11_def)
  with assms have "Authentic j \<in> set (fst (verify_messages fs ssl (PEM_key ssl pem) [0, 1, 2]))" by (simp add: main_lab11_def)
  from authentic_verified [OF this] obtain i message signature where i: "i \<in> set [0, 1, 2]" "j = i + 1"
    "contents fs (message_files ! i) = Some message" "contents fs (signature_files ! i) = Some signature"
    "0 < verify_final ssl (PEM_key ssl pem) message signature" by blast
  from i(1,2) have "1 \<le> j \<and> j \<le> 3 \<and> i = j - 1" by auto
  with p i(3-5) show ?thesis by blast
qed

text \<open>When everything is there, all messages are shown, whole and in order, each behind its verdict.\<close>

definition message_ready :: "file_system \<Rightarrow> 'key openssl \<Rightarrow> nat \<Rightarrow> bool" where
  "message_ready fs ssl i \<longleftrightarrow> ctx_made ssl i \<and> (\<forall>f\<in>{message_files ! i, signature_files ! i}.
     \<not> read_fails fs f \<and> (case contents fs f of None \<Rightarrow> False | Some bs \<Rightarrow> length bs \<le> MAX_FILE_SIZE)) \<and>
     cstring (the (contents fs (message_files ! i)))"

definition message_block :: "file_system \<Rightarrow> 'key openssl \<Rightarrow> 'key option \<Rightarrow> nat \<Rightarrow> shown list" where
  "message_block fs ssl k i = (let m = the (contents fs (message_files ! i)); g = the (contents fs (signature_files ! i));
       v = verdict i (verify_final ssl k m g)
     in Verifying (i + 1) # fst v # Colour (snd v) # print_lines 256 m @ [Colour CRESET])"

lemma shown_text_append: "shown_text (xs @ ys) = shown_text xs @ shown_text ys"
  by (simp add: shown_text_def)

lemma block_text: "message_ready fs ssl i \<Longrightarrow> shown_text (message_block fs ssl k i) = the (contents fs (message_files ! i))"
  using print_lines_text [of "the (contents fs (message_files ! i))" 256]
  by (auto simp: message_ready_def message_block_def Let_def shown_text_def verdict_def)

lemma verify_messages_ready:
  "\<forall>i\<in>set is. message_ready fs ssl i \<Longrightarrow>
    verify_messages fs ssl k is = (concat (map (message_block fs ssl k) is), ret 0)"
proof (induction "is")
  case (Cons i "is")
  then have r: "message_ready fs ssl i" by simp
  then obtain m g where m: "contents fs (message_files ! i) = Some m" "contents fs (signature_files ! i) = Some g"
    "length m \<le> MAX_FILE_SIZE" "length g \<le> MAX_FILE_SIZE" "\<not> read_fails fs (message_files ! i)"
    "\<not> read_fails fs (signature_files ! i)" "ctx_made ssl i"
    by (auto simp: message_ready_def split: option.splits)
  then have "verify fs ssl i (message_files ! i) (signature_files ! i) k = Some (Ret (verify_final ssl k m g))"
    by (simp add: verify_def read_all_bytes_def ret_def rbind_def)
  with Cons m show ?case by (simp add: print_file_def message_block_def Let_def case_prod_beta ret_def)
qed simp

theorem lab11_shows_messages:
  assumes "contents fs ''public_key.pem'' = Some pem" "\<forall>i\<in>set [0, 1, 2]. message_ready fs ssl i"
  shows "main_lab11 fs ssl = (concat (map (message_block fs ssl (PEM_key ssl pem)) [0, 1, 2]), ret 0) \<and>
    shown_text (fst (main_lab11 fs ssl)) = concat (map (\<lambda>f. the (contents fs f)) message_files)"
proof -
  have "main_lab11 fs ssl = (concat (map (message_block fs ssl (PEM_key ssl pem)) [0, 1, 2]), ret 0)"
    unfolding main_lab11_def assms(1) option.case by (rule verify_messages_ready [OF assms(2)])
  then show ?thesis using assms(2) by (simp add: shown_text_append block_text) (simp add: message_files_def)
qed

text \<open>An instance: the signature is the message, and the first two messages are signed.\<close>

definition demo_files :: file_system where
  "demo_files = \<lparr>contents = (\<lambda>f. if f = ''public_key.pem'' then Some [1]
     else if f \<in> {''message1.txt'', ''signature1.sig'', ''message2.txt'', ''signature2.sig''} then Some [104, 105, 10]
     else if f = ''message3.txt'' then Some [104, 111, 10] else if f = ''signature3.sig'' then Some [0] else None),
     read_fails = (\<lambda>_. False)\<rparr>"

definition demo_ssl :: "unit openssl" where
  "demo_ssl = \<lparr>PEM_key = (\<lambda>_. Some ()), ctx_made = (\<lambda>_. True), verify_final = (\<lambda>k m s. if m = s then 1 else 0)\<rparr>"

lemma demo_runs: "Authentic 2 \<in> set (fst (main_lab11 demo_files demo_ssl))"
  by (simp add: main_lab11_def demo_files_def demo_ssl_def verify_def read_all_bytes_def MAX_FILE_SIZE_def message_files_def
    signature_files_def verdict_def print_file_def Let_def ret_def rbind_def)

theorem lab11_shows_messages_witness:
  "shown_text (fst (main_lab11 demo_files demo_ssl)) = [104, 105, 10, 104, 105, 10, 104, 111, 10]"
proof -
  have r: "\<forall>i\<in>set [0, 1, 2]. message_ready demo_files demo_ssl i"
    by (simp add: message_ready_def demo_files_def demo_ssl_def message_files_def signature_files_def MAX_FILE_SIZE_def cstring_def)
  have p: "contents demo_files ''public_key.pem'' = Some [1]" by (simp add: demo_files_def)
  have "concat (map (\<lambda>f. the (contents demo_files f)) message_files) = [104, 105, 10, 104, 105, 10, 104, 111, 10]"
    by (simp add: demo_files_def message_files_def)
  then show ?thesis by (rule trans [OF conjunct2 [OF lab11_shows_messages [OF p r]]])
qed

theorem authentic_only_if_verified_witness:
  "\<exists>message signature. contents demo_files ''message2.txt'' = Some message \<and> contents demo_files ''signature2.sig'' = Some signature
    \<and> 0 < verify_final demo_ssl (PEM_key demo_ssl [1]) message signature"
  using authentic_only_if_verified [OF demo_runs]
  by (auto simp: demo_files_def message_files_def signature_files_def)

end
