(* ===== verification/Processes.thy ===== *)
theory Processes
  imports Base
begin

text \<open>
  Programs that start processes: \<open>lecture/wait.c\<close>, which waits for four children one after the other,
  \<open>lecture/pipe.c\<close>, whose child prints what the parent writes into a pipe, and \<open>lab/lab2.c\<close>, which
  starts the programs named on its input. A process id is an \<open>int\<close>; \<open>fork\<close> has failed if it is \<open>-1\<close>.
\<close>

section \<open>Waiting for children\<close>

text \<open>How a child ends, and what appears on the terminal: the output of the programs that are started
  stands for itself.\<close>

datatype child_status = Exited int | Signalled

datatype terminal_line = Output_Of "string list" | Exit_Status int | Not_Normal | Perror string

text \<open>The results of the four calls of \<open>fork\<close> in the parent, whether \<open>execlp\<close> succeeds, and how the
  program \<open>/bin/ls\<close> ends with given arguments.\<close>

record wait_env =
  fork_result :: "nat \<Rightarrow> int"
  exec_works :: bool
  ls_status :: "string list \<Rightarrow> child_status"

definition exec_ls :: "wait_env \<Rightarrow> string list \<Rightarrow> terminal_line list \<times> child_status" where
  "exec_ls e args = (if exec_works e then ([Output_Of args], ls_status e args) else ([Perror ''execl''], Exited 1))"

text \<open>\<open>waitpid(pid, ...)\<close> after the child has run; without a child, as after a failed \<open>fork\<close> and in a child, it
  fails and the process exits with 1. \<open>None\<close>: the process goes on.\<close>

definition report_child :: "int \<Rightarrow> terminal_line list \<times> child_status \<Rightarrow> terminal_line list \<times> int option" where
  "report_child pid c = (if pid = -1 then ([Perror ''waitpid''], Some 1)
     else (fst c @ [case snd c of Exited n \<Rightarrow> Exit_Status n | Signalled \<Rightarrow> Not_Normal], None))"

text \<open>The second child reads through NULL. The fourth block tests \<open>pid2\<close> again, which is not 0 in the
  child either: the child takes the branch of the parent, with \<open>pid4\<close> 0.\<close>

definition null_child :: "terminal_line list \<times> child_status" where
  "null_child = ([], Signalled)"

definition fourth_child :: "wait_env \<Rightarrow> int \<Rightarrow> terminal_line list \<times> child_status" where
  "fourth_child e pid2 = (if pid2 \<noteq> 0 then ([Perror ''waitpid''], Exited 1) else exec_ls e [''-al''])"

definition then_block :: "terminal_line list \<times> int option \<Rightarrow> (terminal_line list \<times> int option) \<Rightarrow> terminal_line list \<times> int option" where
  "then_block r k = (case snd r of Some n \<Rightarrow> r | None \<Rightarrow> (fst r @ fst k, snd k))"

definition main_wait :: "wait_env \<Rightarrow> terminal_line list \<times> int option" where
  "main_wait e =
    then_block (report_child (fork_result e 0) (exec_ls e [''bonkers'', ''-al'']))
   (then_block (report_child (fork_result e 1) null_child)
   (then_block (report_child (fork_result e 2) (exec_ls e [''-al'']))
   (then_block (report_child (fork_result e 3) (fourth_child e (fork_result e 1)))
     ([], Some 0))))"

text \<open>With four children the second is reported as not ended normally, and the fourth never starts the
  program: it waits for a child of its own, fails, and is reported with the exit status 1.\<close>

theorem fourth_child_starts_nothing:
  assumes "\<forall>i<4. 0 < fork_result e i" "exec_works e" "\<And>args. ls_status e args = Exited (code args)"
  shows "main_wait e = ([Output_Of [''bonkers'', ''-al''], Exit_Status (code [''bonkers'', ''-al'']), Not_Normal,
    Output_Of [''-al''], Exit_Status (code [''-al'']), Perror ''waitpid'', Exit_Status 1], Some 0)"
proof -
  have "0 < fork_result e 0" "0 < fork_result e 1" "0 < fork_result e 2" "0 < fork_result e 3" using assms(1) by simp_all
  then show ?thesis using assms(2,3)
    by (simp add: main_wait_def then_block_def report_child_def exec_ls_def null_child_def fourth_child_def)
qed

theorem fourth_child_starts_nothing_witness:
  "snd (main_wait \<lparr>fork_result = (\<lambda>i. 100 + int i), exec_works = True, ls_status = (\<lambda>args. Exited (if length args = 2 then 2 else 0))\<rparr>)
    = Some 0"
  by (subst fourth_child_starts_nothing [where code = "\<lambda>args. if length args = 2 then 2 else 0"]) simp_all

section \<open>A pipe\<close>

datatype parent_at = P_close_read | P_write | P_wait | P_exit

datatype child_at = C_close_write | C_read | C_put u8 | C_newline | C_last_read | C_exit

text \<open>\<open>to_send\<close> is what the call of \<open>write\<close> has not yet put into the pipe; it returns when all is there.
  The two flags say who still has the write end open.\<close>

record pipe_demo =
  parent_at :: parent_at
  child_at :: child_at
  to_send :: bytes
  in_pipe :: bytes
  parent_writes :: bool
  child_writes :: bool
  terminal :: bytes

definition init_pipe :: "bytes \<Rightarrow> pipe_demo" where
  "init_pipe arg = \<lparr>parent_at = P_close_read, child_at = C_close_write, to_send = arg, in_pipe = [],
     parent_writes = True, child_writes = True, terminal = []\<rparr>"

text \<open>A step of the parent; while it writes, \<open>n\<close> bytes that fit go into the pipe, which holds \<open>cap\<close>.\<close>

definition parent_step :: "nat \<Rightarrow> nat \<Rightarrow> pipe_demo \<Rightarrow> pipe_demo option" where
  "parent_step cap n s = (case parent_at s of
     P_close_read \<Rightarrow> Some (s\<lparr>parent_at := P_write\<rparr>)
   | P_write \<Rightarrow> if to_send s = [] then Some (s\<lparr>parent_at := P_wait, parent_writes := False\<rparr>)
       else if 0 < n \<and> n \<le> length (to_send s) \<and> length (in_pipe s) + n \<le> cap
         then Some (s\<lparr>to_send := drop n (to_send s), in_pipe := in_pipe s @ take n (to_send s)\<rparr>)
       else None
   | P_wait \<Rightarrow> if child_at s = C_exit then Some (s\<lparr>parent_at := P_exit\<rparr>) else None
   | P_exit \<Rightarrow> None)"

text \<open>The child reads byte by byte up to the end, which there is when nobody can write any more. The last
  \<open>read\<close>, from a descriptor that is closed, only fails.\<close>

definition child_step :: "pipe_demo \<Rightarrow> pipe_demo option" where
  "child_step s = (case child_at s of
     C_close_write \<Rightarrow> Some (s\<lparr>child_at := C_read, child_writes := False\<rparr>)
   | C_read \<Rightarrow> (case in_pipe s of
         b # bs \<Rightarrow> Some (s\<lparr>child_at := C_put b, in_pipe := bs\<rparr>)
       | [] \<Rightarrow> if parent_writes s \<or> child_writes s then None else Some (s\<lparr>child_at := C_newline\<rparr>))
   | C_put b \<Rightarrow> Some (s\<lparr>child_at := C_read, terminal := terminal s @ [b]\<rparr>)
   | C_newline \<Rightarrow> Some (s\<lparr>child_at := C_last_read, terminal := terminal s @ [10]\<rparr>)
   | C_last_read \<Rightarrow> Some (s\<lparr>child_at := C_exit\<rparr>)
   | C_exit \<Rightarrow> None)"

inductive pipe_step :: "nat \<Rightarrow> pipe_demo \<Rightarrow> pipe_demo \<Rightarrow> bool" for cap where
  parent: "parent_step cap n s = Some s' \<Longrightarrow> pipe_step cap s s'"
| child: "child_step s = Some s' \<Longrightarrow> pipe_step cap s s'"

inductive_cases pipe_step_cases: "pipe_step cap s s'"

inductive pipe_reach :: "nat \<Rightarrow> bytes \<Rightarrow> nat \<Rightarrow> pipe_demo \<Rightarrow> bool" for cap arg where
  pipe_start: "pipe_reach cap arg 0 (init_pipe arg)"
| pipe_more: "pipe_reach cap arg k s \<Longrightarrow> pipe_step cap s s' \<Longrightarrow> pipe_reach cap arg (Suc k) s'"

text \<open>What the child has in its hand, and the invariant: nothing is lost and nothing is swapped.\<close>

definition in_hand :: "pipe_demo \<Rightarrow> bytes" where
  "in_hand s = (case child_at s of C_put b \<Rightarrow> [b] | _ \<Rightarrow> [])"

definition pipe_inv :: "bytes \<Rightarrow> pipe_demo \<Rightarrow> bool" where
  "pipe_inv arg s \<longleftrightarrow>
    (if child_at s \<in> {C_last_read, C_exit} then terminal s = arg @ [10] \<and> in_pipe s = [] \<and> to_send s = []
     else terminal s @ in_hand s @ in_pipe s @ to_send s = arg) \<and>
    (parent_writes s \<longleftrightarrow> parent_at s \<in> {P_close_read, P_write}) \<and>
    (child_writes s \<longleftrightarrow> child_at s = C_close_write) \<and>
    (\<not> parent_writes s \<longrightarrow> to_send s = []) \<and>
    (child_at s \<in> {C_newline, C_last_read, C_exit} \<longrightarrow> in_pipe s = [] \<and> \<not> parent_writes s) \<and>
    (parent_at s = P_exit \<longrightarrow> child_at s = C_exit)"

text \<open>The work left: a byte to send counts three, one in the pipe two.\<close>

definition pipe_work :: "pipe_demo \<Rightarrow> nat" where
  "pipe_work s = 3 * length (to_send s) + 2 * length (in_pipe s)
    + (case parent_at s of P_close_read \<Rightarrow> 3 | P_write \<Rightarrow> 2 | P_wait \<Rightarrow> 1 | P_exit \<Rightarrow> 0)
    + (case child_at s of C_close_write \<Rightarrow> 4 | C_read \<Rightarrow> 3 | C_put b \<Rightarrow> 4 | C_newline \<Rightarrow> 2 | C_last_read \<Rightarrow> 1 | C_exit \<Rightarrow> 0)"

lemma parent_step_inv:
  assumes st: "parent_step cap n s = Some s'" and inv: "pipe_inv arg s"
  shows "pipe_inv arg s' \<and> pipe_work s' < pipe_work s"
proof (cases "parent_at s")
  case P_close_read
  with st have s': "s' = s\<lparr>parent_at := P_write\<rparr>" by (simp add: parent_step_def)
  have "child_at s \<notin> {C_newline, C_last_read, C_exit}" using inv P_close_read by (auto simp: pipe_inv_def)
  then show ?thesis using inv P_close_read unfolding s' pipe_inv_def in_hand_def pipe_work_def by simp
next
  case P_write
  then have c: "child_at s \<notin> {C_newline, C_last_read, C_exit}" using inv by (auto simp: pipe_inv_def)
  show ?thesis
  proof (cases "to_send s = []")
    case True
    with st P_write have s': "s' = s\<lparr>parent_at := P_wait, parent_writes := False\<rparr>" by (simp add: parent_step_def)
    show ?thesis using inv c True P_write unfolding s' pipe_inv_def in_hand_def pipe_work_def by simp
  next
    case False
    with st P_write have s': "s' = s\<lparr>to_send := drop n (to_send s), in_pipe := in_pipe s @ take n (to_send s)\<rparr>"
      and n: "0 < n" "n \<le> length (to_send s)" by (simp_all add: parent_step_def split: if_splits)
    show ?thesis using inv c n P_write unfolding s' pipe_inv_def in_hand_def pipe_work_def by simp
  qed
next
  case P_wait
  with st have s': "s' = s\<lparr>parent_at := P_exit\<rparr>" "child_at s = C_exit" by (simp_all add: parent_step_def split: if_splits)
  show ?thesis using inv P_wait s'(2) unfolding s'(1) pipe_inv_def in_hand_def pipe_work_def by simp
next
  case P_exit
  with st show ?thesis by (simp add: parent_step_def)
qed

lemma child_step_inv:
  assumes st: "child_step s = Some s'" and inv: "pipe_inv arg s"
  shows "pipe_inv arg s' \<and> pipe_work s' < pipe_work s"
proof (cases "child_at s")
  case C_close_write
  with st have s': "s' = s\<lparr>child_at := C_read, child_writes := False\<rparr>" by (simp add: child_step_def)
  show ?thesis using inv C_close_write unfolding s' pipe_inv_def in_hand_def pipe_work_def by simp
next
  case C_read
  show ?thesis
  proof (cases "in_pipe s")
    case Nil
    with st C_read have s': "s' = s\<lparr>child_at := C_newline\<rparr>" "\<not> parent_writes s" by (simp_all add: child_step_def split: if_splits)
    show ?thesis using inv C_read Nil s'(2) unfolding s'(1) pipe_inv_def in_hand_def pipe_work_def by simp (metis append_Nil2)
  next
    case (Cons b bs)
    with st C_read have s': "s' = s\<lparr>child_at := C_put b, in_pipe := bs\<rparr>" by (simp add: child_step_def)
    show ?thesis using inv C_read Cons unfolding s' pipe_inv_def in_hand_def pipe_work_def by simp
  qed
next
  case (C_put b)
  with st have s': "s' = s\<lparr>child_at := C_read, terminal := terminal s @ [b]\<rparr>" by (simp add: child_step_def)
  show ?thesis using inv C_put unfolding s' pipe_inv_def in_hand_def pipe_work_def by simp
next
  case C_newline
  with st have s': "s' = s\<lparr>child_at := C_last_read, terminal := terminal s @ [10]\<rparr>" by (simp add: child_step_def)
  show ?thesis using inv C_newline unfolding s' pipe_inv_def in_hand_def pipe_work_def by auto
next
  case C_last_read
  with st have s': "s' = s\<lparr>child_at := C_exit\<rparr>" by (simp add: child_step_def)
  show ?thesis using inv C_last_read unfolding s' pipe_inv_def in_hand_def pipe_work_def by auto
next
  case C_exit
  with st show ?thesis by (simp add: child_step_def)
qed

lemma pipe_reach_inv: "pipe_reach cap arg k s \<Longrightarrow> pipe_inv arg s \<and> k + pipe_work s \<le> 3 * length arg + 7"
proof (induction rule: pipe_reach.induct)
  case pipe_start
  show ?case by (simp add: pipe_inv_def init_pipe_def in_hand_def pipe_work_def)
next
  case (pipe_more k s s')
  have "pipe_inv arg s' \<and> pipe_work s' < pipe_work s"
    using pipe_more(2,3) parent_step_inv child_step_inv by (blast elim: pipe_step_cases)
  with pipe_more(3) show ?case by simp
qed

lemma pipe_goes_on:
  assumes "0 < cap" "pipe_inv arg s" "\<not> (parent_at s = P_exit \<and> child_at s = C_exit)"
  shows "\<exists>s'. pipe_step cap s s'"
proof (cases "child_step s")
  case (Some s')
  then show ?thesis by (blast intro: child)
next
  case None
  then have c: "child_at s = C_exit \<or> child_at s = C_read \<and> in_pipe s = [] \<and> (parent_writes s \<or> child_writes s)"
    by (auto simp: child_step_def split: child_at.splits list.splits if_splits)
  have "parent_step cap 1 s \<noteq> None"
    using assms c by (cases "parent_at s"; cases "to_send s") (auto simp: parent_step_def pipe_inv_def)
  then show ?thesis by (blast intro: parent)
qed

text \<open>The pipe delivers: for every argument, every capacity of the pipe and every order of the
  steps, \<open>pipe.c\<close> makes at most \<open>3 * length arg + 7\<close> steps, it can go on until both processes have exited, and
  then the child has printed the argument and a newline.\<close>

theorem pipe_delivers:
  assumes "pipe_reach cap arg k s" "0 < cap"
  shows "k \<le> 3 * length arg + 7 \<and> (if parent_at s = P_exit \<and> child_at s = C_exit then terminal s = arg @ [10] else \<exists>s'. pipe_step cap s s')"
  using pipe_reach_inv [OF assms(1)] pipe_goes_on [OF assms(2)] by (auto simp: pipe_inv_def)

theorem pipe_delivers_witness: "\<exists>s'. pipe_step 1 (init_pipe [104, 105]) s'"
  using pipe_delivers [OF pipe_start, of 1 "[104, 105]"] by (simp add: init_pipe_def)

text \<open>The program with its arguments, up to the fork: \<open>None\<close> if it goes on to the two processes.\<close>

definition main_pipe :: "bytes list \<Rightarrow> bool \<Rightarrow> int \<Rightarrow> pipe_demo run" where
  "main_pipe argv pipe_works cpid = (if length argv \<noteq> 2 then exit_with 1
     else if \<not> pipe_works then exit_with 1
     else if cpid = -1 then exit_with 1 else ret (init_pipe (argv ! 1)))"

section \<open>Starting programs\<close>

text \<open>An input line is what \<open>getline\<close> returns, with its newline; each comes with whether the \<open>fork\<close> of its
  round succeeds. The last byte is overwritten, whatever it is.\<close>

datatype lab2_line = Prompt | Started bytes | Exec_Failure | Wait_Error | Getline_Failed

text \<open>A process runs until the input is used up and then exits with 1; the result is what is printed and
  the input it leaves. A child whose \<open>execl\<close> fails stays in the loop and reads on, while its parent waits.\<close>

function (domintros) lab2_loop :: "(bytes \<Rightarrow> bool) \<Rightarrow> (bytes \<times> bool) list \<Rightarrow> lab2_line list \<times> (bytes \<times> bool) list" where
  "lab2_loop can_exec [] = ([Prompt, Getline_Failed], [])"
| "lab2_loop can_exec ((line, forked) # input) =
    (if \<not> forked then let (out, rest) = lab2_loop can_exec input in (Prompt # Wait_Error # out, rest)
     else if can_exec (butlast line)
       then let (out, rest) = lab2_loop can_exec input in (Prompt # Started (butlast line) # out, rest)
     else let (child_out, input') = lab2_loop can_exec input;
              (out, rest) = lab2_loop can_exec input'
       in (Prompt # Exec_Failure # child_out @ out, rest))"
  by pat_completeness auto
termination
proof -
  have rest: "lab2_loop_dom (can_exec, input) \<Longrightarrow> snd (lab2_loop can_exec input) = []" for can_exec input
  proof (induction rule: lab2_loop.pinduct)
    case (2 can_exec line forked input)
    then show ?case by (cases "lab2_loop can_exec input") (auto simp: lab2_loop.psimps case_prod_beta Let_def)
  qed (simp add: lab2_loop.psimps)
  show ?thesis
  proof (relation "measure (\<lambda>(_, input). length input)", goal_cases)
    case (5 can_exec line forked input x child_out input')
    then have "lab2_loop_dom (can_exec, input)" "input' = snd (lab2_loop can_exec input)" by (simp_all, metis snd_conv)
    then show ?case using rest [of can_exec input] by simp
  qed simp_all
qed

text \<open>Every command that cannot be executed leaves another shell that reads on: at the end of the input
  there are as many failures of \<open>getline\<close> as failed commands, and one more.\<close>

theorem failed_exec_doubles_shell:
  "count_list (fst (lab2_loop can_exec input)) Getline_Failed = Suc (count_list (fst (lab2_loop can_exec input)) Exec_Failure)
   \<and> snd (lab2_loop can_exec input) = []"
proof (induction can_exec input rule: lab2_loop.induct)
  case (2 can_exec line forked input)
  then show ?case by (auto simp: case_prod_beta Let_def count_list_append split: if_splits)
qed simp

theorem lab2_starts_all:
  assumes "\<forall>(line, forked)\<in>set input. forked \<and> can_exec (butlast line)"
  shows "fst (lab2_loop can_exec input) = concat (map (\<lambda>(line, _). [Prompt, Started (butlast line)]) input) @ [Prompt, Getline_Failed]"
  using assms by (induction input) (auto simp: case_prod_beta Let_def)

theorem lab2_starts_all_witness:
  "fst (lab2_loop (\<lambda>_. True) [([108, 115, 10], True)]) = [Prompt, Started [108, 115], Prompt, Getline_Failed]"
  by (subst lab2_starts_all) simp_all

end
