(* ===== verification/Lab1.thy ===== *)
theory Lab1
  imports Shell_Base
begin

text \<open>\<open>lab/lab1.c\<close>: one line is read and its tokens are printed; the delimiters are the tab and the two
  ends of a line, so a blank does not end a token. \<open>None\<close> is the end of the input.\<close>

datatype lab1_line = Enter_Command | Token bytes | Getline_Failure

definition delim1 :: "u8 \<Rightarrow> bool" where
  "delim1 b \<longleftrightarrow> b \<in> {9, 10, 13}"

definition main_lab1 :: "bytes option \<Rightarrow> lab1_line list" where
  "main_lab1 line = Enter_Command # (case line of None \<Rightarrow> [Getline_Failure]
     | Some buff \<Rightarrow> map Token (strtok delim1 (cstr_of buff)))"

text \<open>Words with a tab between them are printed one by one, also when there are blanks in them.\<close>

theorem main_lab1_tokens:
  assumes "\<forall>w\<in>set ws. w \<noteq> [] \<and> (\<forall>b\<in>set w. b \<notin> {0, 9, 10, 13})"
  shows "main_lab1 (Some (join 9 ws)) = Enter_Command # map Token ws"
proof -
  have "\<forall>b\<in>set (join 9 ws). b \<noteq> 0" using assms by (induction "9 :: u8" ws rule: join.induct) auto
  then have "cstr_of (join 9 ws) = join 9 ws" by (simp add: cstr_of_def takeWhile_eq_all_conv)
  moreover have "strtok delim1 (join 9 ws) = ws" using assms by (intro strtok_join) (auto simp: delim1_def)
  ultimately show ?thesis by (simp add: main_lab1_def)
qed

theorem main_lab1_tokens_witness:
  "main_lab1 (Some [97, 32, 98, 9, 99]) = [Enter_Command, Token [97, 32, 98], Token [99]]"
  using main_lab1_tokens [of "[[97, 32, 98], [99]]"] by simp

end
