(* ===== verification/Sockets.thy ===== *)
theory Sockets
  imports Base
begin

text \<open>
  The socket programs of the lectures. \<open>itcp_client.c\<close> copies its standard input into a connection,
  \<open>itcp_server.c\<close> prints what comes on one connection after the other; \<open>utp_client.c\<close> and \<open>utp_server.c\<close> do the
  same with datagrams, a line each; \<open>socket/client.c\<close> sends one greeting that \<open>socket/server.c\<close> prints. What
  the calls return is the environment. A program that waits for ever, with the environment at its
  end, has the result \<open>None\<close>.
\<close>

definition BUF_SIZE :: nat where "BUF_SIZE = 64"

text \<open>The results of \<open>read\<close>, where no bytes are the end of the input, and of \<open>write\<close>: the number of bytes
  written, or \<open>None\<close> for \<open>-1\<close>.\<close>

datatype got = Got bytes | Fails

type_synonym put = "nat option"

definition written :: "put \<Rightarrow> bytes \<Rightarrow> bytes" where
  "written w bs = (case w of None \<Rightarrow> [] | Some n \<Rightarrow> take n bs)"

section \<open>Streams\<close>

text \<open>The loop that both stream programs have: \<open>read\<close> and \<open>write\<close> until there is nothing to read. The result
  is what has been written, the last result of \<open>read\<close> (or the exit after an incomplete \<open>write\<close>), and what
  is left of the environment.\<close>

fun copy_loop :: "(got \<times> put) list \<Rightarrow> bytes \<times> got run" where
  "copy_loop [] = ([], None)"
| "copy_loop ((Fails, w) # io) = ([], ret Fails)"
| "copy_loop ((Got bs, w) # io) = (if bs = [] then ([], ret (Got []))
     else if w \<noteq> Some (length bs) then (written w bs, exit_with 1)
     else let (out, r) = copy_loop io in (bs @ out, r))"

record stream_setup =
  socket_made :: bool
  address_made :: bool
  connected :: bool
  bound :: bool
  listening :: bool

definition itcp_client :: "stream_setup \<Rightarrow> (got \<times> put) list \<Rightarrow> bytes \<times> int run" where
  "itcp_client su io = (if \<not> socket_made su then ([], exit_with 1)
     else if \<not> address_made su then ([], exit_with 1)
     else if \<not> connected su then ([], exit_with 1)
     else let (sent, r) = copy_loop io
       in (sent, rbind r (\<lambda>num_read. if num_read = Fails then exit_with 1 else exit_with 0)))"

text \<open>The server does not look at the last result of \<open>read\<close> (its test is inside the loop, where it never
  holds) and goes on with the next connection. A failed \<open>accept\<close> is \<open>None\<close>.\<close>

fun itcp_serve :: "(got \<times> put) list option list \<Rightarrow> bytes \<times> int run" where
  "itcp_serve [] = ([], None)"
| "itcp_serve (None # cs) = ([], exit_with 1)"
| "itcp_serve (Some io # cs) = (let (out, r) = copy_loop io
     in case r of Some (Ret num_read) \<Rightarrow> (let (out', r') = itcp_serve cs in (out @ out', r'))
        | _ \<Rightarrow> (out, rbind r (\<lambda>_. exit_with 1)))"

definition itcp_server :: "stream_setup \<Rightarrow> (got \<times> put) list option list \<Rightarrow> bytes \<times> int run" where
  "itcp_server su cs = (if \<not> socket_made su then ([], exit_with 1)
     else if \<not> bound su then ([], exit_with 1)
     else if \<not> listening su then ([], exit_with 1) else itcp_serve cs)"

text \<open>The bytes that a sequence of reads delivers, when every write is complete and the end is reached.\<close>

fun delivers :: "(got \<times> put) list \<Rightarrow> bytes \<Rightarrow> bool" where
  "delivers [] xs \<longleftrightarrow> False"
| "delivers ((Fails, w) # io) xs \<longleftrightarrow> False"
| "delivers ((Got bs, w) # io) xs \<longleftrightarrow> (if bs = [] then xs = []
     else length bs \<le> BUF_SIZE \<and> w = Some (length bs) \<and> take (length bs) xs = bs \<and> delivers io (drop (length bs) xs))"

lemma copy_loop_delivers: "delivers io xs \<Longrightarrow> copy_loop io = (xs, ret (Got []))"
proof (induction io xs rule: delivers.induct)
  case (3 bs w io xs)
  then show ?case by (cases "bs = []") (auto, metis append_take_drop_id)
qed simp_all

text \<open>What the clients of \<open>itcp_server.c\<close> type is printed whole and in the order of the connections,
  however the input and the streams are cut into reads; the server then waits for the next client.\<close>

theorem itcp_end_to_end:
  assumes "list_all2 delivers stdins inputs"
    and "list_all2 (\<lambda>io input. delivers io (fst (itcp_client client_setup input))) streams stdins"
    and "socket_made client_setup \<and> address_made client_setup \<and> connected client_setup"
    and "socket_made server_setup \<and> bound server_setup \<and> listening server_setup"
  shows "itcp_server server_setup (map Some streams) = (concat inputs, None) \<and>
    (\<forall>input\<in>set stdins. snd (itcp_client client_setup input) = exit_with 0)"
proof -
  have client: "itcp_client client_setup input = (xs, exit_with 0)" if "delivers input xs" for input xs
    using that assms(3) by (simp add: itcp_client_def copy_loop_delivers)
  have "itcp_serve (map Some streams) = (concat inputs, None)" using assms(2,1)
  proof (induction streams stdins arbitrary: inputs rule: list_all2_induct)
    case (Cons io streams input stdins)
    then obtain xs inputs' where i: "inputs = xs # inputs'" "delivers input xs" "list_all2 delivers stdins inputs'"
      by (auto simp: list_all2_Cons1)
    then have "delivers io xs" using Cons.hyps client by simp
    then show ?case using Cons.IH [OF i(3)] i(1) by (simp add: copy_loop_delivers ret_def)
  qed simp
  moreover have "\<forall>input\<in>set stdins. snd (itcp_client client_setup input) = exit_with 0"
    using assms(1) client by (fastforce simp: in_set_conv_nth list_all2_conv_all_nth)
  ultimately show ?thesis using assms(4) by (simp add: itcp_server_def)
qed

definition ready_setup :: stream_setup where
  "ready_setup = \<lparr>socket_made = True, address_made = True, connected = True, bound = True, listening = True\<rparr>"

theorem itcp_end_to_end_witness:
  "itcp_server ready_setup (map Some [[(Got [104], Some 1), (Got [105, 10], Some 2), (Got [], None)]]) = (concat [[104, 105, 10]], None)"
  using itcp_end_to_end [of "[[(Got [104, 105, 10], Some 3), (Got [], None)]]" "[[104, 105, 10]]" ready_setup
      "[[(Got [104], Some 1), (Got [105, 10], Some 2), (Got [], None)]]" ready_setup]
  by (simp add: BUF_SIZE_def ready_setup_def itcp_client_def)

text \<open>A failed \<open>read\<close> is not noticed: the server goes on as if the client had closed the connection.\<close>

lemma itcp_read_error_ignored:
  "itcp_serve (Some ((Fails, w) # io) # cs) = itcp_serve cs"
  by (simp add: ret_def)

section \<open>Datagrams\<close>

text \<open>The client sends a datagram for each read of more than one byte; the first shorter one ends it, an
  empty line too. \<open>sendto\<close> returns the number of bytes sent.\<close>

fun send_lines :: "(got \<times> put) list \<Rightarrow> bytes list \<times> int run" where
  "send_lines [] = ([], None)"
| "send_lines ((Fails, w) # io) = ([], exit_with 0)"
| "send_lines ((Got bs, w) # io) = (if length bs \<le> 1 then ([], exit_with 0)
     else if w \<noteq> Some (length bs) then (case w of None \<Rightarrow> [] | Some n \<Rightarrow> [take n bs], exit_with 1)
     else let (ds, r) = send_lines io in (bs # ds, r))"

definition utp_client :: "bool \<Rightarrow> (got \<times> put) list \<Rightarrow> bytes list \<times> int run" where
  "utp_client socket_ok io = (if \<not> socket_ok then ([], exit_with 1) else send_lines io)"

text \<open>The server: a failed \<open>recvfrom\<close> returns \<open>-1\<close>, and \<open>write\<close> is called with that length, which fails
  with \<open>-1\<close> as well: the test finds no difference. A datagram is cut to the size of the buffer.\<close>

fun print_datagrams :: "(got \<times> put) list \<Rightarrow> bytes \<times> int run" where
  "print_datagrams [] = ([], None)"
| "print_datagrams ((Fails, w) # io) = print_datagrams io"
| "print_datagrams ((Got bs, w) # io) = (let ds = take BUF_SIZE bs
     in if w \<noteq> Some (length ds) then (written w ds, exit_with 1)
        else let (out, r) = print_datagrams io in (ds @ out, r))"

definition utp_server :: "bool \<Rightarrow> bool \<Rightarrow> bool \<Rightarrow> (got \<times> put) list \<Rightarrow> bytes \<times> int run" where
  "utp_server socket_ok removed bind_ok io = (if \<not> socket_ok then ([], exit_with 1)
     else if \<not> removed then ([], exit_with 1)
     else if \<not> bind_ok then ([], exit_with 1) else print_datagrams io)"

definition complete :: "bytes list \<Rightarrow> (got \<times> put) list" where
  "complete lines = map (\<lambda>l. (Got l, Some (length l))) lines"

lemma send_lines_all:
  "\<forall>l\<in>set lines. 1 < length l \<Longrightarrow> length l0 \<le> 1 \<Longrightarrow> send_lines (complete (lines @ l0 # later)) = (lines, exit_with 0)"
  by (induction lines) (auto simp: complete_def)

lemma print_datagrams_all:
  "\<forall>l\<in>set lines. length l \<le> BUF_SIZE \<Longrightarrow> print_datagrams (complete lines) = (concat lines, None)"
  by (induction lines) (auto simp: complete_def)

text \<open>The lines before the first empty one are printed; the client then ends, whatever follows.\<close>

theorem utp_end_to_end:
  assumes "\<forall>l\<in>set lines. 1 < length l \<and> length l \<le> BUF_SIZE" "length l0 \<le> 1"
  shows "snd (utp_client True (complete (lines @ l0 # later))) = exit_with 0 \<and>
    utp_server True True True (complete (fst (utp_client True (complete (lines @ l0 # later))))) = (concat lines, None)"
  using assms send_lines_all [of lines l0 later] print_datagrams_all [of lines] by (simp add: utp_client_def utp_server_def)

theorem utp_end_to_end_witness:
  "utp_server True True True (complete (fst (utp_client True (complete ([[104, 105, 10]] @ [10] # [[111, 10]]))))) = (concat [[104, 105, 10]], None)"
  using utp_end_to_end [of "[[104, 105, 10]]" "[10]" "[[111, 10]]"] by (simp add: BUF_SIZE_def)

text \<open>A server whose \<open>recvfrom\<close> keeps failing prints nothing and never exits.\<close>

theorem utp_server_ignores_errors: "print_datagrams (replicate n (Fails, w)) = ([], None)"
  by (induction n) simp_all

section \<open>One greeting\<close>

definition hello_world :: bytes where
  "hello_world = [104, 101, 108, 108, 111, 32, 119, 111, 114, 108, 100, 33, 10]"

definition socket_client :: "stream_setup \<Rightarrow> put \<Rightarrow> bytes \<times> int run" where
  "socket_client su w = (if \<not> socket_made su then ([], exit_with 1)
     else if \<not> connected su then ([], exit_with 1) else (written w hello_world, ret 0))"

text \<open>The server reads once; what a second \<open>read\<close> would give is lost.\<close>

definition socket_server :: "stream_setup \<Rightarrow> bool \<Rightarrow> bool \<Rightarrow> got \<Rightarrow> put \<Rightarrow> bytes \<times> int run" where
  "socket_server su removed accepted first_read w = (if \<not> socket_made su then ([], exit_with 1)
     else if \<not> removed then ([], exit_with 1)
     else if \<not> bound su then ([], exit_with 1)
     else if \<not> listening su then ([], exit_with 1)
     else if \<not> accepted then ([], exit_with 1)
     else case first_read of Fails \<Rightarrow> ([], exit_with 1) | Got bs \<Rightarrow> (written w bs, ret 0))"

theorem greeting_arrives:
  "socket_server ready_setup True True (Got (fst (socket_client ready_setup (Some 13)))) (Some 13) = (hello_world, ret 0)"
  by (simp add: socket_server_def socket_client_def ready_setup_def written_def hello_world_def)

end
