(* ===== verification/Shared_Memory.thy ===== *)
theory Shared_Memory
  imports C_Strings
begin

text \<open>
  Memory that is mapped: \<open>lecture/share_write.c\<close> puts a number into a shared memory object and
  \<open>lecture/share_read.c\<close> prints it, as two processes whose steps interleave; \<open>lecture/mapping.c\<close> prints a file
  through a mapping. The calls of the writer succeed; what fails in the reader is what the order of the
  steps makes fail.
\<close>

section \<open>Writer and reader\<close>

datatype writer_at = W_open | W_truncate | W_map | W_store | W_key | W_unmap | W_unlink | W_exit

datatype reader_at = R_open | R_map | R_read | R_print cint | R_key | R_exit int | R_killed

text \<open>The object: whether its name exists, whether it has the size of an \<open>int\<close>, and its contents. It stays
  alive behind a mapping when the name is gone. \<open>shown\<close> is what the reader has printed.\<close>

record shm =
  named :: bool
  sized :: bool
  contents :: cint
  writer_at :: writer_at
  reader_at :: reader_at
  shown :: "cint option"

text \<open>At the start there may be an object that an earlier run has left behind.\<close>

definition init_shm :: "cint option \<Rightarrow> shm" where
  "init_shm old = \<lparr>named = (old \<noteq> None), sized = (old \<noteq> None), contents = (case old of None \<Rightarrow> 0 | Some v \<Rightarrow> v),
     writer_at = W_open, reader_at = R_open, shown = None\<rparr>"

text \<open>\<open>ftruncate\<close> fills a new object with zeroes and keeps one that has the size already.\<close>

definition share_write :: "cint \<Rightarrow> shm \<Rightarrow> shm option" where
  "share_write number s = (case writer_at s of
     W_open \<Rightarrow> Some (s\<lparr>named := True, writer_at := W_truncate\<rparr>)
   | W_truncate \<Rightarrow> Some (s\<lparr>sized := True, writer_at := W_map\<rparr>)
   | W_map \<Rightarrow> Some (s\<lparr>writer_at := W_store\<rparr>)
   | W_store \<Rightarrow> Some (s\<lparr>contents := number, writer_at := W_key\<rparr>)
   | W_key \<Rightarrow> Some (s\<lparr>writer_at := W_unmap\<rparr>)
   | W_unmap \<Rightarrow> Some (s\<lparr>writer_at := W_unlink\<rparr>)
   | W_unlink \<Rightarrow> Some (s\<lparr>named := False, writer_at := W_exit\<rparr>)
   | W_exit \<Rightarrow> None)"

text \<open>The reader does not wait for the object. Reading behind the end of the object kills it.\<close>

definition share_read :: "shm \<Rightarrow> shm option" where
  "share_read s = (case reader_at s of
     R_open \<Rightarrow> Some (s\<lparr>reader_at := if named s then R_map else R_exit 1\<rparr>)
   | R_map \<Rightarrow> Some (s\<lparr>reader_at := R_read\<rparr>)
   | R_read \<Rightarrow> Some (s\<lparr>reader_at := if sized s then R_print (contents s) else R_killed\<rparr>)
   | R_print v \<Rightarrow> Some (s\<lparr>reader_at := R_key, shown := Some v\<rparr>)
   | R_key \<Rightarrow> Some (s\<lparr>reader_at := R_exit 0\<rparr>)
   | R_exit n \<Rightarrow> None
   | R_killed \<Rightarrow> None)"

inductive shm_reach :: "cint \<Rightarrow> shm \<Rightarrow> shm \<Rightarrow> bool" for number s0 where
  shm_here: "shm_reach number s0 s0"
| shm_writes: "shm_reach number s0 s \<Longrightarrow> share_write number s = Some s' \<Longrightarrow> shm_reach number s0 s'"
| shm_reads: "shm_reach number s0 s \<Longrightarrow> share_read s = Some s' \<Longrightarrow> shm_reach number s0 s'"

text \<open>The values that the reader can hold come from \<open>vs\<close>; \<open>early\<close> allows that the size is not set yet.\<close>

definition sized_at :: "writer_at \<Rightarrow> bool" where
  "sized_at w \<longleftrightarrow> w \<notin> {W_open, W_truncate}"

definition shm_inv :: "cint set \<Rightarrow> bool \<Rightarrow> cint \<Rightarrow> shm \<Rightarrow> bool" where
  "shm_inv vs early number s \<longleftrightarrow> contents s \<in> vs \<and> number \<in> vs \<and> (\<forall>v. shown s = Some v \<longrightarrow> v \<in> vs) \<and>
    (\<forall>v. reader_at s = R_print v \<longrightarrow> v \<in> vs) \<and> (sized_at (writer_at s) \<longrightarrow> sized s) \<and>
    (\<not> early \<longrightarrow> sized s \<and> reader_at s \<noteq> R_killed)"

lemma shm_inv_write: "share_write number s = Some s' \<Longrightarrow> shm_inv vs early number s \<Longrightarrow> shm_inv vs early number s'"
  by (cases "writer_at s") (auto simp: share_write_def shm_inv_def sized_at_def)

lemma shm_inv_read: "share_read s = Some s' \<Longrightarrow> shm_inv vs early number s \<Longrightarrow> shm_inv vs early number s'"
  by (cases "reader_at s") (auto simp: share_read_def shm_inv_def split: if_splits)

lemma shm_inv_reach: "shm_reach number s0 s \<Longrightarrow> shm_inv vs early number s0 \<Longrightarrow> shm_inv vs early number s"
  by (induction rule: shm_reach.induct) (auto intro: shm_inv_write shm_inv_read)

text \<open>In every interleaving the reader prints the number, or 0, or the number of an earlier run; only
  without an earlier run can it be killed.\<close>

theorem share_read_shows:
  assumes "shm_reach number (init_shm old) s"
  shows "(\<forall>v. shown s = Some v \<longrightarrow> v = number \<or> v = (case old of None \<Rightarrow> 0 | Some u \<Rightarrow> u)) \<and>
    (reader_at s = R_killed \<longrightarrow> old = None)"
proof -
  let ?vs = "{number, case old of None \<Rightarrow> 0 | Some u \<Rightarrow> u}"
  have "shm_inv ?vs (old = None) number (init_shm old)"
    by (cases old) (simp_all add: shm_inv_def init_shm_def sized_at_def)
  from shm_inv_reach [OF assms this] show ?thesis by (auto simp: shm_inv_def)
qed

text \<open>A reader that starts when the writer has stored prints the number, if the name still exists.\<close>

theorem share_read_after_store:
  assumes "shm_reach number s0 s" "writer_at s0 = W_key" "sized s0" "contents s0 = number" "reader_at s0 = R_open"
    "shown s0 = None"
  shows "shown s \<in> {None, Some number} \<and> reader_at s \<noteq> R_killed"
proof -
  have "shm_inv {number} False number s0" using assms(2-6) by (simp add: shm_inv_def sized_at_def)
  from shm_inv_reach [OF assms(1) this] show ?thesis by (cases "shown s") (auto simp: shm_inv_def)
qed

text \<open>Two orders that fail: the reader comes first and does not wait, and it comes between \<open>shm_open\<close> and \<open>ftruncate\<close>.\<close>

theorem share_read_too_early:
  "\<exists>s. shm_reach number (init_shm None) s \<and> reader_at s = R_exit 1 \<and> writer_at s = W_open"
  "\<exists>s. shm_reach number (init_shm None) s \<and> reader_at s = R_killed"
proof -
  have "share_read (init_shm None) = Some (init_shm None\<lparr>reader_at := R_exit 1\<rparr>)"
    by (simp add: share_read_def init_shm_def)
  then have "shm_reach number (init_shm None) (init_shm None\<lparr>reader_at := R_exit 1\<rparr>)" by (rule shm_reads [OF shm_here])
  then show "\<exists>s. shm_reach number (init_shm None) s \<and> reader_at s = R_exit 1 \<and> writer_at s = W_open"
    by (intro exI conjI) (assumption, simp_all add: init_shm_def)
  let ?s = "\<lambda>r. init_shm None\<lparr>named := True, writer_at := W_truncate, reader_at := r\<rparr>"
  have "share_write number (init_shm None) = Some (?s R_open)" by (simp add: share_write_def init_shm_def)
  from shm_writes [OF shm_here this] have "shm_reach number (init_shm None) (?s R_open)" .
  then have "shm_reach number (init_shm None) (?s R_map)"
    by (rule shm_reads) (simp add: share_read_def init_shm_def)
  then have "shm_reach number (init_shm None) (?s R_read)"
    by (rule shm_reads) (simp add: share_read_def init_shm_def)
  then have "shm_reach number (init_shm None) (?s R_killed)"
    by (rule shm_reads) (simp add: share_read_def init_shm_def)
  then show "\<exists>s. shm_reach number (init_shm None) s \<and> reader_at s = R_killed"
    by (intro exI conjI) (assumption, simp)
qed

text \<open>The arguments of the two programs: the number to write, the name to read.\<close>

definition main_share_write :: "bytes list \<Rightarrow> cint run" where
  "main_share_write argv = (if length argv \<noteq> 3 then exit_with 1 else ret (of_int (atoi (argv ! 2))))"

definition main_share_read :: "bytes list \<Rightarrow> bytes run" where
  "main_share_read argv = (if length argv \<noteq> 2 then exit_with 1 else ret (argv ! 1))"

section \<open>Printing a mapped file\<close>

text \<open>The file, if it can be opened, whether \<open>fstat\<close> and \<open>mmap\<close> succeed, and the result of \<open>write\<close>. A length
  of 0 is refused by \<open>mmap\<close>.\<close>

definition main_mapping :: "bytes option \<Rightarrow> bool \<Rightarrow> bool \<Rightarrow> nat option \<Rightarrow> bytes \<times> unit run" where
  "main_mapping file stat_ok map_ok s = (case file of None \<Rightarrow> ([], exit_with 1)
   | Some bs \<Rightarrow> if \<not> stat_ok then ([], exit_with 1)
     else if bs = [] \<or> \<not> map_ok then ([], exit_with 1)
     else case s of None \<Rightarrow> ([], exit_with 1)
     | Some n \<Rightarrow> if n \<noteq> length bs then (take n bs, exit_with 1) else (bs, exit_with 0))"

text \<open>A file is printed whole, except that an empty file is an error.\<close>

theorem mapping_prints:
  "main_mapping (Some bs) True True (Some (length bs)) = (bs, exit_with (if bs = [] then 1 else 0))"
  by (simp add: main_mapping_def)

end
