(* ===== verification/Msg_Queue.thy ===== *)
theory Msg_Queue
  imports Node_Store "HOL-Library.Sublist"
begin

text \<open>
  The broadcast queue of \<open>lecture/test4/server.c\<close> and \<open>lecture/test4/servertest.c\<close>: a
  linked list with a head and a tail pointer, and the contract \<open>fifo\<close> that the server
  relies on. The two files differ in what \<open>enqueue_message\<close> does when \<open>malloc\<close> fails or
  the message is too long; both are modelled and both satisfy the contract.

  A node keeps the \<open>len\<close> bytes that were copied into its buffer of \<open>MAX_MSG_SIZE\<close> bytes;
  the bytes behind them are never read.
\<close>

section \<open>The contract of a queue\<close>

text \<open>
  \<open>holds s ms\<close>: the state \<open>s\<close> represents the messages \<open>ms\<close>, oldest first. A full queue
  drops what it is given.
\<close>

locale fifo =
  fixes holds :: "'s \<Rightarrow> 'm list \<Rightarrow> bool"
    and room :: "'s \<Rightarrow> bool"
    and fits :: "'m \<Rightarrow> bool"
    and enq :: "'m \<Rightarrow> 's \<Rightarrow> 's run"
    and deq :: "'s \<Rightarrow> ('m option \<times> 's) run"
  assumes enq_room: "holds s ms \<Longrightarrow> fits m \<Longrightarrow> room s \<Longrightarrow> \<exists>s'. enq m s = ret s' \<and> holds s' (ms @ [m])"
    and deq_empty: "holds s [] \<Longrightarrow> deq s = ret (None, s)"
    and deq_first: "holds s (m # ms) \<Longrightarrow> \<exists>s'. deq s = ret (Some m, s') \<and> holds s' ms"
begin

lemma deq_total:
  assumes "holds s ms"
  obtains r s' where "deq s = ret (r, s')" "holds s' (tl ms)" "r = (if ms = [] then None else Some (hd ms))"
  using assms deq_empty [of s] deq_first [of s "hd ms" "tl ms"] by (cases ms) auto

text \<open>A message comes out behind everything that was queued before it.\<close>

lemma enq_last:
  assumes "holds s ms" "fits m" "room s"
  obtains s' where "enq m s = ret s'" "holds s' (ms @ [m])"
  using enq_room [OF assms] by blast

end

text \<open>
  Serving a list of requests: \<open>Inl m\<close> enqueues, \<open>Inr ()\<close> dequeues; the messages that came
  out are collected.
\<close>

fun serve_ops ::
  "('m \<Rightarrow> 's \<Rightarrow> 's run) \<Rightarrow> ('s \<Rightarrow> ('m option \<times> 's) run) \<Rightarrow> ('m + unit) list \<Rightarrow> 's \<Rightarrow> ('m list \<times> 's) run" where
  "serve_ops enq deq [] s = ret ([], s)"
| "serve_ops enq deq (Inl m # ops) s = rbind (enq m s) (serve_ops enq deq ops)"
| "serve_ops enq deq (Inr u # ops) s = rbind (deq s) (\<lambda>(r, s).
     rbind (serve_ops enq deq ops s) (\<lambda>(out, s). ret ((case r of None \<Rightarrow> out | Some m \<Rightarrow> m # out), s)))"

text \<open>The messages asked to be enqueued, in order.\<close>

fun enqueued :: "('m + unit) list \<Rightarrow> 'm list" where
  "enqueued [] = []"
| "enqueued (Inl m # ops) = m # enqueued ops"
| "enqueued (Inr u # ops) = enqueued ops"

text \<open>
  The reference: the same requests on a list, where the first \<open>n\<close> messages are taken and every
  later one is dropped. It gives the messages that come out and those that are left.
\<close>

fun queue_run :: "nat \<Rightarrow> ('m + unit) list \<Rightarrow> 'm list \<Rightarrow> 'm list \<times> 'm list" where
  "queue_run n [] ms = ([], ms)"
| "queue_run n (Inl m # ops) ms = (if n = 0 then queue_run n ops ms else queue_run (n - 1) ops (ms @ [m]))"
| "queue_run n (Inr u # ops) [] = queue_run n ops []"
| "queue_run n (Inr u # ops) (m # ms) = (case queue_run n ops ms of (out, rest) \<Rightarrow> (m # out, rest))"

lemma queue_run_fifo: "queue_run n ops ms = (out, rest) \<Longrightarrow> out @ rest = ms @ take n (enqueued ops)"
  by (induction n ops ms arbitrary: out rule: queue_run.induct)
    (auto simp: take_Cons' split: if_splits prod.splits)

text \<open>A queue that takes \<open>left s\<close> more messages and forgets the others.\<close>

locale lossy_fifo = fifo +
  fixes left :: "'s \<Rightarrow> nat"
  assumes enq_full: "holds s ms \<Longrightarrow> \<not> room s \<Longrightarrow> enq m s = ret s"
    and room_left: "room s \<longleftrightarrow> 0 < left s"
    and enq_left: "holds s ms \<Longrightarrow> fits m \<Longrightarrow> room s \<Longrightarrow> enq m s = ret s' \<Longrightarrow> left s' = left s - 1"
    and deq_left: "holds s ms \<Longrightarrow> deq s = ret (r, s') \<Longrightarrow> left s' = left s"
begin

text \<open>The queue does what the reference does.\<close>

lemma serve_ops_fifo:
  "holds s ms \<Longrightarrow> list_all fits (enqueued ops) \<Longrightarrow> queue_run (left s) ops ms = (out, rest) \<Longrightarrow>
     \<exists>s'. serve_ops enq deq ops s = ret (out, s') \<and> holds s' rest"
proof (induction ops arbitrary: s ms out)
  case Nil
  then show ?case by auto
next
  case (Cons op ops)
  show ?case
  proof (cases op)
    case (Inl m)
    with Cons.prems have m: "fits m" "list_all fits (enqueued ops)" by simp_all
    show ?thesis
    proof (cases "room s")
      case True
      from enq_last [OF Cons.prems(1) m(1) True] obtain s1 where s1: "enq m s = ret s1" "holds s1 (ms @ [m])" .
      have "queue_run (left s1) ops (ms @ [m]) = (out, rest)"
        using Cons.prems(3) Inl True enq_left [OF Cons.prems(1) m(1) True s1(1)] by (simp add: room_left)
      with Cons.IH [OF s1(2) m(2)] s1(1) Inl show ?thesis by simp
    next
      case False
      with Cons.prems(3) Inl have "queue_run (left s) ops ms = (out, rest)" by (simp add: room_left)
      with Cons.IH [OF Cons.prems(1) m(2)] enq_full [OF Cons.prems(1) False] Inl show ?thesis by simp
    qed
  next
    case (Inr u)
    from Cons.prems(1) obtain r s1 where
      d: "deq s = ret (r, s1)" "holds s1 (tl ms)" "r = (if ms = [] then None else Some (hd ms))"
      by (rule deq_total)
    have l: "left s1 = left s" by (rule deq_left [OF Cons.prems(1) d(1)])
    have f: "list_all fits (enqueued ops)" using Cons.prems(2) Inr by simp
    obtain out1 where o: "queue_run (left s1) ops (tl ms) = (out1, rest)"
      "out = (case r of None \<Rightarrow> out1 | Some m \<Rightarrow> m # out1)"
      using Cons.prems(3) Inr d(3) l by (cases ms) (auto split: prod.splits)
    from Cons.IH [OF d(2) f o(1)] d(1) o(2) Inr show ?thesis by auto
  qed
qed

end

section \<open>The queue of the server\<close>

definition MAX_MSG_SIZE :: nat where
  "MAX_MSG_SIZE = 1024"

record message_node =
  buffer :: bytes
  len :: nat
  next_node :: nat

record msg_queue =
  qheap :: "message_node store"
  queue_head :: nat
  queue_tail :: nat

text \<open>The critical section of \<open>enqueue_message\<close>: linking a new node behind the tail.\<close>

definition link_tail :: "nat \<Rightarrow> message_node store \<Rightarrow> 'a msg_queue_scheme \<Rightarrow> 'a msg_queue_scheme run" where
  "link_tail p h q = (if queue_tail q = 0 then ret (q\<lparr>qheap := h, queue_head := p, queue_tail := p\<rparr>)
     else rbind (assign h (queue_tail q) (\<lambda>n. n\<lparr>next_node := p\<rparr>)) (\<lambda>h.
       ret (q\<lparr>qheap := h, queue_tail := p\<rparr>)))"

text \<open>\<open>memcpy\<close> of \<open>n\<close> bytes of \<open>buf\<close> into a node.\<close>

definition fill_node :: "bytes \<Rightarrow> nat \<Rightarrow> message_node run" where
  "fill_node buf n = (if length buf < n \<or> MAX_MSG_SIZE < n then fail OutOfBounds
     else ret \<lparr>buffer = take n buf, len = n, next_node = 0\<rparr>)"

definition enqueue_message :: "bytes \<Rightarrow> nat \<Rightarrow> 'a msg_queue_scheme \<Rightarrow> 'a msg_queue_scheme run" where
  "enqueue_message buf n q = (if top (qheap q) < cap (qheap q)
     then rbind (fill_node buf n) (\<lambda>nd. case malloc nd (qheap q) of (new_node, h) \<Rightarrow> link_tail new_node h q)
     else ret q)"

text \<open>The variant of \<open>servertest.c\<close>: a message that is too long is dropped, and the process
  exits when \<open>malloc\<close> fails.\<close>

definition enqueue_checked :: "bytes \<Rightarrow> nat \<Rightarrow> 'a msg_queue_scheme \<Rightarrow> 'a msg_queue_scheme run" where
  "enqueue_checked buf n q = (if MAX_MSG_SIZE < n then ret q
     else if top (qheap q) < cap (qheap q)
     then rbind (fill_node buf n) (\<lambda>nd. case malloc nd (qheap q) of (new_node, h) \<Rightarrow> link_tail new_node h q)
     else exit_with 1)"

text \<open>
  \<open>dequeue_message\<close> once the wait is over: \<open>NULL\<close> when the queue is empty, otherwise the
  first node, which is unlinked.
\<close>

definition dequeue_message :: "'a msg_queue_scheme \<Rightarrow> (nat \<times> 'a msg_queue_scheme) run" where
  "dequeue_message q = (if queue_head q = 0 then ret (0, q)
     else rbind (deref (qheap q) (queue_head q)) (\<lambda>n.
       let q' = q\<lparr>queue_head := next_node n\<rparr>
       in ret (queue_head q, if next_node n = 0 then q'\<lparr>queue_tail := 0\<rparr> else q')))"

text \<open>The condition of the wait loop.\<close>

definition must_wait :: "bool \<Rightarrow> 'a msg_queue_scheme \<Rightarrow> bool" where
  "must_wait running q \<longleftrightarrow> queue_head q = 0 \<and> running"

text \<open>What the worker does with a node: it reads its bytes, sends them and frees it.\<close>

definition take_message :: "'a msg_queue_scheme \<Rightarrow> (bytes option \<times> 'a msg_queue_scheme) run" where
  "take_message q = rbind (dequeue_message q) (\<lambda>(p, q). if p = 0 then ret (None, q)
     else rbind (deref (qheap q) p) (\<lambda>n. rbind (release (qheap q) p) (\<lambda>h.
       ret (Some (take (len n) (buffer n)), q\<lparr>qheap := h\<rparr>))))"

text \<open>\<open>cleanup_and_exit\<close>, step 4: freeing what is left in the queue.\<close>

partial_function (option) free_nodes :: "message_node store \<Rightarrow> nat \<Rightarrow> message_node store run" where
  "free_nodes h p = (if p = 0 then ret h
     else rbind (deref h p) (\<lambda>n. rbind (release h p) (\<lambda>h. free_nodes h (next_node n))))"

section \<open>The queue holds a list of messages\<close>

definition node_of :: "bytes \<Rightarrow> message_node \<Rightarrow> bool" where
  "node_of m n \<longleftrightarrow> take (len n) (buffer n) = m"

definition queue_of :: "'a msg_queue_scheme \<Rightarrow> bytes list \<Rightarrow> bool" where
  "queue_of q ms \<longleftrightarrow> store_ok (qheap q) \<and> (\<exists>ns. chain next_node (cells (qheap q)) (queue_head q) ns 0
     \<and> ms = map (\<lambda>(p, n). take (len n) (buffer n)) ns
     \<and> queue_tail q = (if ns = [] then 0 else fst (last ns)))"

definition empty_queue :: "nat \<Rightarrow> msg_queue" where
  "empty_queue n = \<lparr>qheap = empty_store n, queue_head = 0, queue_tail = 0\<rparr>"

definition queue_room :: "'a msg_queue_scheme \<Rightarrow> bool" where
  "queue_room q \<longleftrightarrow> top (qheap q) < cap (qheap q)"

definition fits_node :: "bytes \<Rightarrow> bool" where
  "fits_node m \<longleftrightarrow> length m \<le> MAX_MSG_SIZE"

lemma queue_of_empty [simp]: "queue_of (empty_queue n) []"
  by (simp add: queue_of_def empty_queue_def)

lemma queue_head_0: "queue_of q ms \<Longrightarrow> queue_head q = 0 \<longleftrightarrow> ms = []"
  unfolding queue_of_def by (elim conjE exE) (erule chain_cases, auto)

lemma link_tail_queue:
  assumes q: "queue_of q ms" and m: "malloc \<lparr>buffer = m, len = length m, next_node = 0\<rparr> (qheap q) = (p, h)"
    and room: "queue_room q"
  shows "\<exists>q'. link_tail p h q = ret q' \<and> queue_of q' (ms @ [m]) \<and> cap (qheap q') = cap (qheap q)
    \<and> top (qheap q') = Suc (top (qheap q)) \<and> msg_queue.more q' = msg_queue.more q"
proof -
  let ?nd = "\<lparr>buffer = m, len = length m, next_node = 0\<rparr>"
  from q obtain ns where ok: "store_ok (qheap q)" and c: "chain next_node (cells (qheap q)) (queue_head q) ns 0"
    and ms: "ms = map (\<lambda>(p, n). take (len n) (buffer n)) ns"
    and tl: "queue_tail q = (if ns = [] then 0 else fst (last ns))"
    unfolding queue_of_def by (elim conjE exE)
  from m room have p: "p = Suc (top (qheap q))"
    and h: "h = (qheap q)\<lparr>cells := (cells (qheap q))(p \<mapsto> ?nd), top := p\<rparr>"
    by (auto simp: malloc_def queue_room_def)
  have ok': "store_ok h" by (rule store_ok_malloc [OF ok m])
  have fresh: "p \<notin> fst ` set ns" using chain_below_top [OF ok c] p by simp
  show ?thesis
  proof (cases ns rule: rev_cases)
    case Nil
    with tl p h ms ok' show ?thesis
      by (intro exI [of _ "q\<lparr>qheap := h, queue_head := p, queue_tail := p\<rparr>"])
        (auto simp: link_tail_def queue_of_def intro!: exI [of _ "[(p, ?nd)]"])
  next
    case (snoc us x)
    obtain a n where x: "x = (a, n)" by (cases x)
    define h2 where "h2 = h\<lparr>cells := (cells h)(a \<mapsto> n\<lparr>next_node := p\<rparr>)\<rparr>"
    from chain_distinct [OF c] snoc x have a: "a \<notin> fst ` set us" by auto
    from c snoc x have ca: "chain next_node (cells (qheap q)) (queue_head q) us a" "a \<noteq> 0"
      "cells (qheap q) a = Some n" by auto
    have pa: "p \<noteq> a" using fresh snoc x by auto
    then have ha: "cells h a = Some n" using ca h by simp
    have l: "link_tail p h q = ret (q\<lparr>qheap := h2, queue_tail := p\<rparr>)"
      using tl snoc x ca ha by (simp add: link_tail_def h2_def)
    have "chain next_node (cells h2) (queue_head q) (us @ [(a, n\<lparr>next_node := p\<rparr>), (p, ?nd)]) 0"
      using ca a pa fresh snoc p by (simp add: h2_def h)
    moreover have "store_ok h2" unfolding h2_def by (rule store_ok_upd [OF ok' ha])
    ultimately have "queue_of (q\<lparr>qheap := h2, queue_tail := p\<rparr>) (ms @ [m])"
      using ms snoc x unfolding queue_of_def
      by (intro conjI exI [of _ "us @ [(a, n\<lparr>next_node := p\<rparr>), (p, ?nd)]"]) simp_all
    with l show ?thesis by (auto simp: h2_def h p)
  qed
qed

lemma enqueue_message_room:
  assumes "queue_of q ms" "length m \<le> MAX_MSG_SIZE" "queue_room q"
  shows "\<exists>q'. enqueue_message m (length m) q = ret q' \<and> queue_of q' (ms @ [m])
    \<and> cap (qheap q') = cap (qheap q) \<and> top (qheap q') = Suc (top (qheap q))
    \<and> msg_queue.more q' = msg_queue.more q"
proof -
  obtain p h where m: "malloc \<lparr>buffer = m, len = length m, next_node = 0\<rparr> (qheap q) = (p, h)" by fastforce
  with link_tail_queue [OF assms(1) m assms(3)] assms(2,3) show ?thesis
    by (auto simp: enqueue_message_def fill_node_def queue_room_def)
qed

lemma enqueue_checked_room:
  "length m \<le> MAX_MSG_SIZE \<Longrightarrow> queue_room q \<Longrightarrow> enqueue_checked m (length m) q = enqueue_message m (length m) q"
  by (simp add: enqueue_checked_def enqueue_message_def queue_room_def)

text \<open>When \<open>malloc\<close> fails the message is lost, and only that.\<close>

lemma enqueue_message_full: "\<not> queue_room q \<Longrightarrow> enqueue_message m n q = ret q"
  by (simp add: enqueue_message_def queue_room_def)

lemma take_message_empty: "queue_of q [] \<Longrightarrow> take_message q = ret (None, q)"
  by (auto simp: queue_of_def take_message_def dequeue_message_def)

lemma take_message_first:
  assumes "queue_of q (m # ms)"
  shows "\<exists>q'. take_message q = ret (Some m, q') \<and> queue_of q' ms \<and> cap (qheap q') = cap (qheap q)
    \<and> top (qheap q') = top (qheap q) \<and> msg_queue.more q' = msg_queue.more q"
proof -
  from assms obtain ns where ok: "store_ok (qheap q)"
    and c: "chain next_node (cells (qheap q)) (queue_head q) ns 0"
    and ms: "m # ms = map (\<lambda>(p, n). take (len n) (buffer n)) ns"
    and tl: "queue_tail q = (if ns = [] then 0 else fst (last ns))"
    unfolding queue_of_def by (elim conjE exE)
  from ms obtain x us where xus: "ns = x # us" by (cases ns) simp_all
  obtain a n where x: "x = (a, n)" by (cases x)
  have ns: "ns = (a, n) # us" using xus x by simp
  have msu: "ms = map (\<lambda>(p, n). take (len n) (buffer n)) us" and m: "m = take (len n) (buffer n)"
    using ms ns by simp_all
  from c ns have a: "queue_head q = a" "a \<noteq> 0" "cells (qheap q) a = Some n"
    and c': "chain next_node (cells (qheap q)) (next_node n) us 0" by simp_all
  from chain_distinct [OF c] ns have na: "a \<notin> fst ` set us" by simp
  define q' where "q' = q\<lparr>qheap := (qheap q)\<lparr>cells := (cells (qheap q))(a := None)\<rparr>,
    queue_head := next_node n, queue_tail := (if next_node n = 0 then 0 else queue_tail q)\<rparr>"
  have r: "take_message q = ret (Some m, q')"
    unfolding take_message_def dequeue_message_def q'_def m Let_def
    by (simp add: a)
  have "next_node n = 0 \<longleftrightarrow> us = []" using c' by (cases rule: chain_cases) simp_all
  then have "queue_tail q' = (if us = [] then 0 else fst (last us))" using tl ns by (simp add: q'_def)
  moreover have "chain next_node (cells (qheap q')) (queue_head q') us 0" using c' na by (simp add: q'_def)
  moreover have "store_ok (qheap q')" using store_ok_free [OF ok] by (simp add: q'_def)
  ultimately have "queue_of q' ms" using msu unfolding queue_of_def by (intro conjI exI [of _ us])
  moreover have "cap (qheap q') = cap (qheap q)" "top (qheap q') = top (qheap q)"
    "msg_queue.more q' = msg_queue.more q" by (simp_all add: q'_def)
  ultimately show ?thesis using r by (intro exI [of _ q'] conjI)
qed

lemma free_nodes_step [run_simps]:
  "free_nodes h 0 = ret h"
  "p \<noteq> 0 \<Longrightarrow> free_nodes h p = rbind (deref h p) (\<lambda>n. rbind (release h p) (\<lambda>h. free_nodes h (next_node n)))"
  by (subst free_nodes.simps; simp)+

lemma free_nodes_chain:
  "chain next_node (cells h) p ns 0 \<Longrightarrow>
     \<exists>h'. free_nodes h p = ret h' \<and> (\<forall>a. cells h' a = (if a \<in> fst ` set ns then None else cells h a))"
proof (induction ns arbitrary: h p)
  case Nil
  then show ?case by (simp add: free_nodes_step)
next
  case (Cons m ns)
  obtain a n where m: "m = (a, n)" by (cases m)
  with Cons.prems have a: "p = a" "a \<noteq> 0" "cells h a = Some n" "chain next_node (cells h) (next_node n) ns 0"
    by simp_all
  from chain_distinct [OF Cons.prems] m have na: "a \<notin> fst ` set ns" by simp
  let ?h = "h\<lparr>cells := (cells h)(a := None)\<rparr>"
  have "chain next_node (cells ?h) (next_node n) ns 0" using a(4) na by simp
  from Cons.IH [OF this] obtain h' where h': "free_nodes ?h (next_node n) = ret h'"
    "\<forall>b. cells h' b = (if b \<in> fst ` set ns then None else cells ?h b)" by blast
  have "free_nodes h p = ret h'" using a h'(1) by (simp add: free_nodes_step)
  with h'(2) m show ?case by (intro exI [of _ h']) simp
qed

definition nodes_left :: "'a msg_queue_scheme \<Rightarrow> nat" where
  "nodes_left q = cap (qheap q) - top (qheap q)"

lemma take_message_frame:
  assumes "queue_of q ms" "take_message q = ret (r, q')"
  shows "cap (qheap q') = cap (qheap q) \<and> top (qheap q') = top (qheap q)"
  using assms take_message_empty [of q] take_message_first [of q "hd ms" "tl ms"] by (cases ms) auto

interpretation server_queue: lossy_fifo queue_of queue_room fits_node
  "\<lambda>m. enqueue_message m (length m)" take_message nodes_left
proof
  fix q q' :: "'a msg_queue_scheme" and m ms r
  show "queue_of q ms \<Longrightarrow> fits_node m \<Longrightarrow> queue_room q \<Longrightarrow>
      \<exists>q'. enqueue_message m (length m) q = ret q' \<and> queue_of q' (ms @ [m])"
    using enqueue_message_room [of q ms m] by (auto simp: fits_node_def)
  show "queue_of q [] \<Longrightarrow> take_message q = ret (None, q)" by (rule take_message_empty)
  show "queue_of q (m # ms) \<Longrightarrow> \<exists>q'. take_message q = ret (Some m, q') \<and> queue_of q' ms"
    using take_message_first [of q m ms] by auto
  show "queue_of q ms \<Longrightarrow> \<not> queue_room q \<Longrightarrow> enqueue_message m (length m) q = ret q"
    by (rule enqueue_message_full)
  show "queue_room q = (0 < nodes_left q)" by (simp add: queue_room_def nodes_left_def)
  show "queue_of q ms \<Longrightarrow> fits_node m \<Longrightarrow> queue_room q \<Longrightarrow> enqueue_message m (length m) q = ret q' \<Longrightarrow>
      nodes_left q' = nodes_left q - 1"
    using enqueue_message_room [of q ms m] by (auto simp: fits_node_def nodes_left_def)
  show "queue_of q ms \<Longrightarrow> take_message q = ret (r, q') \<Longrightarrow> nodes_left q' = nodes_left q"
    using take_message_frame [of q ms r q'] by (simp add: nodes_left_def)
qed

interpretation servertest_queue: fifo queue_of queue_room fits_node
  "\<lambda>m. enqueue_checked m (length m)" take_message
proof
  fix q :: "'a msg_queue_scheme" and m ms
  show "queue_of q ms \<Longrightarrow> fits_node m \<Longrightarrow> queue_room q \<Longrightarrow>
      \<exists>q'. enqueue_checked m (length m) q = ret q' \<and> queue_of q' (ms @ [m])"
    using enqueue_message_room [of q ms m] by (auto simp: fits_node_def enqueue_checked_room)
  show "queue_of q [] \<Longrightarrow> take_message q = ret (None, q)" by (rule take_message_empty)
  show "queue_of q (m # ms) \<Longrightarrow> \<exists>q'. take_message q = ret (Some m, q') \<and> queue_of q' ms"
    using take_message_first [of q m ms] by auto
qed

text \<open>
  Property C6. The broadcast queue is first in, first out: for every sequence of enqueue and
  dequeue operations on an empty queue, where \<open>malloc\<close> gives \<open>n\<close> nodes in all, the messages
  that come out and those that are left are the ones of a list queue that takes the first
  \<open>n\<close> messages; together they are these \<open>n\<close> messages in their order, so that a message is
  dropped only when \<open>malloc\<close> fails.
\<close>

theorem message_queue_fifo:
  assumes "list_all fits_node (enqueued ops)"
  shows "\<exists>out q rest. serve_ops (\<lambda>m. enqueue_message m (length m)) take_message ops (empty_queue n) = ret (out, q)
    \<and> queue_of q rest \<and> (out, rest) = queue_run n ops [] \<and> out @ rest = take n (enqueued ops)"
proof -
  obtain out rest where r: "queue_run n ops [] = (out, rest)" by (cases "queue_run n ops []")
  have "nodes_left (empty_queue n) = n" by (simp add: nodes_left_def empty_queue_def empty_store_def)
  with r have "queue_run (nodes_left (empty_queue n)) ops [] = (out, rest)" by simp
  from server_queue.serve_ops_fifo [OF queue_of_empty assms this] r queue_run_fifo [OF r]
  show ?thesis by auto
qed

text \<open>The third message finds no memory; the second dequeue gives the second message.\<close>

theorem message_queue_fifo_witness:
  "\<exists>q. serve_ops (\<lambda>m. enqueue_message m (length m)) take_message
      [Inl [1, 10], Inl [0, 65, 10], Inr (), Inl [7], Inr (), Inr ()] (empty_queue 2) = ret ([[1, 10], [0, 65, 10]], q)
    \<and> queue_of q []"
  using message_queue_fifo [of "[Inl [1, 10], Inl [0, 65, 10], Inr (), Inl [7], Inr (), Inr ()]" 2]
  by (simp add: fits_node_def MAX_MSG_SIZE_def)

end
