(* ===== verification/Chat_Server.thy ===== *)
theory Chat_Server
  imports Msg_Queue
begin

text \<open>
  The chat server of \<open>lecture/test4/server.c\<close>: client table, message handling and the
  \<open>select\<close> loop of the main thread. The state is the queue of \<open>Msg_Queue\<close> extended with
  the globals of the file; the buffers of the main loop are arguments and results.

  What \<open>getpeername\<close> leaves in the address structure, which descriptors are ready and what
  \<open>read\<close> and \<open>accept\<close> deliver are the environment and are arguments. Text printed to the
  terminal is not modelled.
\<close>

section \<open>State\<close>

definition MAX_CLIENTS :: nat where
  "MAX_CLIENTS = 100"

definition TYPE_REGULAR :: u8 where
  "TYPE_REGULAR = 0"

definition TYPE_END_EXECUTION :: u8 where
  "TYPE_END_EXECUTION = 1"

text \<open>\<open>clients\<close> is the part of the array below \<open>num_clients\<close>.\<close>

record client =
  fd :: cint
  addr :: "u32 \<times> u16"

record server = msg_queue +
  clients :: "client list"
  expected_clients :: cint
  finished_clients_count :: cint
  server_running :: bool
  closed :: "cint list" \<comment> \<open>the descriptors passed to \<open>close\<close>\<close>

definition init_server :: "nat \<Rightarrow> cint \<Rightarrow> server" where
  "init_server n expected = \<lparr>qheap = empty_store n, queue_head = 0, queue_tail = 0, clients = [],
     expected_clients = expected, finished_clients_count = 0, server_running = True, closed = []\<rparr>"

section \<open>Client table\<close>

fun find_client :: "cint \<Rightarrow> client list \<Rightarrow> nat option" where
  "find_client d [] = None"
| "find_client d (c # cs) = (if fd c = d then Some 0 else map_option Suc (find_client d cs))"

definition remove_client :: "cint \<Rightarrow> 'a server_scheme \<Rightarrow> 'a server_scheme" where
  "remove_client d s = (case find_client d (clients s) of None \<Rightarrow> s
     | Some i \<Rightarrow> let n = length (clients s);
           cs = (if i < n - 1 then (clients s)[i := clients s ! (n - 1)] else clients s)
         in s\<lparr>clients := take (n - 1) cs, closed := closed s @ [d]\<rparr>)"

section \<open>Handling one message\<close>

text \<open>\<open>memcpy\<close> of a 32-bit and of a 16-bit value: the bytes in memory order, lowest first.\<close>

definition put_u32 :: "u32 \<Rightarrow> bytes" where
  "put_u32 v = [ucast v, ucast (drop_bit 8 v), ucast (drop_bit 16 v), ucast (drop_bit 24 v)]"

definition put_u16 :: "u16 \<Rightarrow> bytes" where
  "put_u16 v = [ucast v, ucast (drop_bit 8 v)]"

text \<open>\<open>memmove(buffer, buffer + k, n - k)\<close>.\<close>

definition shift_buffer :: "nat \<Rightarrow> nat \<Rightarrow> bytes \<Rightarrow> bytes" where
  "shift_buffer k n buf = take (n - k) (drop k buf) @ drop (n - k) buf"

definition broadcast_frame :: "u32 \<Rightarrow> u16 \<Rightarrow> bytes \<Rightarrow> nat \<Rightarrow> bytes" where
  "broadcast_frame ip port buf msg_len =
     [TYPE_REGULAR] @ put_u32 ip @ put_u16 port @ take (msg_len - 1) (drop 1 buf)"

definition handle_message ::
  "(cint \<Rightarrow> u32 \<times> u16) \<Rightarrow> cint \<Rightarrow> bytes \<Rightarrow> int \<Rightarrow> 'a server_scheme \<Rightarrow> (int \<times> bytes \<times> 'a server_scheme) run" where
  "handle_message peer sender_fd buf ln s =
     (if ln \<le> 0 then ret (- 1, buf, s)
      else if int (length buf) < ln then fail OutOfBounds
      else case memchr 10 (take (nat ln) buf) of None \<Rightarrow> ret (0, buf, s)
      | Some newline_pos \<Rightarrow>
        let msg_len = newline_pos + 1; type = buf ! 0;
            done = (\<lambda>shutdown s. ret (if shutdown then - 2 else int msg_len,
              if msg_len < nat ln then shift_buffer msg_len (nat ln) buf else buf, s))
        in if type = TYPE_REGULAR then
             (case peer sender_fd of (ip, port) \<Rightarrow>
               if MAX_MSG_SIZE < msg_len + 6 then done False s
               else rbind (enqueue_message (broadcast_frame ip port buf msg_len) (msg_len + 6) s) (done False))
           else if type = TYPE_END_EXECUTION then
             (if msg_len \<noteq> 2 then done False s
              else let s = s\<lparr>finished_clients_count := finished_clients_count s + 1\<rparr>
                in if finished_clients_count s = expected_clients s
                   then rbind (enqueue_message [TYPE_END_EXECUTION, 10] 2 s) (\<lambda>s.
                     done True (s\<lparr>server_running := False\<rparr>))
                   else done False s)
           else done False s)"

text \<open>Lines 481 to 486: all full messages of a buffer. The result of the last call, the
  buffer and \<open>client_data_len\<close>.\<close>

partial_function (option) drain ::
  "(cint \<Rightarrow> u32 \<times> u16) \<Rightarrow> cint \<Rightarrow> bytes \<Rightarrow> int \<Rightarrow> 'a server_scheme \<Rightarrow> (int \<times> bytes \<times> int \<times> 'a server_scheme) run" where
  "drain peer d buf ln s = rbind (handle_message peer d buf ln s) (\<lambda>(r, buf, s).
     if 0 < r then drain peer d buf (ln - r) s else ret (r, buf, ln, s))"

section \<open>The main loop\<close>

text \<open>
  A round of the loop. \<open>read_from d\<close> is what \<open>read\<close> finds on descriptor \<open>d\<close>: \<open>None\<close> for an
  error, otherwise the bytes that are waiting (none of them at the end of the stream); a
  call takes as many as it was asked for.
\<close>

datatype activity = Select_error | Select_eintr | Select_timeout | Select_ready

record round =
  activity :: activity
  accepts :: "(cint \<times> u32 \<times> u16) option option" \<comment> \<open>\<open>None\<close>: the listener is not ready; \<open>Some None\<close>: \<open>accept\<close> fails\<close>
  ready :: "cint \<Rightarrow> bool"
  read_from :: "cint \<Rightarrow> bytes option"
  peer_of :: "cint \<Rightarrow> u32 \<times> u16"

definition read_bytes :: "round \<Rightarrow> cint \<Rightarrow> nat \<Rightarrow> bytes option" where
  "read_bytes r d n = map_option (take n) (read_from r d)"

text \<open>The slots of \<open>client_buffers\<close> and \<open>client_data_len\<close>.\<close>

type_synonym slots = "(bytes \<times> int) list"

definition init_slots :: slots where
  "init_slots = replicate MAX_CLIENTS (replicate MAX_MSG_SIZE 0, 0)"

text \<open>What the body of the loop ends with.\<close>

datatype loop_result = Continue | Break | Shutdown

partial_function (option) serve_clients ::
  "round \<Rightarrow> nat \<Rightarrow> slots \<Rightarrow> 'a server_scheme \<Rightarrow> (loop_result \<times> slots \<times> 'a server_scheme) run" where
  "serve_clients r i bufs s = (if i < length (clients s)
     then let client_fd = fd (clients s ! i)
       in if ready r client_fd
          then (case bufs ! i of (buf, ln) \<Rightarrow>
            let got = (case read_bytes r client_fd (nat (int MAX_MSG_SIZE - ln)) of None \<Rightarrow> [] | Some bs \<Rightarrow> bs)
            in if got = [] then serve_clients r i bufs (remove_client client_fd s)
               else rbind (drain (peer_of r) client_fd
                       (take (nat ln) buf @ got @ drop (nat ln + length got) buf) (ln + int (length got)) s)
                 (\<lambda>(res, buf, ln, s).
                   if res = - 2 then ret (Shutdown, bufs[i := (buf, ln)], s)
                   else serve_clients r (i + 1) (bufs[i := (buf, ln)]) s))
          else serve_clients r (i + 1) bufs s
     else ret (Continue, bufs, s))"

definition accept_client ::
  "cint \<Rightarrow> u32 \<times> u16 \<Rightarrow> slots \<Rightarrow> 'a server_scheme \<Rightarrow> bool \<times> slots \<times> 'a server_scheme" where
  "accept_client new_fd a bufs s = (let n = length (clients s)
     in if n < MAX_CLIENTS
        then (True, bufs[n := (fst (bufs ! n), 0)], s\<lparr>clients := clients s @ [\<lparr>fd = new_fd, addr = a\<rparr>]\<rparr>)
        else (False, bufs, s\<lparr>closed := closed s @ [new_fd]\<rparr>))"

definition io_round :: "round \<Rightarrow> slots \<Rightarrow> 'a server_scheme \<Rightarrow> (loop_result \<times> slots \<times> 'a server_scheme) run" where
  "io_round r bufs s = (case activity r of
       Select_error \<Rightarrow> ret (Break, bufs, s)
     | Select_eintr \<Rightarrow> ret (Continue, bufs, s)
     | Select_timeout \<Rightarrow> ret (Continue, bufs, s)
     | Select_ready \<Rightarrow> (case accepts r of
           Some (Some (new_fd, a)) \<Rightarrow> (case accept_client new_fd a bufs s of (added, bufs, s) \<Rightarrow>
             if added then ret (Continue, bufs, s) else serve_clients r 0 bufs s)
         | _ \<Rightarrow> serve_clients r 0 bufs s))"

text \<open>Lines 397 to 499. Between two rounds the worker thread may take a message out of the queue,
  broadcast and free it (in the middle of a round it may do so too, but there it only
  takes what was queued before, and waits with it for the lock; \<open>Chat_Threads\<close> has all
  interleavings).\<close>

datatype server_event = Worker_takes | In_round round

fun io_loop :: "server_event list \<Rightarrow> slots \<Rightarrow> 'a server_scheme \<Rightarrow> (loop_result \<times> slots \<times> 'a server_scheme) run" where
  "io_loop [] bufs s = ret (Continue, bufs, s)"
| "io_loop (Worker_takes # es) bufs s = rbind (take_message s) (\<lambda>(m, s). io_loop es bufs s)"
| "io_loop (In_round r # es) bufs s = (if \<not> server_running s then ret (Break, bufs, s)
     else rbind (io_round r bufs s) (\<lambda>(res, bufs, s).
       if res = Continue then io_loop es bufs s else ret (res, bufs, s)))"

text \<open>\<open>pthread_join(worker_tid)\<close>. While \<open>server_running\<close> is set the worker does not return, and the
  join waits for ever. Otherwise it depends on where the worker is when the flag is cleared:
  \<^item> in the loop or at the broadcast: it sees the flag and ends;
  \<^item> in \<open>dequeue_message\<close>: it takes one more message if there is one, and then ends;
  \<^item> between the test of the wait condition and \<open>pthread_cond_wait\<close>, when the signal is sent
    without the lock of the queue: it waits for ever, unless a message was queued too.\<close>

datatype worker_place = Broadcasting | Dequeuing | Misses_signal

definition join_worker :: "worker_place \<Rightarrow> 'a server_scheme \<Rightarrow> 'a server_scheme run" where
  "join_worker w s = (if server_running s then None
     else if w = Broadcasting then ret s
     else if queue_head s \<noteq> 0 then rbind (take_message s) (\<lambda>(m, s). ret s)
     else if w = Dequeuing then ret s else None)"

text \<open>\<open>cleanup_and_exit\<close>; the process then exits.\<close>

definition cleanup :: "worker_place \<Rightarrow> 'a server_scheme \<Rightarrow> 'a server_scheme run" where
  "cleanup w s = rbind (join_worker w s) (\<lambda>s. rbind (free_nodes (qheap s) (queue_head s)) (\<lambda>h.
     ret (s\<lparr>qheap := h, closed := closed s @ map fd (clients s)\<rparr>)))"

section \<open>One step of each loop\<close>

lemma drain_step:
  "drain peer d buf ln s = rbind (handle_message peer d buf ln s) (\<lambda>(r, buf, s).
     if 0 < r then drain peer d buf (ln - r) s else ret (r, buf, ln, s))"
  by (rule drain.simps)

lemma serve_clients_end [run_simps]:
  "\<not> i < length (clients s) \<Longrightarrow> serve_clients r i bufs s = ret (Continue, bufs, s)"
  by (subst serve_clients.simps) simp

lemma serve_clients_step [run_simps]:
  "i < length (clients s) \<Longrightarrow> fd (clients s ! i) = d \<Longrightarrow> bufs ! i = (buf, ln) \<Longrightarrow> serve_clients r i bufs s =
    (if ready r d then
       let got = (case read_bytes r d (nat (int MAX_MSG_SIZE - ln)) of None \<Rightarrow> [] | Some bs \<Rightarrow> bs)
       in if got = [] then serve_clients r i bufs (remove_client d s)
          else rbind (drain (peer_of r) d
                  (take (nat ln) buf @ got @ drop (nat ln + length got) buf) (ln + int (length got)) s)
            (\<lambda>(res, buf, ln, s).
              if res = - 2 then ret (Shutdown, bufs[i := (buf, ln)], s)
              else serve_clients r (i + 1) (bufs[i := (buf, ln)]) s)
     else serve_clients r (i + 1) bufs s)"
  by (subst serve_clients.simps) (simp add: Let_def)

end
