(* ===== verification/Chat_Protocol.thy ===== *)
theory Chat_Protocol
  imports Chat_Server
begin

text \<open>
  What the server of \<open>lecture/test4/server.c\<close> makes of the byte stream of a client, stated
  on lists of bytes (\<open>serve\<close>), and the proof that \<open>handle_message\<close> with the loop around it
  implements it (\<open>drain_refines\<close>). The specification does not depend on how the stream is
  cut into reads.
\<close>

section \<open>Specification\<close>

record chat =
  pending :: "bytes list"
  finished :: cint
  expected :: cint
  running :: bool

text \<open>The effect of one line (without its newline); the flag says that the server shuts down.\<close>

definition serve_frame :: "u32 \<times> u16 \<Rightarrow> bytes \<Rightarrow> chat \<Rightarrow> bool \<times> chat" where
  "serve_frame a frame st = (case frame of [] \<Rightarrow> (False, st)
     | t # payload \<Rightarrow>
       if t = 0 then (False, if length payload + 8 \<le> 1024
         then st\<lparr>pending := pending st @ [[0] @ put_u32 (fst a) @ put_u16 (snd a) @ payload @ [10]]\<rparr> else st)
       else if t = 1 \<and> payload = [] then
         (let st = st\<lparr>finished := finished st + 1\<rparr>
          in if finished st = expected st
             then (True, st\<lparr>pending := pending st @ [[1, 10]], running := False\<rparr>) else (False, st))
       else (False, st))"

text \<open>All complete lines of a stream; the bytes behind the last one are left over.\<close>

function serve :: "u32 \<times> u16 \<Rightarrow> bytes \<Rightarrow> chat \<Rightarrow> bool \<times> chat \<times> bytes" where
  "serve a xs st = (case memchr 10 xs of None \<Rightarrow> (False, st, xs)
     | Some k \<Rightarrow> (case serve_frame a (take k xs) st of (sd, st') \<Rightarrow>
         if sd then (True, st', drop (k + 1) xs) else serve a (drop (k + 1) xs) st'))"
  by pat_completeness auto
termination
  by (relation "measure (\<lambda>(a, xs, st). length xs)") (auto dest: memchr_less)

declare serve.simps [simp del]

lemma memchr_append_left: "memchr c xs = Some k \<Longrightarrow> memchr c (xs @ ys) = Some k"
  by (simp add: memchr_append_Some)

text \<open>
  The specification of the server is independent of how the stream of a client
  is cut into reads: serving \<open>xs @ ys\<close> is serving \<open>xs\<close> and then what it left over together
  with \<open>ys\<close>.
\<close>

lemma serve_chunks:
  "serve a (xs @ ys) st = (case serve a xs st of (sd, st', rest) \<Rightarrow>
     if sd then (True, st', rest @ ys) else serve a (rest @ ys) st')"
proof (induction a xs st rule: serve.induct)
  case (1 a xs st)
  show ?case
  proof (cases "memchr 10 xs")
    case None
    then show ?thesis by (simp add: serve.simps [of a xs])
  next
    case (Some k)
    obtain sd st' where f: "serve_frame a (take k xs) st = (sd, st')" by fastforce
    from Some have k: "k < length xs" by (rule memchr_less)
    have "serve a (xs @ ys) st = (if sd then (True, st', drop (k + 1) xs @ ys)
        else serve a (drop (k + 1) xs @ ys) st')"
      using Some f k by (simp add: serve.simps [of a "xs @ ys"] memchr_append_left)
    with 1 [OF Some f [symmetric]] Some f show ?thesis by (simp add: serve.simps [of a xs])
  qed
qed

section \<open>Representation\<close>

definition agree :: "'a server_scheme \<Rightarrow> chat \<Rightarrow> bool" where
  "agree s st \<longleftrightarrow> queue_of s (pending st) \<and> finished_clients_count s = finished st
     \<and> expected_clients s = expected st \<and> server_running s = running st"

lemma more_fields:
  assumes "msg_queue.more s' = msg_queue.more (s :: 'a server_scheme)"
  shows "clients s' = clients s" "expected_clients s' = expected_clients s"
    "finished_clients_count s' = finished_clients_count s" "server_running s' = server_running s"
    "closed s' = closed s"
  using assms by (cases s; cases s'; simp)+

lemma queue_of_fields [simp]:
  "queue_of (s\<lparr>finished_clients_count := n\<rparr>) ms = queue_of s ms"
  "queue_of (s\<lparr>server_running := b\<rparr>) ms = queue_of s ms"
  by (simp_all add: queue_of_def)

text \<open>Nothing but the queue and the counters is touched.\<close>

definition same_table :: "'a server_scheme \<Rightarrow> 'a server_scheme \<Rightarrow> bool" where
  "same_table s s' \<longleftrightarrow> clients s' = clients s \<and> closed s' = closed s
     \<and> cap (qheap s') = cap (qheap s)"

lemma enqueue_agree:
  assumes "agree s st" "length m \<le> 1024" "top (qheap s) < cap (qheap s)"
  obtains s' where "enqueue_message m (length m) s = ret s'" "agree s' (st\<lparr>pending := pending st @ [m]\<rparr>)"
    "same_table s s'" "top (qheap s') = Suc (top (qheap s))"
proof -
  from assms have "queue_of s (pending st)" "length m \<le> MAX_MSG_SIZE" "queue_room s"
    by (simp_all add: agree_def MAX_MSG_SIZE_def queue_room_def)
  from enqueue_message_room [OF this] obtain s' where s': "enqueue_message m (length m) s = ret s'"
    "queue_of s' (pending st @ [m])" "cap (qheap s') = cap (qheap s)"
    "top (qheap s') = Suc (top (qheap s))" "msg_queue.more s' = msg_queue.more s" by blast
  show thesis
    by (rule that [OF s'(1) _ _ s'(4)]) (use s' assms(1) more_fields [OF s'(5)] in \<open>simp_all add: agree_def same_table_def\<close>)
qed

lemma shift_buffer_take:
  "k \<le> n \<Longrightarrow> n \<le> length buf \<Longrightarrow> take (n - k) (shift_buffer k n buf) = drop k (take n buf)"
  "n \<le> length buf \<Longrightarrow> length (shift_buffer k n buf) = length buf"
  by (auto simp: shift_buffer_def drop_take min_def)

section \<open>One message\<close>

lemma handle_frame:
  assumes ag: "agree s st" and room: "top (qheap s) < cap (qheap s)"
    and n: "0 < n" "n \<le> length buf" and k: "memchr 10 (take n buf) = Some k"
    and f: "serve_frame (peer d) (take k (take n buf)) st = (sd, st')"
  shows "\<exists>s'. handle_message peer d buf (int n) s =
      ret (if sd then - 2 else int (k + 1), if k + 1 < n then shift_buffer (k + 1) n buf else buf, s')
    \<and> agree s' st' \<and> same_table s s' \<and> top (qheap s') \<le> Suc (top (qheap s))"
proof -
  let ?buf' = "if k + 1 < n then shift_buffer (k + 1) n buf else buf"
  from memchr_SomeD [OF k] n have kn: "k < n" "buf ! k = 10" by auto
  have tk: "take k (take n buf) = take k buf" using kn by (simp add: min_def)
  obtain ip port where p: "peer d = (ip, port)" by (cases "peer d")
  have start: "handle_message peer d buf (int n) s =
      (let done = (\<lambda>shutdown s. ret (if shutdown then - 2 else int (k + 1), ?buf', s))
       in if buf ! 0 = 0 then
            (if 1024 < k + 7 then done False s
             else rbind (enqueue_message (broadcast_frame ip port buf (k + 1)) (k + 7) s) (done False))
          else if buf ! 0 = 1 then
            (if k + 1 \<noteq> 2 then done False s
             else let s = s\<lparr>finished_clients_count := finished_clients_count s + 1\<rparr>
               in if finished_clients_count s = expected_clients s
                  then rbind (enqueue_message [1, 10] 2 s) (\<lambda>s. done True (s\<lparr>server_running := False\<rparr>))
                  else done False s)
          else done False s)"
    using n k p by (simp add: handle_message_def Let_def TYPE_REGULAR_def TYPE_END_EXECUTION_def MAX_MSG_SIZE_def
        add.commute)
  have keep: ?thesis if "sd = False" "st' = st"
    "handle_message peer d buf (int n) s = ret (int (k + 1), ?buf', s)"
    using that ag by (intro exI [of _ s]) (simp add: same_table_def)
  show ?thesis
  proof (cases "take k buf")
    case Nil
    with n have "k = 0" by auto
    with kn start have "handle_message peer d buf (int n) s = ret (int (k + 1), ?buf', s)"
      by (simp add: Let_def)
    moreover have "sd = False" "st' = st"
      using f unfolding tk Nil by (simp_all add: serve_frame_def)
    ultimately show ?thesis by (rule keep [rotated 2])
  next
    case (Cons t payload)
    then have k0: "0 < k" by (cases k) simp_all
    have t: "buf ! 0 = t" using Cons k0 by (metis nth_Cons_0 nth_take)
    have lp: "length payload + 1 = k" using Cons kn n by (metis Suc_eq_plus1 length_Cons length_take less_imp_le_nat min.absorb2 order_less_le_trans)
    have "take k (drop 1 buf) = drop 1 (take (k + 1) buf)" by (simp add: drop_take)
    also have "take (k + 1) buf = take k buf @ [10]" using kn n by (simp add: take_Suc_conv_app_nth)
    finally have pay: "take k (drop 1 buf) = payload @ [10]" using Cons by simp
    consider (reg) "t = 0" | (fin) "t = 1" | (other) "t \<noteq> 0" "t \<noteq> 1" by blast
    then show ?thesis
    proof cases
      case reg
      show ?thesis
      proof (cases "1024 < k + 7")
        case True
        then have "sd = False" "st' = st" using f tk Cons reg lp by (simp_all add: serve_frame_def)
        moreover have "handle_message peer d buf (int n) s = ret (int (k + 1), ?buf', s)"
          using start t reg True by (simp add: Let_def)
        ultimately show ?thesis by (rule keep)
      next
        case False
        let ?m = "[0] @ put_u32 ip @ put_u16 port @ payload @ [10]"
        have m: "broadcast_frame ip port buf (k + 1) = ?m" "length ?m = k + 7"
          using pay lp by (simp_all add: broadcast_frame_def TYPE_REGULAR_def put_u32_def put_u16_def)
        from False m(2) have "length ?m \<le> 1024" by simp
        then obtain s' where s': "enqueue_message ?m (length ?m) s = ret s'"
          "agree s' (st\<lparr>pending := pending st @ [?m]\<rparr>)" "same_table s s'"
          "top (qheap s') = Suc (top (qheap s))" using enqueue_agree [OF ag _ room] by metis
        have "handle_message peer d buf (int n) s = ret (int (k + 1), ?buf', s')"
          using start t reg False s'(1) unfolding m by (simp add: Let_def)
        moreover have "sd = False" "st' = st\<lparr>pending := pending st @ [?m]\<rparr>"
          using f tk Cons reg lp False p by (simp_all add: serve_frame_def)
        ultimately show ?thesis using s' by (intro exI [of _ s']) simp
      qed
    next
      case fin
      show ?thesis
      proof (cases "payload = []")
        case False
        then have "sd = False" "st' = st" using f tk Cons fin by (simp_all add: serve_frame_def)
        moreover have "k + 1 \<noteq> 2" using False lp by (cases payload) auto
        then have "handle_message peer d buf (int n) s = ret (int (k + 1), ?buf', s)"
          using start t fin by (simp add: Let_def)
        ultimately show ?thesis by (rule keep)
      next
        case True
        then have k1: "k = 1" using lp by simp
        define s1 where "s1 = s\<lparr>finished_clients_count := finished_clients_count s + 1\<rparr>"
        define st1 where "st1 = st\<lparr>finished := finished st + 1\<rparr>"
        have ag1: "agree s1 st1" using ag by (simp add: agree_def s1_def st1_def)
        have q1: "qheap s1 = qheap s" "same_table s s1" by (simp_all add: s1_def same_table_def)
        show ?thesis
        proof (cases "finished st1 = expected st1")
          case False
          then have "finished_clients_count s1 \<noteq> expected_clients s1" using ag1 by (simp add: agree_def)
          then have "handle_message peer d buf (int n) s = ret (int (k + 1), ?buf', s1)"
            using start t fin k1 by (simp add: Let_def s1_def)
          moreover have "sd = False" "st' = st1"
            using f tk Cons fin True False by (simp_all add: serve_frame_def Let_def st1_def)
          ultimately show ?thesis using ag1 q1 by (intro exI [of _ s1]) simp
        next
          case eq: True
          then have eq': "finished_clients_count s1 = expected_clients s1" using ag1 by (simp add: agree_def)
          have "top (qheap s1) < cap (qheap s1)" using room q1 by simp
          then obtain s2 where s2: "enqueue_message [1, 10] (length [1, 10 :: u8]) s1 = ret s2"
            "agree s2 (st1\<lparr>pending := pending st1 @ [[1, 10]]\<rparr>)" "same_table s1 s2"
            "top (qheap s2) = Suc (top (qheap s1))" using enqueue_agree [OF ag1, of "[1, 10]"] by auto
          have cnt: "finished_clients_count s + 1 = expected_clients s" using eq' by (simp add: s1_def)
          have "enqueue_message [1, 10] 2 (s\<lparr>finished_clients_count := expected_clients s\<rparr>) = ret s2"
            using s2(1) cnt by (simp add: s1_def numeral_2_eq_2)
          then have "handle_message peer d buf (int n) s = ret (- 2, ?buf', s2\<lparr>server_running := False\<rparr>)"
            using start t fin k1 cnt by (simp add: Let_def numeral_2_eq_2)
          moreover have "sd = True" "st' = st1\<lparr>pending := pending st1 @ [[1, 10]], running := False\<rparr>"
            using f tk Cons fin True eq by (simp_all add: serve_frame_def Let_def st1_def)
          ultimately show ?thesis using s2 q1
            by (intro exI [of _ "s2\<lparr>server_running := False\<rparr>"]) (simp add: agree_def same_table_def)
        qed
      qed
    next
      case other
      then have "sd = False" "st' = st" using f tk Cons by (simp_all add: serve_frame_def)
      moreover have "handle_message peer d buf (int n) s = ret (int (k + 1), ?buf', s)"
        using start t other by (simp add: Let_def)
      ultimately show ?thesis by (rule keep)
    qed
  qed
qed

section \<open>All messages of a buffer\<close>

lemma same_table_trans: "same_table s s' \<Longrightarrow> same_table s' s'' \<Longrightarrow> same_table s s''"
  by (simp add: same_table_def)

text \<open>What the caller of \<open>drain\<close> finds, in terms of the specification.\<close>

definition drained :: "bool \<times> chat \<times> bytes \<Rightarrow> nat \<Rightarrow> int \<times> bytes \<times> int \<times> 'a server_scheme \<Rightarrow> bool" where
  "drained spec size_buf res \<longleftrightarrow> (case spec of (sd, st', rest) \<Rightarrow> case res of (r, buf', ln', s') \<Rightarrow>
     agree s' st' \<and> length buf' = size_buf \<and> (r = - 2 \<longleftrightarrow> sd)
     \<and> (\<not> sd \<longrightarrow> ln' = int (length rest) \<and> take (length rest) buf' = rest
           \<and> r = (if rest = [] then - 1 else 0)))"

lemma drain_spec:
  "agree s st \<Longrightarrow> n \<le> length buf \<Longrightarrow> top (qheap s) + n \<le> cap (qheap s) \<Longrightarrow>
     \<exists>r buf' ln' s'. drain peer d buf (int n) s = ret (r, buf', ln', s') \<and> same_table s s'
       \<and> top (qheap s') \<le> top (qheap s) + n
       \<and> drained (serve (peer d) (take n buf) st) (length buf) (r, buf', ln', s')"
proof (induction n arbitrary: buf s st rule: less_induct)
  case (less n)
  show ?case
  proof (cases "memchr 10 (take n buf)")
    case None
    have "handle_message peer d buf (int n) s = ret (if n = 0 then - 1 else 0, buf, s)"
      using None less.prems(2) by (simp add: handle_message_def)
    then have "drain peer d buf (int n) s = ret (if n = 0 then - 1 else 0, buf, int n, s)"
      by (subst drain_step) simp
    moreover have "serve (peer d) (take n buf) st = (False, st, take n buf)"
      using None by (simp add: serve.simps [of "peer d" "take n buf"])
    ultimately show ?thesis using less.prems by (auto simp: drained_def same_table_def)
  next
    case (Some k)
    from memchr_less [OF Some] less.prems(2) have kn: "k < n" by simp
    obtain sd st1 where f: "serve_frame (peer d) (take k (take n buf)) st = (sd, st1)" by fastforce
    let ?buf1 = "if k + 1 < n then shift_buffer (k + 1) n buf else buf"
    from handle_frame [where peer = peer and d = d, OF less.prems(1) _ _ less.prems(2) Some f] kn less.prems(3)
    obtain s1 where h: "handle_message peer d buf (int n) s = ret (if sd then - 2 else int (k + 1), ?buf1, s1)"
      "agree s1 st1" "same_table s s1" "top (qheap s1) \<le> Suc (top (qheap s))" by auto
    have serve1: "serve (peer d) (take n buf) st =
        (if sd then (True, st1, drop (k + 1) (take n buf)) else serve (peer d) (drop (k + 1) (take n buf)) st1)"
      using Some f by (simp add: serve.simps [of "peer d" "take n buf"])
    have len: "length ?buf1 = length buf" using shift_buffer_take(2) [OF less.prems(2)] by simp
    show ?thesis
    proof (cases sd)
      case True
      with h have "drain peer d buf (int n) s = ret (- 2, ?buf1, int n, s1)"
        by (subst drain_step) simp
      moreover have "top (qheap s1) \<le> top (qheap s) + n" using h(4) kn by linarith
      ultimately show ?thesis using True h serve1 len by (auto simp: drained_def)
    next
      case False
      let ?m = "n - (k + 1)"
      have rest: "take ?m ?buf1 = drop (k + 1) (take n buf)"
        using shift_buffer_take(1) [of "k + 1" n buf] kn less.prems(2) by auto
      have "drain peer d buf (int n) s = drain peer d ?buf1 (int ?m) s1"
        using False h(1) kn by (subst drain_step) (simp add: of_nat_diff algebra_simps)
      moreover have "?m < n" "?m \<le> length ?buf1" "top (qheap s1) + ?m \<le> cap (qheap s1)"
        using kn less.prems(2,3) h(3,4) len by (auto simp: same_table_def)
      then obtain r buf' ln' s' where i: "drain peer d ?buf1 (int ?m) s1 = ret (r, buf', ln', s')"
        "same_table s1 s'" "top (qheap s') \<le> top (qheap s1) + ?m" "drained (serve (peer d) (take ?m ?buf1) st1) (length ?buf1) (r, buf', ln', s')"
        using less.IH [OF _ h(2)] by metis
      moreover have "top (qheap s') \<le> top (qheap s) + n" using i(3) h(4) kn by linarith
      ultimately show ?thesis using i h(3) serve1 False rest len same_table_trans [OF h(3) i(2)] by simp
    qed
  qed
qed

text \<open>
  Property C1. The loop around \<open>handle_message\<close> implements the specification: on a buffer that
  holds \<open>n\<close> bytes it returns, queues exactly the broadcast frames the specification lists,
  counts the clients that are done, stops with \<open>-2\<close> exactly when the specification shuts
  down, and otherwise leaves the incomplete line at the start of the buffer with its length.
\<close>

theorem drain_refines:
  assumes "agree s st" "n \<le> length buf" "top (qheap s) + n \<le> cap (qheap s)"
    "serve (peer d) (take n buf) st = (sd, st', rest)"
  shows "\<exists>r buf' ln' s'. drain peer d buf (int n) s = ret (r, buf', ln', s') \<and> agree s' st'
    \<and> (r = - 2 \<longleftrightarrow> sd) \<and> clients s' = clients s \<and> length buf' = length buf
    \<and> (\<not> sd \<longrightarrow> ln' = int (length rest) \<and> take (length rest) buf' = rest)"
  using drain_spec [OF assms(1-3), of peer d] assms(4) unfolding drained_def same_table_def by auto

definition demo_buffer :: bytes where
  "demo_buffer = [0, 65, 10, 1, 10, 0, 66] @ replicate 1017 0"

theorem drain_refines_witness: "\<exists>r buf' ln' s'. drain (\<lambda>_. (16777343, 20480)) 5 demo_buffer (int 7) (init_server 10 2)
    = ret (r, buf', ln', s') \<and> r \<noteq> - 2 \<and> ln' = 2 \<and> take 2 buf' = [0, 66]"
proof -
  let ?st = "\<lparr>pending = [], finished = 0, expected = 2, running = True\<rparr>"
  have "agree (init_server 10 2) ?st"
    by (simp add: agree_def init_server_def queue_of_def)
  moreover have "serve (16777343, 20480) (take 7 demo_buffer) ?st
      = (False, ?st\<lparr>pending := [[0] @ put_u32 16777343 @ put_u16 20480 @ [65] @ [10]], finished := 1\<rparr>, [0, 66])"
    by (simp add: demo_buffer_def serve.simps [of _ "[0, 65, 10, 1, 10, 0, 66]"] serve.simps [of _ "[1, 10, 0, 66]"]
        serve.simps [of _ "[0, 66]"] serve_frame_def Let_def)
  ultimately show ?thesis
    using drain_refines [of "init_server 10 2" ?st 7 demo_buffer "\<lambda>_. (16777343, 20480)" 5]
    by (fastforce simp: init_server_def empty_store_def demo_buffer_def numeral_2_eq_2)
qed

end
