(* ===== verification/Chat_Loop.thy ===== *)
theory Chat_Loop
  imports Chat_Protocol
begin

text \<open>
  The client table and the \<open>select\<close> loop of \<open>lecture/test4/server.c\<close>: the loop is safe (it
  returns, stays inside the arrays and never faults), the bytes of a client reach the
  protocol as one stream, and two defects of its treatment of the buffers.
\<close>

section \<open>The client table\<close>

lemma find_client_None: "find_client d cs = None \<longleftrightarrow> d \<notin> fd ` set cs"
  by (induction cs) auto

lemma find_client_Some: "find_client d cs = Some i \<Longrightarrow> i < length cs \<and> fd (cs ! i) = d"
  by (induction cs arbitrary: i) (auto split: if_splits)

lemma find_client_nth: "distinct (map fd cs) \<Longrightarrow> i < length cs \<Longrightarrow> find_client (fd (cs ! i)) cs = Some i"
proof -
  assume d: "distinct (map fd cs)" and i: "i < length cs"
  then obtain j where j: "find_client (fd (cs ! i)) cs = Some j"
    using find_client_None [of "fd (cs ! i)" cs] by fastforce
  from find_client_Some [OF j] d i have "j = i" by (auto simp: distinct_conv_nth)
  with j show ?thesis by simp
qed

text \<open>Overwriting slot \<open>i\<close> by the last element and dropping the last slot.\<close>

definition swap_out :: "nat \<Rightarrow> 'a list \<Rightarrow> 'a list" where
  "swap_out i xs = take (length xs - 1) (if i < length xs - 1 then xs[i := xs ! (length xs - 1)] else xs)"

lemma mset_swap_out: "i < length xs \<Longrightarrow> mset (swap_out i xs) = mset xs - {#xs ! i#}"
proof (cases xs rule: rev_cases)
  case (snoc ys y)
  assume i: "i < length xs"
  show ?thesis
  proof (cases "i < length ys")
    case True
    then have "swap_out i xs = ys[i := y]" using snoc by (simp add: swap_out_def list_update_append nth_append)
    moreover have "mset (ys[i := y]) = add_mset y (mset ys - {#ys ! i#})" using True by (rule mset_update)
    moreover have "ys ! i \<in># mset ys" using True by simp
    ultimately show ?thesis using snoc True by (simp add: nth_append)
  next
    case False
    with i snoc show ?thesis by (simp add: swap_out_def nth_append)
  qed
qed simp

lemma filter_mset_other:
  assumes "distinct (map fd cs)" "i < length cs"
  shows "filter_mset (\<lambda>c. fd c \<noteq> fd (cs ! i)) (mset cs) = mset cs - {#cs ! i#}"
  using assms
proof (induction cs arbitrary: i)
  case (Cons c cs)
  show ?case
  proof (cases i)
    case 0
    with Cons.prems have "fd c \<notin> fd ` set cs" by simp
    then have "\<forall>x \<in># mset cs. fd x \<noteq> fd c" by (metis image_eqI set_mset_mset)
    then have "filter_mset (\<lambda>x. fd x \<noteq> fd c) (mset cs) = mset cs" by (simp add: filter_mset_eq_conv)
    with 0 show ?thesis by simp
  next
    case (Suc j)
    with Cons.prems have j: "j < length cs" "distinct (map fd cs)" "fd c \<noteq> fd (cs ! j)" by auto
    then have "cs ! j \<in># mset cs" by simp
    with Cons.IH [OF j(2,1)] j(3) Suc show ?thesis by simp
  qed
qed simp

lemma remove_client_eq:
  "remove_client d s = (case find_client d (clients s) of None \<Rightarrow> s
     | Some i \<Rightarrow> s\<lparr>clients := swap_out i (clients s), closed := closed s @ [d]\<rparr>)"
  by (simp add: remove_client_def swap_out_def Let_def split: option.split)

lemma remove_client_closed:
  "closed (remove_client d s) = (if d \<in> fd ` set (clients s) then closed s @ [d] else closed s)"
proof (cases "find_client d (clients s)")
  case None
  then have "d \<notin> fd ` set (clients s)" by (rule iffD1 [OF find_client_None])
  with None show ?thesis by (simp add: remove_client_eq)
next
  case (Some i)
  then have "d \<in> fd ` set (clients s)" using find_client_None [of d "clients s"] by fastforce
  with Some show ?thesis by (simp add: remove_client_eq)
qed

lemma remove_client_mset:
  assumes "distinct (map fd (clients s))"
  shows "mset (clients (remove_client d s)) = mset (filter (\<lambda>c. fd c \<noteq> d) (clients s))"
proof (cases "find_client d (clients s)")
  case None
  then have "d \<notin> fd ` set (clients s)" by (rule iffD1 [OF find_client_None])
  then have "filter (\<lambda>c. fd c \<noteq> d) (clients s) = clients s" by (metis (mono_tags) filter_True image_eqI)
  with None show ?thesis by (simp add: remove_client_eq)
next
  case (Some i)
  from find_client_Some [OF Some] have i: "i < length (clients s)" "fd (clients s ! i) = d" by simp_all
  have "mset (clients (remove_client d s)) = mset (clients s) - {#clients s ! i#}"
    using Some mset_swap_out [OF i(1)] by (simp add: remove_client_eq)
  also have "\<dots> = filter_mset (\<lambda>c. fd c \<noteq> d) (mset (clients s))"
    unfolding i(2) [symmetric] by (rule filter_mset_other [OF assms i(1), symmetric])
  finally show ?thesis by (simp only: mset_filter)
qed

text \<open>
  \<open>remove_client\<close> takes exactly the client with the given descriptor out of the
  table and closes the descriptor; the other clients stay, and an unknown descriptor changes
  nothing.
\<close>

theorem remove_client_correct:
  assumes "distinct (map fd (clients s))"
  shows "mset (clients (remove_client d s)) = filter_mset (\<lambda>c. fd c \<noteq> d) (mset (clients s))
    \<and> distinct (map fd (clients (remove_client d s)))
    \<and> closed (remove_client d s) = (if d \<in> fd ` set (clients s) then closed s @ [d] else closed s)"
proof -
  have f: "mset (clients (remove_client d s)) = mset (filter (\<lambda>c. fd c \<noteq> d) (clients s))"
    and c: "closed (remove_client d s) = (if d \<in> fd ` set (clients s) then closed s @ [d] else closed s)"
    by (rule remove_client_mset [OF assms]) (rule remove_client_closed)
  have "mset (map fd (clients (remove_client d s))) = mset (map fd (filter (\<lambda>c. fd c \<noteq> d) (clients s)))"
    unfolding mset_map f by (rule refl)
  then have "distinct (map fd (clients (remove_client d s)))"
    using distinct_map_filter [OF assms] by (rule mset_eq_imp_distinct_iff [THEN iffD2])
  with f c show ?thesis by (simp only: mset_filter)
qed

theorem remove_client_correct_witness:
  "mset (clients (remove_client 4 ((init_server 3 2)\<lparr>clients := [\<lparr>fd = 4, addr = (1, 2)\<rparr>, \<lparr>fd = 5, addr = (1, 3)\<rparr>]\<rparr>)))
    = {#\<lparr>fd = 5, addr = (1, 3)\<rparr>#}"
  using remove_client_correct
    [of "(init_server 3 2)\<lparr>clients := [\<lparr>fd = 4, addr = (1, 2)\<rparr>, \<lparr>fd = 5, addr = (1, 3)\<rparr>]\<rparr>" 4]
  by simp

section \<open>Reading from a client\<close>

text \<open>The slot of a client: the first \<open>n\<close> bytes of its buffer wait for their newline.\<close>

definition slots_ok :: "slots \<Rightarrow> bool" where
  "slots_ok bufs \<longleftrightarrow> length bufs = 100 \<and> (\<forall>(buf, ln) \<in> set bufs. length buf = 1024 \<and> 0 \<le> ln \<and> ln \<le> 1024)"

lemma slots_okD: "slots_ok bufs \<Longrightarrow> i < 100 \<Longrightarrow> bufs ! i = (buf, ln) \<Longrightarrow> length buf = 1024 \<and> 0 \<le> ln \<and> ln \<le> 1024"
  using nth_mem [of i bufs] by (fastforce simp: slots_ok_def)

lemma slots_ok_update:
  "slots_ok bufs \<Longrightarrow> length buf = 1024 \<Longrightarrow> 0 \<le> ln \<Longrightarrow> ln \<le> 1024 \<Longrightarrow> slots_ok (bufs[i := (buf, ln)])"
  by (auto simp: slots_ok_def dest!: subsetD [OF set_update_subset_insert])

lemma slots_ok_init: "slots_ok init_slots"
  by (simp add: slots_ok_def init_slots_def MAX_CLIENTS_def MAX_MSG_SIZE_def)

lemma read_bytes_length: "read_bytes r d n = Some got \<Longrightarrow> length got \<le> n"
  by (auto simp: read_bytes_def)

text \<open>The buffer after \<open>read\<close> has stored \<open>got\<close> behind the \<open>n\<close> bytes of the slot.\<close>

lemma read_buffer:
  assumes "length buf = 1024" "n + length got \<le> 1024"
  shows "length (take n buf @ got @ drop (n + length got) buf) = 1024"
    "take (n + length got) (take n buf @ got @ drop (n + length got) buf) = take n buf @ got"
  using assms by simp_all

lemma serve_clients_drain:
  assumes i: "i < length (clients s)" "fd (clients s ! i) = d" "bufs ! i = (buf, int n)"
    and buf: "length buf = 1024" and r: "ready r d" "read_bytes r d (1024 - n) = Some got" "got \<noteq> []"
    and ag: "agree s st" and room: "top (qheap s) + n + length got \<le> cap (qheap s)" and n: "n \<le> 1024"
  shows "\<exists>res buf' ln' s'. serve_clients r i bufs s =
      (if res = - 2 then ret (Shutdown, bufs[i := (buf', ln')], s')
       else serve_clients r (i + 1) (bufs[i := (buf', ln')]) s')
    \<and> same_table s s' \<and> top (qheap s') \<le> top (qheap s) + 1024
    \<and> drained (serve (peer_of r d) (take n buf @ got) st) 1024 (res, buf', ln', s')"
proof -
  let ?buf = "take n buf @ got @ drop (n + length got) buf"
  have len: "n + length got \<le> 1024" using read_bytes_length [OF r(2)] n by simp
  note rb = read_buffer [OF buf len]
  have "n + length got \<le> length ?buf" unfolding rb(1) by (rule len)
  moreover have "top (qheap s) + (n + length got) \<le> cap (qheap s)" using room by simp
  ultimately obtain res buf' ln' s' where dr:
    "drain (peer_of r) d ?buf (int (n + length got)) s = ret (res, buf', ln', s')" "same_table s s'"
    "top (qheap s') \<le> top (qheap s) + (n + length got)"
    "drained (serve (peer_of r d) (take (n + length got) ?buf) st) (length ?buf) (res, buf', ln', s')"
    using drain_spec [OF ag, of "n + length got" ?buf "peer_of r" d] by blast
  have sz: "nat (1024 - int n) = 1024 - n" using n by simp
  have "serve_clients r i bufs s = (if res = - 2 then ret (Shutdown, bufs[i := (buf', ln')], s')
       else serve_clients r (i + 1) (bufs[i := (buf', ln')]) s')"
    using r dr(1) sz by (simp add: serve_clients_step [OF i] MAX_MSG_SIZE_def Let_def)
  moreover have "top (qheap s') \<le> top (qheap s) + 1024" using dr(3) len by linarith
  ultimately show ?thesis using dr(2,4) unfolding rb by blast
qed

text \<open>
  Property C4. The bytes a client sends reach the protocol as one stream, however the reads cut
  it: when the slot holds what the protocol left over of the stream \<open>xs\<close>, a read of \<open>got\<close>
  leaves the server where the protocol is after \<open>xs @ got\<close>, and the slot holds what is left
  over then. The loop goes on with the next client unless the protocol shuts the server down.
\<close>

theorem serve_clients_stream:
  assumes "i < length (clients s)" "fd (clients s ! i) = d" "bufs ! i = (buf, int n)"
    and "length buf = 1024" "ready r d" "read_bytes r d (1024 - n) = Some got" "got \<noteq> []"
    and "agree s st" "top (qheap s) + n + length got \<le> cap (qheap s)" "n \<le> 1024"
    and before: "serve (peer_of r d) xs st0 = (False, st, take n buf)"
    and after: "serve (peer_of r d) (xs @ got) st0 = (sd, st', rest)"
  shows "\<exists>buf' ln' s'. serve_clients r i bufs s =
      (if sd then ret (Shutdown, bufs[i := (buf', ln')], s')
       else serve_clients r (i + 1) (bufs[i := (buf', ln')]) s')
    \<and> agree s' st' \<and> clients s' = clients s
    \<and> (\<not> sd \<longrightarrow> ln' = int (length rest) \<and> take (length rest) buf' = rest)"
proof -
  have "serve (peer_of r d) (take n buf @ got) st = (sd, st', rest)"
    using after before serve_chunks [of "peer_of r d" xs got st0] by simp
  with serve_clients_drain [OF assms(1-10)] show ?thesis
    unfolding drained_def same_table_def by fastforce
qed

text \<open>
  A client that has sent \<open>MAX_MSG_SIZE\<close> bytes without a newline is disconnected:
  \<open>read\<close> is asked for 0 bytes, and its result is taken for the end of the stream, whatever
  the client has sent.
\<close>

theorem full_buffer_disconnects:
  assumes "i < length (clients s)" "fd (clients s ! i) = d" "bufs ! i = (buf, 1024)" "ready r d"
  shows "serve_clients r i bufs s = serve_clients r i bufs (remove_client d s)"
  using assms(4) by (simp add: serve_clients_step [OF assms(1-3)] MAX_MSG_SIZE_def read_bytes_def
      split: option.split)

text \<open>
  Property C37. When a client disconnects, the last client of the table moves into its slot but
  the buffers stay: the bytes the first client left there become the beginning of the moved
  client's next message.
\<close>

theorem disconnect_mixes_streams:
  assumes cs: "clients s = [a, b]" "fd a \<noteq> fd b" and r: "ready r (fd a)" "read_from r (fd a) = Some []"
      "ready r (fd b)" "read_bytes r (fd b) (1024 - n) = Some got" "got \<noteq> []"
    and slot: "bufs ! 0 = (buf, int n)" "length buf = 1024" "n \<le> 1024"
    and ag: "agree s st" and room: "top (qheap s) + n + length got \<le> cap (qheap s)"
    and mixed: "serve (peer_of r (fd b)) (take n buf @ got) st = (False, st', rest)"
  shows "\<exists>bufs' s'. serve_clients r 0 bufs s = ret (Continue, bufs', s') \<and> clients s' = [b] \<and> agree s' st'"
proof -
  let ?s = "remove_client (fd a) s"
  have rm: "?s = s\<lparr>clients := [b], closed := closed s @ [fd a]\<rparr>"
    using cs by (simp add: remove_client_eq swap_out_def)
  have i: "0 < length (clients s)" "fd (clients s ! 0) = fd a" using cs by simp_all
  have "serve_clients r 0 bufs s = serve_clients r 0 bufs ?s"
    using r(1,2) by (simp add: serve_clients_step [OF i slot(1)] read_bytes_def)
  moreover have "\<exists>res buf' ln' s'. serve_clients r 0 bufs ?s =
      (if res = - 2 then ret (Shutdown, bufs[0 := (buf', ln')], s')
       else serve_clients r (0 + 1) (bufs[0 := (buf', ln')]) s')
    \<and> same_table ?s s' \<and> top (qheap s') \<le> top (qheap ?s) + 1024
    \<and> drained (serve (peer_of r (fd b)) (take n buf @ got) st) 1024 (res, buf', ln', s')"
  proof (rule serve_clients_drain [OF _ _ slot(1,2) r(3-5) _ _ slot(3)])
    show "0 < length (clients ?s)" "fd (clients ?s ! 0) = fd b" using rm by simp_all
    show "agree ?s st" using ag by (simp add: rm agree_def queue_of_def)
    show "top (qheap ?s) + n + length got \<le> cap (qheap ?s)" using room by (simp add: rm)
  qed
  then obtain buf' ln' s' where s': "serve_clients r 0 bufs ?s = serve_clients r 1 (bufs[0 := (buf', ln')]) s'"
    "clients s' = [b]" "agree s' st'"
    unfolding mixed drained_def same_table_def rm by fastforce
  moreover have "serve_clients r 1 (bufs[0 := (buf', ln')]) s' = ret (Continue, bufs[0 := (buf', ln')], s')"
    using s'(2) by (simp add: serve_clients_end)
  ultimately show ?thesis by auto
qed

section \<open>Safety of a round\<close>

definition server_ok :: "slots \<Rightarrow> 'a server_scheme \<Rightarrow> bool" where
  "server_ok bufs s \<longleftrightarrow> slots_ok bufs \<and> distinct (map fd (clients s)) \<and> length (clients s) \<le> 100
     \<and> (\<exists>st. agree s st)"

lemma remove_client_ok:
  assumes ok: "server_ok bufs s" and i: "i < length (clients s)" and s': "s' = remove_client (fd (clients s ! i)) s"
  shows "server_ok bufs s'" "length (clients s') = length (clients s) - 1" "qheap s' = qheap s"
    "fd ` set (clients s') \<subseteq> fd ` set (clients s)"
proof -
  have d: "distinct (map fd (clients s))" using ok by (simp add: server_ok_def)
  from find_client_nth [OF d i] have e: "s' = s\<lparr>clients := swap_out i (clients s), closed := closed s @ [fd (clients s ! i)]\<rparr>"
    by (simp add: s' remove_client_eq)
  show len: "length (clients s') = length (clients s) - 1" by (simp add: e swap_out_def)
  show "qheap s' = qheap s" by (simp add: e)
  have "agree s' st" if "agree s st" for st using that by (simp add: e agree_def queue_of_def)
  moreover have "distinct (map fd (clients s'))" using remove_client_correct [OF d] s' by simp
  ultimately show "server_ok bufs s'" using ok len unfolding server_ok_def by auto
  have "set_mset (mset (clients s')) \<subseteq> set_mset (mset (clients s))"
    using remove_client_mset [OF d] s' by auto
  then show "fd ` set (clients s') \<subseteq> fd ` set (clients s)" by auto
qed

text \<open>What holds after the loop over the clients.\<close>

definition served :: "'a server_scheme \<Rightarrow> (loop_result \<times> slots \<times> 'a server_scheme) run \<Rightarrow> bool" where
  "served s m \<longleftrightarrow> (\<exists>res bufs' s'. m = ret (res, bufs', s') \<and> res \<noteq> Break
     \<and> (res = Continue \<longrightarrow> server_ok bufs' s') \<and> (res = Shutdown \<longrightarrow> \<not> server_running s')
     \<and> fd ` set (clients s') \<subseteq> fd ` set (clients s))"

lemma served_trans:
  assumes "served s' m" and sub: "fd ` set (clients s') \<subseteq> fd ` set (clients s)"
  shows "served s m"
proof -
  from assms(1) obtain res bufs2 s2 where m: "m = ret (res, bufs2, s2)" "res \<noteq> Break"
    "res = Continue \<longrightarrow> server_ok bufs2 s2" "res = Shutdown \<longrightarrow> \<not> server_running s2"
    and f: "fd ` set (clients s2) \<subseteq> fd ` set (clients s')"
    unfolding served_def by (elim exE conjE)
  from f sub have "fd ` set (clients s2) \<subseteq> fd ` set (clients s)" by (rule subset_trans)
  with m show ?thesis unfolding served_def by (intro exI conjI)
qed

lemma serve_frame_shutdown: "serve_frame a xs st = (True, st') \<Longrightarrow> \<not> running st'"
  by (auto simp: serve_frame_def Let_def split: list.splits if_splits)

lemma serve_shutdown: "serve a xs st = (True, st', rest) \<Longrightarrow> \<not> running st'"
proof (induction a xs st rule: serve.induct)
  case (1 a xs st)
  show ?case
  proof (cases "memchr 10 xs")
    case None
    with 1(2) show ?thesis by (simp add: serve.simps [of a xs])
  next
    case (Some k)
    obtain sd st1 where f: "serve_frame a (take k xs) st = (sd, st1)" by fastforce
    show ?thesis
    proof (cases sd)
      case True
      with 1(2) Some f serve_frame_shutdown [of a "take k xs" st st1] show ?thesis
        by (simp add: serve.simps [of a xs])
    next
      case False
      with 1(1) [OF Some f [symmetric]] 1(2) Some f show ?thesis by (simp add: serve.simps [of a xs])
    qed
  qed
qed

lemma serve_rest_length: "serve a xs st = (sd, st', rest) \<Longrightarrow> length rest \<le> length xs"
proof (induction a xs st rule: serve.induct)
  case (1 a xs st)
  show ?case
  proof (cases "memchr 10 xs")
    case None
    with 1(2) show ?thesis by (simp add: serve.simps [of a xs])
  next
    case (Some k)
    obtain sd' st1 where f: "serve_frame a (take k xs) st = (sd', st1)" by fastforce
    show ?thesis
    proof (cases sd')
      case True
      with 1(2) Some f show ?thesis by (auto simp: serve.simps [of a xs])
    next
      case False
      with 1(1) [OF Some f [symmetric]] 1(2) Some f show ?thesis by (simp add: serve.simps [of a xs])
    qed
  qed
qed

text \<open>What is left over holds no complete line.\<close>

lemma serve_rest: "serve a xs st = (False, st', rest) \<Longrightarrow> memchr 10 rest = None"
proof (induction a xs st rule: serve.induct)
  case (1 a xs st)
  show ?case
  proof (cases "memchr 10 xs")
    case None
    with 1(2) show ?thesis by (simp add: serve.simps [of a xs])
  next
    case (Some k)
    obtain sd' st1 where f: "serve_frame a (take k xs) st = (sd', st1)" by fastforce
    show ?thesis
    proof (cases sd')
      case True
      with 1(2) Some f show ?thesis by (simp add: serve.simps [of a xs])
    next
      case False
      with 1(1) [OF Some f [symmetric]] 1(2) Some f show ?thesis by (simp add: serve.simps [of a xs])
    qed
  qed
qed

text \<open>Serving one ready client keeps the invariant.\<close>

lemma serve_one:
  assumes ok: "server_ok bufs s" and i: "i < length (clients s)" and slot: "bufs ! i = (buf, ln)"
    and r: "ready r (fd (clients s ! i))" "read_bytes r (fd (clients s ! i)) (nat (1024 - ln)) = Some got" "got \<noteq> []"
    and room: "top (qheap s) + 1024 \<le> cap (qheap s)"
  shows "served s (serve_clients r i bufs s) \<or> (\<exists>bufs' s'. serve_clients r i bufs s = serve_clients r (i + 1) bufs' s'
    \<and> server_ok bufs' s' \<and> clients s' = clients s \<and> cap (qheap s') = cap (qheap s)
    \<and> top (qheap s') \<le> top (qheap s) + 1024)"
proof -
  let ?d = "fd (clients s ! i)"
  from ok i have "slots_ok bufs" "i < 100" by (auto simp: server_ok_def)
  from slots_okD [OF this slot] have b: "length buf = 1024" "0 \<le> ln" "ln \<le> 1024" by simp_all
  define n where "n = nat ln"
  have ln: "ln = int n" "n \<le> 1024" "nat (1024 - ln) = 1024 - n" using b by (simp_all add: n_def)
  have slot': "bufs ! i = (buf, int n)" using slot ln(1) by simp
  have r2: "read_bytes r ?d (1024 - n) = Some got" using r(2) unfolding ln(3) .
  from ok obtain st where ag: "agree s st" by (auto simp: server_ok_def)
  from read_bytes_length [OF r(2)] ln have len: "n + length got \<le> 1024" by simp
  obtain sd st' rest where sv: "serve (peer_of r ?d) (take n buf @ got) st = (sd, st', rest)"
    by (metis prod_cases3)
  have "length rest \<le> 1024" using serve_rest_length [OF sv] len b(1) by simp
  moreover obtain res buf' ln' s' where c: "serve_clients r i bufs s =
      (if res = - 2 then ret (Shutdown, bufs[i := (buf', ln')], s')
       else serve_clients r (i + 1) (bufs[i := (buf', ln')]) s')"
    "same_table s s'" "top (qheap s') \<le> top (qheap s) + 1024" "drained (sd, st', rest) 1024 (res, buf', ln', s')"
    using serve_clients_drain [OF i refl slot' b(1) r(1) r2 r(3) ag _ ln(2)] room len
    unfolding sv by fastforce
  ultimately show ?thesis
  proof (cases sd)
    case True
    with c serve_shutdown [of _ _ st st' rest] sv show ?thesis
      by (auto simp: served_def drained_def agree_def same_table_def)
  next
    case False
    with c(4) have d: "ln' = int (length rest)" "length buf' = 1024" "agree s' st'" "res \<noteq> - 2"
      by (auto simp: drained_def split: if_splits)
    have "server_ok (bufs[i := (buf', ln')]) s'"
      using ok c(2) d \<open>length rest \<le> 1024\<close> unfolding server_ok_def same_table_def
      by (auto intro: slots_ok_update)
    with c d show ?thesis unfolding same_table_def by auto
  qed
qed

lemma serve_clients_safe:
  "server_ok bufs s \<Longrightarrow> top (qheap s) + 1024 * (length (clients s) - i) \<le> cap (qheap s) \<Longrightarrow>
     served s (serve_clients r i bufs s)"
proof (induction "length (clients s) - i" arbitrary: s bufs i rule: less_induct)
  case less
  show ?case
  proof (cases "i < length (clients s)")
    case False
    with less.prems(1) show ?thesis by (simp add: serve_clients_end served_def)
  next
    case True
    let ?d = "fd (clients s ! i)"
    obtain buf ln where slot: "bufs ! i = (buf, ln)" by fastforce
    note step = serve_clients_step [OF True refl slot, of r]
    have room: "top (qheap s) + 1024 + 1024 * (length (clients s) - (i + 1)) \<le> cap (qheap s)"
      using less.prems(2) True by (simp add: algebra_simps Suc_diff_Suc flip: mult_Suc_right)
    consider (skip) "\<not> ready r ?d"
      | (gone) "ready r ?d" "read_bytes r ?d (nat (1024 - ln)) = None \<or> read_bytes r ?d (nat (1024 - ln)) = Some []"
      | (got) bs where "ready r ?d" "read_bytes r ?d (nat (1024 - ln)) = Some bs" "bs \<noteq> []"
      by (cases "read_bytes r ?d (nat (1024 - ln))") auto
    then show ?thesis
    proof cases
      case skip
      then have "serve_clients r i bufs s = serve_clients r (i + 1) bufs s" by (simp add: step)
      with less.hyps [of s "i + 1" bufs] less.prems(1) room True show ?thesis by simp
    next
      case gone
      define s' where "s' = remove_client ?d s"
      note rm = remove_client_ok [OF less.prems(1) True s'_def]
      have "serve_clients r i bufs s = serve_clients r i bufs s'"
        using gone by (auto simp: step MAX_MSG_SIZE_def s'_def)
      moreover have "served s' (serve_clients r i bufs s')"
        using rm(1-3) True room by (intro less.hyps) auto
      ultimately show ?thesis using rm(4) served_trans by metis
    next
      case got
      have "top (qheap s) + 1024 \<le> cap (qheap s)" using room by linarith
      from serve_one [OF less.prems(1) True slot got this] show ?thesis
      proof (elim disjE exE conjE)
        fix bufs' s' assume e: "serve_clients r i bufs s = serve_clients r (i + 1) bufs' s'"
          "server_ok bufs' s'" "clients s' = clients s" "cap (qheap s') = cap (qheap s)"
          "top (qheap s') \<le> top (qheap s) + 1024"
        have "served s' (serve_clients r (i + 1) bufs' s')"
          using e room True by (intro less.hyps) auto
        with e show ?thesis using served_trans by (metis order_refl)
      qed
    qed
  qed
qed

lemma accept_client_cases:
  "length (clients s) < 100 \<Longrightarrow> accept_client d a bufs s = (True,
     bufs[length (clients s) := (fst (bufs ! length (clients s)), 0)],
     s\<lparr>clients := clients s @ [\<lparr>fd = d, addr = a\<rparr>]\<rparr>)"
  "\<not> length (clients s) < 100 \<Longrightarrow> accept_client d a bufs s = (False, bufs, s\<lparr>closed := closed s @ [d]\<rparr>)"
  by (simp_all add: accept_client_def MAX_CLIENTS_def Let_def)

lemma agree_fields [simp]:
  "agree (s\<lparr>clients := cs\<rparr>) st = agree s st" "agree (s\<lparr>closed := ds\<rparr>) st = agree s st"
  by (simp_all add: agree_def queue_of_def)

lemma server_ok_closed [simp]: "server_ok bufs (s\<lparr>closed := ds\<rparr>) = server_ok bufs s"
  by (simp add: server_ok_def)

lemma accept_client_ok:
  assumes ok: "server_ok bufs s" and new: "d \<notin> fd ` set (clients s)" and n: "length (clients s) < 100"
  shows "server_ok (bufs[length (clients s) := (fst (bufs ! length (clients s)), 0)])
    (s\<lparr>clients := clients s @ [\<lparr>fd = d, addr = a\<rparr>]\<rparr>)"
proof -
  from ok have so: "slots_ok bufs" by (simp add: server_ok_def)
  obtain buf ln where sl: "bufs ! length (clients s) = (buf, ln)" by fastforce
  from slots_okD [OF so n sl] have "slots_ok (bufs[length (clients s) := (buf, 0)])"
    by (intro slots_ok_update [OF so]) simp_all
  with ok new n sl show ?thesis by (simp add: server_ok_def)
qed

text \<open>
  Every round of the main loop is safe: it returns without a fault, keeps the
  descriptors of the table distinct, the table within its 100 entries, the buffers within
  their 1024 bytes and the queue well formed, and it ends the loop only on a \<open>select\<close> error
  or once \<open>server_running\<close> has been cleared. The descriptor of a new connection must be
  fresh, and \<open>malloc\<close> must have room for what the round can queue.
\<close>

theorem io_round_safe:
  assumes ok: "server_ok bufs s" and new: "\<forall>d a. accepts r = Some (Some (d, a)) \<longrightarrow> d \<notin> fd ` set (clients s)"
    and room: "top (qheap s) + 1024 * length (clients s) \<le> cap (qheap s)"
  shows "\<exists>res bufs' s'. io_round r bufs s = ret (res, bufs', s')
    \<and> (res = Continue \<longrightarrow> server_ok bufs' s') \<and> (res = Shutdown \<longrightarrow> \<not> server_running s')
    \<and> (res = Break \<longrightarrow> activity r = Select_error)"
proof -
  have serve: ?thesis if "server_ok bufs s'" "qheap s' = qheap s" "clients s' = clients s"
    "io_round r bufs s = serve_clients r 0 bufs s'" for s'
    using serve_clients_safe [OF that(1), of 0 r] room that unfolding served_def by auto
  consider (early) "activity r \<noteq> Select_ready" | (new) d a where "activity r = Select_ready" "accepts r = Some (Some (d, a))"
    | (none) "activity r = Select_ready" "\<forall>d a. accepts r \<noteq> Some (Some (d, a))" by auto
  then show ?thesis
  proof cases
    case early
    with ok show ?thesis by (cases "activity r") (simp_all add: io_round_def)
  next
    case none
    then have "io_round r bufs s = serve_clients r 0 bufs s"
      by (auto simp: io_round_def split: option.split)
    with serve ok show ?thesis by blast
  next
    case (new d a)
    have fresh: "d \<notin> fd ` set (clients s)" using assms(2) new by blast
    show ?thesis
    proof (cases "length (clients s) < 100")
      case True
      with new accept_client_ok [OF ok fresh True] show ?thesis by (simp add: io_round_def accept_client_cases)
    next
      case False
      with new have "io_round r bufs s = serve_clients r 0 bufs (s\<lparr>closed := closed s @ [d]\<rparr>)"
        by (simp add: io_round_def accept_client_cases)
      with serve ok show ?thesis by simp
    qed
  qed
qed

section \<open>Examples\<close>

text \<open>Two clients; the first one has sent two bytes of a message.\<close>

definition demo_server :: server where
  "demo_server = (init_server 4096 3)\<lparr>clients := [\<lparr>fd = 4, addr = (1, 2)\<rparr>, \<lparr>fd = 5, addr = (1, 3)\<rparr>]\<rparr>"

definition demo_slots :: slots where
  "demo_slots = init_slots[0 := ([0, 65] @ replicate 1022 0, 2)]"

definition demo_chat :: chat where
  "demo_chat = \<lparr>pending = [], finished = 0, expected = 3, running = True\<rparr>"

definition demo_round :: "(cint \<Rightarrow> bytes option) \<Rightarrow> round" where
  "demo_round rd = \<lparr>activity = Select_ready, accepts = None, ready = (\<lambda>_. True), read_from = rd, peer_of = (\<lambda>_. (1, 3))\<rparr>"

lemma demo_agree: "agree demo_server demo_chat"
  by (simp add: agree_def demo_server_def demo_chat_def init_server_def queue_of_def)

lemma demo_server_fields [simp]:
  "clients demo_server = [\<lparr>fd = 4, addr = (1, 2)\<rparr>, \<lparr>fd = 5, addr = (1, 3)\<rparr>]"
  "qheap demo_server = empty_store 4096"
  by (simp_all add: demo_server_def init_server_def)

lemma demo_slot: "demo_slots ! 0 = ([0, 65] @ replicate 1022 0, int 2)"
  by (simp add: demo_slots_def init_slots_def MAX_CLIENTS_def)

lemma demo_frame: "serve a [0, 65, 0, 66, 10] demo_chat =
    (False, demo_chat\<lparr>pending := [[0] @ put_u32 (fst a) @ put_u16 (snd a) @ [65, 0, 66, 10]]\<rparr>, [])"
  by (simp add: serve.simps [of a "[0, 65, 0, 66, 10]"] serve.simps [of a "[]"] serve_frame_def demo_chat_def)

theorem serve_clients_stream_witness: "\<exists>bufs' s'. serve_clients (demo_round (\<lambda>_. Some [0, 66, 10])) 0 demo_slots demo_server
    = serve_clients (demo_round (\<lambda>_. Some [0, 66, 10])) 1 bufs' s'
  \<and> agree s' (demo_chat\<lparr>pending := [[0] @ put_u32 1 @ put_u16 3 @ [65, 0, 66, 10]]\<rparr>)"
proof -
  have "serve (1, 3) [0, 65] demo_chat = (False, demo_chat, [0, 65])"
    by (simp add: serve.simps [of "(1, 3)" "[0, 65]"])
  then show ?thesis
    using serve_clients_stream [of 0 demo_server 4 demo_slots "[0, 65] @ replicate 1022 0" 2
        "demo_round (\<lambda>_. Some [0, 66, 10])" "[0, 66, 10]" demo_chat "[0, 65]" demo_chat False] demo_slot demo_agree
      demo_frame [of "(1, 3)"]
    by (auto simp: demo_round_def read_bytes_def empty_store_def)
qed

theorem full_buffer_disconnects_witness:
  "serve_clients (demo_round (\<lambda>_. Some [10])) 0 (demo_slots[0 := (replicate 1024 0, 1024)]) demo_server =
   serve_clients (demo_round (\<lambda>_. Some [10])) 0 (demo_slots[0 := (replicate 1024 0, 1024)]) (remove_client 4 demo_server)"
  using full_buffer_disconnects [of 0 demo_server 4 "demo_slots[0 := (replicate 1024 0, 1024)]" "replicate 1024 0"
      "demo_round (\<lambda>_. Some [10])"]
  by (simp add: demo_round_def demo_slots_def init_slots_def MAX_CLIENTS_def)

theorem disconnect_mixes_streams_witness:
  "\<exists>bufs' s'. serve_clients (demo_round (\<lambda>d. if d = 4 then Some [] else Some [0, 66, 10])) 0 demo_slots demo_server
      = ret (Continue, bufs', s')
    \<and> agree s' (demo_chat\<lparr>pending := [[0] @ put_u32 1 @ put_u16 3 @ [65, 0, 66, 10]]\<rparr>)"
  using disconnect_mixes_streams [of demo_server "\<lparr>fd = 4, addr = (1, 2)\<rparr>" "\<lparr>fd = 5, addr = (1, 3)\<rparr>"
      "demo_round (\<lambda>d. if d = 4 then Some [] else Some [0, 66, 10])" 2 "[0, 66, 10]" demo_slots
      "[0, 65] @ replicate 1022 0" demo_chat] demo_slot demo_agree demo_frame [of "(1, 3)"]
  by (auto simp: demo_round_def read_bytes_def empty_store_def)

theorem io_round_safe_witness: "\<exists>res bufs' s'. io_round (demo_round (\<lambda>_. Some [7, 10])) init_slots demo_server = ret (res, bufs', s')
    \<and> (res = Continue \<longrightarrow> server_ok bufs' s')"
  using io_round_safe [of init_slots demo_server "demo_round (\<lambda>_. Some [7, 10])"] slots_ok_init demo_agree
  by (auto simp: server_ok_def demo_round_def empty_store_def)

end
