(* ===== verification/Chat_Main.thy ===== *)
theory Chat_Main
  imports Chat_Loop C_Strings
begin

text \<open>
  \<open>main\<close> of \<open>lecture/test4/server.c\<close>, from its arguments to its exit, and its safety over every
  sequence of rounds. Unlike \<open>io_round_safe\<close> nothing is asked of \<open>malloc\<close>: a message for
  which there is no memory is lost (\<open>enqueue_message\<close> only prints an error).
\<close>



section \<open>Handling messages with or without memory\<close>



section \<open>Rounds\<close>

















end
