(* ===== verification/Chat_Threaded.thy ===== *)
theory Chat_Threaded
  imports Chat_Loop
begin

text \<open>
  The second chat server, \<open>lecture/test4/servertest.c\<close>: one I/O thread per client instead of
  a \<open>select\<close> loop. Its \<open>handle_message\<close> is shown to agree with the one of \<open>server.c\<close>, its
  I/O thread with the protocol of \<open>Chat_Protocol\<close>, and its cleanup to deadlock.
\<close>

section \<open>Operations\<close>

text \<open>The I/O thread has closed the descriptor; only the table is cleaned up.\<close>

definition remove_client_t :: "cint \<Rightarrow> 'a server_scheme \<Rightarrow> 'a server_scheme" where
  "remove_client_t d s = (case find_client d (clients s) of None \<Rightarrow> s
     | Some i \<Rightarrow> let n = length (clients s);
           cs = (if i < n - 1 then (clients s)[i := clients s ! (n - 1)] else clients s)
         in s\<lparr>clients := take (n - 1) cs\<rparr>)"

definition handle_message_t ::
  "(cint \<Rightarrow> u32 \<times> u16) \<Rightarrow> cint \<Rightarrow> bytes \<Rightarrow> int \<Rightarrow> 'a server_scheme \<Rightarrow> (int \<times> bytes \<times> 'a server_scheme) run" where
  "handle_message_t peer sender_fd buf ln s =
     (if ln \<le> 0 then ret (- 1, buf, s)
      else if int (length buf) < ln then fail OutOfBounds
      else case memchr 10 (take (nat ln) buf) of None \<Rightarrow> ret (0, buf, s)
      | Some newline_pos \<Rightarrow>
        let msg_len = newline_pos + 1; type = buf ! 0;
            done = (\<lambda>shutdown s. ret (if shutdown then - 2 else int msg_len,
              if msg_len < nat ln then shift_buffer msg_len (nat ln) buf else buf, s))
        in if type = TYPE_REGULAR then
             (case peer sender_fd of (ip, port) \<Rightarrow>
               if MAX_MSG_SIZE < msg_len + 6 then done False s
               else rbind (enqueue_checked (broadcast_frame ip port buf msg_len) (msg_len + 6) s) (done False))
           else if type = TYPE_END_EXECUTION then
             (if msg_len \<noteq> 2 then done False s
              else let s = s\<lparr>finished_clients_count := finished_clients_count s + 1\<rparr>
                in if finished_clients_count s = expected_clients s
                   then rbind (enqueue_checked [TYPE_END_EXECUTION, 10] 2 s) (\<lambda>s.
                     done True (s\<lparr>server_running := False\<rparr>))
                   else done False s)
           else done False s)"

text \<open>Lines 326 to 330; \<open>process_result\<close> keeps its value when the buffer runs empty.\<close>

partial_function (option) drain_t ::
  "(cint \<Rightarrow> u32 \<times> u16) \<Rightarrow> cint \<Rightarrow> int \<Rightarrow> bytes \<Rightarrow> int \<Rightarrow> 'a server_scheme \<Rightarrow> (int \<times> bytes \<times> int \<times> 'a server_scheme) run" where
  "drain_t peer d process_result buf ln s = (if 0 < ln
     then rbind (handle_message_t peer d buf ln s) (\<lambda>(r, buf, s).
       if 0 < r then drain_t peer d r buf (ln - r) s else ret (r, buf, ln, s))
     else ret (process_result, buf, ln, s))"

text \<open>
  What one iteration of \<open>run_client_io\<close> sees: the value of \<open>server_running\<close> and the result
  of \<open>read\<close>. The bytes it read are \<open>[]\<close> at the end of the stream.
\<close>

datatype io_read = Again | Read_error | Bytes bytes

datatype io_exit = Io_running | Io_shutdown | Io_closed

fun run_client_io ::
  "(cint \<Rightarrow> u32 \<times> u16) \<Rightarrow> cint \<Rightarrow> (bool \<times> io_read) list \<Rightarrow> bytes \<Rightarrow> int \<Rightarrow> 'a server_scheme \<Rightarrow>
     (io_exit \<times> bytes \<times> int \<times> 'a server_scheme) run" where
  "run_client_io peer d [] buf ln s = ret (Io_running, buf, ln, s)"
| "run_client_io peer d ((up, r) # rs) buf ln s =
     (let stop = ret (Io_closed, buf, ln, remove_client_t d (s\<lparr>closed := closed s @ [d]\<rparr>))
      in if \<not> up then stop
         else case r of
           Again \<Rightarrow> run_client_io peer d rs buf ln s
         | Read_error \<Rightarrow> stop
         | Bytes bs \<Rightarrow> (let got = take (nat (int MAX_MSG_SIZE - ln)) bs
             in if got = [] then stop
                else rbind (drain_t peer d 0 (take (nat ln) buf @ got @ drop (nat ln + length got) buf)
                       (ln + int (length got)) s) (\<lambda>(res, buf, ln, s).
                  if res = - 2 then ret (Io_shutdown, buf, ln, s)
                  else if res < 0 then ret (Io_closed, buf, ln, remove_client_t d (s\<lparr>closed := closed s @ [d]\<rparr>))
                  else run_client_io peer d rs buf ln s)))"

text \<open>\<open>run_acceptor\<close>, lines 431 to 466, for an accepted connection; \<open>created\<close> is the success
  of \<open>pthread_create\<close>.\<close>

definition accept_threaded :: "cint \<Rightarrow> u32 \<times> u16 \<Rightarrow> bool \<Rightarrow> 'a server_scheme \<Rightarrow> 'a server_scheme" where
  "accept_threaded new_fd a created s = (if length (clients s) < MAX_CLIENTS
     then if created then s\<lparr>clients := clients s @ [\<lparr>fd = new_fd, addr = a\<rparr>]\<rparr>
          else s\<lparr>closed := closed s @ [new_fd]\<rparr>
     else s\<lparr>closed := closed s @ [new_fd]\<rparr>)"

text \<open>\<open>broadcast_worker\<close>, lines 377 to 395: the writes for one message.\<close>

definition broadcast_writes :: "bytes \<Rightarrow> 'a server_scheme \<Rightarrow> (cint \<times> bytes) list" where
  "broadcast_writes m s = map (\<lambda>c. (fd c, m)) (clients s)"

section \<open>Agreement of the two servers\<close>

lemma enqueue_checked_eq:
  "n \<le> 1024 \<Longrightarrow> top (qheap s) < cap (qheap s) \<Longrightarrow> enqueue_checked m n s = enqueue_message m n s"
  by (simp add: enqueue_checked_def enqueue_message_def MAX_MSG_SIZE_def)

text \<open>
  The two servers treat a message alike as long as \<open>malloc\<close> succeeds: for every
  buffer, length and state their \<open>handle_message\<close> functions have the same result.
\<close>

theorem handle_message_equiv:
  assumes "top (qheap s) < cap (qheap s)"
  shows "handle_message_t peer d buf ln s = handle_message peer d buf ln s"
proof -
  have regular: "enqueue_checked m k s = enqueue_message m k s" if "\<not> MAX_MSG_SIZE < k" for m k
    using that assms by (intro enqueue_checked_eq) (simp_all add: MAX_MSG_SIZE_def)
  have commit: "enqueue_checked m 2 (s\<lparr>finished_clients_count := n\<rparr>) = enqueue_message m 2 (s\<lparr>finished_clients_count := n\<rparr>)"
    for m n using assms by (intro enqueue_checked_eq) simp_all
  show ?thesis
    unfolding handle_message_t_def handle_message_def Let_def
    by (intro if_cong refl option.case_cong prod.case_cong) (simp_all add: regular commit)
qed

lemma drain_t_end [run_simps]: "\<not> 0 < ln \<Longrightarrow> drain_t peer d p buf ln s = ret (p, buf, ln, s)"
  by (subst drain_t.simps) simp

lemma drain_t_step: "0 < ln \<Longrightarrow> drain_t peer d p buf ln s = rbind (handle_message_t peer d buf ln s) (\<lambda>(r, buf, s).
    if 0 < r then drain_t peer d r buf (ln - r) s else ret (r, buf, ln, s))"
  by (subst drain_t.simps) simp

text \<open>What an I/O thread finds after the loop, in terms of the specification.\<close>

definition drained_t :: "bool \<times> chat \<times> bytes \<Rightarrow> nat \<Rightarrow> int \<times> bytes \<times> int \<times> 'a server_scheme \<Rightarrow> bool" where
  "drained_t spec size_buf res \<longleftrightarrow> (case spec of (sd, st', rest) \<Rightarrow> case res of (r, buf', ln', s') \<Rightarrow>
     agree s' st' \<and> length buf' = size_buf \<and> (r = - 2 \<longleftrightarrow> sd)
     \<and> (\<not> sd \<longrightarrow> ln' = int (length rest) \<and> take (length rest) buf' = rest \<and> 0 \<le> r))"

lemma drain_t_spec:
  "agree s st \<Longrightarrow> n \<le> length buf \<Longrightarrow> top (qheap s) + n \<le> cap (qheap s) \<Longrightarrow> 0 \<le> p \<Longrightarrow>
     \<exists>r buf' ln' s'. drain_t peer d p buf (int n) s = ret (r, buf', ln', s') \<and> same_table s s'
       \<and> top (qheap s') \<le> top (qheap s) + n
       \<and> drained_t (serve (peer d) (take n buf) st) (length buf) (r, buf', ln', s')"
proof (induction n arbitrary: buf s st p rule: less_induct)
  case (less n)
  show ?case
  proof (cases "n = 0")
    case True
    with less.prems show ?thesis
      by (simp add: drain_t_end drained_t_def same_table_def serve.simps [of "peer d" "[]"])
  next
    case False
    then have n: "0 < int n" by simp
    have "top (qheap s) < cap (qheap s)" using False less.prems(3) by linarith
    note eq = handle_message_equiv [OF this, of peer d buf "int n"]
    show ?thesis
    proof (cases "memchr 10 (take n buf)")
      case None
      then have "handle_message peer d buf (int n) s = ret (0, buf, s)"
        using less.prems(2) False by (simp add: handle_message_def)
      then have "drain_t peer d p buf (int n) s = ret (0, buf, int n, s)"
        using eq by (simp add: drain_t_step [OF n])
      moreover have "serve (peer d) (take n buf) st = (False, st, take n buf)"
        using None by (simp add: serve.simps [of "peer d" "take n buf"])
      ultimately show ?thesis using less.prems by (auto simp: drained_t_def same_table_def)
    next
      case (Some k)
      from memchr_less [OF Some] less.prems(2) have kn: "k < n" by simp
      obtain sd st1 where f: "serve_frame (peer d) (take k (take n buf)) st = (sd, st1)" by fastforce
      let ?buf1 = "if k + 1 < n then shift_buffer (k + 1) n buf else buf"
      from handle_frame [where peer = peer and d = d, OF less.prems(1) _ _ less.prems(2) Some f] kn less.prems(3)
      obtain s1 where h: "handle_message peer d buf (int n) s = ret (if sd then - 2 else int (k + 1), ?buf1, s1)"
        "agree s1 st1" "same_table s s1" "top (qheap s1) \<le> Suc (top (qheap s))" by auto
      have serve1: "serve (peer d) (take n buf) st =
          (if sd then (True, st1, drop (k + 1) (take n buf)) else serve (peer d) (drop (k + 1) (take n buf)) st1)"
        using Some f by (simp add: serve.simps [of "peer d" "take n buf"])
      have len: "length ?buf1 = length buf" using shift_buffer_take(2) [OF less.prems(2)] by simp
      show ?thesis
      proof (cases sd)
        case True
        with h eq have "drain_t peer d p buf (int n) s = ret (- 2, ?buf1, int n, s1)"
          by (simp add: drain_t_step [OF n])
        moreover have "top (qheap s1) \<le> top (qheap s) + n" using h(4) kn by linarith
        ultimately show ?thesis using True h serve1 len by (auto simp: drained_t_def)
      next
        case False
        let ?m = "n - (k + 1)"
        have rest: "take ?m ?buf1 = drop (k + 1) (take n buf)"
          using shift_buffer_take(1) [of "k + 1" n buf] kn less.prems(2) by auto
        have "drain_t peer d p buf (int n) s = drain_t peer d (int (k + 1)) ?buf1 (int ?m) s1"
          using False h(1) kn eq by (simp add: drain_t_step [OF n] of_nat_diff algebra_simps)
        moreover have "?m < n" "?m \<le> length ?buf1" "top (qheap s1) + ?m \<le> cap (qheap s1)" "0 \<le> int (k + 1)"
          using kn less.prems(2,3) h(3,4) len by (auto simp: same_table_def)
        then obtain r buf' ln' s' where i: "drain_t peer d (int (k + 1)) ?buf1 (int ?m) s1 = ret (r, buf', ln', s')"
          "same_table s1 s'" "top (qheap s') \<le> top (qheap s1) + ?m"
          "drained_t (serve (peer d) (take ?m ?buf1) st1) (length ?buf1) (r, buf', ln', s')"
          using less.IH [OF _ h(2)] by metis
        moreover have "top (qheap s') \<le> top (qheap s) + n" using i(3) h(4) kn by linarith
        ultimately show ?thesis using i h(3) serve1 False rest len same_table_trans [OF h(3) i(2)] by simp
      qed
    qed
  qed
qed

section \<open>The I/O thread\<close>

text \<open>The reads of a client whose incomplete line always leaves room for the next bytes.\<close>

fun chunks_fit :: "u32 \<times> u16 \<Rightarrow> bytes list \<Rightarrow> bytes \<Rightarrow> chat \<Rightarrow> bool" where
  "chunks_fit a [] data st \<longleftrightarrow> True"
| "chunks_fit a (bs # cs) data st \<longleftrightarrow> bs \<noteq> [] \<and> length data + length bs \<le> 1024
     \<and> (case serve a (data @ bs) st of (sd, st', rest) \<Rightarrow> \<not> sd \<longrightarrow> chunks_fit a cs rest st')"

text \<open>
  Property C9. The I/O thread of a client delivers its byte stream to the protocol, however the
  stream is cut into reads: the server state it ends in is the one the specification gives
  for the whole stream, and it ends with the shutdown status exactly when the
  specification shuts down.
\<close>

theorem run_client_io_stream:
  assumes "agree s st" "length buf = 1024" "take n buf = data" "n \<le> 1024"
    and "chunks_fit (peer d) cs data st" "memchr 10 data = None"
    and "top (qheap s) + 1024 * length cs \<le> cap (qheap s)"
    and "serve (peer d) (data @ concat cs) st = (sd, st', rest)"
  shows "\<exists>buf' ln' s'. run_client_io peer d (map (\<lambda>bs. (True, Bytes bs)) cs) buf (int n) s =
      ret (if sd then Io_shutdown else Io_running, buf', ln', s') \<and> agree s' st' \<and> clients s' = clients s"
  using assms
proof (induction cs arbitrary: s st buf n data)
  case Nil
  have "serve (peer d) data st = (False, st, data)" using Nil(6) by (simp add: serve.simps [of "peer d" data])
  with Nil show ?case by auto
next
  case (Cons bs cs)
  obtain sd1 st1 rest1 where s1: "serve (peer d) (data @ bs) st = (sd1, st1, rest1)" by (metis prod_cases3)
  have ld: "length data = n" using Cons.prems(2-4) by auto
  from Cons.prems(5) s1 ld have b: "bs \<noteq> []" "n + length bs \<le> 1024" and
    fit: "\<not> sd1 \<longrightarrow> chunks_fit (peer d) cs rest1 st1" by simp_all
  let ?buf = "take n buf @ bs @ drop (n + length bs) buf"
  note rb = read_buffer [OF Cons.prems(2) b(2)]
  have room: "top (qheap s) + (n + length bs) \<le> cap (qheap s)" using Cons.prems(7) b(2) by simp
  have le: "n + length bs \<le> length ?buf" unfolding rb(1) by (rule b(2))
  have tk: "take (n + length bs) ?buf = data @ bs" unfolding rb(2) using Cons.prems(3) by simp
  from drain_t_spec [OF Cons.prems(1) le room order_refl, of peer d]
  obtain r buf1 ln1 s1' where dr: "drain_t peer d 0 ?buf (int (n + length bs)) s = ret (r, buf1, ln1, s1')"
    "same_table s s1'" "top (qheap s1') \<le> top (qheap s) + (n + length bs)"
    "drained_t (sd1, st1, rest1) 1024 (r, buf1, ln1, s1')"
    unfolding tk s1 rb(1) by blast
  have nt: "nat (1024 - int n) = 1024 - n" using Cons.prems(4) by simp
  have io: "run_client_io peer d (map (\<lambda>bs. (True, Bytes bs)) (bs # cs)) buf (int n) s =
      (if r = - 2 then ret (Io_shutdown, buf1, ln1, s1')
       else if r < 0 then ret (Io_closed, buf1, ln1, remove_client_t d (s1'\<lparr>closed := closed s1' @ [d]\<rparr>))
       else run_client_io peer d (map (\<lambda>bs. (True, Bytes bs)) cs) buf1 ln1 s1')"
    using b dr(1) nt by (simp add: MAX_MSG_SIZE_def Let_def)
  have total: "serve (peer d) (data @ concat (bs # cs)) st =
      (if sd1 then (True, st1, rest1 @ concat cs) else serve (peer d) (rest1 @ concat cs) st1)"
    using serve_chunks [of "peer d" "data @ bs" "concat cs" st] s1 by simp
  show ?case
  proof (cases sd1)
    case True
    with dr(2,4) Cons.prems(8) show ?thesis unfolding io total by (auto simp: drained_t_def same_table_def)
  next
    case False
    with dr(4) have f: "agree s1' st1" "length buf1 = 1024" "take (length rest1) buf1 = rest1"
      "ln1 = int (length rest1)" "0 \<le> r" "r \<noteq> - 2" by (auto simp: drained_t_def)
    have len: "length rest1 \<le> 1024" using serve_rest_length [OF s1] b(2) ld by simp
    have nl: "memchr 10 rest1 = None" using s1 False by (auto dest: serve_rest)
    have "top (qheap s1') + 1024 * length cs \<le> cap (qheap s1')"
      using dr(2,3) b(2) Cons.prems(7) by (simp add: same_table_def)
    from Cons.IH [OF f(1-3) len _ nl this] fit False Cons.prems(8) obtain buf' ln' s' where
      "run_client_io peer d (map (\<lambda>bs. (True, Bytes bs)) cs) buf1 (int (length rest1)) s1' =
        ret (if sd then Io_shutdown else Io_running, buf', ln', s')" "agree s' st'" "clients s' = clients s1'"
      unfolding total by auto
    with f dr(2) show ?thesis unfolding io by (auto simp: same_table_def)
  qed
qed

theorem handle_message_equiv_witness:
  "handle_message_t (\<lambda>_. (1, 2)) 4 [0, 65, 10] 3 (init_server 1 2) = handle_message (\<lambda>_. (1, 2)) 4 [0, 65, 10] 3 (init_server 1 2)"
  by (rule handle_message_equiv) (simp add: init_server_def empty_store_def)

theorem run_client_io_stream_witness: "\<exists>buf' ln' s'. run_client_io (\<lambda>_. (1, 3)) 4
    (map (\<lambda>bs. (True, Bytes bs)) [[0, 65], [0, 66, 10]]) (replicate 1024 0) (int 0) demo_server
    = ret (Io_running, buf', ln', s')
    \<and> agree s' (demo_chat\<lparr>pending := [[0] @ put_u32 1 @ put_u16 3 @ [65, 0, 66, 10]]\<rparr>)"
proof -
  have "serve (1, 3) [0, 65] demo_chat = (False, demo_chat, [0, 65])"
    by (simp add: serve.simps [of "(1, 3)" "[0, 65]"])
  then show ?thesis
    using run_client_io_stream [of demo_server demo_chat "replicate 1024 0" 0 "[]" "\<lambda>_. (1, 3)" 4
        "[[0, 65], [0, 66, 10]]" False] demo_agree demo_frame [of "(1, 3)"]
    by (auto simp: empty_store_def)
qed

section \<open>Shutdown\<close>

text \<open>
  \<open>cleanup_and_exit\<close>, step 3, and the I/O threads at the end of \<open>run_client_io\<close>. The main
  thread takes \<open>client_list_lock\<close> and joins the threads of the table one after the other,
  keeping the lock; a thread that leaves its loop takes the same lock in \<open>remove_client\<close>.
  A thread that triggered the shutdown has ended without removing its client.
\<close>

datatype io_pc = Io_loop | Io_wants_lock | Io_removes | Io_ended

datatype cleaner = Wants_lock | Joins nat | Cleaned

record shutdown =
  holder :: "nat option option" \<comment> \<open>\<open>Some None\<close>: the main thread, \<open>Some (Some i)\<close>: thread \<open>i\<close>\<close>
  table :: "nat list" \<comment> \<open>the threads of \<open>clients[0 .. num_clients - 1]\<close>\<close>
  io :: "nat \<Rightarrow> io_pc"
  cleaner :: cleaner

text \<open>A step of I/O thread \<open>i\<close>, the flag \<open>server_running\<close> being cleared.\<close>

definition io_step :: "nat \<Rightarrow> shutdown \<Rightarrow> shutdown option" where
  "io_step i c = (case io c i of
       Io_loop \<Rightarrow> Some (c\<lparr>io := (io c)(i := Io_wants_lock)\<rparr>)
     | Io_wants_lock \<Rightarrow> if holder c = None
         then Some (c\<lparr>holder := Some (Some i), io := (io c)(i := Io_removes)\<rparr>) else None
     | Io_removes \<Rightarrow> Some (c\<lparr>holder := None, table := remove1 i (table c), io := (io c)(i := Io_ended)\<rparr>)
     | Io_ended \<Rightarrow> None)"

definition clean_step :: "shutdown \<Rightarrow> shutdown option" where
  "clean_step c = (case cleaner c of
       Wants_lock \<Rightarrow> if holder c = None then Some (c\<lparr>holder := Some None, cleaner := Joins 0\<rparr>) else None
     | Joins k \<Rightarrow> if k < length (table c)
         then (if io c (table c ! k) = Io_ended then Some (c\<lparr>cleaner := Joins (k + 1)\<rparr>) else None)
         else Some (c\<lparr>holder := None, table := [], cleaner := Cleaned\<rparr>)
     | Cleaned \<Rightarrow> None)"

inductive clean_reach :: "shutdown \<Rightarrow> shutdown \<Rightarrow> bool" for c0 where
  clean_start: "clean_reach c0 c0"
| clean_io: "clean_reach c0 c \<Longrightarrow> io_step i c = Some c' \<Longrightarrow> clean_reach c0 c'"
| clean_main: "clean_reach c0 c \<Longrightarrow> clean_step c = Some c' \<Longrightarrow> clean_reach c0 c'"

text \<open>
  The shutdown can deadlock: once the main thread holds the lock while some client
  thread of the table has not ended, it never gets past its joins: whatever steps follow, it
  still holds the lock and that thread has not ended.
\<close>

theorem cleanup_deadlock:
  assumes "clean_reach c0 c" and "holder c0 = Some None" "cleaner c0 = Joins k" "k \<le> j" "j < length (table c0)"
    and "io c0 (table c0 ! j) \<in> {Io_loop, Io_wants_lock}" and "\<forall>i. io c0 i \<noteq> Io_removes"
  shows "\<exists>k'. cleaner c = Joins k' \<and> k' \<le> j \<and> holder c = Some None \<and> table c = table c0
    \<and> io c (table c0 ! j) \<in> {Io_loop, Io_wants_lock} \<and> (\<forall>i. io c i \<noteq> Io_removes)"
  using assms
proof (induction rule: clean_reach.induct)
  case clean_start
  then show ?case by blast
next
  case (clean_io c i c')
  from clean_io.IH [OF clean_io.prems] show ?case
    using clean_io.hyps(2) by (auto simp: io_step_def split: io_pc.splits if_splits)
next
  case (clean_main c c')
  from clean_main.IH [OF clean_main.prems] obtain k' where k: "cleaner c = Joins k'" "k' \<le> j"
    and h: "holder c = Some None" "table c = table c0" "io c (table c0 ! j) \<in> {Io_loop, Io_wants_lock}"
      "\<forall>i. io c i \<noteq> Io_removes" by blast
  have "k' < length (table c)" using k(2) clean_main.prems(4) h(2) by simp
  with clean_main.hyps(2) k h have c': "c' = c\<lparr>cleaner := Joins (k' + 1)\<rparr>" "io c (table c0 ! k') = Io_ended"
    by (auto simp: clean_step_def split: if_splits)
  with h(3) have "k' \<noteq> j" by auto
  with c' k h show ?case by (intro exI [of _ "k' + 1"]) simp
qed

text \<open>Two clients; thread 0 has triggered the shutdown and has ended.\<close>

definition demo_shutdown :: shutdown where
  "demo_shutdown = \<lparr>holder = Some None, table = [0, 1], io = (\<lambda>_. Io_loop)(0 := Io_ended), cleaner = Joins 0\<rparr>"

theorem cleanup_deadlock_witness: "\<exists>k'. cleaner demo_shutdown = Joins k' \<and> k' \<le> 1
    \<and> io demo_shutdown (table demo_shutdown ! 1) \<in> {Io_loop, Io_wants_lock}"
proof -
  have "\<forall>i. io demo_shutdown i \<noteq> Io_removes" by (simp add: demo_shutdown_def)
  with cleanup_deadlock [OF clean_start [of demo_shutdown], of 0 1] show ?thesis
    by (simp add: demo_shutdown_def)
qed

end
