(* ===== verification/Chat_Threaded_System.thy ===== *)
theory Chat_Threaded_System
  imports Chat_Threaded C_Strings
begin

text \<open>
  The whole of \<open>lecture/test4/servertest.c\<close> as one transition system: any number of I/O
  threads, the acceptor, the broadcast worker and the main thread. A step is one critical
  section or one access to shared data:
  \<^item> \<open>client_list_lock\<close> is held across steps only by the main thread while it joins the I/O
    threads (\<open>M_join\<close>); every other use of it is one step, possible when the lock is free;
  \<^item> the condition variable is its condition: a waiting worker goes on when the queue is not
    empty or \<open>server_running\<close> is cleared (each of these is followed by a signal);
  \<^item> an I/O thread handles one message of its buffer per step.
  \<open>announced\<close> records the messages that were broadcast, \<open>delivered\<close> the single writes.
\<close>

section \<open>Threads\<close>

datatype io_state = T_start | T_poll | T_drain | T_leave | T_remove | T_ended

record io_thread =
  tfd :: cint
  tbuf :: bytes
  tlen :: int
  tpc :: io_state

datatype acceptor_state = A_start | A_loop | A_got cint "u32 \<times> u16" | A_done

datatype worker_state = B_loop | B_dequeue | B_got bytes | B_done

datatype main_state = M_wait | M_join_acceptor | M_lock | M_join nat | M_join_worker

text \<open>\<open>io_tids\<close> holds the \<open>io_tid\<close> fields of \<open>clients\<close>; a thread is named by its index in
  \<open>io_threads\<close>. \<open>opened\<close> are the descriptors of connections that are open.\<close>

record tsys =
  srv :: server
  io_threads :: "io_thread list"
  io_tids :: "nat list"
  acceptor :: acceptor_state
  bworker :: worker_state
  main_thread :: main_state
  announced :: "bytes list"
  delivered :: "(cint \<times> bytes) list"
  opened :: "cint list"

definition start_threaded :: "nat \<Rightarrow> cint \<Rightarrow> tsys" where
  "start_threaded n wanted = \<lparr>srv = init_server n wanted, io_threads = [], io_tids = [],
     acceptor = A_start, bworker = B_loop, main_thread = M_wait, announced = [], delivered = [], opened = []\<rparr>"

text \<open>\<open>main\<close>: the arguments, and whether the set-up calls succeed (\<open>socket\<close>, \<open>bind\<close>, \<open>listen\<close>,
  the two threads). The memory for messages is bounded by \<open>n\<close>.\<close>

record setup_calls =
  socket_ok :: bool
  bind_ok :: bool
  listen_ok :: bool
  worker_created :: bool
  acceptor_created :: bool

definition main_threaded :: "nat \<Rightarrow> bytes list \<Rightarrow> setup_calls \<Rightarrow> tsys run" where
  "main_threaded n argv e =
    (if length argv < 3 then exit_with 1
     else let wanted = atoi (argv ! 2)
     in if wanted \<le> 0 \<or> int MAX_CLIENTS < wanted then exit_with 1
     else if \<not> socket_ok e then exit_with 1
     else if \<not> bind_ok e then exit_with 1
     else if \<not> listen_ok e then exit_with 1
     else if \<not> worker_created e then exit_with 1
     else if \<not> acceptor_created e then exit_with 1
     else ret (start_threaded n (word_of_int wanted)))"

section \<open>I/O threads\<close>

definition set_thread :: "nat \<Rightarrow> io_thread \<Rightarrow> tsys \<Rightarrow> tsys" where
  "set_thread i t s = s\<lparr>io_threads := (io_threads s)[i := t]\<rparr>"

text \<open>\<open>set_non_blocking\<close> at the start of the thread.\<close>

definition io_begin :: "nat \<Rightarrow> bool \<Rightarrow> tsys \<Rightarrow> tsys run" where
  "io_begin i fcntl_ok s =
    (if fcntl_ok then ret (set_thread i ((io_threads s ! i)\<lparr>tpc := T_poll\<rparr>) s) else exit_with 1)"

text \<open>The test of the loop and the \<open>read\<close> after it.\<close>

definition io_poll :: "nat \<Rightarrow> io_read \<Rightarrow> tsys \<Rightarrow> tsys" where
  "io_poll i r s = (let t = io_threads s ! i; leave = set_thread i (t\<lparr>tpc := T_leave\<rparr>) s
    in if \<not> server_running (srv s) then leave
       else case r of
         Again \<Rightarrow> s
       | Read_error \<Rightarrow> leave
       | Bytes bs \<Rightarrow> (let got = take (nat (int MAX_MSG_SIZE - tlen t)) bs
           in if got = [] then leave
              else set_thread i (t\<lparr>tbuf := take (nat (tlen t)) (tbuf t) @ got @ drop (nat (tlen t) + length got) (tbuf t),
                                 tlen := tlen t + int (length got), tpc := T_drain\<rparr>) s))"

text \<open>One iteration of the loop over the messages of the buffer; \<open>a\<close> is what \<open>getpeername\<close> finds.\<close>

definition io_drain :: "nat \<Rightarrow> u32 \<times> u16 \<Rightarrow> tsys \<Rightarrow> tsys run" where
  "io_drain i a s = (let t = io_threads s ! i
    in if 0 < tlen t
       then rbind (handle_message_t (\<lambda>_. a) (tfd t) (tbuf t) (tlen t) (srv s)) (\<lambda>(r, buf, sv).
         ret (set_thread i (if 0 < r then t\<lparr>tbuf := buf, tlen := tlen t - r\<rparr>
              else t\<lparr>tbuf := buf, tpc := if r = - 2 then T_ended else if r < 0 then T_leave else T_poll\<rparr>)
              (s\<lparr>srv := sv\<rparr>)))
       else ret (set_thread i (t\<lparr>tpc := T_poll\<rparr>) s))"

definition io_close :: "nat \<Rightarrow> tsys \<Rightarrow> tsys" where
  "io_close i s = (let t = io_threads s ! i
    in set_thread i (t\<lparr>tpc := T_remove\<rparr>)
         (s\<lparr>srv := (srv s)\<lparr>closed := closed (srv s) @ [tfd t]\<rparr>, opened := remove1 (tfd t) (opened s)\<rparr>))"

definition io_remove :: "nat \<Rightarrow> tsys \<Rightarrow> tsys" where
  "io_remove i s = (let t = io_threads s ! i
    in set_thread i (t\<lparr>tpc := T_ended\<rparr>)
         (s\<lparr>srv := remove_client_t (tfd t) (srv s),
            io_tids := (case find_client (tfd t) (clients (srv s)) of None \<Rightarrow> io_tids s
              | Some k \<Rightarrow> swap_out k (io_tids s))\<rparr>))"

text \<open>Whether \<open>handle_message\<close> takes \<open>client_list_lock\<close> for the message at the head of the buffer.\<close>

definition takes_lock :: "io_thread \<Rightarrow> bool" where
  "takes_lock t \<longleftrightarrow> memchr 10 (take (nat (tlen t)) (tbuf t)) = Some 1 \<and> tbuf t ! 0 = TYPE_END_EXECUTION"

section \<open>Acceptor, worker and main thread\<close>

datatype accept_result = Acc_again | Acc_error | Acc_conn cint "u32 \<times> u16"

definition acceptor_poll :: "accept_result \<Rightarrow> tsys \<Rightarrow> tsys" where
  "acceptor_poll r s =
    (if \<not> server_running (srv s) then s\<lparr>acceptor := A_done\<rparr>
     else case r of
       Acc_again \<Rightarrow> s
     | Acc_error \<Rightarrow> s\<lparr>srv := (srv s)\<lparr>server_running := False\<rparr>, acceptor := A_done\<rparr>
     | Acc_conn d a \<Rightarrow> s\<lparr>acceptor := A_got d a, opened := opened s @ [d]\<rparr>)"

datatype create_result = Created | Create_failed | No_memory

definition add_client :: "cint \<Rightarrow> u32 \<times> u16 \<Rightarrow> create_result \<Rightarrow> tsys \<Rightarrow> tsys run" where
  "add_client d a r s =
    (let s' = s\<lparr>srv := accept_threaded d a (r = Created) (srv s), acceptor := A_loop\<rparr>
     in if length (clients (srv s)) < MAX_CLIENTS
        then (case r of
            No_memory \<Rightarrow> exit_with 1
          | Create_failed \<Rightarrow> ret (s'\<lparr>opened := remove1 d (opened s)\<rparr>)
          | Created \<Rightarrow> ret (s'\<lparr>io_threads := io_threads s @ [\<lparr>tfd = d, tbuf = replicate MAX_MSG_SIZE 0, tlen = 0, tpc = T_start\<rparr>],
              io_tids := io_tids s @ [length (io_threads s)]\<rparr>))
        else ret (s'\<lparr>opened := remove1 d (opened s)\<rparr>))"

definition worker_run :: "tsys \<Rightarrow> tsys run" where
  "worker_run s = (case bworker s of
      B_loop \<Rightarrow> ret (s\<lparr>bworker := if server_running (srv s) then B_dequeue else B_done\<rparr>)
    | B_dequeue \<Rightarrow> rbind (take_message (srv s)) (\<lambda>(m, sv). ret (s\<lparr>srv := sv, bworker := (case m of
          None \<Rightarrow> if server_running sv then B_loop else B_done
        | Some m \<Rightarrow> B_got m)\<rparr>))
    | B_got m \<Rightarrow> ret (s\<lparr>announced := announced s @ [m], delivered := delivered s @ broadcast_writes m (srv s),
        bworker := B_loop\<rparr>)
    | B_done \<Rightarrow> ret s)"

text \<open>The wait for \<open>server_running\<close> in \<open>main\<close> and \<open>cleanup_and_exit\<close>.\<close>

definition main_run :: "tsys \<Rightarrow> tsys run" where
  "main_run s = (case main_thread s of
      M_wait \<Rightarrow> ret (s\<lparr>srv := (srv s)\<lparr>server_running := False\<rparr>, main_thread := M_join_acceptor\<rparr>)
    | M_join_acceptor \<Rightarrow> ret (s\<lparr>main_thread := M_lock\<rparr>)
    | M_lock \<Rightarrow> ret (s\<lparr>main_thread := M_join 0\<rparr>)
    | M_join k \<Rightarrow> if k < length (clients (srv s)) then ret (s\<lparr>main_thread := M_join (k + 1)\<rparr>)
        else ret (s\<lparr>srv := (srv s)\<lparr>clients := []\<rparr>, io_tids := [], main_thread := M_join_worker\<rparr>)
    | M_join_worker \<Rightarrow> rbind (free_nodes (qheap (srv s)) (queue_head (srv s))) (\<lambda>h. exit_with 0))"

section \<open>The system\<close>

datatype tevent = Io_begin nat bool | Io_poll nat io_read | Io_drain nat "u32 \<times> u16" | Io_close nat | Io_remove nat
  | Acceptor_begin bool | Acceptor_poll accept_result | Add_client create_result | Worker_run | Main_run

definition at_pc :: "nat \<Rightarrow> io_state \<Rightarrow> tsys \<Rightarrow> bool" where
  "at_pc i p s \<longleftrightarrow> i < length (io_threads s) \<and> tpc (io_threads s ! i) = p"

definition lock_free :: "tsys \<Rightarrow> bool" where
  "lock_free s \<longleftrightarrow> (case main_thread s of M_join k \<Rightarrow> False | _ \<Rightarrow> True)"

definition worker_can :: "tsys \<Rightarrow> bool" where
  "worker_can s \<longleftrightarrow> (case bworker s of B_loop \<Rightarrow> True
    | B_dequeue \<Rightarrow> \<not> must_wait (server_running (srv s)) (srv s)
    | B_got m \<Rightarrow> lock_free s | B_done \<Rightarrow> False)"

definition main_can :: "tsys \<Rightarrow> bool" where
  "main_can s \<longleftrightarrow> (case main_thread s of M_wait \<Rightarrow> \<not> server_running (srv s)
    | M_join_acceptor \<Rightarrow> acceptor s = A_done | M_lock \<Rightarrow> True
    | M_join k \<Rightarrow> k < length (clients (srv s)) \<longrightarrow> at_pc (io_tids s ! k) T_ended s
    | M_join_worker \<Rightarrow> bworker s = B_done)"

fun can :: "tevent \<Rightarrow> tsys \<Rightarrow> bool" where
  "can (Io_begin i ok) s = at_pc i T_start s"
| "can (Io_poll i r) s = at_pc i T_poll s"
| "can (Io_drain i a) s = (at_pc i T_drain s \<and> (takes_lock (io_threads s ! i) \<longrightarrow> lock_free s))"
| "can (Io_close i) s = at_pc i T_leave s"
| "can (Io_remove i) s = (at_pc i T_remove s \<and> lock_free s)"
| "can (Acceptor_begin ok) s = (acceptor s = A_start)"
| "can (Acceptor_poll r) s = (acceptor s = A_loop \<and> (case r of Acc_conn d a \<Rightarrow> d \<notin> set (opened s) | _ \<Rightarrow> True))"
| "can (Add_client r) s = ((case acceptor s of A_got d a \<Rightarrow> True | _ \<Rightarrow> False) \<and> lock_free s)"
| "can Worker_run s = worker_can s"
| "can Main_run s = main_can s"

fun tstep :: "tevent \<Rightarrow> tsys \<Rightarrow> tsys run" where
  "tstep (Io_begin i ok) s = io_begin i ok s"
| "tstep (Io_poll i r) s = ret (io_poll i r s)"
| "tstep (Io_drain i a) s = io_drain i a s"
| "tstep (Io_close i) s = ret (io_close i s)"
| "tstep (Io_remove i) s = ret (io_remove i s)"
| "tstep (Acceptor_begin ok) s = (if ok then ret (s\<lparr>acceptor := A_loop\<rparr>) else exit_with 1)"
| "tstep (Acceptor_poll r) s = ret (acceptor_poll r s)"
| "tstep (Add_client r) s = (case acceptor s of A_got d a \<Rightarrow> add_client d a r s | _ \<Rightarrow> ret s)"
| "tstep Worker_run s = worker_run s"
| "tstep Main_run s = main_run s"

inductive treach :: "tsys \<Rightarrow> tsys \<Rightarrow> bool" for s0 where
  treach_start: "treach s0 s0"
| treach_step: "treach s0 s \<Longrightarrow> can e s \<Longrightarrow> tstep e s = ret s' \<Longrightarrow> treach s0 s'"

text \<open>A schedule, for evaluation: each event must be possible.\<close>

fun run_events :: "tevent list \<Rightarrow> tsys \<Rightarrow> tsys option" where
  "run_events [] s = Some s"
| "run_events (e # es) s =
    (if can e s then case tstep e s of Some (Ret s') \<Rightarrow> run_events es s' | _ \<Rightarrow> None else None)"

lemma run_events_reach: "run_events es s = Some s' \<Longrightarrow> treach s0 s \<Longrightarrow> treach s0 s'"
proof (induction es arbitrary: s)
  case (Cons e es)
  then obtain s1 where "can e s" "tstep e s = ret s1" "run_events es s1 = Some s'"
    by (auto simp: ret_def split: if_splits option.splits outcome.splits)
  with Cons show ?case by (blast intro: treach_step)
qed simp

section \<open>Safety\<close>

lemma agree_table [simp]:
  "agree (s\<lparr>clients := cs\<rparr>) st = agree s st" "agree (s\<lparr>closed := ds\<rparr>) st = agree s st"
  by (simp_all add: agree_def queue_of_def)

lemma agree_stop: "agree s st \<Longrightarrow> agree (s\<lparr>server_running := False\<rparr>) (st\<lparr>running := False\<rparr>)"
  by (simp add: agree_def)

lemma agree_remove [simp]: "agree (remove_client_t d s) st = agree s st"
  by (cases "find_client d (clients s)") (simp_all add: remove_client_t_def Let_def)

fun in_hand_t :: "worker_state \<Rightarrow> bytes list" where
  "in_hand_t (B_got m) = [m]"
| "in_hand_t _ = []"

text \<open>All messages in their order: broadcast, in the hands of the worker, queued (\<open>q\<close>).\<close>

definition order_of :: "tsys \<Rightarrow> bytes list \<Rightarrow> bytes list" where
  "order_of s q = announced s @ in_hand_t (bworker s) @ q"

definition thread_ok :: "io_thread \<Rightarrow> bool" where
  "thread_ok t \<longleftrightarrow> length (tbuf t) = 1024 \<and> 0 \<le> tlen t \<and> tlen t \<le> 1024"

definition sys_ok :: "tsys \<Rightarrow> bytes list \<Rightarrow> bool" where
  "sys_ok s q \<longleftrightarrow> (\<exists>st. agree (srv s) st \<and> pending st = q) \<and> length (clients (srv s)) \<le> MAX_CLIENTS
     \<and> length (io_tids s) = length (clients (srv s)) \<and> (\<forall>t \<in> set (io_tids s). t < length (io_threads s))
     \<and> list_all thread_ok (io_threads s)"

lemma serve_frame_pending: "serve_frame a xs st = (sd, st') \<Longrightarrow> \<exists>ms. pending st' = pending st @ ms"
  by (auto simp: serve_frame_def Let_def split: list.splits if_splits)

text \<open>One call of \<open>handle_message\<close>, whether or not \<open>malloc\<close> succeeds.\<close>

lemma handle_t_outcome:
  assumes ag: "agree s st" and n: "0 < n" "n \<le> length buf"
  shows "handle_message_t peer d buf (int n) s = exit_with 1 \<or>
    (\<exists>r buf' s' st' ms. handle_message_t peer d buf (int n) s = ret (r, buf', s') \<and> agree s' st'
       \<and> pending st' = pending st @ ms \<and> clients s' = clients s \<and> length buf' = length buf \<and> r \<le> int n)"
proof (cases "top (qheap s) < cap (qheap s)")
  case True
  note eq = handle_message_equiv [OF True, of peer d buf "int n"]
  show ?thesis
  proof (cases "memchr 10 (take n buf)")
    case None
    then have "handle_message_t peer d buf (int n) s = ret (0, buf, s)"
      unfolding eq using n by (simp add: handle_message_def)
    with ag show ?thesis by auto
  next
    case (Some k)
    have kn: "k < n" using memchr_less [OF Some] n by simp
    obtain sd st' where f: "serve_frame (peer d) (take k (take n buf)) st = (sd, st')" by fastforce
    from handle_frame [where peer = peer and d = d, OF ag True n Some f] obtain s' where s':
      "handle_message peer d buf (int n) s =
        ret (if sd then - 2 else int (k + 1), if k + 1 < n then shift_buffer (k + 1) n buf else buf, s')"
      "agree s' st'" "same_table s s'" by blast
    moreover obtain ms where "pending st' = pending st @ ms" using serve_frame_pending [OF f] by blast
    moreover have "length (if k + 1 < n then shift_buffer (k + 1) n buf else buf) = length buf"
      using shift_buffer_take(2) [OF n(2)] by simp
    moreover have "(if sd then - 2 else int (k + 1)) \<le> int n" using kn by simp
    ultimately show ?thesis unfolding eq same_table_def by blast
  qed
next
  case False
  have out: "enqueue_checked m j s' = exit_with 1" if "j \<le> MAX_MSG_SIZE" "qheap s' = qheap s" for m j and s' :: "'a server_scheme"
    using that False by (simp add: enqueue_checked_def)
  have two: "2 \<le> MAX_MSG_SIZE" by (simp add: MAX_MSG_SIZE_def)
  show ?thesis
  proof (cases "memchr 10 (take n buf)")
    case None
    with ag n show ?thesis by (auto simp: handle_message_t_def)
  next
    case (Some k)
    have kn: "k < n" using memchr_less [OF Some] n by simp
    let ?s = "s\<lparr>finished_clients_count := finished_clients_count s + 1\<rparr>"
    let ?b = "if k + 1 < n then shift_buffer (k + 1) n buf else buf"
    have "handle_message_t peer d buf (int n) s = exit_with 1
      \<or> handle_message_t peer d buf (int n) s = ret (int (k + 1), ?b, s)
      \<or> handle_message_t peer d buf (int n) s = ret (int (k + 1), ?b, ?s)"
      using n Some by (auto simp: handle_message_t_def Let_def out two not_less split: prod.split)
    moreover have "agree ?s (st\<lparr>finished := finished st + 1\<rparr>)" using ag by (simp add: agree_def)
    moreover have "length ?b = length buf" using shift_buffer_take(2) [OF n(2)] by simp
    ultimately show ?thesis using ag kn by fastforce
  qed
qed

lemma sys_ok_thread: "sys_ok s q \<Longrightarrow> i < length (io_threads s) \<Longrightarrow> thread_ok (io_threads s ! i)"
  by (simp add: sys_ok_def list_all_length)

lemma set_thread_ok:
  assumes "sys_ok s q" "thread_ok t"
  shows "sys_ok (set_thread i t s) q" "order_of (set_thread i t s) q = order_of s q"
  using assms by (auto simp: sys_ok_def set_thread_def list_all_iff order_of_def
      dest!: subsetD [OF set_update_subset_insert])

lemma set_thread_new_srv:
  assumes "sys_ok s q" "thread_ok t" "agree sv st" "clients sv = clients (srv s)"
  shows "sys_ok (set_thread i t (s\<lparr>srv := sv\<rparr>)) (pending st)"
    "order_of (set_thread i t (s\<lparr>srv := sv\<rparr>)) (pending st) = order_of s (pending st)"
proof -
  have "sys_ok (s\<lparr>srv := sv\<rparr>) (pending st)" using assms by (auto simp: sys_ok_def)
  from set_thread_ok [OF this assms(2)] show "sys_ok (set_thread i t (s\<lparr>srv := sv\<rparr>)) (pending st)"
    "order_of (set_thread i t (s\<lparr>srv := sv\<rparr>)) (pending st) = order_of s (pending st)"
    by (simp_all add: order_of_def)
qed

text \<open>What a step leaves: an exit, or a well-formed state whose order of messages is extended.\<close>

definition good_outcome :: "tsys \<Rightarrow> bytes list \<Rightarrow> tsys run \<Rightarrow> bool" where
  "good_outcome s q r \<longleftrightarrow> r = exit_with 0 \<or> r = exit_with 1
     \<or> (\<exists>s' q' ms. r = ret s' \<and> sys_ok s' q' \<and> order_of s' q' = order_of s q @ ms)"

lemma good_ret: "sys_ok s' q' \<Longrightarrow> order_of s' q' = order_of s q @ ms \<Longrightarrow> good_outcome s q (ret s')"
  unfolding good_outcome_def by blast

lemma good_same: "sys_ok s' q \<Longrightarrow> order_of s' q = order_of s q \<Longrightarrow> good_outcome s q (ret s')"
  by (rule good_ret [where ms = "[]"]) simp_all

lemma good_exit [simp]: "good_outcome s q (exit_with 0)" "good_outcome s q (exit_with 1)"
  by (simp_all add: good_outcome_def)

lemma io_poll_good:
  assumes "sys_ok s q" "at_pc i T_poll s"
  shows "good_outcome s q (ret (io_poll i r s))"
proof -
  let ?t = "io_threads s ! i"
  have t: "thread_ok ?t" using assms sys_ok_thread by (simp add: at_pc_def)
  have leave: "good_outcome s q (ret (set_thread i (?t\<lparr>tpc := T_leave\<rparr>) s))"
    using set_thread_ok [OF assms(1), of "?t\<lparr>tpc := T_leave\<rparr>" i] t by (intro good_same) (auto simp: thread_ok_def)
  have self: "good_outcome s q (ret s)" using assms(1) by (intro good_same) auto
  show ?thesis
  proof (cases "server_running (srv s) \<and> (\<exists>bs. r = Bytes bs \<and> take (nat (int MAX_MSG_SIZE - tlen ?t)) bs \<noteq> [])")
    case True
    then obtain bs where r: "server_running (srv s)" "r = Bytes bs" "take (nat (int MAX_MSG_SIZE - tlen ?t)) bs \<noteq> []" by blast
    define got where "got = take (nat (int MAX_MSG_SIZE - tlen ?t)) bs"
    obtain n where n: "tlen ?t = int n" "n \<le> 1024" using t by (metis thread_ok_def nonneg_int_cases of_nat_le_iff of_nat_numeral)
    have got: "n + length got \<le> 1024" using n by (auto simp: got_def MAX_MSG_SIZE_def)
    let ?u = "?t\<lparr>tbuf := take n (tbuf ?t) @ got @ drop (n + length got) (tbuf ?t), tlen := int n + int (length got), tpc := T_drain\<rparr>"
    have "length (tbuf ?t) = 1024" using t by (simp add: thread_ok_def)
    from read_buffer(1) [OF this got] have "thread_ok ?u" using got by (simp add: thread_ok_def)
    from set_thread_ok [OF assms(1) this] show ?thesis
      using r by (intro good_same) (simp_all add: io_poll_def Let_def got_def n(1))
  qed (use leave self in \<open>auto simp: io_poll_def Let_def split: io_read.split\<close>)
qed

lemma io_drain_good:
  assumes "sys_ok s q" "at_pc i T_drain s"
  shows "good_outcome s q (io_drain i a s)"
proof -
  let ?t = "io_threads s ! i"
  have t: "thread_ok ?t" using assms sys_ok_thread by (simp add: at_pc_def)
  show ?thesis
  proof (cases "0 < tlen ?t")
    case False
    then show ?thesis using set_thread_ok [OF assms(1), of "?t\<lparr>tpc := T_poll\<rparr>" i] t
      by (auto simp: io_drain_def Let_def thread_ok_def intro!: good_same)
  next
    case True
    obtain n where n: "tlen ?t = int n" "n \<le> 1024" using t by (metis thread_ok_def nonneg_int_cases of_nat_le_iff of_nat_numeral)
    obtain st where st: "agree (srv s) st" "pending st = q" using assms(1) by (auto simp: sys_ok_def)
    have "0 < n" "n \<le> length (tbuf ?t)" using True n t by (simp_all add: thread_ok_def)
    from handle_t_outcome [OF st(1) this, of "\<lambda>_. a" "tfd ?t"] show ?thesis
    proof (elim disjE exE conjE)
      fix r buf' sv st' ms
      assume h: "handle_message_t (\<lambda>_. a) (tfd ?t) (tbuf ?t) (int n) (srv s) = ret (r, buf', sv)" "agree sv st'"
        "pending st' = pending st @ ms" "clients sv = clients (srv s)" "length buf' = length (tbuf ?t)" "r \<le> int n"
      define u where "u = (if 0 < r then ?t\<lparr>tbuf := buf', tlen := tlen ?t - r\<rparr>
        else ?t\<lparr>tbuf := buf', tpc := if r = - 2 then T_ended else if r < 0 then T_leave else T_poll\<rparr>)"
      have "io_drain i a s = ret (set_thread i u (s\<lparr>srv := sv\<rparr>))"
        using True h(1) by (simp add: io_drain_def Let_def n(1) u_def)
      moreover have "thread_ok u" using t h(5,6) n by (auto simp: thread_ok_def u_def)
      ultimately show ?thesis using set_thread_new_srv [OF assms(1) _ h(2,4)] h(3) st(2)
        by (simp add: good_ret [where q' = "pending st'" and ms = ms] order_of_def)
    qed (use True n in \<open>simp add: io_drain_def Let_def\<close>)
  qed
qed

lemma io_leave_good:
  assumes "sys_ok s q"
  shows "at_pc i T_leave s \<Longrightarrow> good_outcome s q (ret (io_close i s))"
    and "at_pc i T_remove s \<Longrightarrow> good_outcome s q (ret (io_remove i s))"
proof -
  let ?t = "io_threads s ! i"
  obtain st where st: "agree (srv s) st" "pending st = q" using assms by (auto simp: sys_ok_def)
  show "good_outcome s q (ret (io_close i s))" if "at_pc i T_leave s"
  proof (rule good_same)
    let ?s = "s\<lparr>srv := (srv s)\<lparr>closed := closed (srv s) @ [tfd ?t]\<rparr>, opened := remove1 (tfd ?t) (opened s)\<rparr>"
    have "agree (srv ?s) st" using st(1) by simp
    then have ok: "sys_ok ?s q" using assms st(2) by (auto simp: sys_ok_def)
    have "thread_ok (?t\<lparr>tpc := T_remove\<rparr>)" using that assms sys_ok_thread by (simp add: at_pc_def thread_ok_def)
    from set_thread_ok [OF ok this] show "sys_ok (io_close i s) q" "order_of (io_close i s) q = order_of s q"
      by (simp_all add: io_close_def Let_def order_of_def)
  qed
  show "good_outcome s q (ret (io_remove i s))" if "at_pc i T_remove s"
  proof (rule good_same)
    let ?sv = "remove_client_t (tfd ?t) (srv s)"
    let ?ids = "case find_client (tfd ?t) (clients (srv s)) of None \<Rightarrow> io_tids s | Some k \<Rightarrow> swap_out k (io_tids s)"
    have "agree ?sv st" using st(1) by simp
    moreover have "length (clients ?sv) \<le> MAX_CLIENTS \<and> length ?ids = length (clients ?sv)"
      using assms find_client_Some [of "tfd ?t" "clients (srv s)"]
      by (auto simp: sys_ok_def remove_client_t_def Let_def swap_out_def split: option.split)
    moreover have "set ?ids \<subseteq> set (io_tids s)"
    proof (cases "find_client (tfd ?t) (clients (srv s))")
      case (Some k)
      have "k < length (io_tids s)" using find_client_Some [OF Some] assms by (simp add: sys_ok_def)
      from mset_swap_out [OF this] have "set_mset (mset (swap_out k (io_tids s))) \<subseteq> set (io_tids s)"
        by (metis diff_subset_eq_self set_mset_mono set_mset_mset)
      with Some show ?thesis by simp
    qed simp
    ultimately have ok: "sys_ok (s\<lparr>srv := ?sv, io_tids := ?ids\<rparr>) q" using assms st(2) by (auto simp: sys_ok_def)
    have "thread_ok (?t\<lparr>tpc := T_ended\<rparr>)" using that assms sys_ok_thread by (simp add: at_pc_def thread_ok_def)
    from set_thread_ok [OF ok this] show "sys_ok (io_remove i s) q" "order_of (io_remove i s) q = order_of s q"
      by (simp_all add: io_remove_def Let_def order_of_def)
  qed
qed

lemma sys_ok_stop: "sys_ok s q \<Longrightarrow> sys_ok (s\<lparr>srv := (srv s)\<lparr>server_running := False\<rparr>\<rparr>) q"
proof -
  assume ok: "sys_ok s q"
  then obtain st where st: "agree (srv s) st" "pending st = q" unfolding sys_ok_def by (elim conjE exE)
  have "agree ((srv s)\<lparr>server_running := False\<rparr>) (st\<lparr>running := False\<rparr>)" by (rule agree_stop [OF st(1)])
  moreover have "pending (st\<lparr>running := False\<rparr>) = q" using st(2) by simp
  ultimately show ?thesis using ok unfolding sys_ok_def by (intro conjI exI [of _ "st\<lparr>running := False\<rparr>"]) simp_all
qed

lemma sys_ok_fields [simp]:
  "sys_ok (s\<lparr>acceptor := ac\<rparr>) q = sys_ok s q" "sys_ok (s\<lparr>opened := ds\<rparr>) q = sys_ok s q"
  "sys_ok (s\<lparr>bworker := w\<rparr>) q = sys_ok s q" "sys_ok (s\<lparr>main_thread := mp\<rparr>) q = sys_ok s q"
  "sys_ok (s\<lparr>announced := as\<rparr>) q = sys_ok s q" "sys_ok (s\<lparr>delivered := ws\<rparr>) q = sys_ok s q"
  by (simp_all add: sys_ok_def)

lemma order_of_fields [simp]:
  "order_of (s\<lparr>acceptor := ac\<rparr>) q = order_of s q" "order_of (s\<lparr>opened := ds\<rparr>) q = order_of s q"
  "order_of (s\<lparr>main_thread := mp\<rparr>) q = order_of s q" "order_of (s\<lparr>srv := sv\<rparr>) q = order_of s q"
  "order_of (s\<lparr>io_threads := ts\<rparr>) q = order_of s q" "order_of (s\<lparr>io_tids := is\<rparr>) q = order_of s q"
  by (simp_all add: order_of_def)

lemma acceptor_good:
  assumes "sys_ok s q"
  shows "good_outcome s q (ret (acceptor_poll r s))" "good_outcome s q (add_client d a c s)"
proof -
  show "good_outcome s q (ret (acceptor_poll r s))"
    using assms sys_ok_stop [OF assms]
    by (intro good_same) (auto simp: acceptor_poll_def split: accept_result.split)
  have srv: "sys_ok (s\<lparr>srv := (srv s)\<lparr>closed := ds\<rparr>\<rparr>) q" for ds
    using assms by (auto simp: sys_ok_def)
  have new: "sys_ok (s\<lparr>srv := (srv s)\<lparr>clients := clients (srv s) @ [x]\<rparr>, acceptor := A_loop, io_threads := io_threads s @ [t],
      io_tids := io_tids s @ [length (io_threads s)]\<rparr>) q" if "length (clients (srv s)) < MAX_CLIENTS" "thread_ok t" for x t
    using assms that by (auto simp: sys_ok_def less_Suc_eq)
  show "good_outcome s q (add_client d a c s)"
  proof (cases "length (clients (srv s)) < MAX_CLIENTS \<and> c = Created")
    case True
    have "thread_ok \<lparr>tfd = d, tbuf = replicate MAX_MSG_SIZE 0, tlen = 0, tpc = T_start\<rparr>"
      by (simp add: thread_ok_def MAX_MSG_SIZE_def)
    from new [OF _ this] True show ?thesis
      by (auto simp: add_client_def accept_threaded_def intro!: good_same)
  next
    case False
    with srv show ?thesis
      by (cases c) (auto simp: add_client_def accept_threaded_def intro!: good_same)
  qed
qed

lemma worker_good:
  assumes "sys_ok s q" "worker_can s"
  shows "good_outcome s q (worker_run s)"
proof -
  obtain st where st: "agree (srv s) st" "pending st = q" using assms(1) by (auto simp: sys_ok_def)
  then have qo: "queue_of (srv s) q" by (simp add: agree_def)
  show ?thesis
  proof (cases "bworker s")
    case B_loop
    then show ?thesis using assms(1) by (auto simp: worker_run_def order_of_def intro!: good_same)
  next
    case B_dequeue
    show ?thesis
    proof (cases q)
      case Nil
      with qo have "take_message (srv s) = ret (None, srv s)" using take_message_empty by blast
      then show ?thesis using assms(1) B_dequeue
        by (auto simp: worker_run_def order_of_def intro!: good_same)
    next
      case (Cons m ms)
      from take_message_first [OF qo [unfolded Cons]] obtain sv where sv: "take_message (srv s) = ret (Some m, sv)"
        "queue_of sv ms" "msg_queue.more sv = msg_queue.more (srv s)" by blast
      note more = more_fields [OF sv(3)]
      have "agree sv (st\<lparr>pending := ms\<rparr>)" using st(1) sv(2) more by (simp add: agree_def)
      then have "sys_ok (s\<lparr>srv := sv, bworker := B_got m\<rparr>) ms"
        using assms(1) more(1) by (auto simp: sys_ok_def intro!: exI [of _ "st\<lparr>pending := ms\<rparr>"])
      moreover have "order_of (s\<lparr>srv := sv, bworker := B_got m\<rparr>) ms = order_of s q"
        using B_dequeue Cons by (simp add: order_of_def)
      moreover have "worker_run s = ret (s\<lparr>srv := sv, bworker := B_got m\<rparr>)"
        using B_dequeue sv(1) by (simp add: worker_run_def)
      ultimately show ?thesis using good_ret [where ms = "[]"] by simp
    qed
  next
    case (B_got m)
    then show ?thesis using assms(1) by (auto simp: worker_run_def order_of_def intro!: good_same)
  next
    case B_done
    then show ?thesis using assms by (simp add: worker_can_def)
  qed
qed

lemma main_good:
  assumes "sys_ok s q"
  shows "good_outcome s q (main_run s)"
proof (cases "main_thread s")
  case M_wait
  have "sys_ok (s\<lparr>srv := (srv s)\<lparr>server_running := False\<rparr>, main_thread := M_join_acceptor\<rparr>) q"
    using sys_ok_stop [OF assms] by simp
  then show ?thesis by (simp add: main_run_def M_wait good_same)
next
  case (M_join k)
  have "sys_ok (s\<lparr>srv := (srv s)\<lparr>clients := []\<rparr>, io_tids := [], main_thread := M_join_worker\<rparr>) q"
    using assms by (auto simp: sys_ok_def)
  then show ?thesis using assms by (simp add: main_run_def M_join good_same)
next
  case M_join_worker
  obtain ns where "chain next_node (cells (qheap (srv s))) (queue_head (srv s)) ns 0"
    using assms by (auto simp: sys_ok_def agree_def queue_of_def)
  from free_nodes_chain [OF this] show ?thesis by (auto simp: main_run_def M_join_worker)
qed (use assms in \<open>simp_all add: main_run_def good_same\<close>)

lemma tstep_good:
  assumes "sys_ok s q" "can e s"
  shows "good_outcome s q (tstep e s)"
proof (cases e)
  case (Io_begin i ok)
  then have "thread_ok ((io_threads s ! i)\<lparr>tpc := T_poll\<rparr>)"
    using assms sys_ok_thread by (simp add: at_pc_def thread_ok_def)
  from set_thread_ok [OF assms(1) this] show ?thesis
    by (simp add: Io_begin io_begin_def good_same)
next
  case (Acceptor_begin ok)
  then show ?thesis using assms(1) by (simp add: good_same)
next
  case (Add_client r)
  then show ?thesis using assms acceptor_good(2) by (auto split: acceptor_state.splits)
qed (use assms in \<open>simp_all add: io_poll_good io_drain_good io_leave_good acceptor_good worker_good main_good\<close>)

lemma start_threaded_ok: "sys_ok (start_threaded n w) []"
proof -
  have "agree (init_server n w) \<lparr>pending = [], finished = 0, expected = w, running = True\<rparr>"
    using queue_of_empty [of n] by (simp add: agree_def init_server_def queue_of_def empty_queue_def)
  then show ?thesis by (auto simp: sys_ok_def start_threaded_def init_server_def)
qed

lemma treach_ok: "treach s0 s \<Longrightarrow> sys_ok s0 q0 \<Longrightarrow> \<exists>q ms. sys_ok s q \<and> order_of s q = order_of s0 q0 @ ms"
proof (induction rule: treach.induct)
  case treach_start
  then show ?case by force
next
  case (treach_step s e s')
  then obtain q ms where q: "sys_ok s q" "order_of s q = order_of s0 q0 @ ms" by blast
  with tstep_good [OF q(1) treach_step.hyps(2)] treach_step.hyps(3) show ?case
    by (auto simp: good_outcome_def ret_def exit_with_def)
qed

lemma treach_trans: "treach s1 s2 \<Longrightarrow> treach s0 s1 \<Longrightarrow> treach s0 s2"
  by (induction rule: treach.induct) (auto intro: treach_step)

lemma main_threaded_start:
  "main_threaded n argv e = ret s0 \<Longrightarrow> \<exists>w. s0 = start_threaded n (word_of_int w) \<and> 1 \<le> w \<and> w \<le> 100"
  by (auto simp: main_threaded_def Let_def MAX_CLIENTS_def ret_def exit_with_def split: if_splits)

lemma sys_ok_queue: "sys_ok s q \<Longrightarrow> queue_of (srv s) q"
  by (auto simp: sys_ok_def agree_def)

text \<open>
  Property C10. The threaded server is safe: from whatever \<open>main\<close> sets up, however its threads are
  interleaved and whatever the clients send, every possible step ends the process with a
  status or leads to a state in which the client table has at most 100 entries, each with its
  thread, every buffer is within its bounds and the queue is well formed. Nothing faults, and
  no step runs for ever.
\<close>

theorem threaded_safe:
  assumes "main_threaded n argv e = ret s0" "treach s0 s" "can ev s"
  shows "tstep ev s = exit_with 0 \<or> tstep ev s = exit_with 1 \<or>
    (\<exists>s' q. tstep ev s = ret s' \<and> queue_of (srv s') q \<and> length (clients (srv s')) \<le> 100
      \<and> length (io_tids s') = length (clients (srv s')) \<and> (\<forall>t \<in> set (io_tids s'). t < length (io_threads s'))
      \<and> (\<forall>t \<in> set (io_threads s'). length (tbuf t) = 1024 \<and> 0 \<le> tlen t \<and> tlen t \<le> 1024))"
proof -
  obtain w where s0: "s0 = start_threaded n w" using main_threaded_start [OF assms(1)] by blast
  obtain q where "sys_ok s q" using treach_ok [OF assms(2)] start_threaded_ok s0 by blast
  from tstep_good [OF this assms(3)] show ?thesis
    by (auto simp: good_outcome_def sys_ok_def agree_def MAX_CLIENTS_def list_all_iff thread_ok_def)
qed

text \<open>
  Property C11. The order of the messages is never changed: at any two moments of an execution, what had
  been broadcast, was in the hands of the worker or was queued at the first is the beginning
  of what is at the second.
\<close>

theorem threaded_order:
  assumes "main_threaded n argv e = ret s0" "treach s0 s1" "treach s1 s2"
  shows "\<exists>q1 q2 ms. queue_of (srv s1) q1 \<and> queue_of (srv s2) q2
    \<and> announced s2 @ in_hand_t (bworker s2) @ q2 = (announced s1 @ in_hand_t (bworker s1) @ q1) @ ms"
proof -
  obtain w where s0: "s0 = start_threaded n w" using main_threaded_start [OF assms(1)] by blast
  obtain q1 where q1: "sys_ok s1 q1" using treach_ok [OF assms(2)] start_threaded_ok s0 by blast
  from treach_ok [OF assms(3) q1] obtain q2 ms where "sys_ok s2 q2" "order_of s2 q2 = order_of s1 q1 @ ms" by blast
  with q1 show ?thesis unfolding order_of_def by (blast dest: sys_ok_queue)
qed

end
