(* ===== verification/Chat_Threaded_Scenarios.thy ===== *)
theory Chat_Threaded_Scenarios
  imports Chat_Threaded_System
begin

text \<open>
  Executions of the threaded server of \<open>Chat_Threaded_System\<close> that show what its order of
  closing, locking and stopping allows, each given as its schedule.
\<close>

definition all_ok :: setup_calls where
  "all_ok = \<lparr>socket_ok = True, bind_ok = True, listen_ok = True, worker_created = True, acceptor_created = True\<rparr>"

text \<open>A client connects on descriptor \<open>d\<close> and thread \<open>i\<close> starts to serve it.\<close>

definition connects :: "nat \<Rightarrow> cint \<Rightarrow> tevent list" where
  "connects i d = [Acceptor_poll (Acc_conn d (1, 2)), Add_client Created, Io_begin i True]"

lemma set_nth_append: "(xs @ [x])[length xs := y] = xs @ [y]"
  by (simp add: list_update_append)

lemmas run_defs = io_begin_def io_poll_def io_drain_def io_close_def io_remove_def set_thread_def at_pc_def
  acceptor_poll_def add_client_def accept_threaded_def worker_run_def main_run_def lock_free_def
  worker_can_def main_can_def connects_def start_threaded_def init_server_def MAX_CLIENTS_def MAX_MSG_SIZE_def
  takes_lock_def Let_def

lemmas queue_defs = enqueue_checked_def fill_node_def link_tail_def malloc_def empty_store_def broadcast_frame_def
  take_message_def dequeue_message_def must_wait_def broadcast_writes_def shift_buffer_def
  TYPE_REGULAR_def TYPE_END_EXECUTION_def put_u32_def put_u16_def

lemma case_ret [simp]:
  "(case ret x of None \<Rightarrow> n | Some (Ret y) \<Rightarrow> f y | Some (Exit k) \<Rightarrow> g k | Some (Fault q) \<Rightarrow> h q) = f x"
  by (simp add: ret_def)

definition frame_a :: bytes where
  "frame_a = [0, 1, 0, 0, 0, 2, 0, 65, 10]"

definition reuse_schedule :: "tevent list" where
  "reuse_schedule = [Acceptor_begin True] @ connects 0 5 @ [Io_poll 0 (Bytes []), Io_close 0] @ connects 1 5
     @ [Io_poll 1 (Bytes [0, 65, 10]), Io_drain 1 (1, 2), Worker_run, Worker_run, Worker_run]"

lemma scenario: "run_events es s0 = Some s \<Longrightarrow> P s \<Longrightarrow> \<exists>s. treach s0 s \<and> P s"
  using run_events_reach [OF _ treach_start] by blast

text \<open>
  Property C39. A message can be delivered twice to one client: an I/O thread closes its descriptor before
  it takes the client out of the table, and in between the next connection can get the same
  descriptor, which is then in the table twice.
\<close>

theorem double_delivery:
  "\<exists>s. treach (start_threaded 5 1) s \<and> map fd (clients (srv s)) = [5, 5]
    \<and> announced s = [frame_a] \<and> delivered s = [(5, frame_a), (5, frame_a)]"
proof -
  have "\<exists>s. run_events reuse_schedule (start_threaded 5 1) = Some s \<and> map fd (clients (srv s)) = [5, 5]
      \<and> announced s = [frame_a] \<and> delivered s = [(5, frame_a), (5, frame_a)]"
    by (simp add: reuse_schedule_def run_defs handle_message_t_def queue_defs frame_a_def)
  then obtain s where "run_events reuse_schedule (start_threaded 5 1) = Some s" "map fd (clients (srv s)) = [5, 5]
      \<and> announced s = [frame_a] \<and> delivered s = [(5, frame_a), (5, frame_a)]" by (elim exE conjE) (rule that, assumption, intro conjI)
  then show ?thesis by (rule scenario)
qed

text \<open>The schedule of a deadlock.\<close>

definition deadlock_schedule :: "tevent list" where
  "deadlock_schedule = [Acceptor_begin True] @ connects 0 5 @ connects 1 6
     @ [Io_poll 0 (Bytes [1, 10]), Io_drain 0 (1, 2), Io_drain 0 (1, 2), Io_poll 1 (Bytes [1, 10]), Io_drain 1 (1, 2),
        Acceptor_poll Acc_again, Worker_run, Main_run, Main_run, Main_run, Io_poll 0 Again, Io_close 0]"

lemma all_threads_of_two: "(\<forall>i. \<not> at_pc i p s) \<longleftrightarrow> list_all (\<lambda>t. tpc t \<noteq> p) (io_threads s)"
  by (auto simp: at_pc_def list_all_length)

lemma stuck_if:
  assumes "\<And>p. p \<in> {T_start, T_poll, T_drain, T_leave} \<Longrightarrow> list_all (\<lambda>t. tpc t \<noteq> p) (io_threads s)"
    and "\<not> lock_free s" "acceptor s = A_done" "\<not> worker_can s" "\<not> main_can s"
  shows "\<not> can e s"
  using assms unfolding all_threads_of_two [symmetric] by (cases e) auto

text \<open>
  Property C38. The shutdown can deadlock although both clients behave: the thread that handles the last
  end-of-execution message ends at once, the main thread takes \<open>client_list_lock\<close> and joins
  the thread of the other client, which waits for the same lock to leave the table. No thread
  can make a step, and the process never exits.
\<close>

theorem shutdown_deadlock:
  "\<exists>s. treach (start_threaded 5 2) s \<and> finished_clients_count (srv s) = 2 \<and> (\<forall>e. \<not> can e s)"
proof -
  have "\<exists>s. run_events deadlock_schedule (start_threaded 5 2) = Some s \<and> finished_clients_count (srv s) = 2
      \<and> map tpc (io_threads s) = [T_remove, T_ended] \<and> io_tids s = [0, 1] \<and> length (clients (srv s)) = 2
      \<and> main_thread s = M_join 0 \<and> acceptor s = A_done \<and> bworker s = B_done"
    by (simp add: deadlock_schedule_def run_defs handle_message_t_def queue_defs)
  then obtain s where s: "run_events deadlock_schedule (start_threaded 5 2) = Some s" "finished_clients_count (srv s) = 2"
    "map tpc (io_threads s) = [T_remove, T_ended]" "io_tids s = [0, 1]" "length (clients (srv s)) = 2"
    "main_thread s = M_join 0" "acceptor s = A_done" "bworker s = B_done" by (elim exE conjE) (rule that)
  from s(3) obtain t u where tu: "io_threads s = [t, u]" "tpc t = T_remove" "tpc u = T_ended" by auto
  have "\<not> can e s" for e
    using s tu by (intro stuck_if) (auto simp: lock_free_def worker_can_def main_can_def at_pc_def)
  then have "finished_clients_count (srv s) = 2 \<and> (\<forall>e. \<not> can e s)" using s(2) by simp
  with s(1) show ?thesis by (rule scenario)
qed

text \<open>The schedule in which the commit is lost.\<close>

definition lost_schedule :: "tevent list" where
  "lost_schedule = [Acceptor_begin True] @ connects 0 5
     @ [Io_poll 0 (Bytes [1, 10]), Io_drain 0 (1, 2), Acceptor_poll Acc_again, Worker_run,
        Main_run, Main_run, Main_run, Main_run, Main_run]"

text \<open>
  The commit message can be lost, as in \<open>server.c\<close>: when the worker tests \<open>server_running\<close>
  after the last client's message, it ends with the commit in the queue, and the process
  exits with status 0 without having told any client.
\<close>

theorem threaded_commit_lost:
  "\<exists>s. treach (start_threaded 5 1) s \<and> queue_of (srv s) [[1, 10]] \<and> delivered s = []
    \<and> can Main_run s \<and> tstep Main_run s = exit_with 0"
proof -
  have "\<exists>s. run_events lost_schedule (start_threaded 5 1) = Some s \<and> main_thread s = M_join_worker \<and> bworker s = B_done
      \<and> delivered s = [] \<and> queue_of (srv s) [[1, 10]]"
    by (simp add: lost_schedule_def run_defs handle_message_t_def queue_defs)
       (simp add: queue_of_def store_ok_def exI [of _ "[(1, \<lparr>buffer = [1, 10], len = 2, next_node = 0\<rparr>)]"])
  then obtain s where s: "run_events lost_schedule (start_threaded 5 1) = Some s" "main_thread s = M_join_worker"
    "bworker s = B_done" "delivered s = []" "queue_of (srv s) [[1, 10]]" by (elim exE conjE) (rule that)
  have "can Main_run s" using s(2,3) by (simp add: main_can_def)
  moreover obtain ns where "chain next_node (cells (qheap (srv s))) (queue_head (srv s)) ns 0"
    using s(5) by (auto simp: queue_of_def)
  from free_nodes_chain [OF this] have "tstep Main_run s = exit_with 0" using s(2) by (auto simp: main_run_def)
  ultimately have "queue_of (srv s) [[1, 10]] \<and> delivered s = [] \<and> can Main_run s \<and> tstep Main_run s = exit_with 0"
    using s(4,5) by simp
  with s(1) show ?thesis by (rule scenario)
qed

section \<open>Instances of the general properties\<close>

lemma started_all_ok: "main_threaded 5 [[115], [56], [50]] all_ok = ret (start_threaded 5 2)"
  by (simp add: main_threaded_def all_ok_def MAX_CLIENTS_def atoi_def scan_number_def clamp_long_def int_of_long_def isspace_def isdigit_def Let_def)

theorem threaded_safe_witness:
  "\<exists>s. treach (start_threaded 5 2) s \<and> can (Io_drain 0 (1, 2)) s \<and>
    (tstep (Io_drain 0 (1, 2)) s = exit_with 0 \<or> tstep (Io_drain 0 (1, 2)) s = exit_with 1 \<or>
     (\<exists>s' q. tstep (Io_drain 0 (1, 2)) s = ret s' \<and> queue_of (srv s') q \<and> length (clients (srv s')) \<le> 100))"
proof -
  have "\<exists>s. run_events ([Acceptor_begin True] @ connects 0 5 @ [Io_poll 0 (Bytes [1, 10])]) (start_threaded 5 2) = Some s
      \<and> can (Io_drain 0 (1, 2)) s"
    by (simp add: run_defs)
  then obtain s where s: "treach (start_threaded 5 2) s" "can (Io_drain 0 (1, 2)) s"
    using run_events_reach [OF _ treach_start] by blast
  from threaded_safe [OF started_all_ok s] s show ?thesis by blast
qed

theorem threaded_order_witness:
  "\<exists>s q1 q2 ms. treach (start_threaded 5 2) s \<and> server_running (srv s) \<and> queue_of (srv s) q2
    \<and> announced s @ in_hand_t (bworker s) @ q2 = q1 @ ms"
proof -
  have "\<exists>s. run_events ([Acceptor_begin True] @ connects 0 5 @ [Io_poll 0 (Bytes [0, 65, 10]), Io_drain 0 (1, 2)])
      (start_threaded 5 2) = Some s \<and> server_running (srv s)"
    by (simp add: run_defs handle_message_t_def queue_defs)
  then obtain s where s: "treach (start_threaded 5 2) s" "server_running (srv s)"
    using run_events_reach [OF _ treach_start] by blast
  from threaded_order [OF started_all_ok treach_start s(1)] s show ?thesis by blast
qed

end
