(* ===== verification/Chat_Client.thy ===== *)
theory Chat_Client
  imports Chat_Protocol
begin

text \<open>
  The chat client of \<open>lecture/test4/client.c\<close>: the hexadecimal conversion, what the sender
  thread writes and how the receiver thread cuts the stream of the server into messages.
  Random bytes, the results of \<open>read\<close> and \<open>write\<close> and the values the threads see in
  \<open>keep_running\<close> are the environment.
\<close>

section \<open>Sending\<close>

definition RANDOM_BYTES_LEN :: nat where
  "RANDOM_BYTES_LEN = 10"

text \<open>The characters \<open>sprintf\<close> writes for \<open>%02X\<close>.\<close>

definition hex_digit :: "nat \<Rightarrow> u8" where
  "hex_digit n = of_nat (if n < 10 then 48 + n else 55 + n)"

definition hex_byte :: "u8 \<Rightarrow> bytes" where
  "hex_byte b = [hex_digit (unat b div 16), hex_digit (unat b mod 16)]"

text \<open>
  \<open>convert\<close>: the result and what is written to \<open>str\<close>. \<open>None\<close> stands for a \<open>NULL\<close>
  argument.
\<close>

definition convert :: "bytes option \<Rightarrow> int \<Rightarrow> bool \<Rightarrow> int \<Rightarrow> (int \<times> bytes) run" where
  "convert buf buf_size str_given str_size =
     (case buf of None \<Rightarrow> ret (- 1, [])
      | Some bs \<Rightarrow> if \<not> str_given \<or> buf_size \<le> 0 \<or> str_size < buf_size * 2 + 1 then ret (- 1, [])
          else if int (length bs) < buf_size then fail OutOfBounds
          else ret (0, concat (map hex_byte (take (nat buf_size) bs)) @ [0]))"

text \<open>\<open>strlen\<close> of a buffer that holds a terminated string.\<close>

definition strlen :: "bytes \<Rightarrow> nat run" where
  "strlen bs = (case memchr 0 bs of None \<Rightarrow> fail OutOfBounds | Some n \<Rightarrow> ret n)"

text \<open>
  One iteration of the sender: \<open>keep\<close> is the value of \<open>keep_running\<close> it sees, \<open>entropy\<close> the
  random bytes (\<open>None\<close> when \<open>getentropy\<close> fails), \<open>write_ok\<close> the success of \<open>write\<close>.
\<close>

record send_env =
  keep :: bool
  entropy :: "bytes option"
  write_ok :: bool

text \<open>The loop of \<open>sender_thread\<close>: the byte strings passed to \<open>write\<close>.\<close>

fun sender_loop :: "send_env list \<Rightarrow> bytes list run" where
  "sender_loop [] = ret []"
| "sender_loop (e # es) = (if \<not> keep e then ret []
     else case entropy e of None \<Rightarrow> ret []
     | Some rand_buf \<Rightarrow>
       rbind (convert (Some rand_buf) (int RANDOM_BYTES_LEN) True (int (RANDOM_BYTES_LEN * 2 + 1))) (\<lambda>(r, hex_str).
         if r \<noteq> 0 then ret []
         else rbind (strlen hex_str) (\<lambda>payload_len.
           if 1024 < 1 + payload_len + 1 then sender_loop es
           else let send_buffer = [0] @ take payload_len hex_str @ [10]
             in if write_ok e then rbind (sender_loop es) (\<lambda>ws. ret (send_buffer # ws))
                else ret [send_buffer])))"

definition sender_thread :: "send_env list \<Rightarrow> bool \<Rightarrow> bytes list run" where
  "sender_thread es keep_running = rbind (sender_loop es) (\<lambda>ws.
     ret (if keep_running then ws @ [[1, 10]] else ws))"

section \<open>Receiving\<close>

text \<open>What a log line holds: the address, the port in host order and the text.\<close>

record log_line =
  l_ip :: u32
  l_port :: u16
  l_text :: bytes

text \<open>Reading a 32-bit and a 16-bit value from memory, lowest byte first.\<close>

definition get_u32 :: "bytes \<Rightarrow> u32" where
  "get_u32 bs = ucast (bs ! 0) OR push_bit 8 (ucast (bs ! 1)) OR push_bit 16 (ucast (bs ! 2))
     OR push_bit 24 (ucast (bs ! 3))"

definition get_u16 :: "bytes \<Rightarrow> u16" where
  "get_u16 bs = ucast (bs ! 0) OR push_bit 8 (ucast (bs ! 1))"

definition ntohs :: "u16 \<Rightarrow> u16" where
  "ntohs v = push_bit 8 v OR drop_bit 8 v"

text \<open>
  Lines 144 to 186, for a message of \<open>msg_len\<close> bytes at \<open>ptr\<close>; \<open>%s\<close> prints the text up to
  its first zero byte.
\<close>

definition chat_line :: "bytes \<Rightarrow> nat \<Rightarrow> log_line" where
  "chat_line ptr msg_len = (let n = msg_len - 7 - 1; n = (if 1024 \<le> n then 1024 - 1 else n)
     in \<lparr>l_ip = get_u32 (drop 1 ptr), l_port = ntohs (get_u16 (drop 5 ptr)),
         l_text = takeWhile (\<lambda>b. b \<noteq> 0) (take n (drop 7 ptr))\<rparr>)"

text \<open>
  The inner loop (lines 139 to 214) on the \<open>data_len\<close> bytes at \<open>ptr\<close>: the lines logged, the
  bytes left and the new value of \<open>keep_running\<close>.
\<close>

function parse :: "bytes \<Rightarrow> log_line list \<times> bytes \<times> bool" where
  "parse ptr = (if ptr = [] then ([], [], True)
     else let type = ptr ! 0
       in if type = 0 then
            (if length ptr < 7 then ([], ptr, True)
             else case memchr 10 (drop 7 ptr) of None \<Rightarrow> ([], ptr, True)
             | Some k \<Rightarrow> (let msg_len = 7 + k + 1
                 in case parse (drop msg_len ptr) of (ls, rest, go) \<Rightarrow> (chat_line ptr msg_len # ls, rest, go)))
          else if type = 1 then
            (if length ptr < 2 \<or> ptr ! 1 \<noteq> 10 then ([], ptr, True) else ([], ptr, False))
          else case memchr 10 (drop 1 ptr) of None \<Rightarrow> ([], ptr, True)
            | Some k \<Rightarrow> parse (drop (1 + k + 1) ptr))"
  by pat_completeness auto
termination
  by (relation "measure length") auto

declare parse.simps [simp del]

text \<open>
  \<open>receiver_thread\<close> for a list of reads: \<open>None\<close> is an error, no bytes the end of the stream.
  The result is the log and whether the thread left because of the commit message.
\<close>

fun receiver_loop :: "bytes option list \<Rightarrow> bytes \<Rightarrow> log_line list \<times> bool" where
  "receiver_loop [] data = ([], False)"
| "receiver_loop (r # rs) data =
     (let got = (case r of None \<Rightarrow> [] | Some bs \<Rightarrow> take (1024 - length data) bs)
      in if got = [] then ([], False)
         else case parse (data @ got) of (ls, rest, go) \<Rightarrow>
           if go then (case receiver_loop rs rest of (ls', fin) \<Rightarrow> (ls @ ls', fin)) else (ls, True))"

definition receiver_thread :: "bytes option list \<Rightarrow> log_line list \<times> bool" where
  "receiver_thread rs = receiver_loop rs []"

section \<open>Fixed-width fields\<close>

lemma join_u32: "ucast (ucast v :: u8) OR push_bit 8 (ucast (ucast (drop_bit 8 v) :: u8))
    OR push_bit 16 (ucast (ucast (drop_bit 16 v) :: u8)) OR push_bit 24 (ucast (ucast (drop_bit 24 v) :: u8)) = v"
  (is "?w = v") for v :: u32
proof (rule bit_word_eqI)
  fix n :: nat assume "n < LENGTH(32)"
  then consider "n < 8" | "8 \<le> n" "n < 16" | "16 \<le> n" "n < 24" | "24 \<le> n" "n < 32" by force
  then show "bit ?w n = bit v n" by cases (auto simp: bit_simps less_diff_conv2)
qed

lemma get_put_u32 [simp]: "get_u32 (put_u32 v @ bs) = v"
  using join_u32 [of v] by (simp add: get_u32_def put_u32_def numeral_2_eq_2 numeral_3_eq_3)

lemma get_put_u16 [simp]: "get_u16 (put_u16 v @ bs) = v"
proof -
  have "get_u16 (put_u16 v @ bs) = ucast (ucast v :: u8) OR push_bit 8 (ucast (ucast (drop_bit 8 v) :: u8))"
    by (simp add: get_u16_def put_u16_def)
  also have "\<dots> = v"
    by (rule bit_word_eqI) (auto simp: bit_simps)
  finally show ?thesis .
qed

lemma length_put [simp]: "length (put_u32 v) = 4" "length (put_u16 w) = 2"
  by (simp_all add: put_u32_def put_u16_def)

section \<open>The receiver understands the frames of the server\<close>

definition chat_frame :: "u32 \<Rightarrow> u16 \<Rightarrow> bytes \<Rightarrow> bytes" where
  "chat_frame ip port payload = [0] @ put_u32 ip @ put_u16 port @ payload @ [10]"

definition line_of :: "u32 \<Rightarrow> u16 \<Rightarrow> bytes \<Rightarrow> log_line" where
  "line_of ip port payload = \<lparr>l_ip = ip, l_port = ntohs port, l_text = takeWhile (\<lambda>b. b \<noteq> 0) payload\<rparr>"

lemma drop_frame:
  "drop 1 (chat_frame ip port payload @ xs) = put_u32 ip @ put_u16 port @ payload @ [10] @ xs"
  "drop 5 (chat_frame ip port payload @ xs) = put_u16 port @ payload @ [10] @ xs"
  "drop 7 (chat_frame ip port payload @ xs) = payload @ 10 # xs"
  by (simp_all add: chat_frame_def put_u32_def put_u16_def)

lemma parse_frame:
  assumes nl: "10 \<notin> set payload" and len: "length payload < 1024"
  shows "parse (chat_frame ip port payload @ xs) =
    (case parse xs of (ls, rest, go) \<Rightarrow> (line_of ip port payload # ls, rest, go))"
proof -
  define f where "f = chat_frame ip port payload @ xs"
  have k: "memchr 10 (drop 7 f) = Some (length payload)"
    unfolding f_def drop_frame by (rule memchr_append_notin [OF nl])
  have lf: "length (chat_frame ip port payload) = 8 + length payload" by (simp add: chat_frame_def)
  then have d: "drop (7 + length payload + 1) f = xs" by (simp add: f_def)
  have l: "chat_line f (7 + length payload + 1) = line_of ip port payload"
    using len unfolding chat_line_def f_def drop_frame by (simp add: line_of_def)
  have z: "f \<noteq> []" "f ! 0 = 0" by (simp_all add: chat_frame_def f_def)
  have "\<not> length f < 7" using lf by (simp add: f_def)
  then have "parse f = (case parse xs of (ls, rest, go) \<Rightarrow> (line_of ip port payload # ls, rest, go))"
    using k z d l by (simp add: parse.simps [of f] Let_def)
  then show ?thesis by (simp add: f_def)
qed

lemma parse_commit: "parse ([1, 10] @ xs) = ([], [1, 10] @ xs, False)"
  by (subst parse.simps) simp

lemma parse_frames:
  "list_all (\<lambda>(ip, port, p). 10 \<notin> set p \<and> length p < 1024) fs \<Longrightarrow>
     parse (concat (map (\<lambda>(ip, port, p). chat_frame ip port p) fs) @ xs) =
     (case parse xs of (ls, rest, go) \<Rightarrow> (map (\<lambda>(ip, port, p). line_of ip port p) fs @ ls, rest, go))"
proof (induction fs)
  case (Cons f fs)
  obtain ip port p where f: "f = (ip, port, p)" by (cases f)
  with Cons show ?case by (simp add: parse_frame split: prod.split)
qed (simp split: prod.split)

section \<open>The receiver does not depend on how its stream is cut\<close>

lemma drop_append_le: "n \<le> length xs \<Longrightarrow> drop n (xs @ ys) = drop n xs @ ys"
  by simp

lemma chat_line_append:
  "msg_len \<le> length ptr \<Longrightarrow> 8 \<le> msg_len \<Longrightarrow> chat_line (ptr @ ys) msg_len = chat_line ptr msg_len"
  by (simp add: chat_line_def get_u32_def get_u16_def nth_append Let_def)

text \<open>
  Property C7. The receiver logs the same lines however its stream is cut into reads: parsing
  \<open>xs @ ys\<close> is parsing \<open>xs\<close> and, unless that ended with the commit message, parsing what it
  left over together with \<open>ys\<close>.
\<close>

theorem parse_chunks:
  "parse (xs @ ys) = (case parse xs of (ls, rest, go) \<Rightarrow>
     if go then (case parse (rest @ ys) of (ls', rest', go') \<Rightarrow> (ls @ ls', rest', go'))
     else (ls, rest @ ys, False))"
proof (induction xs rule: parse.induct)
  case (1 xs)
  have idle: ?case if "parse xs = ([], xs, True)" using that by (simp split: prod.split)
  show ?case
  proof (cases "xs = []")
    case True
    then show ?thesis by (intro idle) (simp add: parse.simps)
  next
    case False
    then have hd: "(xs @ ys) ! 0 = xs ! 0" by (cases xs) simp_all
    consider (reg) k where "xs ! 0 = 0" "\<not> length xs < 7" "memchr 10 (drop 7 xs) = Some k"
      | (fin) "xs ! 0 = 1" "\<not> length xs < 2" "xs ! 1 = 10"
      | (unk) k where "xs ! 0 \<noteq> 0" "xs ! 0 \<noteq> 1" "memchr 10 (drop 1 xs) = Some k"
      | (wait) "parse xs = ([], xs, True)"
      using False parse.simps [of xs] by (auto simp: Let_def split: option.splits if_splits)
    then show ?thesis
    proof cases
      case (reg k)
      then have k: "7 + k + 1 \<le> length xs" using memchr_less by fastforce
      from reg(3) have "memchr 10 (drop 7 xs @ ys) = Some k" by (rule memchr_append_left)
      then have p: "parse (xs @ ys) = (case parse (drop (7 + k + 1) xs @ ys) of
          (ls, rest, go) \<Rightarrow> (chat_line xs (7 + k + 1) # ls, rest, go))"
        using reg False hd k by (subst parse.simps) (simp add: Let_def chat_line_append)
      have q: "parse xs = (case parse (drop (7 + k + 1) xs) of
          (ls, rest, go) \<Rightarrow> (chat_line xs (7 + k + 1) # ls, rest, go))"
        using reg False by (subst parse.simps) (simp add: Let_def)
      show ?thesis unfolding p q using 1(1) [OF False refl reg(1,2) reg(3) refl] by (simp split: prod.split)
    next
      case fin
      then have "(xs @ ys) ! 1 = 10" by (simp add: nth_append)
      with fin False hd have "parse (xs @ ys) = ([], xs @ ys, False)" by (subst parse.simps) simp
      moreover have "parse xs = ([], xs, False)" using fin False by (subst parse.simps) simp
      ultimately show ?thesis by simp
    next
      case (unk k)
      then have k: "1 + k + 1 \<le> length xs" using memchr_less by fastforce
      from unk(3) have "memchr 10 (drop 1 xs @ ys) = Some k" by (rule memchr_append_left)
      then have "parse (xs @ ys) = parse (drop (1 + k + 1) xs @ ys)"
        using unk False hd k by (subst parse.simps) (simp add: Let_def)
      moreover have "parse xs = parse (drop (1 + k + 1) xs)"
        using unk False by (subst parse.simps) (simp add: Let_def)
      ultimately show ?thesis using 1(2) [OF False refl unk] by simp
    qed (rule idle)
  qed
qed

section \<open>The receiver thread\<close>

text \<open>Every read finds bytes and room for all of them in the buffer.\<close>

fun reads_fit :: "bytes list \<Rightarrow> bytes \<Rightarrow> bool" where
  "reads_fit [] data \<longleftrightarrow> True"
| "reads_fit (bs # rs) data \<longleftrightarrow> bs \<noteq> [] \<and> length data + length bs \<le> 1024
     \<and> (case parse (data @ bs) of (ls, rest, go) \<Rightarrow> go \<longrightarrow> reads_fit rs rest)"

lemma parse_again: "parse xs = (ls, rest, True) \<Longrightarrow> parse rest = ([], rest, True)"
proof (induction xs arbitrary: ls rule: parse.induct)
  case (1 xs)
  show ?case
  proof (cases "xs = []")
    case True
    with 1(3) show ?thesis by (simp add: parse.simps)
  next
    case False
    consider (reg) k where "xs ! 0 = 0" "\<not> length xs < 7" "memchr 10 (drop 7 xs) = Some k"
      | (unk) k where "xs ! 0 \<noteq> 0" "xs ! 0 \<noteq> 1" "memchr 10 (drop 1 xs) = Some k"
      | (fin) "parse xs = ([], xs, False)"
      | (wait) "parse xs = ([], xs, True)"
      using False parse.simps [of xs] by (auto simp: Let_def split: option.splits if_splits)
    then show ?thesis
    proof cases
      case (reg k)
      then have "parse xs = (case parse (drop (7 + k + 1) xs) of
          (ls, rest, go) \<Rightarrow> (chat_line xs (7 + k + 1) # ls, rest, go))"
        using False by (subst parse.simps) (simp add: Let_def)
      with 1(3) obtain ls' where "parse (drop (7 + k + 1) xs) = (ls', rest, True)"
        by (auto split: prod.splits)
      with 1(1) [OF False refl reg(1,2) reg(3) refl] show ?thesis by simp
    next
      case (unk k)
      then have "parse xs = parse (drop (1 + k + 1) xs)"
        using False by (subst parse.simps) (simp add: Let_def)
      with 1(2) [OF False refl unk] 1(3) show ?thesis by simp
    qed (use 1(3) in simp_all)
  qed
qed

text \<open>
  The receiver thread logs the lines of the stream it is sent, whatever the sizes
  of the reads, as long as each read finds room for its bytes, and it leaves because of the
  commit message exactly when the stream contains one.
\<close>

theorem receiver_reads:
  assumes "reads_fit rs data" "parse data = ([], data, True)"
  shows "receiver_loop (map Some rs) data =
    (case parse (data @ concat rs) of (ls, rest, go) \<Rightarrow> (ls, \<not> go))"
  using assms
proof (induction rs arbitrary: data)
  case Nil
  then show ?case by simp
next
  case (Cons bs rs)
  obtain ls rest go where p: "parse (data @ bs) = (ls, rest, go)" by (metis prod_cases3)
  from Cons.prems p have b: "bs \<noteq> []" "length data + length bs \<le> 1024" "go \<longrightarrow> reads_fit rs rest"
    by simp_all
  then have step: "receiver_loop (map Some (bs # rs)) data =
      (if go then (case receiver_loop (map Some rs) rest of (ls', fin) \<Rightarrow> (ls @ ls', fin)) else (ls, True))"
    using p by (simp add: Let_def)
  have chunks: "parse (data @ concat (bs # rs)) = (if go then (case parse (rest @ concat rs) of
      (ls', rest', go') \<Rightarrow> (ls @ ls', rest', go')) else (ls, rest @ concat rs, False))"
    using parse_chunks [of "data @ bs" "concat rs"] p by simp
  show ?case
  proof (cases go)
    case True
    with Cons.IH [of rest] b(3) parse_again p show ?thesis
      unfolding step chunks by (auto split: prod.split)
  next
    case False
    then show ?thesis unfolding step chunks by simp
  qed
qed

theorem receiver_reads_witness: "receiver_loop (map Some [[0, 127, 0, 0, 1, 80], [0, 72, 10, 1], [10]]) [] =
    ([line_of 16777343 80 [72]], True)"
proof -
  have f: "chat_frame 16777343 80 [72] = [0, 127, 0, 0, 1, 80, 0, 72, 10]"
    by (simp add: chat_frame_def put_u32_def put_u16_def)
  have p: "parse [] = ([], [], True)" "parse [0, 127, 0, 0, 1, 80] = ([], [0, 127, 0, 0, 1, 80], True)"
    "parse [1] = ([], [1], True)" "parse [1, 10] = ([], [1, 10], False)"
    by (simp_all add: parse.simps [of "[]"] parse.simps [of "[0, 127, 0, 0, 1, 80]"] parse.simps [of "[1]"]
        parse.simps [of "[1, 10]"])
  have q: "parse [0, 127, 0, 0, 1, 80, 0, 72, 10, 1] = ([line_of 16777343 80 [72]], [1], True)"
    "parse [0, 127, 0, 0, 1, 80, 0, 72, 10, 1, 10] = ([line_of 16777343 80 [72]], [1, 10], False)"
    using parse_frame [of "[72]" 16777343 80 "[1]"] parse_frame [of "[72]" 16777343 80 "[1, 10]"] p
    by (simp_all add: f)
  show ?thesis
    using receiver_reads [of "[[0, 127, 0, 0, 1, 80], [0, 72, 10, 1], [10]]" "[]"] by (simp add: p q)
qed

section \<open>The sender\<close>

definition unhex_digit :: "u8 \<Rightarrow> nat" where
  "unhex_digit c = (if unat c < 58 then unat c - 48 else unat c - 55)"

fun unhex :: "bytes \<Rightarrow> bytes" where
  "unhex (a # b # cs) = of_nat (16 * unhex_digit a + unhex_digit b) # unhex cs"
| "unhex _ = []"

abbreviation hex_string :: "bytes \<Rightarrow> bytes" where
  "hex_string bs \<equiv> concat (map hex_byte bs)"

lemma unat_hex_digit: "n < 16 \<Longrightarrow> unat (hex_digit n) = (if n < 10 then 48 + n else 55 + n)"
  by (simp add: hex_digit_def unat_of_nat)

lemma unhex_hex_digit: "n < 16 \<Longrightarrow> unhex_digit (hex_digit n) = n"
  by (simp add: unhex_digit_def unat_hex_digit)

lemma unhex_hex_string: "unhex (hex_string bs) = bs"
proof (induction bs)
  case (Cons b bs)
  have "unat b < 256" by (rule unat_u8_less)
  then have "16 * unhex_digit (hex_digit (unat b div 16)) + unhex_digit (hex_digit (unat b mod 16)) = unat b"
    by (simp add: unhex_hex_digit)
  with Cons show ?case by (simp add: hex_byte_def)
qed simp

lemma hex_digit_char: "n < 16 \<Longrightarrow> hex_digit n \<noteq> 0 \<and> hex_digit n \<noteq> 10"
  using unat_hex_digit [of n] by (auto split: if_splits)

lemma hex_string_chars: "c \<in> set (hex_string bs) \<Longrightarrow> c \<noteq> 0 \<and> c \<noteq> 10"
proof -
  have "unat b div 16 < 16" for b :: u8 using unat_u8_less [of b] by simp
  then have "c \<in> set (hex_byte b) \<Longrightarrow> c \<noteq> 0 \<and> c \<noteq> 10" for b
    by (auto simp: hex_byte_def hex_digit_char)
  then show "c \<in> set (hex_string bs) \<Longrightarrow> c \<noteq> 0 \<and> c \<noteq> 10" by auto
qed

lemma length_hex_string: "length (hex_string bs) = 2 * length bs"
  by (induction bs) (simp_all add: hex_byte_def)

text \<open>
  \<open>convert\<close> writes a terminated string of two hexadecimal digits per byte, from
  which the bytes can be recovered, whenever the string has room for it; it returns \<open>-1\<close>
  without writing when an argument is \<open>NULL\<close>, the length is not positive or the room is short.
\<close>

theorem convert_correct:
  assumes "int (length bs) \<ge> n"
  shows "if str_given \<and> 0 < n \<and> n * 2 + 1 \<le> m
    then (\<exists>str. convert (Some bs) n str_given m = ret (0, str @ [0]) \<and> length str = 2 * nat n
      \<and> 0 \<notin> set str \<and> unhex str = take (nat n) bs)
    else convert (Some bs) n str_given m = ret (- 1, [])"
proof (cases "str_given \<and> 0 < n \<and> n * 2 + 1 \<le> m")
  case True
  have "0 \<notin> set (hex_string (take (nat n) bs))" using hex_string_chars by blast
  moreover have "length (hex_string (take (nat n) bs)) = 2 * nat n"
    using assms by (simp add: length_hex_string)
  ultimately show ?thesis
    using True assms unhex_hex_string [of "take (nat n) bs"]
    by (auto simp: convert_def simp del: unhex.simps)
next
  case False
  show ?thesis unfolding if_not_P [OF False] using False by (auto simp: convert_def)
qed

theorem convert_correct_witness: "\<exists>str. convert (Some [171, 5]) 2 True 5 = ret (0, str @ [0]) \<and> unhex str = [171, 5]"
  using convert_correct [of 2 "[171, 5]" True 5] by auto

text \<open>A sender whose calls all succeed.\<close>

definition good_send :: "bytes \<Rightarrow> send_env" where
  "good_send bs = \<lparr>keep = True, entropy = Some bs, write_ok = True\<rparr>"

definition sent_message :: "bytes \<Rightarrow> bytes" where
  "sent_message bs = [0] @ hex_string bs @ [10]"

lemma sender_loop_good:
  "list_all (\<lambda>bs. length bs = 10) rands \<Longrightarrow> sender_loop (map good_send rands) = ret (map sent_message rands)"
proof (induction rands)
  case (Cons bs rands)
  have len: "length bs = 10" using Cons.prems by simp
  have c: "convert (Some bs) 10 True 21 = ret (0, hex_string bs @ [0])"
    using len by (simp add: convert_def)
  have "0 \<notin> set (hex_string bs)" using hex_string_chars by blast
  then have s: "strlen (hex_string bs @ [0]) = ret (length (hex_string bs))"
    by (simp add: strlen_def)
  show ?case using Cons c s len
    by (simp add: good_send_def RANDOM_BYTES_LEN_def length_hex_string sent_message_def Let_def)
qed simp

lemma sender_thread_good:
  "list_all (\<lambda>bs. length bs = 10) rands \<Longrightarrow>
     sender_thread (map good_send rands) True = ret (map sent_message rands @ [[1, 10]])"
  by (simp add: sender_thread_def sender_loop_good)

end
