(* ===== verification/Chat_Threads.thy ===== *)
theory Chat_Threads
  imports Chat_Loop
begin

text \<open>
  The two threads of \<open>lecture/test4/server.c\<close>, the main thread and \<open>broadcast_worker\<close>, as a
  step relation. Each step is one critical section or one access to a shared variable:
  \<^item> the queue is its list of messages (\<open>Msg_Queue\<close> shows that the code implements it);
  \<^item> \<open>lock\<close> is the owner of \<open>client_list_lock\<close>, \<open>running\<close> is \<open>server_running\<close>;
  \<^item> the main thread takes the lock for a round of \<open>select\<close>, queues frames while it serves
    the clients, and on the last end-of-execution message queues the commit, clears
    \<open>running\<close>, releases the lock and joins the worker (\<open>handle_message\<close>,
    \<open>cleanup_and_exit\<close>). When \<open>select\<close> fails it joins the worker at once;
  \<^item> the worker tests \<open>running\<close>, dequeues (waiting while the queue is empty and \<open>running\<close> is
    set), takes the lock, sends the message to every client and releases the lock.
  \<open>handed\<close> records every message that was ever queued and \<open>sent\<close> what was broadcast.
  The condition variable is modelled by its predicate: the worker goes on as soon as there is
  a message or \<open>running\<close> is cleared. The calls of \<open>malloc\<close> succeed here: each frame is queued,
  and so is the commit, whose \<open>enqueue_message\<close> wakes the worker under the lock of the queue
  (\<open>join_worker\<close> of \<open>Chat_Server\<close> has the case where it is lost).
\<close>

section \<open>States and steps\<close>

datatype owner = Main | Worker

datatype main_pc = MSelect | MServe | MCommit | MStopped | MJoin | MExit

datatype worker_pc = WLoop | WDequeue | WGot bytes | WSend bytes | WDone

record threads =
  fifo_queue :: "bytes list"
  up :: bool
  lock :: "owner option"
  main :: main_pc
  worker :: worker_pc
  sent :: "bytes list"
  handed :: "bytes list"

definition start :: threads where
  "start = \<lparr>fifo_queue = [], up = True, lock = None, main = MSelect, worker = WLoop, sent = [], handed = []\<rparr>"

definition commit_msg :: bytes where
  "commit_msg = [1, 10]"

definition worker_step :: "threads \<Rightarrow> threads option" where
  "worker_step c = (case worker c of
       WLoop \<Rightarrow> Some (c\<lparr>worker := if up c then WDequeue else WDone\<rparr>)
     | WDequeue \<Rightarrow> (case fifo_queue c of
           [] \<Rightarrow> if up c then None else Some (c\<lparr>worker := WDone\<rparr>)
         | m # ms \<Rightarrow> Some (c\<lparr>fifo_queue := ms, worker := WGot m\<rparr>))
     | WGot m \<Rightarrow> if lock c = None then Some (c\<lparr>lock := Some Worker, worker := WSend m\<rparr>) else None
     | WSend m \<Rightarrow> Some (c\<lparr>sent := sent c @ [m], lock := None, worker := WLoop\<rparr>)
     | WDone \<Rightarrow> None)"

text \<open>What the environment makes the main thread do next.\<close>

datatype action = Round | Select_fails | Frame bytes | End_round | Last_client | Go_on

definition main_step :: "action \<Rightarrow> threads \<Rightarrow> threads option" where
  "main_step a c = (case (main c, a) of
       (MSelect, Round) \<Rightarrow> if up c \<and> lock c = None then Some (c\<lparr>lock := Some Main, main := MServe\<rparr>) else None
     | (MSelect, Select_fails) \<Rightarrow> if up c then Some (c\<lparr>main := MJoin\<rparr>) else None
     | (MServe, Frame m) \<Rightarrow> Some (c\<lparr>fifo_queue := fifo_queue c @ [m], handed := handed c @ [m]\<rparr>)
     | (MServe, End_round) \<Rightarrow> Some (c\<lparr>lock := None, main := MSelect\<rparr>)
     | (MServe, Last_client) \<Rightarrow> Some (c\<lparr>fifo_queue := fifo_queue c @ [commit_msg],
           handed := handed c @ [commit_msg], main := MCommit\<rparr>)
     | (MCommit, Go_on) \<Rightarrow> Some (c\<lparr>up := False, main := MStopped\<rparr>)
     | (MStopped, Go_on) \<Rightarrow> Some (c\<lparr>lock := None, main := MJoin\<rparr>)
     | (MJoin, Go_on) \<Rightarrow> if worker c = WDone then Some (c\<lparr>main := MExit\<rparr>) else None
     | _ \<Rightarrow> None)"

inductive step :: "threads \<Rightarrow> threads \<Rightarrow> bool" where
  by_worker: "worker_step c = Some c' \<Longrightarrow> step c c'"
| by_main: "main_step a c = Some c' \<Longrightarrow> step c c'"

inductive reachable :: "threads \<Rightarrow> bool" where
  initially: "reachable start"
| later: "reachable c \<Longrightarrow> step c c' \<Longrightarrow> reachable c'"

inductive_cases stepE: "step c c'"

text \<open>A schedule: \<open>None\<close> lets the worker run, \<open>Some a\<close> the main thread.\<close>

fun run_schedule :: "action option list \<Rightarrow> threads \<Rightarrow> threads option" where
  "run_schedule [] c = Some c"
| "run_schedule (None # as) c = Option.bind (worker_step c) (run_schedule as)"
| "run_schedule (Some a # as) c = Option.bind (main_step a c) (run_schedule as)"

lemma run_schedule_reachable: "run_schedule as c = Some c' \<Longrightarrow> reachable c \<Longrightarrow> reachable c'"
proof (induction as c rule: run_schedule.induct)
  case (2 as c)
  then show ?case by (auto split: Option.bind_splits intro: later by_worker)
next
  case (3 a as c)
  then show ?case by (auto split: Option.bind_splits intro: later by_main)
qed simp

section \<open>The invariant\<close>

text \<open>The message the worker has taken out of the queue.\<close>

fun in_hand :: "worker_pc \<Rightarrow> bytes list" where
  "in_hand (WGot m) = [m]"
| "in_hand (WSend m) = [m]"
| "in_hand _ = []"

definition threads_ok :: "threads \<Rightarrow> bool" where
  "threads_ok c \<longleftrightarrow> sent c @ in_hand (worker c) @ fifo_queue c = handed c
     \<and> (lock c = Some Main \<longleftrightarrow> main c \<in> {MServe, MCommit, MStopped})
     \<and> (lock c = Some Worker \<longleftrightarrow> (\<exists>m. worker c = WSend m))
     \<and> (up c \<longrightarrow> worker c \<noteq> WDone \<and> main c \<notin> {MStopped, MExit})
     \<and> (\<not> up c \<longrightarrow> main c \<in> {MStopped, MJoin, MExit})
     \<and> (main c = MExit \<longrightarrow> worker c = WDone)"

lemma threads_ok_start: "threads_ok start"
  by (simp add: threads_ok_def start_def)

lemma worker_step_ok: "threads_ok c \<Longrightarrow> worker_step c = Some c' \<Longrightarrow> threads_ok c'"
  by (cases "worker c") (auto simp: threads_ok_def worker_step_def split: list.splits if_splits)

lemma main_step_ok: "threads_ok c \<Longrightarrow> main_step a c = Some c' \<Longrightarrow> threads_ok c'"
  by (cases "main c"; cases a) (auto simp: threads_ok_def main_step_def split: if_splits)

lemma reachable_ok: "reachable c \<Longrightarrow> threads_ok c"
proof (induction rule: reachable.induct)
  case initially
  show ?case by (rule threads_ok_start)
next
  case (later c c')
  then show ?case by (auto elim!: stepE intro: worker_step_ok main_step_ok)
qed

text \<open>
  Property C5. In every reachable state the broadcast order is the queueing order: what has
  been sent, then the message the worker holds, then the queue, is everything that was ever
  queued, and \<open>client_list_lock\<close> is held exactly by the thread that uses the client table.
\<close>

theorem broadcast_order:
  assumes "reachable c"
  shows "sent c @ in_hand (worker c) @ fifo_queue c = handed c
    \<and> (lock c = Some Main \<longleftrightarrow> main c \<in> {MServe, MCommit, MStopped})
    \<and> (lock c = Some Worker \<longleftrightarrow> (\<exists>m. worker c = WSend m))"
  using reachable_ok [OF assms] unfolding threads_ok_def by blast

section \<open>Progress\<close>

text \<open>The executions in which \<open>select\<close> has not failed.\<close>

inductive reachable_sel :: "threads \<Rightarrow> bool" where
  initially': "reachable_sel start"
| later_w: "reachable_sel c \<Longrightarrow> worker_step c = Some c' \<Longrightarrow> reachable_sel c'"
| later_m: "reachable_sel c \<Longrightarrow> main_step a c = Some c' \<Longrightarrow> a \<noteq> Select_fails \<Longrightarrow> reachable_sel c'"

lemma reachable_sel_reachable: "reachable_sel c \<Longrightarrow> reachable c"
  by (induction rule: reachable_sel.induct) (auto intro: reachable.intros step.intros)

lemma reachable_sel_join: "reachable_sel c \<Longrightarrow> main c \<in> {MJoin, MExit} \<Longrightarrow> \<not> up c"
proof (induction rule: reachable_sel.induct)
  case (later_w c c')
  then show ?case by (cases "worker c") (auto simp: worker_step_def split: list.splits if_splits)
next
  case (later_m c a c')
  have "threads_ok c" by (rule reachable_ok [OF reachable_sel_reachable [OF later_m(1)]])
  with later_m show ?case
    by (cases "main c"; cases a) (auto simp: threads_ok_def main_step_def split: if_splits)
qed (simp add: start_def)

text \<open>
  Property C8. The server does not deadlock: as long as \<open>select\<close> does not fail and \<open>malloc\<close> does not either,
  in every reachable state but the end of the process the worker thread can make its next step or the main
  thread can make one that is not the failure of \<open>select\<close>.
\<close>

theorem server_no_deadlock:
  assumes r: "reachable_sel c" and e: "main c \<noteq> MExit"
  shows "(\<exists>c'. worker_step c = Some c') \<or> (\<exists>a c'. a \<noteq> Select_fails \<and> main_step a c = Some c')"
proof -
  let ?P = "(\<exists>c'. worker_step c = Some c') \<or> (\<exists>a c'. a \<noteq> Select_fails \<and> main_step a c = Some c')"
  have ok: "threads_ok c" by (rule reachable_ok [OF reachable_sel_reachable [OF r]])
  have main: ?P if "a \<noteq> Select_fails" "main_step a c \<noteq> None" for a using that by blast
  have worker: ?P if "worker_step c \<noteq> None" using that by blast
  show ?thesis
  proof (cases "main c")
    case MSelect
    show ?thesis
    proof (cases "lock c")
      case None
      have "up c" using ok MSelect by (auto simp: threads_ok_def)
      with MSelect None show ?thesis by (intro main [of Round]) (simp_all add: main_step_def)
    next
      case (Some w)
      with ok MSelect obtain m where "worker c = WSend m" by (cases w) (auto simp: threads_ok_def)
      then show ?thesis by (intro worker) (simp add: worker_step_def)
    qed
  next
    case MServe
    then show ?thesis by (intro main [of End_round]) (simp_all add: main_step_def)
  next
    case MCommit
    then show ?thesis by (intro main [of Go_on]) (simp_all add: main_step_def)
  next
    case MStopped
    then show ?thesis by (intro main [of Go_on]) (simp_all add: main_step_def)
  next
    case MJoin
    with r have up: "\<not> up c" by (auto dest: reachable_sel_join)
    show ?thesis
    proof (cases "worker c = WDone")
      case True
      with MJoin show ?thesis by (intro main [of Go_on]) (simp_all add: main_step_def)
    next
      case False
      have "lock c \<noteq> Some Main" using ok MJoin by (auto simp: threads_ok_def)
      moreover have "lock c = Some Worker \<Longrightarrow> \<exists>m. worker c = WSend m" using ok by (simp add: threads_ok_def)
      ultimately have "lock c = None \<or> (\<exists>m. worker c = WSend m)" by (metis option.exhaust owner.exhaust)
      with False up show ?thesis
        by (intro worker) (cases "worker c"; auto simp: worker_step_def split: list.splits)
    qed
  qed (use e in simp)
qed

section \<open>Two defects\<close>

definition hung :: threads where
  "hung = start\<lparr>main := MJoin, worker := WDequeue\<rparr>"

text \<open>
  When \<open>select\<close> fails the server hangs instead of exiting: the main thread joins
  the worker without clearing \<open>server_running\<close>, and the worker waits for a message for ever.
\<close>

theorem select_error_hangs: "reachable hung \<and> (\<nexists>c'. step hung c')"
proof
  have "run_schedule [None, Some Select_fails] start = Some hung"
    by (simp add: start_def hung_def worker_step_def main_step_def)
  then show "reachable hung" by (rule run_schedule_reachable [OF _ initially])
  have "worker_step hung = None" by (simp add: worker_step_def hung_def start_def)
  moreover have "main_step a hung = None" for a by (cases a) (simp_all add: main_step_def hung_def start_def)
  ultimately show "\<nexists>c'. step hung c'" by (auto elim!: stepE)
qed

text \<open>
  The commit message can be lost: the worker may be between two messages when
  \<open>server_running\<close> is cleared; it then leaves its loop, and the process exits with the
  commit still in the queue, so that no client is told to stop.
\<close>

theorem commit_can_be_lost:
  "\<exists>c. reachable c \<and> main c = MExit \<and> commit_msg \<in> set (handed c) \<and> sent c = []"
proof -
  have "run_schedule [Some Round, Some Last_client, Some Go_on, None, Some Go_on, Some Go_on] start
      = Some (start\<lparr>fifo_queue := [commit_msg], up := False, main := MExit, worker := WDone, handed := [commit_msg]\<rparr>)"
    by (simp add: start_def worker_step_def main_step_def)
  from run_schedule_reachable [OF this initially] show ?thesis
    by (intro exI conjI) (assumption, simp_all add: start_def)
qed

theorem broadcast_order_witness: "sent start @ in_hand (worker start) @ fifo_queue start = handed start"
  using broadcast_order [OF initially] by blast

theorem server_no_deadlock_witness:
  "(\<exists>c'. worker_step start = Some c') \<or> (\<exists>a c'. a \<noteq> Select_fails \<and> main_step a start = Some c')"
  by (rule server_no_deadlock [OF initially']) (simp add: start_def)

end
