(* ===== verification/Chat_End_To_End.thy ===== *)
theory Chat_End_To_End
  imports Chat_Client Chat_Threads C_Strings
begin

text \<open>
  The client and the server of \<open>lecture/test4\<close> together: what a client sends, the server
  queues, and what the server broadcasts, a client logs.
\<close>

lemma serve_sent_message:
  assumes "length bs = 10"
  shows "serve a (sent_message bs @ xs) st =
    serve a xs (st\<lparr>pending := pending st @ [chat_frame (fst a) (snd a) (hex_string bs)]\<rparr>)"
proof -
  let ?h = "hex_string bs"
  have "10 \<notin> set ([0] @ ?h)" using hex_string_chars [of 10 bs] by auto
  from memchr_append_notin [OF this, of xs] have m: "memchr 10 (sent_message bs @ xs) = Some (Suc (length ?h))"
    by (simp add: sent_message_def)
  have t: "take (Suc (length ?h)) (sent_message bs @ xs) = 0 # ?h" "drop (Suc (length ?h) + 1) (sent_message bs @ xs) = xs"
    by (simp_all add: sent_message_def)
  have "serve_frame a (0 # ?h) st = (False, st\<lparr>pending := pending st @ [chat_frame (fst a) (snd a) ?h]\<rparr>)"
    using assms by (simp add: serve_frame_def chat_frame_def length_hex_string)
  then show ?thesis using m t by (subst serve.simps) simp
qed

lemma serve_sent_messages:
  "list_all (\<lambda>bs. length bs = 10) rands \<Longrightarrow> serve a (concat (map sent_message rands) @ xs) st =
     serve a xs (st\<lparr>pending := pending st @ map (\<lambda>bs. chat_frame (fst a) (snd a) (hex_string bs)) rands\<rparr>)"
proof (induction rands arbitrary: st)
  case (Cons bs rands)
  then show ?case by (simp add: serve_sent_message)
qed simp

lemma serve_commit: "serve a [1, 10] st = (let st = st\<lparr>finished := finished st + 1\<rparr> in
    if finished st = expected st then (True, st\<lparr>pending := pending st @ [[1, 10]], running := False\<rparr>, [])
    else (False, st, []))"
  by (simp add: serve.simps [of a "[1, 10]"] serve.simps [of a "[]"] serve_frame_def Let_def)

lemma parse_hex_frames:
  assumes "list_all (\<lambda>bs. length bs = 10) rands"
  shows "parse (concat (map (\<lambda>bs. chat_frame ip port (hex_string bs)) rands) @ xs) =
    (case parse xs of (ls, rest, go) \<Rightarrow> (map (\<lambda>bs. line_of ip port (hex_string bs)) rands @ ls, rest, go))"
proof -
  have "list_all (\<lambda>(i, p, h). 10 \<notin> set h \<and> length h < 1024) (map (\<lambda>bs. (ip, port, hex_string bs)) rands)"
    using assms hex_string_chars by (fastforce simp: list_all_iff length_hex_string)
  from parse_frames [OF this, of xs] show ?thesis by (simp add: comp_def)
qed

section \<open>The server reads a client\<close>

text \<open>A round in which client \<open>d\<close> with the address \<open>a\<close> connects, and one in which \<open>read\<close> finds \<open>got\<close>.\<close>

definition connects :: "cint \<Rightarrow> u32 \<times> u16 \<Rightarrow> server_event" where
  "connects d a = In_round \<lparr>activity = Select_ready, accepts = Some (Some (d, a)), ready = (\<lambda>_. False),
     read_from = (\<lambda>_. None), peer_of = (\<lambda>_. a)\<rparr>"

definition sends :: "cint \<Rightarrow> u32 \<times> u16 \<Rightarrow> bytes \<Rightarrow> server_event" where
  "sends d a got = In_round \<lparr>activity = Select_ready, accepts = None, ready = (\<lambda>x. x = d),
     read_from = (\<lambda>x. if x = d then Some got else None), peer_of = (\<lambda>_. a)\<rparr>"

text \<open>No part of the stream without a newline is longer than 24 bytes.\<close>

definition short_lines :: "bytes \<Rightarrow> bool" where
  "short_lines w \<longleftrightarrow> (\<forall>p x q. w = p @ x @ q \<longrightarrow> 10 \<notin> set x \<longrightarrow> length x \<le> 24)"

lemma short_lines_suffix: "short_lines (p @ w) \<Longrightarrow> short_lines w"
  by (auto simp: short_lines_def) (metis append_assoc)

lemma short_lines_append: "10 \<notin> set l \<Longrightarrow> length l \<le> 24 \<Longrightarrow> short_lines w \<Longrightarrow> short_lines (l @ [10] @ w)"
  unfolding short_lines_def
proof (intro allI impI)
  fix p x q
  assume l: "10 \<notin> set l" "length l \<le> 24" and w: "\<forall>p x q. w = p @ x @ q \<longrightarrow> 10 \<notin> set x \<longrightarrow> length x \<le> 24"
    and eq: "l @ [10] @ w = p @ x @ q" and x: "10 \<notin> set x"
  show "length x \<le> 24"
  proof (cases "length l < length p")
    case True
    have "drop (length l + 1) (l @ [10] @ w) = drop (length l + 1) (p @ x @ q)" by (simp only: eq)
    then have "w = drop (length l + 1) p @ x @ q" using True by simp
    with w x show ?thesis by blast
  next
    case False
    have "length p + length x \<le> length l"
    proof (rule ccontr)
      assume "\<not> length p + length x \<le> length l"
      then have "length l - length p < length x" using False by linarith
      moreover from this have "(p @ x @ q) ! length l = x ! (length l - length p)"
        using False by (simp add: nth_append)
      moreover have "(l @ [10] @ w) ! length l = 10" by (simp add: nth_append)
      ultimately show False using x eq by (metis nth_mem)
    qed
    with l(2) show ?thesis by simp
  qed
qed

lemma short_lines_Nil: "short_lines []"
  by (simp add: short_lines_def)

lemma short_lines_sent:
  "list_all (\<lambda>bs. length bs = 10) rands \<Longrightarrow> short_lines (concat (map sent_message rands @ [[1, 10]]))"
proof (induction rands)
  case Nil
  have "short_lines ([1] @ [10] @ [])" by (rule short_lines_append) (simp_all add: short_lines_Nil)
  then show ?case by simp
next
  case (Cons bs rands)
  have "short_lines (([0] @ hex_string bs) @ [10] @ concat (map sent_message rands @ [[1, 10]]))"
    by (rule short_lines_append) (use Cons hex_string_chars [of 10 bs] in \<open>auto simp: length_hex_string\<close>)
  moreover have "([0] @ hex_string bs) @ [10] @ concat (map sent_message rands @ [[1, 10]]) =
      concat (map sent_message (bs # rands) @ [[1, 10]])" by (simp add: sent_message_def)
  ultimately show ?case by (simp only:)
qed

lemma serve_suffix: "serve a xs st = (sd, st', rest) \<Longrightarrow> \<exists>p. xs = p @ rest"
proof (induction a xs st rule: serve.induct)
  case (1 a xs st)
  show ?case
  proof (cases "memchr 10 xs")
    case None
    with 1(2) show ?thesis by (simp add: serve.simps [of a xs])
  next
    case (Some k)
    obtain sd' st1 where f: "serve_frame a (take k xs) st = (sd', st1)" by fastforce
    show ?thesis
    proof (cases sd')
      case True
      then have "xs = take (k + 1) xs @ rest" using 1(2) Some f by (auto simp: serve.simps [of a xs])
      then show ?thesis by blast
    next
      case False
      then have "serve a (drop (k + 1) xs) st1 = (sd, st', rest)" using 1(2) Some f by (simp add: serve.simps [of a xs])
      with 1(1) [OF Some f [symmetric] False] obtain p where "drop (k + 1) xs = p @ rest" by blast
      then have "xs = (take (k + 1) xs @ p) @ rest" by (metis append_assoc append_take_drop_id)
      then show ?thesis by blast
    qed
  qed
qed

text \<open>The slot of the only client, and the protocol behind what has been read so far.\<close>

definition reading :: "cint \<Rightarrow> slots \<Rightarrow> 'a server_scheme \<Rightarrow> chat \<Rightarrow> bytes \<Rightarrow> bool" where
  "reading d bufs s st rest \<longleftrightarrow> map fd (clients s) = [d] \<and> agree s st \<and> server_running s
     \<and> 0 < length bufs \<and> length (fst (bufs ! 0)) = 1024 \<and> snd (bufs ! 0) = int (length rest)
     \<and> take (length rest) (fst (bufs ! 0)) = rest \<and> memchr 10 rest = None"

lemma one_read:
  assumes rd: "reading d bufs s st rest" and g: "g \<noteq> []" "length g \<le> 1000"
    and len: "length rest \<le> 24" and room: "top (qheap s) + 1024 \<le> cap (qheap s)"
    and sv: "serve a (rest @ g) st = (sd, st', rest')" and run: "running st' \<longleftrightarrow> \<not> sd"
  shows "\<exists>bufs' s'. io_loop (sends d a g # es) bufs s =
      (if sd then ret (Shutdown, bufs', s') else io_loop es bufs' s') \<and> agree s' st'
    \<and> (\<not> sd \<longrightarrow> reading d bufs' s' st' rest') \<and> cap (qheap s') = cap (qheap s)
    \<and> top (qheap s') \<le> top (qheap s) + 1024"
proof -
  let ?r = "\<lparr>activity = Select_ready, accepts = None, ready = (\<lambda>x. x = d),
     read_from = (\<lambda>x. if x = d then Some g else None), peer_of = (\<lambda>_. a)\<rparr>"
  let ?n = "length rest" and ?buf = "fst (bufs ! 0)"
  have i: "0 < length (clients s)" "fd (clients s ! 0) = d" "length (clients s) = 1"
    using rd by (auto simp: reading_def)
  have slot: "bufs ! 0 = (?buf, int ?n)" "length ?buf = 1024" "take ?n ?buf = rest" "agree s st"
    using rd by (simp_all add: reading_def prod_eq_iff)
  have r: "ready ?r d" "read_bytes ?r d (1024 - ?n) = Some g" using g(2) len by (simp_all add: read_bytes_def)
  have room': "top (qheap s) + ?n + length g \<le> cap (qheap s)" "?n \<le> 1024" using room g(2) len by simp_all
  obtain res buf' ln' s' where c: "serve_clients ?r 0 bufs s =
      (if res = - 2 then ret (Shutdown, bufs[0 := (buf', ln')], s')
       else serve_clients ?r (0 + 1) (bufs[0 := (buf', ln')]) s')"
    "same_table s s'" "top (qheap s') \<le> top (qheap s) + 1024"
    "drained (serve (peer_of ?r d) (take ?n ?buf @ g) st) 1024 (res, buf', ln', s')"
    using serve_clients_drain [OF i(1,2) slot(1,2) r g(1) slot(4) room'] by blast
  have dr: "agree s' st'" "length buf' = 1024" "res = - 2 \<longleftrightarrow> sd"
    "\<not> sd \<longrightarrow> ln' = int (length rest') \<and> take (length rest') buf' = rest'"
    using c(4) sv by (simp_all add: drained_def slot(3))
  have tab: "clients s' = clients s" "cap (qheap s') = cap (qheap s)" using c(2) by (simp_all add: same_table_def)
  have "serve_clients ?r 1 (bufs[0 := (buf', ln')]) s' = ret (Continue, bufs[0 := (buf', ln')], s')"
    using i(3) tab(1) by (simp add: serve_clients_end)
  then have "io_round ?r bufs s = ret (if sd then Shutdown else Continue, bufs[0 := (buf', ln')], s')"
    using c(1) dr(3) by (simp add: io_round_def)
  moreover have "server_running s" using rd by (simp add: reading_def)
  ultimately have "io_loop (sends d a g # es) bufs s =
      (if sd then ret (Shutdown, bufs[0 := (buf', ln')], s') else io_loop es (bufs[0 := (buf', ln')]) s')"
    by (simp add: sends_def)
  moreover have "reading d (bufs[0 := (buf', ln')]) s' st' rest'" if "\<not> sd"
    using rd dr tab that run serve_rest [of a "rest @ g" st st' rest'] sv by (simp add: reading_def agree_def)
  ultimately show ?thesis using dr(1) tab(2) c(3) by blast
qed

lemma serve_running: "running st \<Longrightarrow> serve a xs st = (sd, st', rest) \<Longrightarrow> running st' \<longleftrightarrow> \<not> sd"
proof (induction a xs st rule: serve.induct)
  case (1 a xs st)
  show ?case
  proof (cases "memchr 10 xs")
    case None
    with 1(2,3) show ?thesis by (auto simp: serve.simps [of a xs])
  next
    case (Some k)
    obtain sd' st1 where f: "serve_frame a (take k xs) st = (sd', st1)" by fastforce
    then have run: "running st1 \<longleftrightarrow> \<not> sd'"
      using 1(2) by (auto simp: serve_frame_def Let_def split: list.splits if_splits)
    show ?thesis
    proof (cases sd')
      case True
      with 1(3) Some f run show ?thesis by (auto simp: serve.simps [of a xs])
    next
      case False
      with 1(1) [OF Some f [symmetric] False] 1(3) Some f run show ?thesis by (simp add: serve.simps [of a xs])
    qed
  qed
qed

text \<open>However the stream is cut into reads of at most 1000 bytes, the server ends where the
  protocol ends.\<close>

lemma all_reads:
  "reading d bufs s st rest \<Longrightarrow> list_all (\<lambda>g. g \<noteq> [] \<and> length g \<le> 1000) gots \<Longrightarrow>
   short_lines (rest @ concat gots) \<Longrightarrow> top (qheap s) + 1024 * length gots \<le> cap (qheap s) \<Longrightarrow>
   serve a (rest @ concat gots) st = (sd, st', []) \<Longrightarrow>
   \<exists>bufs' s'. io_loop (map (sends d a) gots) bufs s = ret (if sd then Shutdown else Continue, bufs', s') \<and> agree s' st'"
proof (induction gots arbitrary: bufs s st rest)
  case Nil
  have "memchr 10 rest = None" using Nil(1) by (simp add: reading_def)
  then have "serve a rest st = (False, st, rest)" by (simp add: serve.simps [of a rest])
  then have "(False, st, rest) = (sd, st', [])" using Nil(5) by (simp only: concat.simps list.map append_Nil2)
  then have "\<not> sd" "st' = st" by simp_all
  with Nil(1) show ?case by (auto simp: reading_def)
next
  case (Cons g gots)
  obtain sd1 st1 rest1 where sv: "serve a (rest @ g) st = (sd1, st1, rest1)" by (metis prod_cases3)
  have run: "running st" using Cons.prems(1) unfolding reading_def agree_def by blast
  have "10 \<notin> set rest" using Cons.prems(1) by (simp add: reading_def memchr_None_iff)
  moreover have "\<exists>q. rest @ concat (g # gots) = [] @ rest @ q" by simp
  ultimately have "length rest \<le> 24" using Cons.prems(3) unfolding short_lines_def by blast
  moreover have "g \<noteq> []" "length g \<le> 1000" "top (qheap s) + 1024 \<le> cap (qheap s)" using Cons.prems(2,4) by simp_all
  ultimately obtain bufs1 s1 where one: "io_loop (sends d a g # map (sends d a) gots) bufs s =
      (if sd1 then ret (Shutdown, bufs1, s1) else io_loop (map (sends d a) gots) bufs1 s1)" "agree s1 st1"
    "\<not> sd1 \<longrightarrow> reading d bufs1 s1 st1 rest1" "cap (qheap s1) = cap (qheap s)" "top (qheap s1) \<le> top (qheap s) + 1024"
    using one_read [OF Cons.prems(1) _ _ _ _ sv serve_running [OF run sv]] by blast
  have ch: "serve a ((rest @ g) @ concat gots) st = (if sd1 then (True, st1, rest1 @ concat gots)
      else serve a (rest1 @ concat gots) st1)"
    using serve_chunks [of a "rest @ g" "concat gots" st] sv by simp
  show ?case
  proof (cases sd1)
    case True
    then have "sd" "st' = st1" using ch Cons.prems(5) by simp_all
    with one True show ?thesis by auto
  next
    case False
    obtain p where "rest @ g = p @ rest1" using serve_suffix [OF sv] by blast
    then have "rest @ concat (g # gots) = p @ rest1 @ concat gots" by (metis append_assoc concat.simps(2))
    then have "short_lines (rest1 @ concat gots)" using Cons.prems(3) short_lines_suffix by metis
    moreover have "top (qheap s1) + 1024 * length gots \<le> cap (qheap s1)" using one(4,5) Cons.prems(4) by simp
    moreover have "serve a (rest1 @ concat gots) st1 = (sd, st', [])" using ch False Cons.prems(5) by simp
    ultimately show ?thesis using Cons.IH [of bufs1 s1 st1 rest1] one(1,3) False Cons.prems(2) by simp
  qed
qed

text \<open>The worker takes all messages out of the queue.\<close>

lemma take_all:
  "queue_of s q \<Longrightarrow> \<exists>s'. serve_ops (\<lambda>m. enqueue_message m (length m)) take_message (replicate (length q) (Inr ())) s = ret (q, s')"
proof (induction q arbitrary: s)
  case (Cons m q)
  from take_message_first [OF Cons.prems] obtain s1 where s1: "take_message s = ret (Some m, s1)" "queue_of s1 q" by blast
  from Cons.IH [OF s1(2)] s1(1) show ?case by auto
qed simp

section \<open>From sender to log\<close>

text \<open>
  Property C2. From sender to log. A client whose calls succeed connects to a fresh server and
  writes one message for each of its random numbers, and its end-of-execution message; however the network cuts this
  stream into reads of 1 to 1000 bytes, the loop of the server goes on when it expects more clients
  than one and shuts down when it expects one, provided that there is enough memory for the queue. What the
  worker then takes out of the queue to broadcast it makes a receiver, again however its reads cut it (none is empty, and each fits into its buffer),
  log one line for each message, in order, with the address and the port of the
  sender and the hexadecimal text of the random bytes, and ends it exactly when the server expected one
  client only.
\<close>

theorem chat_end_to_end:
  assumes rands: "list_all (\<lambda>bs. length bs = 10) rands"
    and ws: "sender_thread (map good_send rands) True = ret ws"
    and cut: "concat gots = concat ws" "list_all (\<lambda>g. g \<noteq> [] \<and> length g \<le> 1000) gots"
    and memory: "1024 * length gots \<le> m"
  shows "\<exists>bufs s q s'. io_loop (connects d (ip, port) # map (sends d (ip, port)) gots) init_slots (init_server m n)
        = ret (if n = 1 then Shutdown else Continue, bufs, s)
    \<and> serve_ops (\<lambda>m. enqueue_message m (length m)) take_message (replicate (length q) (Inr ())) s = ret (q, s')
    \<and> queue_of s q
    \<and> (\<forall>reads. concat reads = concat q \<and> reads_fit reads [] \<longrightarrow> receiver_thread (map Some reads) =
        (map (\<lambda>bs. \<lparr>l_ip = ip, l_port = ntohs port, l_text = hex_string bs\<rparr>) rands, n = 1))"
proof -
  let ?a = "(ip, port)"
  let ?fresh = "\<lparr>pending = [], finished = 0, expected = n, running = True\<rparr>"
  let ?frames = "map (\<lambda>bs. chat_frame ip port (hex_string bs)) rands"
  let ?st = "\<lparr>pending = ?frames @ (if n = 1 then [[1, 10]] else []), finished = 1, expected = n, running = n \<noteq> 1\<rparr>"
  define s1 where "s1 = (init_server m n)\<lparr>clients := [\<lparr>fd = d, addr = ?a\<rparr>]\<rparr>"
  define b1 where "b1 = init_slots[0 := (fst (init_slots ! 0), 0)]"
  have "ws = map sent_message rands @ [[1, 10]]" using ws sender_thread_good [OF rands] by simp
  then have w: "concat ws = concat (map sent_message rands) @ [1, 10]" by simp
  have start: "io_loop (connects d ?a # es) init_slots (init_server m n) = io_loop es b1 s1" for es
    by (simp add: connects_def io_round_def accept_client_def init_server_def MAX_CLIENTS_def Let_def s1_def b1_def)
  have "queue_of s1 []" by (simp add: queue_of_def init_server_def s1_def)
  then have "agree s1 ?fresh" by (simp add: agree_def s1_def init_server_def)
  moreover have "length (fst (b1 ! 0)) = 1024" "snd (b1 ! 0) = 0" "0 < length b1"
    by (simp_all add: b1_def init_slots_def MAX_CLIENTS_def MAX_MSG_SIZE_def)
  moreover have "map fd (clients s1) = [d]" "server_running s1" by (simp_all add: s1_def init_server_def)
  moreover have "memchr 10 ([] :: bytes) = None" by (simp add: memchr_None_iff)
  ultimately have "reading d b1 s1 ?fresh []" by (simp add: reading_def)
  moreover have "serve ?a (concat gots) ?fresh = (n = 1, ?st, [])"
    unfolding cut(1) w serve_sent_messages [OF rands] by (auto simp: serve_commit)
  moreover have "short_lines (concat gots)" using short_lines_sent [OF rands] w cut(1) by simp
  moreover have "top (qheap s1) + 1024 * length gots \<le> cap (qheap s1)"
    using memory by (simp add: s1_def init_server_def empty_store_def)
  ultimately obtain bufs s where run: "io_loop (map (sends d ?a) gots) b1 s1 =
      ret (if n = 1 then Shutdown else Continue, bufs, s)" "agree s ?st"
    using all_reads [of d b1 s1 ?fresh "[]" gots ?a "n = 1" ?st, unfolded append_Nil] cut(2) by blast
  let ?q = "?frames @ (if n = 1 then [[1, 10]] else [])"
  have q: "queue_of s ?q" using run(2) by (simp add: agree_def)
  have l: "line_of ip port (hex_string bs) = \<lparr>l_ip = ip, l_port = ntohs port, l_text = hex_string bs\<rparr>" for bs
    using hex_string_chars [of _ bs] by (simp add: line_of_def takeWhile_eq_all_conv)
  have e: "parse [] = ([], [], True)" "parse [1, 10] = ([], [1, 10], False)"
    by (simp_all add: parse.simps [of "[]"] parse.simps [of "[1, 10]"])
  have p: "parse (concat ?q) = (map (\<lambda>bs. \<lparr>l_ip = ip, l_port = ntohs port, l_text = hex_string bs\<rparr>) rands,
      if n = 1 then [1, 10] else [], n \<noteq> 1)"
    using parse_hex_frames [OF rands, of ip port] e unfolding l by simp
  have rc: "receiver_thread (map Some reads) =
      (map (\<lambda>bs. \<lparr>l_ip = ip, l_port = ntohs port, l_text = hex_string bs\<rparr>) rands, n = 1)"
    if "concat reads = concat ?q" "reads_fit reads []" for reads
    using receiver_reads [OF that(2) e(1)] p that(1) by (simp add: receiver_thread_def)
  from take_all [OF q] obtain s' where "serve_ops (\<lambda>m. enqueue_message m (length m)) take_message
      (replicate (length ?q) (Inr ())) s = ret (?q, s')" by blast
  then show ?thesis using run(1) q rc unfolding start by blast
qed

text \<open>One message, read in two pieces by the server.\<close>

theorem chat_end_to_end_witness:
  "\<exists>bufs s q. io_loop [connects 4 (16777343, 80), sends 4 (16777343, 80) [0],
      sends 4 (16777343, 80) (hex_string (replicate 10 255) @ [10, 1, 10])] init_slots (init_server 4096 1) = ret (Shutdown, bufs, s)
    \<and> queue_of s q
    \<and> (\<forall>reads. concat reads = concat q \<and> reads_fit reads [] \<longrightarrow> receiver_thread (map Some reads) =
        ([\<lparr>l_ip = 16777343, l_port = ntohs 80, l_text = hex_string (replicate 10 255)\<rparr>], True))"
proof -
  define bs :: bytes where "bs = replicate 10 255"
  have r: "list_all (\<lambda>bs. length bs = 10) [bs]" by (simp add: bs_def)
  from sender_thread_good [OF r] have ws: "sender_thread (map good_send [bs]) True = ret [sent_message bs, [1, 10]]" by simp
  have "length (hex_string bs) = 20" using r by (simp add: length_hex_string)
  then show ?thesis unfolding bs_def [symmetric]
    using chat_end_to_end [OF r ws, of "[[0], hex_string bs @ [10, 1, 10]]" 4096 4 16777343 80 1]
    by (auto simp: sent_message_def)
qed

section \<open>The client as a program\<close>

text \<open>Whether the calls of \<open>main\<close> in \<open>client.c\<close> succeed, and the \<open>fopen\<close> of the log.\<close>

record client_setup =
  socket_given :: bool
  address_ok :: bool
  connected :: bool
  threads_created :: bool
  log_opened :: bool

text \<open>What is written to the socket and to the log. A sender that \<open>main\<close> cancels because the
  receiver has ended is one whose list \<open>es\<close> is shorter.\<close>

definition main_client ::
  "bytes list \<Rightarrow> client_setup \<Rightarrow> send_env list \<Rightarrow> bool \<Rightarrow> bytes option list \<Rightarrow> (bytes list \<times> log_line list) run" where
  "main_client argv e es keep_running reads =
    (if length argv < 5 then exit_with 1
     else if \<not> socket_given e then exit_with 1
     else if \<not> address_ok e then exit_with 1
     else if \<not> connected e then exit_with 1
     else if \<not> threads_created e then exit_with 1
     else if \<not> log_opened e then exit_with 1
     else rbind (sender_thread (take (nat (atoi (argv ! 3))) es) keep_running) (\<lambda>ws.
       ret (ws, fst (receiver_thread reads))))"

definition client_ready :: client_setup where
  "client_ready = \<lparr>socket_given = True, address_ok = True, connected = True, threads_created = True, log_opened = True\<rparr>"

text \<open>Property C12. A client that is told to send \<open>n\<close> messages and whose calls succeed writes exactly \<open>n\<close>
  messages and the end of execution, and logs the lines of the stream it receives.\<close>

theorem main_client_sends:
  assumes "4 < length argv" "list_all (\<lambda>bs. length bs = 10) rands" "atoi (argv ! 3) \<le> int (length rands)"
    and "reads_fit rs []" "parse (concat rs) = (ls, rest, go)"
  shows "main_client argv client_ready (map good_send rands) True (map Some rs) =
    ret (map sent_message (take (nat (atoi (argv ! 3))) rands) @ [[1, 10]], ls)"
proof -
  have "list_all (\<lambda>bs. length bs = 10) (take (nat (atoi (argv ! 3))) rands)"
    using assms(2) by (auto simp: list_all_iff dest: in_set_takeD)
  from sender_thread_good [OF this] have "sender_thread (take (nat (atoi (argv ! 3))) (map good_send rands)) True =
      ret (map sent_message (take (nat (atoi (argv ! 3))) rands) @ [[1, 10]])" by (simp add: take_map)
  moreover have "fst (receiver_thread (map Some rs)) = ls"
    using receiver_reads [OF assms(4)] assms(5) by (simp add: receiver_thread_def parse.simps [of "[]"])
  ultimately show ?thesis using assms(1) by (simp add: main_client_def client_ready_def)
qed

theorem main_client_sends_witness:
  "main_client [[99], [49], [56], [49], [108]] client_ready (map good_send [replicate 10 255, replicate 10 0]) True [Some [1, 10]] =
    ret ([sent_message (replicate 10 255), [1, 10]], [])"
proof -
  have "atoi ([[99], [49], [56], [49], [108]] ! 3) = 1"
    by (simp add: atoi_def scan_number_def isspace_def isdigit_def clamp_long_def int_of_long_def)
  moreover have "reads_fit [[1, 10]] []" "parse (concat [[1, 10]]) = ([], [1, 10], False)"
    by (simp_all add: parse.simps [of "[1, 10]"])
  ultimately show ?thesis
    using main_client_sends [of "[[99], [49], [56], [49], [108]]" "[replicate 10 255, replicate 10 0]" "[[1, 10]]" "[]" "[1, 10]" False]
    by simp
qed

end
