(* ===== verification/Spec2Isabelle.thy ===== *)
theory Spec2Isabelle
  imports UtHash_Sort32 Lab3 Lab4 Lab9 Lecture_List Map_Reduce_Data_Pass Lab8 Lab7 Alloc2 Lab_Server Shell_Correct Shell2_Rounds Sigtest Sorted_List Lab5 Alloc_Tests3 Alloc_Demo Lecture_Threads Lab11 Processes Lab1 Sockets Shared_Memory Chat_Main Chat_Threaded_Scenarios Chat_End_To_End
begin

text \<open>
  A verification development of the C programs of a course on systems programming: a library of linked
  lists, two heap allocators, a chat server in two versions with its client, a map-reduce framework over
  \<open>uthash.h\<close>, three shells, and the programs of the labs. All paths below are relative to \<open>src/\<close>.

  \<^bold>\<open>How C is modelled.\<close> \<open>Base\<close> has the types (an \<open>int\<close> is a 32-bit word, a byte an 8-bit word) and the
  result type \<open>'a run\<close> of every function that can loop, exit or reach undefined behaviour: \<open>None\<close> is a
  call that never returns, otherwise the result is \<open>Ret\<close>, \<open>Exit\<close> or \<open>Fault\<close>. Loops that need an argument
  for their termination are \<open>partial_function (option)\<close> or \<open>fun\<close> with a measure; no definition has fuel, so that a
  theorem that a call returns says so for the code. \<open>Node_Store\<close> is the heap for linked structures (a
  pointer is a number, \<open>malloc\<close> can fail, a freed node cannot be reached), with the theory of chains
  of nodes; \<open>Byte_Memory\<close> is the memory of the allocators, bytes at 64-bit addresses. \<open>C_Strings\<close> has
  the functions of \<open>string.h\<close> and the conversion of numbers: \<open>strtol\<close> and \<open>scanf\<close> stop at the bounds of a
  \<open>long\<close>, and \<open>atoi\<close> and \<open>%d\<close> cut that to an \<open>int\<close>, as glibc does. A signed counter or product that leaves the range
  of \<open>int\<close>, where the size of the input does not exclude it, is the fault \<open>Overflow\<close>. What the operating system, the network, \<open>read\<close>, \<open>malloc\<close> or the random
  generator deliver is an argument of the definitions; threads are steps, or schedules that
  say whose step comes next, and the theorems hold for all of them.

  \<^bold>\<open>Allocators\<close> (\<open>lecture/test2\<close>).
  \<^item> \<open>Fit_Policy\<close>: first, best and worst fit on lists and the contract \<open>fit_policy\<close>, interpreted on the
    three searches and on the policy that an allocator dispatches to. \<open>Lab5\<close> is \<open>lab/lab5.c\<close>, whose three
    functions are shown to compute them.
  \<^item> \<open>Free_List\<close>: blocks in memory, and merging of adjacent blocks on lists.
  \<^item> \<open>Alloc\<close> is \<open>alloc.c\<close>, function by function. \<open>Alloc_Coalesce\<close> shows that its loops end and refine the
    lists; \<open>Alloc_Ops\<close> has \<open>dealloc\<close>, \<open>allocinfo\<close> and allocation from the free list; \<open>Alloc_Bump\<close> has
    allocation at the break: for every request either the invariant \<open>arena\<close> is kept, or \<open>NULL\<close> is returned, or the
    arena is lost in one of four ways. The defects (no fit, exact fit, the limit) are theorems too.
  \<^item> \<open>Alloc2\<close> is \<open>alloc2.c\<close>, which allocates like \<open>alloc.c\<close> and does not merge like it.
  \<^item> \<open>Alloc_Tests\<close> is the test program \<open>main2.c\<close>; \<open>Alloc_Tests_Heap\<close>, \<open>Alloc_Tests_Grow\<close> and
    \<open>Alloc_Tests_Pass\<close> show that all its 246 tests pass.
  \<^item> \<open>Alloc_Tests3\<close> is \<open>main3.c\<close>, the same tests without titles, and its equivalence with \<open>main2.c\<close>;
    \<open>Alloc_Demo\<close> is the small program \<open>main.c\<close>.

  \<^bold>\<open>Chat\<close> (\<open>lecture/test4\<close>).
  \<^item> \<open>Msg_Queue\<close>: the linked queue of broadcasts. The locale \<open>fifo\<close> (and \<open>lossy_fifo\<close>, for a queue that
    loses the messages there is no memory for, and no others) is interpreted on the queue of both servers.
  \<^item> \<open>Chat_Server\<close> is \<open>server.c\<close>. \<open>Chat_Protocol\<close> says what a server makes of the stream of a client and shows
    that \<open>handle_message\<close> and its loop implement it; \<open>Chat_Loop\<close> treats the table of clients and the
    \<open>select\<close> loop, \<open>Chat_Main\<close> the program from its arguments to its exit, or to the \<open>pthread_join\<close> that never returns, \<open>Chat_Threads\<close> the main thread and the
    broadcast thread as a step relation: order, locking, deadlock, loss of the last message.
  \<^item> \<open>Chat_Threaded\<close> is \<open>servertest.c\<close>, with a thread for each client; \<open>Chat_Threaded_System\<close> is the whole
    program as a transition system, \<open>Chat_Threaded_Scenarios\<close> has executions that show its defects.
  \<^item> \<open>Chat_Client\<close> is \<open>client.c\<close>; \<open>Chat_End_To_End\<close> puts client and server together: the sender thread, the
    \<open>select\<close> loop of the server from its start, its queue, and the receiver thread with its buffer.
  \<^item> In \<open>Chat_Threads\<close> the condition variable is the condition waited for and the queue is a list to which \<open>malloc\<close>
    always lets the message be added (\<open>Msg_Queue\<close> and \<open>Chat_Main\<close> treat a failing \<open>malloc\<close>, \<open>join_worker\<close> a missed
    signal).

  \<^bold>\<open>Map-reduce\<close> (\<open>lecture/test3/src\<close>).
  \<^item> \<open>UtHash\<close> models the macros of \<open>uthash.h\<close> that the framework uses: the Jenkins hash on words, buckets with
    chains, expansion, deletion, sort. \<open>UtHash_Sort\<close> proves the merge sort for every comparison that
    satisfies the locale \<open>comparison\<close>, \<open>UtHash_Table\<close> the invariant of the table and the contract
    \<open>keyed_table\<close>, \<open>UtHash_Sort32\<close> the sort with the unsigned counters of the
    source, \<open>UtHash_First\<close> when a table stays at its first 32 buckets. \<open>Hash_Objects\<close> is the idiom
    of the clients: a table of pointers to objects. \<open>Hash_Values\<close> evaluates the hash of short keys.
  \<^item> \<open>Map_Reduce\<close> is \<open>interface.c\<close>. \<open>Grouping\<close> is the specification; \<open>Map_Reduce_Phases\<close>, \<open>Map_Reduce_Emit\<close>,
    \<open>Map_Reduce_Final\<close> and \<open>Map_Reduce_Exec\<close> show that \<open>mr_exec\<close> computes it for every schedule. In C, a table
    that expands too often shifts by 32; \<open>overfull\<close> is the condition under which this can happen.
  \<^item> \<open>Map_Reduce_Tests\<close> is the word count of \<open>map_and_reduce.c\<close>, \<open>Map_Reduce_Calls\<close>, \<open>Map_Reduce_Suite\<close> and
    \<open>Map_Reduce_Reducers\<close> are the other tests, \<open>Map_Reduce_Main\<close> is \<open>main.c\<close> and \<open>free_output.c\<close>. \<open>Map_Reduce_Data\<close>
    has the tables of the word count; \<open>Map_Reduce_Data_Pass\<close> shows that the program passes on them.
  \<^item> \<open>Lab8\<close> and \<open>Lab7\<close> are the word count and the grouping of the labs (\<open>lab/lab8.c\<close>, \<open>lab/lab7.c\<close>); in \<open>Lab7\<close> the
    doubling of a large number is undefined.

  \<^bold>\<open>Shells\<close> (\<open>lecture/test\<close>). \<open>Shell_Base\<close> has what they share and the contract \<open>history\<close>, interpreted on
  both histories. \<open>Shell\<close> and \<open>Shell_Correct\<close> are \<open>test.c\<close>; \<open>Shell2\<close>, \<open>Shell2_Correct\<close> and \<open>Shell2_Rounds\<close>
  are \<open>test2.c\<close>, with the history related to the commands entered; \<open>Sigtest\<close> is \<open>sigtest.c\<close>. Both take at most the bytes that
  their \<open>read\<close> asks for.

  \<^bold>\<open>Labs and lectures.\<close> \<open>Sorted_List\<close> is \<open>lab/lab6.c\<close> and \<open>lab/Lab6/example_2.c\<close>, \<open>Lab3\<close> is \<open>lab/lab3.c\<close>, \<open>Lab4\<close>
  is \<open>lab/lab4.c\<close>, \<open>Lab9\<close> is the pair of programs of \<open>lab/lab9.c\<close>
  (its threads interleave between reading, printing, counting and printing the total), \<open>Lab_Server\<close> is \<open>lab/server.c\<close>,
  \<open>Lecture_List\<close> is \<open>lecture/List.c\<close>.
  \<open>Lecture_Threads\<close> has \<open>lecture/deadlock.c\<close> and \<open>thread.c\<close>, \<open>Processes\<close> has \<open>lecture/wait.c\<close>, \<open>pipe.c\<close> and
  \<open>lab/lab2.c\<close>, \<open>Sockets\<close> the stream and datagram programs of \<open>lecture\<close>, \<open>Shared_Memory\<close> the programs that map
  memory, \<open>Lab1\<close> is \<open>lab/lab1.c\<close>, and \<open>Lab11\<close> is \<open>lab/lab11.c\<close> with OpenSSL as a parameter.

  \<^bold>\<open>Not modelled.\<close>
  \<^item> Set-up calls whose result only decides whether the program goes on are arguments that say
    whether they succeed; text printed to a terminal is modelled where the output is the result of the
    program, otherwise not.
  \<^item> The macros of \<open>uthash.h\<close> that no program of the repository uses (other key types, \<open>HASH_SELECT\<close>,
    Bloom filters, the other hash functions), which is third-party code.
  \<^item> Short demonstrations of one system call without state of their own (\<open>file.c\<close>, \<open>stat.c\<close>,
    \<open>signal.c\<close>, \<open>sleep.c\<close> and \<open>02-process/hello.c\<close> of \<open>lecture\<close>), and the probe that CMake generates (\<open>CMakeCCompilerId.c\<close>). \<open>lab/Lab6/example_1.c\<close> is a copy of the first
    program of \<open>lab6.c\<close>. Code inside comments (the second half of \<open>interface.c\<close>) is not compiled.
\<close>

end
